(* ===== verification/Prelude.thy ===== *)
theory Prelude
  imports Main "HOL-Library.Word"
begin

text \<open>
  Shared vocabulary of the development: the C integer types as fixed-width words, the result
  type of kernel functions (a value, a panic, C undefined behaviour, or going to sleep), its
  sequencing operation, and generic lemmas on words, function updates and lists that the
  components use through the simpset and the collections declared here.
\<close>

named_theorems res_simps "equations that run a sequence of kernel calls"
named_theorems mem_simps "reads after writes in byte memory"

unbundle bit_operations_syntax

section \<open>C integer types (kernel/types.h)\<close>

type_synonym u8 = "8 word"
type_synonym u16 = "16 word"
type_synonym u32 = "32 word"
type_synonym u64 = "64 word"

text \<open>Byte-addressed memory; the C \<open>char\<close> array behind a pointer.\<close>

type_synonym bytemem = "u64 \<Rightarrow> u8"

section \<open>Results of kernel functions\<close>

text \<open>
  A kernel function returns, stops in \<open>panic\<close>, runs into behaviour C leaves undefined (a null
  or out-of-range access), goes to sleep on a channel, or loops for ever.
\<close>

datatype stop = Panic string | Undefined | Sleeping | Looping

datatype 'a res = Ok 'a | Fail stop

primrec andthen :: "'a res \<Rightarrow> ('a \<Rightarrow> 'b res) \<Rightarrow> 'b res" where
  "andthen (Ok x) f = f x"
| "andthen (Fail e) f = Fail e"

definition is_ok :: "'a res \<Rightarrow> bool" where
  "is_ok r = (case r of Ok _ \<Rightarrow> True | Fail _ \<Rightarrow> False)"

lemma is_ok_simps [simp]: "is_ok (Ok x)" "\<not> is_ok (Fail e)"
  by (simp_all add: is_ok_def)

lemma andthen_cong [fundef_cong]:
  "\<lbrakk>x = y; \<And>v. y = Ok v \<Longrightarrow> f v = g v\<rbrakk> \<Longrightarrow> andthen x f = andthen y g"
  by (cases y) simp_all

lemma andthen_assoc: "andthen (andthen m f) g = andthen m (\<lambda>x. andthen (f x) g)"
  by (cases m) simp_all

lemma andthen_Ok_right [simp]: "andthen m Ok = m"
  by (cases m) simp_all

lemma andthen_eq_Ok: "andthen m f = Ok y \<longleftrightarrow> (\<exists>x. m = Ok x \<and> f x = Ok y)"
  by (cases m) simp_all

lemma andthen_OkE:
  assumes "andthen m f = Ok y"
  obtains x where "m = Ok x" and "f x = Ok y"
  using assms by (auto simp: andthen_eq_Ok)

declare andthen.simps [res_simps]

text \<open>
  What holds of the result when a call returns: \<open>okp P r\<close>.  The rules for sequences take the
  intermediate condition \<open>J\<close> on the state, for calls that return the state alone, or with one or
  two more results.
\<close>

definition okp :: "('a \<Rightarrow> bool) \<Rightarrow> 'a res \<Rightarrow> bool" where
  "okp P r \<longleftrightarrow> (\<forall>x. r = Ok x \<longrightarrow> P x)"

lemma okp_simps [simp]: "okp P (Ok x) = P x" "okp P (Fail e)"
  by (simp_all add: okp_def)

lemma okpD: "\<lbrakk>okp P r; r = Ok x\<rbrakk> \<Longrightarrow> P x"
  by (simp add: okp_def)

lemma okpI: "(\<And>x. r = Ok x \<Longrightarrow> P x) \<Longrightarrow> okp P r"
  by (simp add: okp_def)

lemma okp_mono: "\<lbrakk>okp P r; \<And>x. P x \<Longrightarrow> Q x\<rbrakk> \<Longrightarrow> okp Q r"
  by (simp add: okp_def)

lemma okp_bind1: "\<lbrakk>okp J m; \<And>t. J t \<Longrightarrow> okp P (f t)\<rbrakk> \<Longrightarrow> okp P (andthen m f)"
  by (cases m) simp_all

lemma okp_bind2: "\<lbrakk>okp (\<lambda>(x, t). J t) m; \<And>x t. J t \<Longrightarrow> okp P (f (x, t))\<rbrakk> \<Longrightarrow> okp P (andthen m f)"
  by (cases m) auto

lemma okp_bind3: "\<lbrakk>okp (\<lambda>(x, y, t). J t) m; \<And>x y t. J t \<Longrightarrow> okp P (f (x, y, t))\<rbrakk> \<Longrightarrow> okp P (andthen m f)"
  by (cases m) auto

lemma okp_res: "(\<And>x. m = Ok x \<Longrightarrow> okp P (f x)) \<Longrightarrow> okp P (andthen m f)"
  by (cases m) simp_all

lemma okp_if: "\<lbrakk>c \<Longrightarrow> okp P a; \<not> c \<Longrightarrow> okp P b\<rbrakk> \<Longrightarrow> okp P (if c then a else b)"
  by simp

lemma okp_option: "\<lbrakk>x = None \<Longrightarrow> okp P a; \<And>y. x = Some y \<Longrightarrow> okp P (f y)\<rbrakk> \<Longrightarrow> okp P (case x of None \<Rightarrow> a | Some y \<Rightarrow> f y)"
  by (simp split: option.split)

lemma okp_prod: "(\<And>a b. x = (a, b) \<Longrightarrow> okp P (f a b)) \<Longrightarrow> okp P (case x of (a, b) \<Rightarrow> f a b)"
  by (simp split: prod.split)

lemma okp_let: "okp P (f x) \<Longrightarrow> okp P (let y = x in f y)"
  by simp

lemmas okp_struct = okp_if okp_option okp_prod okp_let

section \<open>Words\<close>

lemma unat_u32_bound: "unat (n :: u32) < 2 ^ 32"
  using unsigned_less [of n] by simp

lemma unat_u64_bound: "unat (n :: u64) < 2 ^ 64"
  using unsigned_less [of n] by simp

lemma unat_of_nat_u64: "n < 2 ^ 64 \<Longrightarrow> unat (of_nat n :: u64) = n"
  by (simp add: unat_of_nat take_bit_nat_eq_self)

lemma of_nat_u64_inj:
  "\<lbrakk>i < 2 ^ 64; j < 2 ^ 64; (of_nat i :: u64) = of_nat j\<rbrakk> \<Longrightarrow> i = j"
  using unat_of_nat_u64 by metis

lemma of_nat_u64_eq_iff:
  "\<lbrakk>i < 2 ^ 64; j < 2 ^ 64\<rbrakk> \<Longrightarrow> (of_nat i :: u64) = of_nat j \<longleftrightarrow> i = j"
  using of_nat_u64_inj by blast

section \<open>Function updates and lists\<close>

lemma fun_upd_False_idem: "\<not> f x \<Longrightarrow> f(x := False) = f"
  by (simp add: fun_eq_iff)

lemma nth_list_update_if:
  "i < length xs \<Longrightarrow> (xs[i := x]) ! j = (if i = j then x else xs ! j)"
  by (simp add: nth_list_update)

lemma take_Suc_snoc: "n < length xs \<Longrightarrow> take (Suc n) xs = take n xs @ [xs ! n]"
  by (rule take_Suc_conv_app_nth)

lemma sint_of_nat_u32: "n < 2 ^ 31 \<Longrightarrow> sint (of_nat n :: u32) = int n"
  by (simp add: signed_of_nat signed_take_bit_int_eq_self)

end
