(* ===== verification/Spinlock.thy ===== *)
theory Spinlock
  imports Prelude
begin

text \<open>
  \<open>kernel/spinlock.c\<close> with any number of harts running it at once.  A step is one access to
  shared memory: the atomic swap that takes a lock, the read of each field by \<open>holding\<close>, the
  writes of \<open>lk->cpu\<close> and the atomic store that releases.  Between calls a hart is in the kernel
  code that uses the locks, which may call \<open>acquire\<close>, \<open>release\<close>, \<open>push_off\<close> and a matching
  \<open>pop_off\<close>, or turn interrupts on when no \<open>push_off\<close> is outstanding.  The theory shows mutual
  exclusion, that a hart that holds or waits for a lock has interrupts off, and which misuse makes
  \<open>acquire\<close> and \<open>release\<close> panic; it justifies the one-hart view of theory Kstate.
\<close>

section \<open>Locks and harts\<close>

text \<open>\<open>struct spinlock\<close> without its name; \<open>struct cpu\<close>'s interrupt fields and the \<open>SIE\<close> bit.\<close>

record spinlock =
  sp_locked :: bool
  sp_cpu :: "nat option"

record intr =
  noff :: int
  intena :: bool
  sie :: bool

definition initlock :: "spinlock \<Rightarrow> spinlock" where
  "initlock lk = lk\<lparr>sp_locked := False, sp_cpu := None\<rparr>"

definition holding :: "nat \<Rightarrow> spinlock \<Rightarrow> bool" where
  "holding me lk \<longleftrightarrow> sp_locked lk \<and> sp_cpu lk = Some me"

definition push_off :: "intr \<Rightarrow> intr" where
  "push_off h =
     (let old = sie h; h = h\<lparr>sie := False\<rparr>;
          h = (if noff h = 0 then h\<lparr>intena := old\<rparr> else h)
      in h\<lparr>noff := noff h + 1\<rparr>)"

definition pop_off :: "intr \<Rightarrow> intr res" where
  "pop_off h =
     (if sie h then Fail (Panic ''pop_off - interruptible'')
      else if noff h < 1 then Fail (Panic ''pop_off'')
      else let h = h\<lparr>noff := noff h - 1\<rparr> in
        Ok (if noff h = 0 \<and> intena h then h\<lparr>sie := True\<rparr> else h))"

text \<open>
  Where a hart is inside \<open>acquire(l)\<close> or \<open>release(l)\<close>, named by the access to shared memory it
  does next; \<open>Run\<close> is outside.
\<close>

datatype lpc =
    Run
  | AcqLocked nat \<comment> \<open>\<open>holding\<close> reads \<open>lk->locked\<close>\<close>
  | AcqCpu nat    \<comment> \<open>\<open>holding\<close> reads \<open>lk->cpu\<close>\<close>
  | AcqSpin nat   \<comment> \<open>atomic swap of \<open>lk->locked\<close>\<close>
  | AcqRecord nat \<comment> \<open>write \<open>lk->cpu\<close>\<close>
  | RelLocked nat
  | RelCpu nat
  | RelClear nat  \<comment> \<open>write \<open>lk->cpu\<close>\<close>
  | RelStore nat  \<comment> \<open>atomic store of \<open>lk->locked\<close>\<close>
  | RelPop        \<comment> \<open>\<open>pop_off\<close>\<close>
  | Panicked string

text \<open>\<open>depth\<close> counts the \<open>push_off\<close> calls of the code between lock operations.\<close>

record sys =
  slocks :: "nat \<Rightarrow> spinlock"
  intrs :: "nat \<Rightarrow> intr"
  pcs :: "nat \<Rightarrow> lpc"
  depth :: "nat \<Rightarrow> nat"

definition set_pc :: "nat \<Rightarrow> lpc \<Rightarrow> sys \<Rightarrow> sys" where
  "set_pc i p s = s\<lparr>pcs := (pcs s)(i := p)\<rparr>"

definition set_lock :: "nat \<Rightarrow> spinlock \<Rightarrow> sys \<Rightarrow> sys" where
  "set_lock l k s = s\<lparr>slocks := (slocks s)(l := k)\<rparr>"

definition set_intr :: "nat \<Rightarrow> intr \<Rightarrow> sys \<Rightarrow> sys" where
  "set_intr i h s = s\<lparr>intrs := (intrs s)(i := h)\<rparr>"

text \<open>One step of hart \<open>i\<close> inside \<open>acquire\<close> or \<open>release\<close>.\<close>

definition lock_step :: "nat \<Rightarrow> sys \<Rightarrow> sys" where
  "lock_step i s =
     (case pcs s i of
        Run \<Rightarrow> s
      | AcqLocked l \<Rightarrow> set_pc i (if sp_locked (slocks s l) then AcqCpu l else AcqSpin l) s
      | AcqCpu l \<Rightarrow> set_pc i (if sp_cpu (slocks s l) = Some i then Panicked ''acquire'' else AcqSpin l) s
      | AcqSpin l \<Rightarrow>
          (let old = sp_locked (slocks s l); s = set_lock l ((slocks s l)\<lparr>sp_locked := True\<rparr>) s in
           if old then s else set_pc i (AcqRecord l) s)
      | AcqRecord l \<Rightarrow> set_pc i Run (set_lock l ((slocks s l)\<lparr>sp_cpu := Some i\<rparr>) s)
      | RelLocked l \<Rightarrow> set_pc i (if sp_locked (slocks s l) then RelCpu l else Panicked ''release'') s
      | RelCpu l \<Rightarrow> set_pc i (if sp_cpu (slocks s l) = Some i then RelClear l else Panicked ''release'') s
      | RelClear l \<Rightarrow> set_pc i (RelStore l) (set_lock l ((slocks s l)\<lparr>sp_cpu := None\<rparr>) s)
      | RelStore l \<Rightarrow> set_pc i RelPop (set_lock l ((slocks s l)\<lparr>sp_locked := False\<rparr>) s)
      | RelPop \<Rightarrow>
          (case pop_off (intrs s i) of
             Ok h \<Rightarrow> set_pc i Run (set_intr i h s)
           | Fail (Panic m) \<Rightarrow> set_pc i (Panicked m) s
           | Fail _ \<Rightarrow> s)
      | Panicked m \<Rightarrow> s)"

inductive sys_step :: "sys \<Rightarrow> sys \<Rightarrow> bool" where
  inside: "pcs s i \<noteq> Run \<Longrightarrow> sys_step s (lock_step i s)"
| call_acquire: "pcs s i = Run \<Longrightarrow>
    sys_step s (set_pc i (AcqLocked l) (set_intr i (push_off (intrs s i)) s))"
| call_release: "pcs s i = Run \<Longrightarrow> sys_step s (set_pc i (RelLocked l) s)"
| call_push_off: "pcs s i = Run \<Longrightarrow>
    sys_step s ((set_intr i (push_off (intrs s i)) s)\<lparr>depth := (depth s)(i := Suc (depth s i))\<rparr>)"
| call_pop_off: "\<lbrakk>pcs s i = Run; depth s i = Suc d; pop_off (intrs s i) = Ok h\<rbrakk> \<Longrightarrow>
    sys_step s ((set_intr i h s)\<lparr>depth := (depth s)(i := d)\<rparr>)"
| pop_off_panics: "\<lbrakk>pcs s i = Run; depth s i = Suc d; pop_off (intrs s i) = Fail (Panic m)\<rbrakk> \<Longrightarrow>
    sys_step s (set_pc i (Panicked m) s)"
| intr_on: "\<lbrakk>pcs s i = Run; noff (intrs s i) = 0\<rbrakk> \<Longrightarrow>
    sys_step s (set_intr i ((intrs s i)\<lparr>sie := True\<rparr>) s)"
| intr_off: "pcs s i = Run \<Longrightarrow> sys_step s (set_intr i ((intrs s i)\<lparr>sie := False\<rparr>) s)"

inductive_cases sys_stepE: "sys_step s t"

text \<open>At boot every lock is free, every hart is outside with interrupts off.\<close>

definition sys_boot :: sys where
  "sys_boot = \<lparr>slocks = (\<lambda>_. \<lparr>sp_locked = False, sp_cpu = None\<rparr>),
     intrs = (\<lambda>_. \<lparr>noff = 0, intena = False, sie = False\<rparr>), pcs = (\<lambda>_. Run), depth = (\<lambda>_. 0)\<rparr>"

inductive sys_reach :: "sys \<Rightarrow> bool" where
  boot: "sys_reach sys_boot"
| step: "\<lbrakk>sys_reach s; sys_step s t\<rbrakk> \<Longrightarrow> sys_reach t"

section \<open>Ownership\<close>

text \<open>
  A hart owns a lock from the successful swap to the releasing store; \<open>lk->cpu\<close> names it for the
  part of that time that lies between \<open>acquire\<close> and \<open>release\<close>.
\<close>

definition owns :: "sys \<Rightarrow> nat \<Rightarrow> nat \<Rightarrow> bool" where
  "owns s i l \<longleftrightarrow> sp_cpu (slocks s l) = Some i \<or> pcs s i = AcqRecord l \<or> pcs s i = RelStore l"

definition lock_inv :: "sys \<Rightarrow> bool" where
  "lock_inv s \<longleftrightarrow>
     (\<forall>l. sp_locked (slocks s l) \<longleftrightarrow> (\<exists>i. owns s i l)) \<and>
     (\<forall>l i j. owns s i l \<and> owns s j l \<longrightarrow> i = j) \<and>
     (\<forall>l i. pcs s i = AcqRecord l \<or> pcs s i = RelStore l \<longrightarrow> sp_cpu (slocks s l) = None) \<and>
     (\<forall>l i. pcs s i = RelClear l \<longrightarrow> sp_cpu (slocks s l) = Some i)"

lemmas sys_upd_defs = set_pc_def set_lock_def set_intr_def

lemma lock_inv_boot: "lock_inv sys_boot"
  by (simp add: lock_inv_def owns_def sys_boot_def)


lemma lock_invD:
  assumes "lock_inv s"
  shows "sp_locked (slocks s l) \<longleftrightarrow> (\<exists>i. owns s i l)"
    "\<lbrakk>owns s i l; owns s j l\<rbrakk> \<Longrightarrow> i = j"
    "pcs s i = AcqRecord l \<Longrightarrow> sp_cpu (slocks s l) = None"
    "pcs s i = RelStore l \<Longrightarrow> sp_cpu (slocks s l) = None"
    "pcs s i = RelClear l \<Longrightarrow> sp_cpu (slocks s l) = Some i"
  using assms unfolding lock_inv_def by blast+

text \<open>A step that leaves the locks alone and moves a hart between program points that own nothing.\<close>

definition plain :: "lpc \<Rightarrow> bool" where
  "plain p \<longleftrightarrow> (case p of AcqRecord _ \<Rightarrow> False | RelStore _ \<Rightarrow> False | RelClear _ \<Rightarrow> False | _ \<Rightarrow> True)"

lemma plainD [simp]: "plain p \<Longrightarrow> p \<noteq> AcqRecord l" "plain p \<Longrightarrow> p \<noteq> RelStore l" "plain p \<Longrightarrow> p \<noteq> RelClear l"
  by (auto simp: plain_def)

lemma lock_inv_plain:
  assumes "lock_inv s" "slocks t = slocks s" "pcs t = (pcs s)(i := p)" "plain (pcs s i)" "plain p"
  shows "lock_inv t" "owns t j l = owns s j l"
proof -
  show o: "owns t j l = owns s j l" for j l
    using assms(2-5) by (auto simp: owns_def)
  show "lock_inv t"
    using assms unfolding lock_inv_def o by auto
qed

lemma lock_inv_take:
  assumes "lock_inv s" "pcs s i = AcqSpin l" "\<not> sp_locked (slocks s l)"
  shows "lock_inv (lock_step i s)" "owns (lock_step i s) j m = (owns s j m \<or> j = i \<and> m = l)"
proof -
  have free: "\<not> owns s j l" for j using lock_invD(1) [OF assms(1)] assms(3) by blast
  then have cpu: "sp_cpu (slocks s l) = None"
    by (cases "sp_cpu (slocks s l)") (auto simp: owns_def)
  have step: "lock_step i s = set_pc i (AcqRecord l) (set_lock l ((slocks s l)\<lparr>sp_locked := True\<rparr>) s)"
    using assms(2,3) by (simp add: lock_step_def Let_def)
  show o: "owns (lock_step i s) j m = (owns s j m \<or> j = i \<and> m = l)" for j m
    unfolding step using assms(2) by (auto simp: owns_def sys_upd_defs)
  show "lock_inv (lock_step i s)"
    unfolding lock_inv_def o
    using assms(1) free cpu by (auto simp: lock_inv_def step sys_upd_defs)
qed

lemma lock_inv_record:
  assumes "lock_inv s" "pcs s i = AcqRecord l"
  shows "lock_inv (lock_step i s)" "owns (lock_step i s) j m = owns s j m"
proof -
  have own: "owns s i l" using assms(2) by (simp add: owns_def)
  have cpu: "sp_cpu (slocks s l) = None" by (rule lock_invD(3) [OF assms])
  have step: "lock_step i s = set_pc i Run (set_lock l ((slocks s l)\<lparr>sp_cpu := Some i\<rparr>) s)"
    using assms(2) by (simp add: lock_step_def)
  show o: "owns (lock_step i s) j m = owns s j m" for j m
    unfolding step using assms(2) cpu by (auto simp: owns_def sys_upd_defs)
  have other: "pcs s j \<noteq> AcqRecord l \<and> pcs s j \<noteq> RelStore l \<and> pcs s j \<noteq> RelClear l" if "j \<noteq> i" for j
    using lock_invD(2) [OF assms(1) own, of j] lock_invD(5) [OF assms(1), of j l] that cpu
    by (auto simp: owns_def)
  show "lock_inv (lock_step i s)"
    unfolding lock_inv_def o
    using assms other by (auto simp: lock_inv_def step sys_upd_defs)
qed

lemma lock_inv_clear:
  assumes "lock_inv s" "pcs s i = RelClear l"
  shows "lock_inv (lock_step i s)" "owns (lock_step i s) j m = owns s j m"
proof -
  have cpu: "sp_cpu (slocks s l) = Some i" by (rule lock_invD(5) [OF assms])
  then have own: "owns s i l" by (simp add: owns_def)
  have step: "lock_step i s = set_pc i (RelStore l) (set_lock l ((slocks s l)\<lparr>sp_cpu := None\<rparr>) s)"
    using assms(2) by (simp add: lock_step_def)
  show o: "owns (lock_step i s) j m = owns s j m" for j m
    unfolding step using assms(2) cpu by (auto simp: owns_def sys_upd_defs)
  have other: "pcs s j \<noteq> RelClear l" if "j \<noteq> i" for j
    using lock_invD(5) [OF assms(1), of j l] that cpu by auto
  show "lock_inv (lock_step i s)"
    unfolding lock_inv_def o
    using assms other cpu by (auto simp: lock_inv_def step sys_upd_defs)
qed

lemma lock_inv_store:
  assumes "lock_inv s" "pcs s i = RelStore l"
  shows "lock_inv (lock_step i s)" "owns (lock_step i s) j m = (owns s j m \<and> \<not> (j = i \<and> m = l))"
proof -
  have cpu: "sp_cpu (slocks s l) = None" by (rule lock_invD(4) [OF assms])
  have own: "owns s i l" using assms(2) by (simp add: owns_def)
  have step: "lock_step i s = set_pc i RelPop (set_lock l ((slocks s l)\<lparr>sp_locked := False\<rparr>) s)"
    using assms(2) by (simp add: lock_step_def)
  show o: "owns (lock_step i s) j m = (owns s j m \<and> \<not> (j = i \<and> m = l))" for j m
    unfolding step using assms(2) cpu by (auto simp: owns_def sys_upd_defs)
  have only: "owns s j l \<longleftrightarrow> j = i" for j
    using lock_invD(2) [OF assms(1) own] own by blast
  have rc: "pcs s j \<noteq> RelClear l" for j
    using lock_invD(5) [OF assms(1), of j l] cpu by auto
  have pcs': "pcs (lock_step i s) = (pcs s)(i := RelPop)"
    and sl: "sp_locked (slocks (lock_step i s) m) \<longleftrightarrow> m \<noteq> l \<and> sp_locked (slocks s m)"
    and sc: "sp_cpu (slocks (lock_step i s) m) = sp_cpu (slocks s m)" for m
    by (simp_all add: step sys_upd_defs)
  show "lock_inv (lock_step i s)"
    unfolding lock_inv_def o pcs' sl sc
  proof (intro conjI allI impI)
    fix m show "(m \<noteq> l \<and> sp_locked (slocks s m)) = (\<exists>j. owns s j m \<and> \<not> (j = i \<and> m = l))"
      using lock_invD(1) [OF assms(1), of m] only by (cases "m = l") auto
  next
    fix m j k assume "(owns s j m \<and> \<not> (j = i \<and> m = l)) \<and> owns s k m \<and> \<not> (k = i \<and> m = l)"
    then show "j = k" using lock_invD(2) [OF assms(1), of j m k] by blast
  next
    fix m j assume "((pcs s)(i := RelPop)) j = AcqRecord m \<or> ((pcs s)(i := RelPop)) j = RelStore m"
    then show "sp_cpu (slocks s m) = None"
      using lock_invD(3,4) [OF assms(1), of j m] by (auto split: if_splits)
  next
    fix m j assume "((pcs s)(i := RelPop)) j = RelClear m"
    then show "sp_cpu (slocks s m) = Some j"
      using lock_invD(5) [OF assms(1), of j m] by (auto split: if_splits)
  qed
qed

section \<open>Interrupts\<close>

definition intr_ok :: "int \<Rightarrow> intr \<Rightarrow> bool" where
  "intr_ok n h \<longleftrightarrow> 0 \<le> n \<and> noff h = n \<and> (0 < n \<longrightarrow> \<not> sie h)"

lemma push_off_ok: "intr_ok n h \<Longrightarrow> intr_ok (n + 1) (push_off h)"
  by (simp add: intr_ok_def push_off_def Let_def)

lemma pop_off_ok: "\<lbrakk>intr_ok (n + 1) h; 0 \<le> n\<rbrakk> \<Longrightarrow> \<exists>h'. pop_off h = Ok h' \<and> intr_ok n h'"
  by (simp add: intr_ok_def pop_off_def Let_def)

text \<open>\<open>push_off\<close> then \<open>pop_off\<close> restores the interrupt state.\<close>

lemma push_pop_off: "intr_ok n h \<Longrightarrow> \<exists>h'. pop_off (push_off h) = Ok h' \<and> sie h' = sie h \<and> noff h' = noff h"
  by (auto simp: intr_ok_def push_off_def pop_off_def Let_def)

definition in_call :: "lpc \<Rightarrow> bool" where
  "in_call p \<longleftrightarrow> (case p of AcqLocked _ \<Rightarrow> True | AcqCpu _ \<Rightarrow> True | AcqSpin _ \<Rightarrow> True | RelPop \<Rightarrow> True | _ \<Rightarrow> False)"

definition held_count :: "sys \<Rightarrow> nat \<Rightarrow> int" where
  "held_count s i = int (card {l. owns s i l})"

text \<open>
  The \<open>push_off\<close> depth of a hart counts its locks, the call it is in and its own \<open>push_off\<close>
  calls, and interrupts are off when it is positive.
\<close>

definition hart_ok :: "sys \<Rightarrow> nat \<Rightarrow> bool" where
  "hart_ok s i \<longleftrightarrow> (\<exists>m. pcs s i = Panicked m) \<or>
     finite {l. owns s i l} \<and>
     intr_ok (int (depth s i) + held_count s i + (if in_call (pcs s i) then 1 else 0)) (intrs s i)"

lemma hart_ok_frame:
  assumes "hart_ok s j" "\<And>l. owns t j l = owns s j l" "pcs t j = pcs s j" "intrs t j = intrs s j" "depth t j = depth s j"
  shows "hart_ok t j"
  using assms by (simp add: hart_ok_def held_count_def)

lemma hart_ok_boot: "hart_ok sys_boot i"
  by (simp add: hart_ok_def held_count_def owns_def sys_boot_def intr_ok_def in_call_def)

definition sys_inv :: "sys \<Rightarrow> bool" where
  "sys_inv s \<longleftrightarrow> lock_inv s \<and> (\<forall>i. hart_ok s i)"

text \<open>One hart moves: the others keep everything, so only the mover has to be looked at.\<close>

lemma sys_inv_step:
  assumes "sys_inv s" "lock_inv t" "hart_ok t i"
    "\<And>j l. j \<noteq> i \<Longrightarrow> owns t j l = owns s j l"
    "\<And>j. j \<noteq> i \<Longrightarrow> pcs t j = pcs s j \<and> intrs t j = intrs s j \<and> depth t j = depth s j"
  shows "sys_inv t"
proof -
  have "hart_ok t j" for j
  proof (cases "j = i")
    case False
    have "hart_ok s j" using assms(1) by (simp add: sys_inv_def)
    then show ?thesis by (rule hart_ok_frame) (use assms(4,5) False in blast)+
  next
    case True
    then show ?thesis using assms(3) by simp
  qed
  then show ?thesis using assms(2) by (simp add: sys_inv_def)
qed

lemma lock_step_others:
  "j \<noteq> i \<Longrightarrow> pcs (lock_step i s) j = pcs s j \<and> intrs (lock_step i s) j = intrs s j \<and>
     depth (lock_step i s) j = depth s j"
  by (auto simp: lock_step_def sys_upd_defs Let_def split: lpc.splits res.splits stop.splits)

lemma sys_inv_plain:
  assumes inv: "sys_inv s" and t: "slocks t = slocks s" "pcs t = (pcs s)(i := p)" "plain (pcs s i)" "plain p"
    and others: "\<And>j. j \<noteq> i \<Longrightarrow> intrs t j = intrs s j \<and> depth t j = depth s j"
    and mover: "(\<exists>m. p = Panicked m) \<or>
      intr_ok (int (depth t i) + held_count s i + (if in_call p then 1 else 0)) (intrs t i)"
    and run: "\<nexists>m. pcs s i = Panicked m"
  shows "sys_inv t"
proof -
  have li: "lock_inv s" and fin: "finite {l. owns s i l}"
    using inv run by (auto simp: sys_inv_def hart_ok_def)
  note o = lock_inv_plain [OF li t]
  have "hart_ok t i"
    using mover fin by (auto simp: hart_ok_def held_count_def o(2) t(2))
  then show ?thesis
    using inv o others t(2) by (intro sys_inv_step [of s t i]) auto
qed

lemma held_count_nonneg: "0 \<le> held_count s i"
  by (simp add: held_count_def)

lemma sys_inv_set_pc:
  assumes inv: "sys_inv s" and p: "plain (pcs s i)" "plain p" "in_call p = in_call (pcs s i) \<or> (\<exists>m. p = Panicked m)"
    and run: "\<nexists>m. pcs s i = Panicked m"
  shows "sys_inv (set_pc i p s)"
proof -
  have "hart_ok s i" using inv by (simp add: sys_inv_def)
  then have "intr_ok (int (depth s i) + held_count s i + (if in_call (pcs s i) then 1 else 0)) (intrs s i)"
    using run by (simp add: hart_ok_def)
  then show ?thesis
    using p run by (intro sys_inv_plain [OF inv, of _ i p]) (auto simp: set_pc_def)
qed

text \<open>The steps that touch a lock: the mover's set of locks grows, stays or shrinks.\<close>

lemma hart_ok_touch:
  assumes h: "hart_ok s i" "\<nexists>m. pcs s i = Panicked m" and t: "intrs t i = intrs s i" "depth t i = depth s i"
    and c: "finite {l. owns t i l}"
      "held_count t i + (if in_call (pcs t i) then 1 else 0) = held_count s i + (if in_call (pcs s i) then 1 else 0)"
  shows "hart_ok t i"
proof -
  have e: "int (depth s i) + held_count t i + (if in_call (pcs t i) then 1 else 0) =
      int (depth s i) + held_count s i + (if in_call (pcs s i) then 1 else 0)"
    using c(2) by linarith
  have "intr_ok (int (depth s i) + held_count s i + (if in_call (pcs s i) then 1 else 0)) (intrs s i)"
    using h unfolding hart_ok_def by blast
  then have "intr_ok (int (depth t i) + held_count t i + (if in_call (pcs t i) then 1 else 0)) (intrs t i)"
    by (simp only: t e)
  then show ?thesis using c(1) unfolding hart_ok_def by blast
qed

lemma lock_step_mover:
  assumes "pcs s i = AcqSpin l \<or> pcs s i = AcqRecord l \<or> pcs s i = RelClear l \<or> pcs s i = RelStore l \<or> pcs s i = RelCpu l"
  shows "intrs (lock_step i s) i = intrs s i" "depth (lock_step i s) i = depth s i"
  using assms by (auto simp: lock_step_def sys_upd_defs Let_def)

lemma sys_inv_touch:
  assumes inv: "sys_inv s" and pc: "pcs s i = AcqSpin l \<and> \<not> sp_locked (slocks s l) \<or> pcs s i = AcqRecord l \<or>
      pcs s i = RelClear l \<or> pcs s i = RelStore l"
  shows "sys_inv (lock_step i s)"
proof -
  let ?t = "lock_step i s"
  have li: "lock_inv s" and h: "hart_ok s i" and run: "\<nexists>m. pcs s i = Panicked m"
    using inv pc by (auto simp: sys_inv_def)
  have fin: "finite {l. owns s i l}" using h run by (auto simp: hart_ok_def)
  have mv: "intrs ?t i = intrs s i" "depth ?t i = depth s i"
    using lock_step_mover pc by blast+
  have "lock_inv ?t \<and> (\<forall>j m. j \<noteq> i \<longrightarrow> owns ?t j m = owns s j m) \<and> finite {l. owns ?t i l} \<and>
      held_count ?t i + (if in_call (pcs ?t i) then 1 else 0) = held_count s i + (if in_call (pcs s i) then 1 else 0)"
    using pc
  proof (elim disjE conjE)
    assume a: "pcs s i = AcqSpin l" "\<not> sp_locked (slocks s l)"
    note o = lock_inv_take [OF li a]
    have new: "\<not> owns s i l" using lock_invD(1) [OF li] a(2) by blast
    have "{m. owns ?t i m} = insert l {m. owns s i m}" using o(2) by auto
    moreover have "pcs ?t i = AcqRecord l" using a by (simp add: lock_step_def sys_upd_defs Let_def)
    ultimately show ?thesis
      using o a fin new by (auto simp: held_count_def in_call_def)
  next
    assume a: "pcs s i = AcqRecord l"
    have "pcs ?t i = Run" using a by (simp add: lock_step_def sys_upd_defs)
    then show ?thesis
      using lock_inv_record [OF li a] a fin by (auto simp: held_count_def in_call_def)
  next
    assume a: "pcs s i = RelClear l"
    have "pcs ?t i = RelStore l" using a by (simp add: lock_step_def sys_upd_defs)
    then show ?thesis
      using lock_inv_clear [OF li a] a fin by (auto simp: held_count_def in_call_def)
  next
    assume a: "pcs s i = RelStore l"
    note o = lock_inv_store [OF li a]
    have "{m. owns s i m} = insert l {m. owns ?t i m}" "\<not> owns ?t i l"
      using o(2) a by (auto simp: owns_def [of s i l])
    moreover from this have "finite {m. owns ?t i m}" using fin by simp
    moreover have "pcs ?t i = RelPop" using a by (simp add: lock_step_def sys_upd_defs)
    ultimately show ?thesis
      using o a by (auto simp: held_count_def in_call_def)
  qed
  then show ?thesis
    using hart_ok_touch [OF h run mv] lock_step_others by (intro sys_inv_step [OF inv]) blast+
qed

lemma sys_inv_lock_step:
  assumes inv: "sys_inv s"
  shows "sys_inv (lock_step i s)"
proof -
  have li: "lock_inv s" and h: "hart_ok s i" using inv by (auto simp: sys_inv_def)
  show ?thesis
  proof (cases "pcs s i")
    case (AcqLocked l)
    then have "lock_step i s = set_pc i (if sp_locked (slocks s l) then AcqCpu l else AcqSpin l) s"
      by (simp add: lock_step_def)
    then show ?thesis using AcqLocked by (simp add: sys_inv_set_pc [OF inv] plain_def in_call_def)
  next
    case (AcqCpu l)
    then have "lock_step i s = set_pc i (if sp_cpu (slocks s l) = Some i then Panicked ''acquire'' else AcqSpin l) s"
      by (simp add: lock_step_def)
    then show ?thesis using AcqCpu by (simp add: sys_inv_set_pc [OF inv] plain_def in_call_def)
  next
    case (RelLocked l)
    then have "lock_step i s = set_pc i (if sp_locked (slocks s l) then RelCpu l else Panicked ''release'') s"
      by (simp add: lock_step_def)
    then show ?thesis using RelLocked by (simp add: sys_inv_set_pc [OF inv] plain_def in_call_def)
  next
    case (RelCpu l)
    show ?thesis
    proof (cases "sp_cpu (slocks s l) = Some i")
      case False
      then have "lock_step i s = set_pc i (Panicked ''release'') s" using RelCpu by (simp add: lock_step_def)
      then show ?thesis using RelCpu by (simp add: sys_inv_set_pc [OF inv] plain_def in_call_def)
    next
      case True
      then have st: "lock_step i s = set_pc i (RelClear l) s" using RelCpu by (simp add: lock_step_def)
      have o: "owns (set_pc i (RelClear l) s) j m = owns s j m" for j m
        using RelCpu by (auto simp: owns_def set_pc_def)
      have "lock_inv (set_pc i (RelClear l) s)"
        unfolding lock_inv_def o using li True by (auto simp: lock_inv_def set_pc_def)
      moreover have "hart_ok (set_pc i (RelClear l) s) i"
        using h RelCpu by (simp add: hart_ok_def held_count_def o) (simp add: set_pc_def in_call_def)
      ultimately show ?thesis
        unfolding st by (rule sys_inv_step [OF inv]) (simp_all add: o, simp_all add: set_pc_def)
    qed
  next
    case RelPop
    then have "intr_ok (int (depth s i) + held_count s i + 1) (intrs s i)"
      using h by (simp add: hart_ok_def in_call_def)
    then obtain h' where h': "pop_off (intrs s i) = Ok h'" "intr_ok (int (depth s i) + held_count s i) h'"
      using pop_off_ok [of "int (depth s i) + held_count s i" "intrs s i"] held_count_nonneg [of s i] by force
    have "lock_step i s = set_pc i Run (set_intr i h' s)" using RelPop h' by (simp add: lock_step_def)
    then show ?thesis
      using RelPop h'(2) by (intro sys_inv_plain [OF inv, of _ i Run]) (auto simp: sys_upd_defs plain_def in_call_def)
  next
    case (AcqSpin l)
    show ?thesis
    proof (cases "sp_locked (slocks s l)")
      case True
      then have "(slocks s l)\<lparr>sp_locked := True\<rparr> = slocks s l" by (cases "slocks s l") simp
      moreover have "set_lock l (slocks s l) s = s" by (cases s) (simp add: set_lock_def)
      ultimately have "lock_step i s = s" using AcqSpin True by (simp only: lock_step_def lpc.case Let_def if_True)
      then show ?thesis using inv by simp
    next
      case False
      then show ?thesis using sys_inv_touch [OF inv, of i l] AcqSpin by blast
    qed
  next
    case (AcqRecord l)
    then show ?thesis using sys_inv_touch [OF inv, of i l] by blast
  next
    case (RelClear l)
    then show ?thesis using sys_inv_touch [OF inv, of i l] by blast
  next
    case (RelStore l)
    then show ?thesis using sys_inv_touch [OF inv, of i l] by blast
  next
    case Run
    then have "lock_step i s = s" by (simp add: lock_step_def)
    then show ?thesis using inv by simp
  next
    case (Panicked m)
    then have "lock_step i s = s" by (simp add: lock_step_def)
    then show ?thesis using inv by simp
  qed
qed

lemma sys_inv_run:
  assumes "sys_inv s" "pcs s i = Run"
  shows "intr_ok (int (depth s i) + held_count s i) (intrs s i)"
proof -
  have "hart_ok s i" using assms(1) by (simp add: sys_inv_def)
  then show ?thesis using assms(2) by (simp add: hart_ok_def in_call_def)
qed

text \<open>A step that leaves a hart outside and changes only its own interrupt fields.\<close>

lemma sys_inv_run_intr:
  assumes inv: "sys_inv s" and pc: "pcs s i = Run" and h: "intr_ok (int d + held_count s i) h"
  shows "sys_inv ((set_intr i h s)\<lparr>depth := (depth s)(i := d)\<rparr>)"
proof -
  let ?t = "(set_intr i h s)\<lparr>depth := (depth s)(i := d)\<rparr>"
  have t: "slocks ?t = slocks s" "pcs ?t = (pcs s)(i := Run)" "intrs ?t = (intrs s)(i := h)"
    "depth ?t = (depth s)(i := d)"
    using pc by (simp_all add: set_intr_def fun_upd_idem)
  have pl: "plain (pcs s i)" "plain Run" using pc by (simp_all add: plain_def)
  show ?thesis
    by (rule sys_inv_plain [OF inv t(1,2) pl]) (use h pc in \<open>simp_all add: t in_call_def\<close>)
qed

lemma set_intr_depth: "(set_intr i h s)\<lparr>depth := (depth s)(i := depth s i)\<rparr> = set_intr i h s"
  by (cases s) (simp add: set_intr_def)

lemma sys_inv_sys_step: "\<lbrakk>sys_step s t; sys_inv s\<rbrakk> \<Longrightarrow> sys_inv t"
proof (induction rule: sys_step.induct)
  case (inside s i)
  show ?case by (rule sys_inv_lock_step [OF inside(2)])
next
  case (call_acquire s i l)
  note h = push_off_ok [OF sys_inv_run [OF call_acquire(2,1)]]
  show ?case
    by (rule sys_inv_plain [OF call_acquire(2), of _ i "AcqLocked l"])
      (use call_acquire(1) h in \<open>simp_all add: sys_upd_defs plain_def in_call_def\<close>)
next
  case (call_release s i l)
  show ?case
    by (rule sys_inv_set_pc [OF call_release(2)]) (use call_release(1) in \<open>simp_all add: plain_def in_call_def\<close>)
next
  case (call_push_off s i)
  have "intr_ok (int (Suc (depth s i)) + held_count s i) (push_off (intrs s i))"
    using push_off_ok [OF sys_inv_run [OF call_push_off(2,1)]] by (simp add: algebra_simps)
  then show ?case by (rule sys_inv_run_intr [OF call_push_off(2,1)])
next
  case (call_pop_off s i d h)
  have "intr_ok ((int d + held_count s i) + 1) (intrs s i)"
    using sys_inv_run [OF call_pop_off(4,1)] call_pop_off(2) by (simp add: algebra_simps)
  then have "intr_ok (int d + held_count s i) h"
    using pop_off_ok [of "int d + held_count s i" "intrs s i"] call_pop_off(3) held_count_nonneg [of s i] by force
  then show ?case by (rule sys_inv_run_intr [OF call_pop_off(4,1)])
next
  case (pop_off_panics s i d m)
  show ?case
    by (rule sys_inv_set_pc [OF pop_off_panics(4)]) (use pop_off_panics(1) in \<open>simp_all add: plain_def in_call_def\<close>)
next
  case (intr_on s i)
  have "intr_ok (int (depth s i) + held_count s i) ((intrs s i)\<lparr>sie := True\<rparr>)"
    using sys_inv_run [OF intr_on(3,1)] intr_on(2) by (simp add: intr_ok_def)
  from sys_inv_run_intr [OF intr_on(3,1) this] show ?case unfolding set_intr_depth .
next
  case (intr_off s i)
  have "intr_ok (int (depth s i) + held_count s i) ((intrs s i)\<lparr>sie := False\<rparr>)"
    using sys_inv_run [OF intr_off(2,1)] by (simp add: intr_ok_def)
  from sys_inv_run_intr [OF intr_off(2,1) this] show ?case unfolding set_intr_depth .
qed

lemma sys_inv_reach: "sys_reach s \<Longrightarrow> sys_inv s"
proof (induction rule: sys_reach.induct)
  case boot
  show ?case using lock_inv_boot hart_ok_boot by (simp add: sys_inv_def)
next
  case (step s t)
  show ?case by (rule sys_inv_sys_step [OF step(2,3)])
qed

section \<open>Properties\<close>

text \<open>C2: mutual exclusion.  Whatever the harts do and however their accesses to the locks
  interleave, at most one hart is between the successful swap of \<open>acquire(l)\<close> and the releasing
  store of \<open>release(l)\<close>, \<open>lk->locked\<close> is set exactly when there is one, and no step of another
  hart takes the lock away from the hart that holds it.\<close>

theorem spinlock_mutual_exclusion:
  assumes "sys_reach s"
  shows "(owns s i l \<and> owns s j l \<longrightarrow> i = j) \<and>
    (sp_locked (slocks s l) \<longleftrightarrow> (\<exists>i. owns s i l)) \<and>
    (holding i (slocks s l) \<and> k \<noteq> i \<longrightarrow> holding i (slocks (lock_step k s) l))"
proof -
  have li: "lock_inv s" using sys_inv_reach [OF assms] by (simp add: sys_inv_def)
  have "holding i (slocks (lock_step k s) l)" if "holding i (slocks s l)" "k \<noteq> i"
  proof -
    have "owns s i l" using that(1) by (simp add: holding_def owns_def)
    then have "\<not> owns s k l" using lock_invD(2) [OF li] that(2) by blast
    then have "pcs s k \<noteq> AcqRecord l" "pcs s k \<noteq> RelStore l" by (auto simp: owns_def)
    moreover have "pcs s k \<noteq> RelClear l"
      using lock_invD(5) [OF li, of k l] that by (auto simp: holding_def)
    ultimately show ?thesis
      using that(1) by (auto simp: holding_def lock_step_def sys_upd_defs Let_def
          split: lpc.splits res.splits stop.splits)
  qed
  then show ?thesis using lock_invD(1,2) [OF li] by blast
qed

text \<open>Hart 3 takes lock 7, running the code of \<open>acquire\<close> alone.\<close>

definition taken :: sys where
  "taken = lock_step 3 (lock_step 3 (lock_step 3
     (set_pc 3 (AcqLocked 7) (set_intr 3 (push_off (intrs sys_boot 3)) sys_boot))))"

lemma reach_inside: "\<lbrakk>sys_reach s; pcs s i \<noteq> Run\<rbrakk> \<Longrightarrow> sys_reach (lock_step i s)"
  by (blast intro: sys_reach.step sys_step.inside)

lemma taken_reach: "sys_reach taken" and taken_holding: "holding 3 (slocks taken 7)"
proof -
  let ?s = "set_pc 3 (AcqLocked 7) (set_intr 3 (push_off (intrs sys_boot 3)) sys_boot)"
  have "sys_reach ?s"
    by (rule sys_reach.step [OF sys_reach.boot], rule sys_step.call_acquire) (simp add: sys_boot_def)
  then show "sys_reach taken"
    unfolding taken_def by (intro reach_inside) (simp_all add: lock_step_def sys_upd_defs sys_boot_def Let_def)
  show "holding 3 (slocks taken 7)"
    by (simp add: taken_def holding_def lock_step_def sys_upd_defs sys_boot_def Let_def)
qed

theorem spinlock_mutual_exclusion_witness:
  "holding 3 (slocks (lock_step 5 taken) 7) \<and> \<not> owns taken 5 7"
proof -
  have "owns taken 3 7" using taken_holding by (simp add: holding_def owns_def)
  then show ?thesis
    using spinlock_mutual_exclusion [OF taken_reach, of 3 7 5 5] taken_holding by auto
qed

text \<open>C15: a hart that holds a lock, or is inside \<open>acquire\<close> waiting for one, has interrupts
  disabled, so that an interrupt handler on the same hart can never spin on a lock its hart holds;
  and \<open>release\<close> never stops in \<open>pop_off\<close>.\<close>

theorem spinlock_interrupts_off:
  assumes "sys_reach s" "\<nexists>m. pcs s i = Panicked m"
  shows "((\<exists>l. owns s i l) \<or> in_call (pcs s i) \<longrightarrow> \<not> sie (intrs s i) \<and> 1 \<le> noff (intrs s i)) \<and>
    (pcs s i = RelPop \<longrightarrow> (\<exists>h. pop_off (intrs s i) = Ok h))"
proof -
  let ?n = "int (depth s i) + held_count s i + (if in_call (pcs s i) then 1 else 0)"
  have h: "finite {l. owns s i l}" "intr_ok ?n (intrs s i)"
    using sys_inv_reach [OF assms(1)] assms(2) by (auto simp: sys_inv_def hart_ok_def)
  have "1 \<le> ?n" if "(\<exists>l. owns s i l) \<or> in_call (pcs s i)"
  proof (cases "in_call (pcs s i)")
    case True
    then show ?thesis using held_count_nonneg [of s i] by simp
  next
    case False
    then have "{l. owns s i l} \<noteq> {}" using that by blast
    then have "0 < card {l. owns s i l}" using h(1) by (simp add: card_gt_0_iff)
    then show ?thesis by (simp add: held_count_def)
  qed
  then have pos: "\<not> sie (intrs s i) \<and> 1 \<le> noff (intrs s i)" if "(\<exists>l. owns s i l) \<or> in_call (pcs s i)"
    using that h(2) unfolding intr_ok_def by fastforce
  moreover have "\<exists>h. pop_off (intrs s i) = Ok h" if "pcs s i = RelPop"
    using pos that by (simp add: in_call_def pop_off_def Let_def)
  ultimately show ?thesis by blast
qed

theorem spinlock_interrupts_off_witness:
  "owns taken 3 7 \<and> \<not> sie (intrs taken 3)"
proof -
  have "owns taken 3 7" using taken_holding by (simp add: holding_def owns_def)
  moreover have "\<nexists>m. pcs taken 3 = Panicked m"
    by (simp add: taken_def lock_step_def sys_upd_defs sys_boot_def Let_def)
  ultimately show ?thesis using spinlock_interrupts_off [OF taken_reach, of 3] by blast
qed

text \<open>C16: the panics of \<open>spinlock.c\<close> are exactly misuse.  A hart stops in \<open>acquire\<close> only when it
  already holds that lock and in \<open>release\<close> only when it does not hold it; no other panic of the file
  is reachable from code that pairs its \<open>push_off\<close> and \<open>pop_off\<close> calls.\<close>

theorem spinlock_panics_are_misuse:
  assumes "sys_reach s" "sys_step s t" "\<nexists>m. pcs s i = Panicked m" "pcs t i = Panicked m"
  shows "(\<exists>l. m = ''acquire'' \<and> pcs s i = AcqCpu l \<and> holding i (slocks s l)) \<or>
    (\<exists>l. m = ''release'' \<and> (pcs s i = RelLocked l \<or> pcs s i = RelCpu l) \<and> \<not> holding i (slocks s l))"
proof -
  have inv: "sys_inv s" by (rule sys_inv_reach [OF assms(1)])
  then have li: "lock_inv s" by (simp add: sys_inv_def)
  have no_pop: "\<exists>h. pop_off (intrs s i) = Ok h" if "pcs s i = RelPop \<or> pcs s i = Run \<and> depth s i = Suc d" for d
  proof -
    have "hart_ok s i" using inv by (simp add: sys_inv_def)
    then have "\<exists>n \<ge> 0. intr_ok (n + 1) (intrs s i)"
      using that held_count_nonneg [of s i]
      by (intro exI [of _ "int (depth s i) + held_count s i - (if pcs s i = Run then 1 else 0)"])
        (auto simp: hart_ok_def in_call_def)
    then show ?thesis using pop_off_ok by blast
  qed
  from assms(2) show ?thesis
  proof (cases rule: sys_step.cases)
    case (inside k)
    then have "k = i" using lock_step_others [of i k s] assms(3,4) by (cases "k = i") auto
    have locked: "sp_cpu (slocks s l) = Some i \<Longrightarrow> sp_locked (slocks s l)" for l
      using lock_invD(1) [OF li, of l] by (auto simp: owns_def)
    show ?thesis
      using inside assms(3,4) no_pop locked unfolding \<open>k = i\<close>
      by (auto simp: lock_step_def sys_upd_defs holding_def Let_def split: lpc.splits if_splits)
  next
    case (pop_off_panics k d m')
    then show ?thesis using assms(3,4) no_pop by (auto simp: sys_upd_defs split: if_splits)
  qed (use assms(3,4) in \<open>auto simp: sys_upd_defs split: if_splits\<close>)
qed

text \<open>Hart 3 calls \<open>acquire\<close> on the lock it holds, up to the second read of \<open>holding\<close>.\<close>

definition retaken :: sys where
  "retaken = lock_step 3 (set_pc 3 (AcqLocked 7) (set_intr 3 (push_off (intrs taken 3)) taken))"

lemma retaken_reach: "sys_reach retaken"
proof -
  have "pcs taken 3 = Run"
    by (simp add: taken_def lock_step_def sys_upd_defs sys_boot_def Let_def)
  then have "sys_reach (set_pc 3 (AcqLocked 7) (set_intr 3 (push_off (intrs taken 3)) taken))"
    by (blast intro: sys_reach.step taken_reach sys_step.call_acquire)
  then show ?thesis
    unfolding retaken_def by (rule reach_inside) (simp add: sys_upd_defs)
qed

theorem spinlock_panics_are_misuse_witness:
  "pcs (lock_step 3 retaken) 3 = Panicked ''acquire'' \<and> (\<exists>l. holding 3 (slocks retaken l))"
proof -
  have pc: "pcs retaken 3 = AcqCpu 7" and p: "pcs (lock_step 3 retaken) 3 = Panicked ''acquire''"
    by (simp_all add: retaken_def taken_def lock_step_def sys_upd_defs sys_boot_def Let_def)
  have "sys_step retaken (lock_step 3 retaken)" by (rule sys_step.inside) (simp add: pc)
  then show ?thesis
    using spinlock_panics_are_misuse [OF retaken_reach _ _ p] p pc by auto
qed

end
