(* ===== verification/Params.thy ===== *)
theory Params
  imports Prelude
begin

text \<open>
  The constants and address macros of \<open>kernel/param.h\<close>, \<open>kernel/memlayout.h\<close>,
  \<open>kernel/riscv.h\<close> and \<open>kernel/fs.h\<close>, in the configuration the build selects
  (\<open>conf/lab.mk\<close> sets \<open>LAB=util\<close>, so \<open>LAB_UTIL\<close> is defined and the other
  \<open>LAB_\<dots>\<close> macros are not), with the arithmetic facts on page rounding, page-table entries
  and page-table indices that the memory components use.
\<close>

unbundle bit_operations_syntax

section \<open>kernel/param.h\<close>

definition NPROC :: nat where [simp]: "NPROC = 64"
definition NCPU :: nat where [simp]: "NCPU = 8"
definition NOFILE :: nat where [simp]: "NOFILE = 16"
definition NFILE :: nat where [simp]: "NFILE = 100"
definition NINODE :: nat where [simp]: "NINODE = 50"
definition NDEV :: nat where [simp]: "NDEV = 10"
definition ROOTDEV :: u32 where [simp]: "ROOTDEV = 1"
definition MAXARG :: nat where [simp]: "MAXARG = 32"
definition MAXOPBLOCKS :: nat where [simp]: "MAXOPBLOCKS = 10"
definition LOGSIZE :: nat where "LOGSIZE = MAXOPBLOCKS * 3"
definition NBUF :: nat where "NBUF = MAXOPBLOCKS * 3"
definition FSSIZE :: nat where [simp]: "FSSIZE = 2000"
definition MAXPATH :: nat where [simp]: "MAXPATH = 128"
definition USERSTACK :: nat where [simp]: "USERSTACK = 2"

lemma LOGSIZE_eq [simp]: "LOGSIZE = 30" by (simp add: LOGSIZE_def)
lemma NBUF_eq [simp]: "NBUF = 30" by (simp add: NBUF_def)

section \<open>kernel/fcntl.h\<close>

definition O_RDONLY :: u32 where [simp]: "O_RDONLY = 0"
definition O_WRONLY :: u32 where [simp]: "O_WRONLY = 1"
definition O_RDWR :: u32 where [simp]: "O_RDWR = 2"
definition O_CREATE :: u32 where [simp]: "O_CREATE = 0x200"
definition O_TRUNC :: u32 where [simp]: "O_TRUNC = 0x400"

section \<open>kernel/riscv.h: pages and page-table entries\<close>

definition PGSIZE :: u64 where [simp]: "PGSIZE = 4096"
definition PGSHIFT :: nat where [simp]: "PGSHIFT = 12"

definition PGROUNDUP :: "u64 \<Rightarrow> u64" where
  "PGROUNDUP sz = (sz + PGSIZE - 1) AND NOT (PGSIZE - 1)"

definition PGROUNDDOWN :: "u64 \<Rightarrow> u64" where
  "PGROUNDDOWN a = a AND NOT (PGSIZE - 1)"

definition PTE_V :: u64 where [simp]: "PTE_V = 1"
definition PTE_R :: u64 where [simp]: "PTE_R = 2"
definition PTE_W :: u64 where [simp]: "PTE_W = 4"
definition PTE_X :: u64 where [simp]: "PTE_X = 8"
definition PTE_U :: u64 where [simp]: "PTE_U = 16"

definition PA2PTE :: "u64 \<Rightarrow> u64" where
  "PA2PTE pa = push_bit 10 (drop_bit 12 pa)"

definition PTE2PA :: "u64 \<Rightarrow> u64" where
  "PTE2PA pte = push_bit 12 (drop_bit 10 pte)"

definition PTE_FLAGS :: "u64 \<Rightarrow> u64" where
  "PTE_FLAGS pte = pte AND 0x3FF"

definition PXSHIFT :: "nat \<Rightarrow> nat" where
  "PXSHIFT level = PGSHIFT + 9 * level"

definition PX :: "nat \<Rightarrow> u64 \<Rightarrow> u64" where
  "PX level va = drop_bit (PXSHIFT level) va AND 0x1FF"

definition MAXVA :: u64 where
  "MAXVA = push_bit (9 + 9 + 9 + 12 - 1) 1"

lemma MAXVA_eq [simp]: "MAXVA = 0x4000000000"
  by (simp add: MAXVA_def)

section \<open>kernel/memlayout.h\<close>

definition UART0 :: u64 where [simp]: "UART0 = 0x10000000"
definition UART0_IRQ :: nat where [simp]: "UART0_IRQ = 10"
definition VIRTIO0 :: u64 where [simp]: "VIRTIO0 = 0x10001000"
definition VIRTIO0_IRQ :: nat where [simp]: "VIRTIO0_IRQ = 1"
definition PLIC :: u64 where [simp]: "PLIC = 0x0c000000"
definition KERNBASE :: u64 where [simp]: "KERNBASE = 0x80000000"
definition PHYSTOP :: u64 where "PHYSTOP = KERNBASE + 128 * 1024 * 1024"
definition TRAMPOLINE :: u64 where "TRAMPOLINE = MAXVA - PGSIZE"
definition TRAPFRAME :: u64 where "TRAPFRAME = TRAMPOLINE - PGSIZE"

definition KSTACK :: "nat \<Rightarrow> u64" where
  "KSTACK p = TRAMPOLINE - (of_nat p + 1) * 2 * PGSIZE"

lemma PHYSTOP_eq [simp]: "PHYSTOP = 0x88000000" by (simp add: PHYSTOP_def)
lemma TRAMPOLINE_eq [simp]: "TRAMPOLINE = 0x3ffffff000" by (simp add: TRAMPOLINE_def)
lemma TRAPFRAME_eq [simp]: "TRAPFRAME = 0x3fffffe000" by (simp add: TRAPFRAME_def)

section \<open>kernel/fs.h\<close>

definition ROOTINO :: u32 where [simp]: "ROOTINO = 1"
definition BSIZE :: nat where [simp]: "BSIZE = 1024"
definition FSMAGIC :: u32 where [simp]: "FSMAGIC = 0x10203040"
definition NDIRECT :: nat where [simp]: "NDIRECT = 12"
definition NINDIRECT :: nat where "NINDIRECT = BSIZE div 4"
definition MAXFILE :: nat where "MAXFILE = NDIRECT + NINDIRECT"
definition IPB :: nat where "IPB = BSIZE div 64"
definition BPB :: nat where "BPB = BSIZE * 8"
definition DIRSIZ :: nat where [simp]: "DIRSIZ = 14"

lemma fs_sizes [simp]: "NINDIRECT = 256" "MAXFILE = 268" "IPB = 16" "BPB = 8192"
  by (simp_all add: NINDIRECT_def MAXFILE_def IPB_def BPB_def)

section \<open>Page arithmetic\<close>

text \<open>The page an address lies in, and page alignment.\<close>

definition page_of :: "u64 \<Rightarrow> u64" where
  "page_of a = a AND NOT (mask 12)"

definition page_aligned :: "u64 \<Rightarrow> bool" where
  "page_aligned a \<longleftrightarrow> take_bit 12 a = 0"

lemma not_4095: "NOT (4095 :: u64) = NOT (mask 12)"
  by (simp add: mask_eq_exp_minus_1)

lemma PGROUNDDOWN_page_of: "PGROUNDDOWN a = page_of a"
  by (simp add: PGROUNDDOWN_def page_of_def mask_eq_exp_minus_1)

lemma bit_page_of: "bit (page_of a) n \<longleftrightarrow> bit a n \<and> 12 \<le> n"
  by (auto simp: page_of_def bit_simps not_le dest: bit_imp_le_length)

lemma page_aligned_mod: "page_aligned a \<longleftrightarrow> a mod PGSIZE = 0"
  by (simp add: page_aligned_def take_bit_eq_mod)

lemma page_aligned_iff: "page_aligned a \<longleftrightarrow> page_of a = a"
proof
  assume "page_aligned a"
  then have "\<not> bit (take_bit 12 a) n" for n
    by (simp add: page_aligned_def)
  then have "bit a n \<Longrightarrow> 12 \<le> n" for n
    by (metis bit_take_bit_iff not_le)
  then show "page_of a = a"
    by (auto intro!: bit_word_eqI simp: bit_page_of)
next
  assume "page_of a = a"
  then have "bit a n \<Longrightarrow> 12 \<le> n" for n
    using bit_page_of by metis
  then show "page_aligned a"
    unfolding page_aligned_def
    by (intro bit_word_eqI) (force simp: bit_take_bit_iff)
qed

lemma page_aligned_page_of [simp]: "page_aligned (page_of a)"
  by (simp add: page_aligned_iff page_of_def ac_simps flip: and.assoc)

lemma page_of_page_of [simp]: "page_of (page_of a) = page_of a"
  using page_aligned_iff page_aligned_page_of by blast

text \<open>Offsets below the page size stay inside a page.\<close>

lemma bit_of_nat_bound: "\<lbrakk>i < 2 ^ k; bit (of_nat i :: u64) n\<rbrakk> \<Longrightarrow> n < k"
  by (metis bit_take_bit_iff of_nat_take_bit take_bit_nat_eq_self)

lemma page_aligned_bit: "\<lbrakk>page_aligned p; bit p n\<rbrakk> \<Longrightarrow> 12 \<le> n"
  by (metis bit_page_of page_aligned_iff)

lemma page_aligned_add_or:
  assumes "page_aligned p" and "i < 4096"
  shows "p + of_nat i = p OR of_nat i"
proof -
  have "p AND of_nat i = 0"
    using assms bit_of_nat_bound [of i 12] page_aligned_bit [of p]
    by (intro bit_word_eqI) (force simp: bit_and_iff)
  then show ?thesis by (rule disjunctive_add_eq_or)
qed

lemma page_of_add:
  assumes "page_aligned p" and "i < 4096"
  shows "page_of (p + of_nat i) = p"
  unfolding page_aligned_add_or [OF assms]
  using assms bit_of_nat_bound [of i 12] page_aligned_bit [of p]
  by (intro bit_word_eqI) (auto simp: bit_page_of bit_or_iff dest: leD)

lemma page_aligned_0 [simp]: "page_aligned 0"
  by (simp add: page_aligned_def)

lemma page_aligned_unat: "page_aligned a \<longleftrightarrow> 4096 dvd unat a"
proof -
  have "page_aligned a \<longleftrightarrow> unat (take_bit 12 a) = 0"
    by (simp add: page_aligned_def unat_eq_zero)
  also have "\<dots> \<longleftrightarrow> unat a mod 4096 = 0"
    by (simp add: take_bit_eq_mod unat_mod_distrib)
  finally show ?thesis by (simp add: dvd_eq_mod_eq_0)
qed

lemma page_aligned_add: "\<lbrakk>page_aligned a; page_aligned b\<rbrakk> \<Longrightarrow> page_aligned (a + b)"
  by (simp add: page_aligned_unat unat_word_ariths dvd_mod)

lemma page_aligned_PGSIZE [simp]: "page_aligned 4096"
  by (simp add: page_aligned_def take_bit_eq_mod)

lemma page_aligned_PGROUNDUP [simp]: "page_aligned (PGROUNDUP a)"
proof -
  have "PGROUNDUP a = page_of (a + 4095)"
    by (simp add: PGROUNDUP_def page_of_def mask_eq_exp_minus_1 add.commute)
  then show ?thesis by simp
qed

text \<open>Page-table entries: the address and the flags come back out of an entry.\<close>

lemma take_bit_below: "w < 2 ^ k \<Longrightarrow> k < 64 \<Longrightarrow> take_bit k (w :: u64) = w"
  by (simp add: take_bit_eq_mod word_unat_eq_iff unat_mod_distrib word_less_nat_alt)

lemma bit_below: "\<lbrakk>w < 2 ^ k; k < 64; bit (w :: u64) n\<rbrakk> \<Longrightarrow> n < k"
  by (metis bit_take_bit_iff take_bit_below)

lemma PTE2PA_PA2PTE:
  assumes "page_aligned pa" and "flags < 1024"
  shows "PTE2PA (PA2PTE pa OR flags) = pa"
proof -
  have fl: "bit flags n \<Longrightarrow> n < 10" for n
    using assms(2) bit_below [of flags 10 n] by simp
  show ?thesis
  proof (rule bit_word_eqI)
    fix n assume n: "n < LENGTH(64)"
    show "bit (PTE2PA (PA2PTE pa OR flags)) n = bit pa n"
      using n fl [of "10 + (n - 12)"] page_aligned_bit [OF assms(1), of n]
      by (auto simp: PTE2PA_def PA2PTE_def bit_simps)
  qed
qed

lemma PTE_FLAGS_PA2PTE:
  assumes "flags < 1024"
  shows "PTE_FLAGS (PA2PTE pa OR flags) = flags"
proof -
  have mask: "(0x3FF :: u64) = mask 10" by (simp add: mask_eq_exp_minus_1)
  have fl: "bit flags n \<Longrightarrow> n < 10" for n
    using assms bit_below [of flags 10 n] by simp
  show ?thesis
    unfolding PTE_FLAGS_def mask
    using fl by (intro bit_word_eqI) (auto simp: PA2PTE_def bit_simps)
qed

lemma page_aligned_PTE2PA [simp]: "page_aligned (PTE2PA pte)"
  unfolding page_aligned_def PTE2PA_def
  by (intro bit_word_eqI) (auto simp: bit_simps)

lemma PX_bound: "unat (PX l va) < 512"
proof -
  have "PX l va = take_bit 9 (drop_bit (PXSHIFT l) va)"
    by (simp add: PX_def take_bit_eq_mask mask_eq_exp_minus_1)
  then have "unat (PX l va) = take_bit 9 (unat (drop_bit (PXSHIFT l) va))"
    by (simp add: unsigned_take_bit_eq)
  then show ?thesis
    using take_bit_nat_less_exp [of 9 "unat (drop_bit (PXSHIFT l) va)"] by simp
qed

end
