(* ===== verification/Cstring.thy ===== *)
theory Cstring
  imports Params
begin

text \<open>
  \<open>kernel/string.c\<close>: \<open>memset\<close>, \<open>memcmp\<close>, \<open>memmove\<close>, \<open>memcpy\<close>,
  \<open>strncmp\<close>, \<open>strncpy\<close>, \<open>safestrcpy\<close> and \<open>strlen\<close> on byte memory.  A pointer
  is a 64-bit address; the functions that only read take the bytes behind a pointer as a
  function from offsets (\<open>at m p\<close>), so that they apply to arrays inside kernel structures as
  well.  Lemmas give each loop in closed form; \<open>memmove\<close> is shown correct on overlapping
  ranges.
\<close>

section \<open>Definitions\<close>

definition at :: "bytemem \<Rightarrow> u64 \<Rightarrow> nat \<Rightarrow> u8" where
  "at m p i = m (p + of_nat i)"

text \<open>The bytes of an array object.\<close>

definition bytes_at :: "bytemem \<Rightarrow> u64 \<Rightarrow> nat \<Rightarrow> u8 list" where
  "bytes_at m p n = map (at m p) [0..<n]"

text \<open>The last argument of the loop counts the iterations that remain.\<close>

primrec memset_loop :: "bytemem \<Rightarrow> u64 \<Rightarrow> u8 \<Rightarrow> nat \<Rightarrow> nat \<Rightarrow> bytemem" where
  "memset_loop m dst c i 0 = m"
| "memset_loop m dst c i (Suc k) = memset_loop (m(dst + of_nat i := c)) dst c (Suc i) k"

definition memset :: "bytemem \<Rightarrow> u64 \<Rightarrow> u32 \<Rightarrow> u32 \<Rightarrow> bytemem" where
  "memset m dst c n = memset_loop m dst (ucast c) 0 (unat n)"

primrec memcmp_loop :: "(nat \<Rightarrow> u8) \<Rightarrow> (nat \<Rightarrow> u8) \<Rightarrow> nat \<Rightarrow> nat \<Rightarrow> int" where
  "memcmp_loop s1 s2 i 0 = 0"
| "memcmp_loop s1 s2 i (Suc n) =
     (if s1 i \<noteq> s2 i then uint (s1 i) - uint (s2 i) else memcmp_loop s1 s2 (Suc i) n)"

definition memcmp :: "(nat \<Rightarrow> u8) \<Rightarrow> (nat \<Rightarrow> u8) \<Rightarrow> u32 \<Rightarrow> int" where
  "memcmp v1 v2 n = memcmp_loop v1 v2 0 (unat n)"

primrec copy_up :: "bytemem \<Rightarrow> u64 \<Rightarrow> u64 \<Rightarrow> nat \<Rightarrow> bytemem" where
  "copy_up m d s 0 = m"
| "copy_up m d s (Suc n) = copy_up (m(d := m s)) (d + 1) (s + 1) n"

primrec copy_down :: "bytemem \<Rightarrow> u64 \<Rightarrow> u64 \<Rightarrow> nat \<Rightarrow> bytemem" where
  "copy_down m d s 0 = m"
| "copy_down m d s (Suc n) = copy_down (m(d - 1 := m (s - 1))) (d - 1) (s - 1) n"

definition memmove :: "bytemem \<Rightarrow> u64 \<Rightarrow> u64 \<Rightarrow> u32 \<Rightarrow> bytemem" where
  "memmove m dst src n =
     (if n = 0 then m
      else if src < dst \<and> src + ucast n > dst
        then copy_down m (dst + ucast n) (src + ucast n) (unat n)
        else copy_up m dst src (unat n))"

definition memcpy :: "bytemem \<Rightarrow> u64 \<Rightarrow> u64 \<Rightarrow> u32 \<Rightarrow> bytemem" where
  "memcpy m dst src n = memmove m dst src n"

primrec strncmp_loop :: "(nat \<Rightarrow> u8) \<Rightarrow> (nat \<Rightarrow> u8) \<Rightarrow> nat \<Rightarrow> nat \<Rightarrow> int" where
  "strncmp_loop p q i 0 = 0"
| "strncmp_loop p q i (Suc n) =
     (if p i \<noteq> 0 \<and> p i = q i then strncmp_loop p q (Suc i) n
      else uint (p i) - uint (q i))"

definition strncmp :: "(nat \<Rightarrow> u8) \<Rightarrow> (nat \<Rightarrow> u8) \<Rightarrow> u32 \<Rightarrow> int" where
  "strncmp p q n = strncmp_loop p q 0 (unat n)"

primrec zero_fill :: "bytemem \<Rightarrow> u64 \<Rightarrow> nat \<Rightarrow> bytemem" where
  "zero_fill m s 0 = m"
| "zero_fill m s (Suc n) = zero_fill (m(s := 0)) (s + 1) n"

primrec strncpy_loop :: "bytemem \<Rightarrow> u64 \<Rightarrow> u64 \<Rightarrow> nat \<Rightarrow> bytemem" where
  "strncpy_loop m s t 0 = m"
| "strncpy_loop m s t (Suc n) =
     (let c = m t; m' = m(s := c) in
      if c \<noteq> 0 then strncpy_loop m' (s + 1) (t + 1) n else zero_fill m' (s + 1) n)"

text \<open>\<open>n\<close> is a signed \<open>int\<close>: nothing is written when it is not positive.\<close>

definition strncpy :: "bytemem \<Rightarrow> u64 \<Rightarrow> u64 \<Rightarrow> u32 \<Rightarrow> bytemem" where
  "strncpy m s t n = strncpy_loop m s t (nat (sint n))"

text \<open>After the terminator has been copied the code stores a second one behind it.\<close>

primrec safestrcpy_loop :: "bytemem \<Rightarrow> u64 \<Rightarrow> u64 \<Rightarrow> nat \<Rightarrow> bytemem" where
  "safestrcpy_loop m s t 0 = m(s := 0)"
| "safestrcpy_loop m s t (Suc k) =
     (let c = m t; m' = m(s := c) in
      if c \<noteq> 0 then safestrcpy_loop m' (s + 1) (t + 1) k else m'(s + 1 := 0))"

definition safestrcpy :: "bytemem \<Rightarrow> u64 \<Rightarrow> u64 \<Rightarrow> u32 \<Rightarrow> bytemem" where
  "safestrcpy m s t n =
     (if sint n \<le> 0 then m else safestrcpy_loop m s t (nat (sint n) - 1))"

text \<open>\<open>strlen\<close> runs on until it meets a zero byte; \<open>None\<close> is running on for ever.\<close>

partial_function (option) strlen_from :: "(nat \<Rightarrow> u8) \<Rightarrow> nat \<Rightarrow> nat option" where
  "strlen_from s n = (if s n = 0 then Some n else strlen_from s (Suc n))"

definition strlen :: "(nat \<Rightarrow> u8) \<Rightarrow> nat option" where
  "strlen s = strlen_from s 0"

text \<open>The string behind a pointer: the bytes before the first zero, at most \<open>n\<close> of them.\<close>

definition cstr :: "(nat \<Rightarrow> u8) \<Rightarrow> nat \<Rightarrow> u8 list" where
  "cstr s n = takeWhile (\<lambda>c. c \<noteq> 0) (map s [0..<n])"

section \<open>Memory blocks in closed form\<close>

lemma unat_minus_one_u64: "x \<noteq> 0 \<Longrightarrow> unat (x - 1 :: u64) = unat x - 1"
  by (metis unat_minus_one)

text \<open>An offset from \<open>d\<close> either is the first byte or lies in the block from \<open>d + 1\<close> on.\<close>

lemma offset_step:
  "n < 2 ^ 64 \<Longrightarrow> a \<noteq> d \<Longrightarrow> unat (a - (d + 1)) < n \<longleftrightarrow> unat (a - d :: u64) < Suc n"
  using unat_minus_one_u64 [of "a - d"] unat_gt_0 [of "a - d"]
  by (auto simp: diff_diff_eq [symmetric])

lemma offset_self: "n < 2 ^ 64 \<Longrightarrow> \<not> unat (d - (d + 1) :: u64) < n"
  by (simp add: unsigned_minus_1_eq_mask mask_eq_exp_minus_1)

lemma memset_loop_eq:
  "k < 2 ^ 64 \<Longrightarrow> memset_loop m dst c i k =
     (\<lambda>a. if unat (a - (dst + of_nat i)) < k then c else m a)"
proof (induction k arbitrary: m i)
  case 0
  then show ?case by simp
next
  case (Suc k)
  let ?d = "dst + of_nat i"
  have d: "dst + of_nat (Suc i) = ?d + 1" by (simp add: algebra_simps)
  show ?case
  proof
    fix a
    show "memset_loop m dst c i (Suc k) a = (if unat (a - ?d) < Suc k then c else m a)"
    proof (cases "a = ?d")
      case True
      with Suc show ?thesis by (simp add: d del: of_nat_Suc)
    next
      case False
      with Suc offset_step [of k a ?d] show ?thesis by (simp add: d del: of_nat_Suc)
    qed
  qed
qed

lemma memset_eq:
  "memset m dst c n = (\<lambda>a. if unat (a - dst) < unat n then ucast c else m a)"
  using unat_u32_bound [of n] by (simp add: memset_def memset_loop_eq)

lemma copy_up_eq:
  "n < 2 ^ 64 \<Longrightarrow> d = s \<or> n \<le> unat (d - s) \<Longrightarrow>
   copy_up m d s n = (\<lambda>a. if unat (a - d) < n then m (s + (a - d)) else m a)"
proof (induction n arbitrary: m d s)
  case 0
  then show ?case by simp
next
  case (Suc n)
  let ?m = "m(d := m s)"
  have eq: "copy_up ?m (d + 1) (s + 1) n
      = (\<lambda>a. if unat (a - (d + 1)) < n then ?m (s + 1 + (a - (d + 1))) else ?m a)"
    using Suc.prems by (intro Suc.IH) auto
  show ?case
  proof
    fix a
    show "copy_up m d s (Suc n) a = (if unat (a - d) < Suc n then m (s + (a - d)) else m a)"
    proof (cases "a = d")
      case True
      with Suc.prems offset_self [of n d] show ?thesis by (simp add: eq)
    next
      case False
      have shift: "s + 1 + (a - (d + 1)) = s + (a - d)" by (simp add: algebra_simps)
      have step: "unat (a - (d + 1)) < n \<longleftrightarrow> unat (a - d) < Suc n"
        using Suc.prems False by (intro offset_step) auto
      have fresh: "m s = m (s + (a - d))" if "unat (a - d) < Suc n" "s + (a - d) = d"
      proof -
        have "d - s = a - d" using that(2) by (simp add: algebra_simps)
        with that(1) Suc.prems have "d = s" by auto
        with that(2) show ?thesis by simp
      qed
      show ?thesis
        using False fresh by (auto simp: eq step shift)
    qed
  qed
qed

lemma copy_down_eq:
  "n < 2 ^ 64 \<Longrightarrow> d = s \<or> n \<le> unat (s - d) \<Longrightarrow>
   copy_down m d s n = (\<lambda>a. if unat (d - 1 - a) < n then m (s - (d - a)) else m a)"
proof (induction n arbitrary: m d s)
  case 0
  then show ?case by simp
next
  case (Suc n)
  let ?m = "m(d - 1 := m (s - 1))"
  have eq: "copy_down ?m (d - 1) (s - 1) n
      = (\<lambda>a. if unat (d - 1 - 1 - a) < n then ?m (s - 1 - (d - 1 - a)) else ?m a)"
    using Suc.prems by (intro Suc.IH) auto
  show ?case
  proof
    fix a
    show "copy_down m d s (Suc n) a = (if unat (d - 1 - a) < Suc n then m (s - (d - a)) else m a)"
    proof (cases "a = d - 1")
      case True
      then have "unat (d - 1 - 1 - a) = 2 ^ 64 - 1"
        by (simp add: unsigned_minus_1_eq_mask mask_eq_exp_minus_1)
      with True Suc.prems show ?thesis by (simp add: eq)
    next
      case False
      have shift: "s - 1 - (d - 1 - a) = s - (d - a)" by (simp add: algebra_simps)
      have "d - 1 - a \<noteq> 0" using False by auto
      then have "unat (d - 1 - a) > 0" by (simp add: unat_gt_0)
      moreover have "unat (d - 2 - a) = unat (d - 1 - a) - 1"
        using unat_minus_one_u64 [OF \<open>d - 1 - a \<noteq> 0\<close>] by (simp add: algebra_simps)
      ultimately have step: "unat (d - 2 - a) < n \<longleftrightarrow> unat (d - 1 - a) < Suc n"
        by auto
      have fresh: "m (s - 1) = m (s - (d - a))"
        if "unat (d - 1 - a) < Suc n" "s - (d - a) = d - 1"
      proof -
        have "s - d = d - 1 - a" using that(2) by (simp add: algebra_simps)
        with that(1) Suc.prems have "d = s" by auto
        with that(2) show ?thesis by simp
      qed
      show ?thesis
        using False fresh by (auto simp: eq step shift)
    qed
  qed
qed

text \<open>The block \<open>[d, d + n)\<close> seen from its end.\<close>

lemma block_from_end:
  assumes "0 < n" and "n < 2 ^ 64"
  shows "unat (d + of_nat n - 1 - a) < n \<longleftrightarrow> unat (a - d :: u64) < n"
proof -
  let ?x = "a - d"
  have n1: "unat (of_nat n - 1 :: u64) = n - 1"
  proof -
    have "(of_nat n - 1 :: u64) = of_nat (n - 1)" using assms(1) by (simp add: of_nat_diff)
    then show ?thesis using assms(2) by (simp add: unat_of_nat_u64)
  qed
  have rew: "d + of_nat n - 1 - a = (of_nat n - 1) - ?x" by (simp add: algebra_simps)
  show ?thesis
  proof (cases "?x \<le> of_nat n - 1")
    case True
    then have "unat ?x \<le> n - 1" by (simp add: word_le_nat_alt n1)
    moreover have "unat ((of_nat n - 1) - ?x) = n - 1 - unat ?x"
      using True n1 by (simp add: unat_sub)
    ultimately show ?thesis using assms(1) by (simp add: rew)
  next
    case False
    then have gt: "n - 1 < unat ?x" by (simp add: word_le_nat_alt n1)
    have "unat ((of_nat n - 1) - ?x) = 2 ^ 64 + (n - 1) - unat ?x"
    proof -
      have "unat ((of_nat n - 1) - ?x) = (2 ^ 64 + unat (of_nat n - 1 :: u64) - unat ?x) mod 2 ^ 64"
        using unat_sub_if' [of "of_nat n - 1" ?x] gt n1 unat_u64_bound [of ?x] by simp
      then show ?thesis using gt n1 unat_u64_bound [of ?x] by simp
    qed
    then have "n \<le> unat ((of_nat n - 1) - ?x)"
      using unat_u64_bound [of ?x] assms by simp
    with gt assms(1) show ?thesis by (simp add: rew)
  qed
qed

text \<open>
  \<open>memmove\<close> copies the old contents of the source block, whether or not the two blocks
  overlap, as long as neither runs past the end of the address space.
\<close>

lemma memmove_eq:
  assumes src: "unat src + unat n < 2 ^ 64" and dst: "unat dst + unat n < 2 ^ 64"
  shows "memmove m dst src n =
    (\<lambda>a. if unat (a - dst) < unat n then m (src + (a - dst)) else m a)"
proof (cases "n = 0")
  case True
  then show ?thesis by (simp add: memmove_def)
next
  case False
  then have pos: "0 < unat n" by (simp add: unat_gt_0)
  have n32: "unat n < 2 ^ 64" using unat_u32_bound [of n] by simp
  have cast: "(ucast n :: u64) = of_nat (unat n)" by simp
  have "unat (ucast n :: u64) = unat n"
    using n32 by (simp add: unsigned_ucast_eq take_bit_nat_eq_self)
  then have end_src: "unat (src + ucast n) = unat src + unat n"
    using src by (simp add: unat_word_ariths)
  show ?thesis
  proof (cases "src < dst \<and> src + ucast n > dst")
    case True
    have lt: "unat src < unat dst" using True by (simp add: word_less_nat_alt)
    have "unat (src - dst) = 2 ^ 64 + unat src - unat dst"
      using lt unat_sub_if' [of src dst] unat_u64_bound [of dst] by simp
    then have far: "unat n \<le> unat (src - dst)" using lt dst by simp
    have blk: "unat (dst + ucast n - 1 - a) < unat n \<longleftrightarrow> unat (a - dst) < unat n" for a
      using block_from_end [OF pos n32, of dst a] by (simp only: cast)
    have off: "src + ucast n - (dst + ucast n - a) = src + (a - dst)" for a
      by (simp add: algebra_simps)
    have "copy_down m (dst + ucast n) (src + ucast n) (unat n) =
      (\<lambda>a. if unat (dst + ucast n - 1 - a) < unat n
           then m (src + ucast n - (dst + ucast n - a)) else m a)"
      using far n32 by (intro copy_down_eq) (auto simp: algebra_simps)
    then have "copy_down m (dst + ucast n) (src + ucast n) (unat n) =
      (\<lambda>a. if unat (a - dst) < unat n then m (src + (a - dst)) else m a)"
      by (simp only: blk off)
    then show ?thesis by (simp only: memmove_def if_not_P [OF False] if_P [OF True])
  next
    case up: False
    have far: "dst = src \<or> unat n \<le> unat (dst - src)"
    proof (cases "src < dst")
      case True
      then have "unat src + unat n \<le> unat dst"
        using up end_src by (auto simp: word_less_nat_alt not_less)
      moreover have "unat (dst - src) = unat dst - unat src"
        using True by (simp add: unat_sub order_less_imp_le)
      ultimately show ?thesis by linarith
    next
      case ge: False
      show ?thesis
      proof (cases "dst = src")
        case False
        with ge have lt: "unat dst < unat src"
          by (metis linorder_neqE word_less_nat_alt)
        then have "unat (dst - src) = 2 ^ 64 + unat dst - unat src"
          using unat_sub_if' [of dst src] unat_u64_bound [of src] by simp
        with lt src have "unat n \<le> unat (dst - src)" by linarith
        then show ?thesis ..
      qed simp
    qed
    show ?thesis
      by (simp only: memmove_def if_not_P [OF False] if_not_P [OF up] copy_up_eq [OF n32 far])
  qed
qed

section \<open>Strings\<close>

lemma at_Suc: "at m p (Suc i) = at m (p + 1) i"
  by (simp add: at_def algebra_simps)

lemma at_shift: "at m p \<circ> Suc = at m (p + 1)"
  by (rule ext) (simp add: at_Suc)

lemma cstr_0 [simp]: "cstr s 0 = []"
  by (simp add: cstr_def)

lemma cstr_Suc: "cstr s (Suc n) = (if s 0 = 0 then [] else s 0 # cstr (s \<circ> Suc) n)"
proof -
  have "map s [0..<Suc n] = s 0 # map (s \<circ> Suc) [0..<n]"
    by (simp add: upt_conv_Cons map_Suc_upt [symmetric] del: upt_Suc)
  then show ?thesis by (simp add: cstr_def del: upt_Suc)
qed

lemma length_cstr: "length (cstr s n) \<le> n"
  unfolding cstr_def using length_takeWhile_le [of "\<lambda>c. c \<noteq> 0" "map s [0..<n]"] by simp

lemma cstr_cong: "(\<And>i. i < n \<Longrightarrow> s i = t i) \<Longrightarrow> cstr s n = cstr t n"
  unfolding cstr_def by (rule arg_cong [where f = "takeWhile _"]) simp

lemma memcmp_loop_zero:
  "memcmp_loop s1 s2 i n = 0 \<longleftrightarrow> (\<forall>j. i \<le> j \<and> j < i + n \<longrightarrow> s1 j = s2 j)"
proof (induction n arbitrary: i)
  case 0
  then show ?case by auto
next
  case (Suc n)
  show ?case
  proof (cases "s1 i = s2 i")
    case True
    then have "memcmp_loop s1 s2 i (Suc n) = 0 \<longleftrightarrow>
        (\<forall>j. Suc i \<le> j \<and> j < Suc i + n \<longrightarrow> s1 j = s2 j)"
      using Suc.IH by simp
    also have "\<dots> \<longleftrightarrow> (\<forall>j. i \<le> j \<and> j < i + Suc n \<longrightarrow> s1 j = s2 j)"
    proof -
      have "i \<le> j \<and> j < i + Suc n \<longleftrightarrow> j = i \<or> Suc i \<le> j \<and> j < Suc i + n" for j
        by auto
      with True show ?thesis by auto
    qed
    finally show ?thesis .
  next
    case False
    then have "uint (s1 i) - uint (s2 i) \<noteq> 0" by (simp add: word_uint_eq_iff)
    with False show ?thesis by auto
  qed
qed

lemma memcmp_zero_iff: "memcmp s1 s2 n = 0 \<longleftrightarrow> (\<forall>j < unat n. s1 j = s2 j)"
  by (simp add: memcmp_def memcmp_loop_zero)

lemma strncmp_loop_zero:
  "strncmp_loop p q i n = 0 \<longleftrightarrow>
     cstr (\<lambda>j. p (i + j)) n = cstr (\<lambda>j. q (i + j)) n"
proof (induction n arbitrary: i)
  case 0
  then show ?case by simp
next
  case (Suc n)
  have shift: "(\<lambda>j. r (i + j)) \<circ> Suc = (\<lambda>j. r (Suc i + j))" for r :: "nat \<Rightarrow> u8"
    by (rule ext) simp
  show ?case
    using Suc.IH [of "Suc i"]
    by (auto simp: cstr_Suc shift word_uint_eq_iff [symmetric] uint_0_iff)
qed

lemma strncmp_zero_iff: "strncmp p q n = 0 \<longleftrightarrow> cstr p (unat n) = cstr q (unat n)"
  by (simp add: strncmp_def strncmp_loop_zero)

lemma strlen_from_zero: "strlen_from s n = Some k \<Longrightarrow> s k = 0"
proof (rule strlen_from.raw_induct [where P = "\<lambda>s n k. s k = 0"])
  fix f s n k
  assume IH: "\<And>s n k. f s n = Some k \<Longrightarrow> s k = (0 :: u8)"
    and eq: "(if s n = 0 then Some n else f s (Suc n)) = Some k"
  then show "s k = 0" by (auto split: if_splits)
qed

lemma strlen_from_first:
  "\<lbrakk>n \<le> k; s k = 0; \<forall>j. n \<le> j \<and> j < k \<longrightarrow> s j \<noteq> 0\<rbrakk> \<Longrightarrow> strlen_from s n = Some k"
proof (induction "k - n" arbitrary: n)
  case 0
  then show ?case by (simp add: strlen_from.simps)
next
  case (Suc d)
  then have "strlen_from s (Suc n) = Some k" by simp
  with Suc show ?case by (subst strlen_from.simps) auto
qed

lemma strlen_Some_iff: "strlen s = Some k \<longleftrightarrow> s k = 0 \<and> (\<forall>j < k. s j \<noteq> 0)"
proof
  assume l: "strlen s = Some k"
  then have zero: "s k = 0" by (simp add: strlen_def strlen_from_zero)
  define f where "f = (LEAST j. s j = 0)"
  have "s f = 0" and "\<forall>j < f. s j \<noteq> 0"
    using zero unfolding f_def by (auto intro: LeastI dest: not_less_Least)
  then have "strlen s = Some f" by (simp add: strlen_def strlen_from_first)
  with l \<open>s f = 0\<close> \<open>\<forall>j < f. s j \<noteq> 0\<close> show "s k = 0 \<and> (\<forall>j < k. s j \<noteq> 0)" by simp
next
  assume "s k = 0 \<and> (\<forall>j < k. s j \<noteq> 0)"
  then show "strlen s = Some k" by (simp add: strlen_def strlen_from_first)
qed

lemma strlen_None_iff: "strlen s = None \<longleftrightarrow> (\<forall>k. s k \<noteq> 0)"
proof
  assume none: "strlen s = None"
  show "\<forall>k. s k \<noteq> 0"
  proof (rule ccontr)
    assume "\<not> (\<forall>k. s k \<noteq> 0)"
    then obtain j where "s j = 0" by blast
    define f where "f = (LEAST j. s j = 0)"
    have "s f = 0" and "\<forall>j < f. s j \<noteq> 0"
      using \<open>s j = 0\<close> unfolding f_def by (auto intro: LeastI dest: not_less_Least)
    with none strlen_Some_iff [of s f] show False by simp
  qed
next
  assume "\<forall>k. s k \<noteq> 0"
  then show "strlen s = None"
    using strlen_Some_iff by (metis not_Some_eq)
qed

text \<open>
  \<open>safestrcpy\<close> into \<open>n = k + 1\<close> bytes: nothing behind the buffer is written, and the buffer
  ends up holding the first \<open>k\<close> bytes of the source string, terminated.
\<close>

lemma safestrcpy_loop_frame:
  "\<lbrakk>Suc k < 2 ^ 64; \<not> unat (a - s) < Suc k\<rbrakk> \<Longrightarrow> safestrcpy_loop m s t k a = m a"
proof (induction k arbitrary: m s t)
  case 0
  then show ?case by (auto simp: fun_upd_def)
next
  case (Suc k)
  have "a \<noteq> s" using Suc.prems by auto
  moreover have "\<not> unat (a - (s + 1)) < Suc k"
    using Suc.prems \<open>a \<noteq> s\<close> by (subst offset_step) auto
  moreover from this have "a \<noteq> s + 1" by auto
  ultimately show ?case using Suc by (simp add: Let_def)
qed

lemma safestrcpy_loop_cstr:
  "\<lbrakk>Suc k < 2 ^ 64; \<forall>i < k. \<forall>j \<le> k. t + of_nat i \<noteq> s + of_nat j\<rbrakk> \<Longrightarrow>
   cstr (at (safestrcpy_loop m s t k) s) (Suc k) = cstr (at m t) k"
proof (induction k arbitrary: m s t)
  case 0
  then show ?case by (simp add: cstr_Suc at_def)
next
  case (Suc k)
  have apart: "\<forall>i < k. \<forall>j \<le> k. t + 1 + of_nat i \<noteq> s + 1 + of_nat j"
  proof (intro allI impI)
    fix i j assume "i < k" "j \<le> k"
    then have "t + of_nat (Suc i) \<noteq> s + of_nat (Suc j)"
      using Suc.prems(2) by (metis Suc_le_mono Suc_less_eq)
    then show "t + 1 + of_nat i \<noteq> s + 1 + of_nat j" by (simp add: algebra_simps)
  qed
  show ?case
  proof (cases "m t = 0")
    case True
    then show ?thesis by (simp add: cstr_Suc at_def Let_def)
  next
    case False
    let ?m = "m(s := m t)" let ?m' = "safestrcpy_loop ?m (s + 1) (t + 1) k"
    have keep: "?m' s = m t"
      using safestrcpy_loop_frame [of k s "s + 1" ?m "t + 1"] Suc.prems(1)
        offset_self [of "Suc k" s] by simp
    have "cstr (at ?m' (s + 1)) (Suc k) = cstr (at ?m (t + 1)) k"
      using Suc.prems apart by (intro Suc.IH) auto
    also have "\<dots> = cstr (at m (t + 1)) k"
    proof (rule cstr_cong)
      fix i assume "i < k"
      then have "t + of_nat (Suc i) \<noteq> s + of_nat 0"
        using Suc.prems(2) by (metis Suc_less_eq zero_le)
      then show "at ?m (t + 1) i = at m (t + 1) i"
        by (simp add: at_def algebra_simps)
    qed
    finally show ?thesis
      using False keep
      by (simp add: cstr_Suc [of _ "Suc k"] cstr_Suc [of "at m t"] at_shift Let_def)
         (simp add: at_def)
  qed
qed

section \<open>Properties\<close>

text \<open>C20: \<open>memmove\<close> copies a block as it was before the call, whether or not source and
  destination overlap and in whichever direction, and changes nothing else: for blocks that do not
  run over the end of the address space, the new byte at offset \<open>i\<close> of the destination is the old
  byte at offset \<open>i\<close> of the source.\<close>

theorem memmove_copies_block:
  assumes "unat src + unat n < 2 ^ 64" "unat dst + unat n < 2 ^ 64"
  shows "bytes_at (memmove m dst src n) dst (unat n) = bytes_at m src (unat n) \<and>
    (\<forall>a. \<not> unat (a - dst) < unat n \<longrightarrow> memmove m dst src n a = m a)"
proof -
  have "at (memmove m dst src n) dst i = at m src i" if "i < unat n" for i
  proof -
    have "unat (of_nat i :: u64) = i"
      using that unat_u32_bound [of n] by (intro unat_of_nat_u64) simp
    then show ?thesis using that by (simp add: memmove_eq [OF assms] at_def)
  qed
  then show ?thesis by (simp add: bytes_at_def memmove_eq [OF assms])
qed

theorem memmove_copies_block_witness:
  "bytes_at (memmove (\<lambda>a. ucast a) 102 100 4) 102 4 = [100, 101, 102, 103]"
  using memmove_copies_block [of 100 4 102 "\<lambda>a. ucast a"]
  by (simp add: bytes_at_def at_def upt_rec)

text \<open>C21: \<open>safestrcpy\<close> into a buffer of \<open>n > 0\<close> bytes that does not overlap the source leaves the
  longest prefix of the source string that fits, always terminated within the buffer, and writes
  nothing outside the buffer.\<close>

theorem safestrcpy_terminated_prefix:
  assumes "0 < sint (n :: u32)" "k = nat (sint n) - 1"
    "\<forall>i < k. \<forall>j \<le> k. t + of_nat i \<noteq> s + of_nat j"
  shows "cstr (at (safestrcpy m s t n) s) (Suc k) = cstr (at m t) k \<and>
    (\<forall>a. \<not> unat (a - s) < Suc k \<longrightarrow> safestrcpy m s t n a = m a)"
proof -
  have "sint n < 2 ^ 31" using sint_lt [of n] by simp
  then have k: "Suc k < 2 ^ 64" using assms(1,2) by simp
  have "safestrcpy m s t n = safestrcpy_loop m s t k"
    using assms(1,2) by (simp add: safestrcpy_def)
  then show ?thesis
    using safestrcpy_loop_cstr [OF k assms(3)] safestrcpy_loop_frame [OF k] by simp
qed

theorem safestrcpy_terminated_prefix_witness:
  "cstr (at (safestrcpy (\<lambda>a. if a < 8 then 104 else 0) 16 0 4) 16) 4 = [104, 104, 104]"
proof -
  have "\<forall>i < 3. \<forall>j \<le> 3. (0 :: u64) + of_nat i \<noteq> 16 + of_nat j"
  proof (intro allI impI)
    fix i j :: nat assume "i < 3" "j \<le> 3"
    then have "of_nat i \<noteq> (of_nat (16 + j) :: u64)" by (subst of_nat_u64_eq_iff) auto
    then show "(0 :: u64) + of_nat i \<noteq> 16 + of_nat j" by simp
  qed
  then show ?thesis
    using safestrcpy_terminated_prefix [of 4 3 0 16 "\<lambda>a. if a < 8 then 104 else 0"]
    by (simp add: cstr_def at_def upt_rec)
qed

end
