(* ===== verification/Memory.thy ===== *)
theory Memory
  imports Cstring
begin

text \<open>
  Little-endian 64-bit loads and stores in byte memory, which is how RISC-V reads and writes the
  \<open>struct run\<close> links of the page allocator and the page-table entries, and how such accesses
  commute when they fall into different pages or different slots of a page.
\<close>

unbundle bit_operations_syntax

definition load64 :: "bytemem \<Rightarrow> u64 \<Rightarrow> u64" where
  "load64 m a =
     foldr (\<lambda>i acc. push_bit (8 * i) (ucast (m (a + of_nat i))) OR acc) [0..<8] 0"

definition store64 :: "bytemem \<Rightarrow> u64 \<Rightarrow> u64 \<Rightarrow> bytemem" where
  "store64 m a v =
     (\<lambda>b. if unat (b - a) < 8 then ucast (drop_bit (8 * unat (b - a)) v) else m b)"

text \<open>Entry \<open>i\<close> of a page of 512 64-bit words.\<close>

definition slot :: "u64 \<Rightarrow> nat \<Rightarrow> u64" where
  "slot p i = p + 8 * of_nat i"

lemma bit_foldr_or:
  "bit (foldr (\<lambda>i acc. f i OR acc) xs (0 :: u64)) n \<longleftrightarrow> (\<exists>i \<in> set xs. bit (f i) n)"
  by (induction xs) (auto simp: bit_or_iff)

lemma bit_byte_of_word:
  "bit (push_bit (8 * i) (ucast (b :: u8)) :: u64) n \<longleftrightarrow>
     n < 64 \<and> n div 8 = i \<and> bit b (n mod 8)"
proof -
  have "n div 8 = i \<longleftrightarrow> 8 * i \<le> n \<and> n - 8 * i < 8" by auto
  moreover have "n div 8 = i \<Longrightarrow> n - 8 * i = n mod 8" by (metis minus_mult_div_eq_mod)
  ultimately show ?thesis
    by (auto simp: bit_push_bit_iff bit_ucast_iff not_le dest: bit_imp_le_length)
qed

lemma bit_load64:
  "bit (load64 m a) n \<longleftrightarrow> n < 64 \<and> bit (m (a + of_nat (n div 8))) (n mod 8)"
  unfolding load64_def bit_foldr_or bit_byte_of_word by auto

lemma load64_cong:
  "(\<And>i. i < 8 \<Longrightarrow> m' (a + of_nat i) = m (a + of_nat i)) \<Longrightarrow> load64 m' a = load64 m a"
  by (rule bit_word_eqI) (simp add: bit_load64)

lemma load64_store64_same [mem_simps]: "load64 (store64 m a v) a = v"
proof (rule bit_word_eqI)
  fix n assume n: "n < LENGTH(64)"
  then have "unat (of_nat (n div 8) :: u64) = n div 8" and "n div 8 < 8"
    by (auto simp: unat_of_nat_u64)
  with n show "bit (load64 (store64 m a v) a) n = bit v n"
    by (simp add: bit_load64 store64_def bit_simps)
qed

section \<open>Slots of pages\<close>

lemma page_addr_eq:
  "\<lbrakk>page_aligned p; page_aligned q; i < 4096; j < 4096\<rbrakk> \<Longrightarrow>
   p + of_nat i = q + of_nat j \<longleftrightarrow> p = q \<and> i = j"
  using page_of_add [of p i] page_of_add [of q j] of_nat_u64_inj [of i j] by auto

lemma slot_byte: "slot p i + of_nat k = p + of_nat (8 * i + k)"
  by (simp add: slot_def algebra_simps)

lemma slot_page: "\<lbrakk>page_aligned p; i < 512; k < 8\<rbrakk> \<Longrightarrow> page_of (slot p i + of_nat k) = p"
  by (simp add: slot_byte page_of_add del: of_nat_add of_nat_mult)

lemma slot_page0: "\<lbrakk>page_aligned p; i < 512\<rbrakk> \<Longrightarrow> page_of (slot p i) = p"
  using slot_page [of p i 0] by simp

lemma store64_outside: "page_aligned p \<Longrightarrow> i < 512 \<Longrightarrow> page_of b \<noteq> p \<Longrightarrow>
    store64 m (slot p i) v b = m b"
proof -
  assume pa: "page_aligned p" "i < 512" "page_of b \<noteq> p"
  have "\<not> unat (b - slot p i) < 8"
  proof
    assume lt: "unat (b - slot p i) < 8"
    have "b = slot p i + of_nat (unat (b - slot p i))" by simp
    with slot_page [OF pa(1,2) lt] pa(3) show False by simp
  qed
  then show ?thesis by (simp add: store64_def)
qed

lemma load64_store64_slot [mem_simps]:
  assumes "page_aligned p" "page_aligned q" "i < 512" "j < 512"
  shows "load64 (store64 m (slot p i) v) (slot q j) =
    (if p = q \<and> i = j then v else load64 m (slot q j))"
proof (cases "p = q \<and> i = j")
  case True
  then show ?thesis by (simp add: load64_store64_same)
next
  case False
  have "load64 (store64 m (slot p i) v) (slot q j) = load64 m (slot q j)"
  proof (rule load64_cong)
    fix k :: nat assume k: "k < 8"
    let ?b = "slot q j + of_nat k"
    have "\<not> unat (?b - slot p i) < 8"
    proof
      assume lt: "unat (?b - slot p i) < 8"
      define l where "l = unat (?b - slot p i)"
      have "?b = slot p i + of_nat l" by (simp add: l_def)
      then have "q + of_nat (8 * j + k) = p + of_nat (8 * i + l)" by (simp only: slot_byte)
      then have "q = p \<and> 8 * j + k = 8 * i + l"
        using assms k lt by (subst (asm) page_addr_eq) (auto simp: l_def)
      then show False using False k lt by (auto simp: l_def)
    qed
    then show "store64 m (slot p i) v ?b = m ?b" by (simp add: store64_def)
  qed
  with False show ?thesis by auto
qed

text \<open>A memory that agrees on a page agrees on its slots.\<close>

lemma load64_page_cong:
  "\<lbrakk>page_aligned p; i < 512; \<And>a. page_of a = p \<Longrightarrow> m' a = m a\<rbrakk> \<Longrightarrow>
   load64 m' (slot p i) = load64 m (slot p i)"
  by (rule load64_cong) (simp add: slot_page)

section \<open>Filling a page\<close>

definition fill_page :: "bytemem \<Rightarrow> u64 \<Rightarrow> u8 \<Rightarrow> bytemem" where
  "fill_page m p c = (\<lambda>a. if page_of a = p then c else m a)"

lemma page_offset: "page_aligned p \<Longrightarrow> unat (a - p) < 4096 \<longleftrightarrow> page_of a = p"
proof
  assume "page_aligned p" and lt: "unat (a - p) < 4096"
  then show "page_of a = p"
    using page_of_add [of p "unat (a - p)"] by simp
next
  assume p: "page_of a = p"
  have "a - page_of a = take_bit 12 a"
  proof -
    have "a = page_of a OR take_bit 12 a"
      by (rule bit_word_eqI) (auto simp: bit_page_of bit_simps)
    moreover have "page_of a AND take_bit 12 a = 0"
      by (rule bit_word_eqI) (auto simp: bit_page_of bit_simps)
    ultimately have "a = page_of a + take_bit 12 a"
      by (metis disjunctive_add_eq_or)
    then show ?thesis by (metis add_diff_cancel_left')
  qed
  moreover have "unat (take_bit 12 a) < 2 ^ 12"
    using take_bit_nat_less_exp [of 12 "unat a"] by (simp add: unsigned_take_bit_eq)
  ultimately show "unat (a - p) < 4096" using p by simp
qed

lemma memset_page: "page_aligned p \<Longrightarrow> memset m p c 4096 = fill_page m p (ucast c)"
  by (rule ext) (simp add: memset_eq fill_page_def page_offset)

lemma fill_page_outside: "page_of a \<noteq> p \<Longrightarrow> fill_page m p c a = m a"
  by (simp add: fill_page_def)

lemma load64_fill_page_zero: "\<lbrakk>page_aligned p; i < 512\<rbrakk> \<Longrightarrow> load64 (fill_page m p 0) (slot p i) = 0"
  by (rule bit_word_eqI)
    (simp add: bit_load64 fill_page_def slot_page)

end
