(* ===== verification/Kstate.thy ===== *)
theory Kstate
  imports Memory
begin

text \<open>
  The bottom layer of the kernel state, shared by every component: which spinlocks the running
  hart holds, the sleep-locks, the process table (\<open>kernel/proc.h\<close>) and the running process;
  with the operations every component calls on it: \<open>acquire\<close>/\<open>release\<close> as seen by one
  hart, \<open>myproc\<close>, \<open>wakeup\<close>, \<open>kill\<close>, \<open>setkilled\<close>, \<open>killed\<close>, the two
  halves of \<open>sleep\<close> around its switch to the scheduler (all \<open>kernel/proc.c\<close>) and
  \<open>kernel/sleeplock.c\<close>.  The state is an extensible record: each component adds its own
  fields, and the operations here apply to every extension.

  A component function runs on one hart between the points where it sleeps; the locks it takes
  make that run atomic for the others, which the theory Spinlock justifies for the code of
  \<open>kernel/spinlock.c\<close>.  A lock that is not released, released twice or taken twice is
  visible here as the panic the code raises.
\<close>

section \<open>Locks, channels, processes\<close>

text \<open>The sleep-locks, by the object they are part of: a buffer or an in-memory inode.\<close>

datatype slock = BufSL nat | InodeSL nat

datatype lockid =
    KmemLock | BcacheLock | LogLock | ItableLock | FtableLock | WaitLock | PidLock
  | TicksLock | ConsLock | UartTxLock | VdiskLock | PrLock
  | PipeLock u64 | ProcLock nat | SleepLk slock

text \<open>
  Sleep channels are addresses of kernel objects in the code; distinct objects have distinct
  addresses, so a channel is named by its object.  \<open>ChNone\<close> is the null channel.
\<close>

datatype chan =
    ChNone | ChSleepLock slock | ChLog | ChPipeRead u64 | ChPipeWrite u64 | ChProc nat
  | ChTicks | ChCons | ChUartTx | ChDiskFree | ChBuf nat

datatype procstate = UNUSED | USED | SLEEPING | RUNNABLE | RUNNING | ZOMBIE

text \<open>Saved registers for kernel context switches; \<open>c_s\<close> holds \<open>s0\<close> to \<open>s11\<close>.\<close>

record kcontext =
  c_ra :: u64
  c_sp :: u64
  c_s :: "u64 list"

text \<open>
  \<open>struct proc\<close>.  Pointers into kernel tables are indices: \<open>p_parent\<close> into the process
  table, \<open>p_ofile\<close> into the file table, \<open>p_cwd\<close> into the inode table.  The lock of process
  \<open>i\<close> is \<open>ProcLock i\<close>.
\<close>

record proc =
  p_state :: procstate
  p_chan :: chan
  p_killed :: int
  p_xstate :: int
  p_pid :: int
  p_parent :: "nat option"
  p_kstack :: u64
  p_sz :: u64
  p_pagetable :: u64
  p_trapframe :: u64
  p_context :: kcontext
  p_ofile :: "nat option list"
  p_cwd :: "nat option"
  p_name :: "u8 list"

record sleeplock =
  sl_locked :: bool
  sl_pid :: int

record kst =
  lks :: "lockid \<Rightarrow> bool"
  slks :: "slock \<Rightarrow> sleeplock"
  procs :: "nat \<Rightarrow> proc"
  curproc :: "nat option"

text \<open>Static storage is zero at boot: every slot \<open>UNUSED\<close>, every lock free.\<close>

definition zero_proc :: proc where
  "zero_proc = \<lparr>p_state = UNUSED, p_chan = ChNone, p_killed = 0, p_xstate = 0, p_pid = 0,
     p_parent = None, p_kstack = 0, p_sz = 0, p_pagetable = 0, p_trapframe = 0,
     p_context = \<lparr>c_ra = 0, c_sp = 0, c_s = replicate 12 0\<rparr>,
     p_ofile = replicate 16 None, p_cwd = None, p_name = replicate 16 0\<rparr>"

section \<open>Spinlocks as one hart sees them\<close>

definition acquire :: "lockid \<Rightarrow> 'a kst_scheme \<Rightarrow> 'a kst_scheme res" where
  "acquire l s =
     (if lks s l then Fail (Panic ''acquire'') else Ok (s\<lparr>lks := (lks s)(l := True)\<rparr>))"

definition release :: "lockid \<Rightarrow> 'a kst_scheme \<Rightarrow> 'a kst_scheme res" where
  "release l s =
     (if \<not> lks s l then Fail (Panic ''release'') else Ok (s\<lparr>lks := (lks s)(l := False)\<rparr>))"

text \<open>No spinlock is held: the state between two kernel entries.\<close>

definition quiet :: "'a kst_scheme \<Rightarrow> bool" where
  "quiet s \<longleftrightarrow> lks s = (\<lambda>_. False)"

lemma acquire_free [res_simps]: "\<not> lks s l \<Longrightarrow> acquire l s = Ok (s\<lparr>lks := (lks s)(l := True)\<rparr>)"
  by (simp add: acquire_def)

lemma release_held [res_simps]: "lks s l \<Longrightarrow> release l s = Ok (s\<lparr>lks := (lks s)(l := False)\<rparr>)"
  by (simp add: release_def)

lemma acquire_held: "lks s l \<Longrightarrow> acquire l s = Fail (Panic ''acquire'')"
  by (simp add: acquire_def)

lemma quietD [simp]: "quiet s \<Longrightarrow> \<not> lks s l"
  by (simp add: quiet_def)

lemma lks_restore [simp]: "\<not> lks s l \<Longrightarrow> (lks s)(l := False) = lks s"
  by (rule fun_upd_False_idem)

section \<open>kernel/proc.c: the current process, wakeup, kill\<close>

definition myproc :: "'a kst_scheme \<Rightarrow> nat option" where
  "myproc s = curproc s"

text \<open>Reading a field of \<open>myproc()\<close> when no process runs is a null dereference.\<close>

definition mypid :: "'a kst_scheme \<Rightarrow> int res" where
  "mypid s = (case myproc s of None \<Rightarrow> Fail Undefined | Some p \<Rightarrow> Ok (p_pid (procs s p)))"

definition set_proc :: "nat \<Rightarrow> (proc \<Rightarrow> proc) \<Rightarrow> 'a kst_scheme \<Rightarrow> 'a kst_scheme" where
  "set_proc p f s = s\<lparr>procs := (procs s)(p := f (procs s p))\<rparr>"

fun wakeup_loop :: "chan \<Rightarrow> nat list \<Rightarrow> 'a kst_scheme \<Rightarrow> 'a kst_scheme res" where
  "wakeup_loop c [] s = Ok s"
| "wakeup_loop c (p # ps) s =
     (if Some p \<noteq> myproc s then
        andthen (acquire (ProcLock p) s) (\<lambda>s.
        andthen (release (ProcLock p)
          (if p_state (procs s p) = SLEEPING \<and> p_chan (procs s p) = c
           then set_proc p (p_state_update (\<lambda>_. RUNNABLE)) s else s)) (\<lambda>s.
        wakeup_loop c ps s))
      else wakeup_loop c ps s)"

definition wakeup :: "chan \<Rightarrow> 'a kst_scheme \<Rightarrow> 'a kst_scheme res" where
  "wakeup c s = wakeup_loop c [0..<NPROC] s"

fun kill_loop :: "int \<Rightarrow> nat list \<Rightarrow> 'a kst_scheme \<Rightarrow> (int \<times> 'a kst_scheme) res" where
  "kill_loop pid [] s = Ok (-1, s)"
| "kill_loop pid (p # ps) s =
     andthen (acquire (ProcLock p) s) (\<lambda>s.
     if p_pid (procs s p) = pid then
       andthen (release (ProcLock p)
         (set_proc p (\<lambda>q. let q = q\<lparr>p_killed := 1\<rparr> in
            if p_state q = SLEEPING then q\<lparr>p_state := RUNNABLE\<rparr> else q) s)) (\<lambda>s.
       Ok (0, s))
     else andthen (release (ProcLock p) s) (\<lambda>s. kill_loop pid ps s))"

definition kill :: "int \<Rightarrow> 'a kst_scheme \<Rightarrow> (int \<times> 'a kst_scheme) res" where
  "kill pid s = kill_loop pid [0..<NPROC] s"

definition setkilled :: "nat \<Rightarrow> 'a kst_scheme \<Rightarrow> 'a kst_scheme res" where
  "setkilled p s =
     andthen (acquire (ProcLock p) s) (\<lambda>s.
     release (ProcLock p) (set_proc p (p_killed_update (\<lambda>_. 1)) s))"

definition killed :: "nat \<Rightarrow> 'a kst_scheme \<Rightarrow> (int \<times> 'a kst_scheme) res" where
  "killed p s =
     andthen (acquire (ProcLock p) s) (\<lambda>s.
     let k = p_killed (procs s p) in
     andthen (release (ProcLock p) s) (\<lambda>s. Ok (k, s)))"

text \<open>
  \<open>sleep(chan, lk)\<close> up to its call of \<open>sched\<close>, with the scheduler's release of the
  process lock after the switch; and from the return of \<open>sched\<close> (the scheduler has taken the
  process lock and made \<open>p\<close> the running process) to its end.
\<close>

definition sleep_enter :: "chan \<Rightarrow> lockid \<Rightarrow> 'a kst_scheme \<Rightarrow> 'a kst_scheme res" where
  "sleep_enter c lk s =
     (case myproc s of None \<Rightarrow> Fail Undefined | Some p \<Rightarrow>
      andthen (acquire (ProcLock p) s) (\<lambda>s.
      andthen (release lk s) (\<lambda>s.
      release (ProcLock p)
        ((set_proc p (\<lambda>q. q\<lparr>p_chan := c, p_state := SLEEPING\<rparr>) s)\<lparr>curproc := None\<rparr>))))"

definition sleep_exit :: "nat \<Rightarrow> lockid \<Rightarrow> 'a kst_scheme \<Rightarrow> 'a kst_scheme res" where
  "sleep_exit p lk s =
     andthen (acquire (ProcLock p)
       ((set_proc p (p_state_update (\<lambda>_. RUNNING)) s)\<lparr>curproc := Some p\<rparr>)) (\<lambda>s.
     andthen (release (ProcLock p) (set_proc p (p_chan_update (\<lambda>_. ChNone)) s)) (\<lambda>s.
     acquire lk s))"

section \<open>kernel/sleeplock.c\<close>

definition initsleeplock :: "slock \<Rightarrow> 'a kst_scheme \<Rightarrow> 'a kst_scheme" where
  "initsleeplock l s =
     s\<lparr>lks := (lks s)(SleepLk l := False),
       slks := (slks s)(l := \<lparr>sl_locked = False, sl_pid = 0\<rparr>)\<rparr>"

text \<open>A held sleep-lock puts the caller to sleep.\<close>

definition acquiresleep :: "slock \<Rightarrow> 'a kst_scheme \<Rightarrow> 'a kst_scheme res" where
  "acquiresleep l s =
     andthen (acquire (SleepLk l) s) (\<lambda>s.
     if sl_locked (slks s l) then Fail Sleeping
     else andthen (mypid s) (\<lambda>pid.
       release (SleepLk l) (s\<lparr>slks := (slks s)(l := \<lparr>sl_locked = True, sl_pid = pid\<rparr>)\<rparr>)))"

definition releasesleep :: "slock \<Rightarrow> 'a kst_scheme \<Rightarrow> 'a kst_scheme res" where
  "releasesleep l s =
     andthen (acquire (SleepLk l) s) (\<lambda>s.
     andthen (wakeup (ChSleepLock l)
       (s\<lparr>slks := (slks s)(l := \<lparr>sl_locked = False, sl_pid = 0\<rparr>)\<rparr>)) (\<lambda>s.
     release (SleepLk l) s))"

text \<open>The process id is only read when the lock is held (\<open>&&\<close> is short-circuit).\<close>

definition holdingsleep :: "slock \<Rightarrow> 'a kst_scheme \<Rightarrow> (bool \<times> 'a kst_scheme) res" where
  "holdingsleep l s =
     andthen (acquire (SleepLk l) s) (\<lambda>s.
     andthen (if sl_locked (slks s l)
              then andthen (mypid s) (\<lambda>pid. Ok (sl_pid (slks s l) = pid))
              else Ok False) (\<lambda>r.
     andthen (release (SleepLk l) s) (\<lambda>s. Ok (r, s))))"

section \<open>What the operations do\<close>

text \<open>The process table after \<open>wakeup(c)\<close> by process \<open>me\<close>, for the slots in \<open>ps\<close>.\<close>

definition wake :: "chan \<Rightarrow> nat option \<Rightarrow> nat set \<Rightarrow> (nat \<Rightarrow> proc) \<Rightarrow> nat \<Rightarrow> proc" where
  "wake c me P pt = (\<lambda>i. if i \<in> P \<and> Some i \<noteq> me \<and> p_state (pt i) = SLEEPING \<and> p_chan (pt i) = c
                         then (pt i)\<lparr>p_state := RUNNABLE\<rparr> else pt i)"

lemma wakeup_loop_eq:
  "\<lbrakk>\<forall>p \<in> set ps. \<not> lks s (ProcLock p); distinct ps\<rbrakk> \<Longrightarrow>
   wakeup_loop c ps s = Ok (s\<lparr>procs := wake c (curproc s) (set ps) (procs s)\<rparr>)"
proof (induction ps arbitrary: s)
  case Nil
  then show ?case by (simp add: wake_def)
next
  case (Cons p ps)
  let ?s = "if Some p \<noteq> curproc s \<and> p_state (procs s p) = SLEEPING \<and> p_chan (procs s p) = c
            then set_proc p (p_state_update (\<lambda>_. RUNNABLE)) s else s"
  have step: "wakeup_loop c (p # ps) s = wakeup_loop c ps ?s"
    using Cons.prems by (simp add: res_simps myproc_def set_proc_def)
  have "wakeup_loop c ps ?s = Ok (?s\<lparr>procs := wake c (curproc ?s) (set ps) (procs ?s)\<rparr>)"
    using Cons.prems by (intro Cons.IH) (auto simp: set_proc_def)
  moreover have "?s\<lparr>procs := wake c (curproc ?s) (set ps) (procs ?s)\<rparr>
      = s\<lparr>procs := wake c (curproc s) (set (p # ps)) (procs s)\<rparr>"
  proof -
    have "wake c (curproc ?s) (set ps) (procs ?s) = wake c (curproc s) (set (p # ps)) (procs s)"
      using Cons.prems by (auto simp: wake_def set_proc_def fun_eq_iff)
    then show ?thesis by (simp add: set_proc_def)
  qed
  ultimately show ?case using step by simp
qed

lemma wakeup_eq [res_simps]:
  "\<forall>p < 64. \<not> lks s (ProcLock p) \<Longrightarrow>
   wakeup c s = Ok (s\<lparr>procs := wake c (curproc s) {..<NPROC} (procs s)\<rparr>)"
  unfolding wakeup_def by (subst wakeup_loop_eq) (auto simp: atLeast0LessThan [symmetric])

lemma kill_loop_eq:
  "\<forall>p \<in> set ps. \<not> lks s (ProcLock p) \<Longrightarrow>
   kill_loop pid ps s =
     (case find (\<lambda>p. p_pid (procs s p) = pid) ps of
        None \<Rightarrow> Ok (-1, s)
      | Some p \<Rightarrow> Ok (0, set_proc p (\<lambda>q. q\<lparr>p_killed := 1,
          p_state := (if p_state q = SLEEPING then RUNNABLE else p_state q)\<rparr>) s))"
  by (induction ps) (auto simp: res_simps set_proc_def Let_def)

lemma kill_eq [res_simps]:
  "quiet s \<Longrightarrow> kill pid s =
     (case find (\<lambda>p. p_pid (procs s p) = pid) [0..<NPROC] of
        None \<Rightarrow> Ok (-1, s)
      | Some p \<Rightarrow> Ok (0, set_proc p (\<lambda>q. q\<lparr>p_killed := 1,
          p_state := (if p_state q = SLEEPING then RUNNABLE else p_state q)\<rparr>) s))"
  unfolding kill_def by (rule kill_loop_eq) simp

lemma killed_eq [res_simps]:
  "\<not> lks s (ProcLock p) \<Longrightarrow> killed p s = Ok (p_killed (procs s p), s)"
  by (simp add: killed_def res_simps)

lemma setkilled_eq [res_simps]:
  "\<not> lks s (ProcLock p) \<Longrightarrow> setkilled p s = Ok (set_proc p (p_killed_update (\<lambda>_. 1)) s)"
  by (simp add: setkilled_def res_simps set_proc_def)

lemma acquiresleep_eq [res_simps]:
  "\<lbrakk>\<not> lks s (SleepLk l); \<not> sl_locked (slks s l); curproc s = Some p\<rbrakk> \<Longrightarrow>
   acquiresleep l s =
     Ok (s\<lparr>slks := (slks s)(l := \<lparr>sl_locked = True, sl_pid = p_pid (procs s p)\<rparr>)\<rparr>)"
  by (simp add: acquiresleep_def res_simps mypid_def myproc_def)

lemma acquiresleep_Ok:
  "acquiresleep l s = Ok t \<Longrightarrow>
   \<not> lks s (SleepLk l) \<and> \<not> sl_locked (slks s l) \<and>
   (\<exists>p. curproc s = Some p \<and>
     t = s\<lparr>slks := (slks s)(l := \<lparr>sl_locked = True, sl_pid = p_pid (procs s p)\<rparr>)\<rparr>)"
  by (auto simp: acquiresleep_def acquire_def release_def mypid_def myproc_def andthen_eq_Ok
      split: if_splits option.splits)

lemma releasesleep_eq [res_simps]:
  "\<lbrakk>\<not> lks s (SleepLk l); \<forall>p < 64. \<not> lks s (ProcLock p)\<rbrakk> \<Longrightarrow>
   releasesleep l s =
     Ok (s\<lparr>slks := (slks s)(l := \<lparr>sl_locked = False, sl_pid = 0\<rparr>),
           procs := wake (ChSleepLock l) (curproc s) {..<NPROC} (procs s)\<rparr>)"
  by (simp add: releasesleep_def res_simps)

lemma holdingsleep_eq [res_simps]:
  "\<lbrakk>\<not> lks s (SleepLk l); curproc s = Some p\<rbrakk> \<Longrightarrow>
   holdingsleep l s =
     Ok (sl_locked (slks s l) \<and> sl_pid (slks s l) = p_pid (procs s p), s)"
  by (simp add: holdingsleep_def res_simps mypid_def myproc_def)

lemma holdingsleep_True:
  "holdingsleep l s = Ok (True, t) \<Longrightarrow> t = s \<and> sl_locked (slks s l)"
  by (auto simp: holdingsleep_def acquire_def release_def andthen_eq_Ok split: if_splits)

text \<open>A wakeup changes nothing but the run state of sleepers.\<close>

lemma wake_fields [simp]:
  "p_pid (wake c me P pt i) = p_pid (pt i)"
  "p_chan (wake c me P pt i) = p_chan (pt i)"
  "p_killed (wake c me P pt i) = p_killed (pt i)"
  "p_parent (wake c me P pt i) = p_parent (pt i)"
  "p_ofile (wake c me P pt i) = p_ofile (pt i)"
  "p_cwd (wake c me P pt i) = p_cwd (pt i)"
  "p_pagetable (wake c me P pt i) = p_pagetable (pt i)"
  "p_sz (wake c me P pt i) = p_sz (pt i)"
  by (simp_all add: wake_def)

lemma wake_other [simp]: "Some i = me \<Longrightarrow> wake c me P pt i = pt i"
  by (auto simp: wake_def)

lemma wakeup_loop_Ok: "wakeup_loop c ps s = Ok t \<Longrightarrow> \<exists>P. t = s\<lparr>procs := P\<rparr>"
proof (induction ps arbitrary: s)
  case Nil
  then have "t = s\<lparr>procs := procs s\<rparr>" by simp
  then show ?case by blast
next
  case (Cons p ps)
  show ?case
  proof (cases "Some p \<noteq> myproc s")
    case True
    then have free: "\<not> lks s (ProcLock p)" using Cons.prems by (auto simp: acquire_def)
    let ?P = "if p_state (procs s p) = SLEEPING \<and> p_chan (procs s p) = c
      then (procs s)(p := (procs s p)\<lparr>p_state := RUNNABLE\<rparr>) else procs s"
    have "wakeup_loop c ps (s\<lparr>procs := ?P\<rparr>) = Ok t"
      using Cons.prems True free by (auto simp: res_simps set_proc_def split: if_splits)
    from Cons.IH [OF this] show ?thesis by auto
  next
    case False
    then show ?thesis using Cons.IH Cons.prems by auto
  qed
qed

lemma wakeup_Ok: "wakeup c s = Ok t \<Longrightarrow> \<exists>P. t = s\<lparr>procs := P\<rparr>"
  unfolding wakeup_def by (rule wakeup_loop_Ok)

text \<open>Process tables that differ only in who runs and who sleeps where.\<close>

definition same_procs :: "(nat \<Rightarrow> proc) \<Rightarrow> (nat \<Rightarrow> proc) \<Rightarrow> bool" where
  "same_procs P Q \<longleftrightarrow> (\<forall>i. \<exists>st ch. Q i = (P i)\<lparr>p_state := st, p_chan := ch\<rparr>)"

lemma same_procsI: "(\<And>i. Q i = (P i)\<lparr>p_state := p_state (Q i), p_chan := p_chan (Q i)\<rparr>) \<Longrightarrow> same_procs P Q"
  unfolding same_procs_def by blast

lemma same_procs_fields:
  assumes "same_procs P Q"
  shows "p_pid (Q i) = p_pid (P i)" "p_killed (Q i) = p_killed (P i)" "p_xstate (Q i) = p_xstate (P i)"
    "p_parent (Q i) = p_parent (P i)" "p_kstack (Q i) = p_kstack (P i)" "p_sz (Q i) = p_sz (P i)"
    "p_pagetable (Q i) = p_pagetable (P i)" "p_trapframe (Q i) = p_trapframe (P i)"
    "p_ofile (Q i) = p_ofile (P i)" "p_cwd (Q i) = p_cwd (P i)" "p_name (Q i) = p_name (P i)"
proof -
  obtain st ch where "Q i = (P i)\<lparr>p_state := st, p_chan := ch\<rparr>" using assms unfolding same_procs_def by blast
  then show "p_pid (Q i) = p_pid (P i)" "p_killed (Q i) = p_killed (P i)" "p_xstate (Q i) = p_xstate (P i)"
    "p_parent (Q i) = p_parent (P i)" "p_kstack (Q i) = p_kstack (P i)" "p_sz (Q i) = p_sz (P i)"
    "p_pagetable (Q i) = p_pagetable (P i)" "p_trapframe (Q i) = p_trapframe (P i)"
    "p_ofile (Q i) = p_ofile (P i)" "p_cwd (Q i) = p_cwd (P i)" "p_name (Q i) = p_name (P i)"
    by simp_all
qed

lemma same_procs_refl [simp]: "same_procs P P"
  by (rule same_procsI) simp

lemma same_procs_trans [trans]: "\<lbrakk>same_procs P Q; same_procs Q R\<rbrakk> \<Longrightarrow> same_procs P R"
proof (rule same_procsI)
  fix i assume "same_procs P Q" "same_procs Q R"
  then obtain st ch st' ch' where "Q i = (P i)\<lparr>p_state := st, p_chan := ch\<rparr>"
    "R i = (Q i)\<lparr>p_state := st', p_chan := ch'\<rparr>" unfolding same_procs_def by meson
  then show "R i = (P i)\<lparr>p_state := p_state (R i), p_chan := p_chan (R i)\<rparr>" by simp
qed

lemma same_procs_wake: "same_procs P (wake c me S P)"
  by (rule same_procsI) (simp add: wake_def)

lemma same_procs_upd: "same_procs P Q \<Longrightarrow> same_procs P (Q(p := (Q p)\<lparr>p_state := st, p_chan := ch\<rparr>))"
  by (rule same_procs_trans, assumption) (rule same_procsI, simp)

end
