(* ===== verification/Kalloc.thy ===== *)
theory Kalloc
  imports Kstate
begin

text \<open>
  The physical page allocator, \<open>kernel/kalloc.c\<close>.  The free list is what the code has: a chain
  of pointers stored in the first eight bytes of the free pages themselves (\<open>struct run\<close>), so
  the memory of a page that is still on the list must not be written by anybody else.  The lemmas
  show that the chain represents a list of distinct valid pages, that \<open>kalloc\<close> and
  \<open>kfree\<close> are pop and push on it, and that \<open>kinit\<close> terminates with every page between the
  end of the kernel and \<open>PHYSTOP\<close> on it.
\<close>

text \<open>\<open>kend\<close> is the linker's \<open>end\<close>, the first address after the kernel image.\<close>

record kmst = kst +
  mem :: bytemem
  freelist :: u64
  kend :: u64
  kernel_pagetable :: u64

text \<open>\<open>t\<close> is \<open>s\<close> but for memory and the free list.\<close>

definition mem_only :: "'a kmst_scheme \<Rightarrow> 'a kmst_scheme \<Rightarrow> bool" where
  "mem_only s t \<longleftrightarrow> t = s\<lparr>mem := mem t, freelist := freelist t\<rparr>"

lemma mem_only_refl [simp, intro]: "mem_only s s"
  by (simp add: mem_only_def)

lemma mem_only_upd [simp]:
  "mem_only s (s\<lparr>mem := m\<rparr>)" "mem_only s (s\<lparr>freelist := f\<rparr>)"
  "mem_only s (s\<lparr>mem := m, freelist := f\<rparr>)" "mem_only s (s\<lparr>freelist := f, mem := m\<rparr>)"
  by (simp_all add: mem_only_def)

lemma mem_only_trans [trans]:
  assumes "mem_only s t" "mem_only t u"
  shows "mem_only s u"
proof -
  have "u = t\<lparr>mem := mem u, freelist := freelist u\<rparr>" using assms(2) by (simp add: mem_only_def)
  also have "\<dots> = s\<lparr>mem := mem t, freelist := freelist t\<rparr>\<lparr>mem := mem u, freelist := freelist u\<rparr>"
    using assms(1) unfolding mem_only_def by (rule arg_cong)
  finally show ?thesis by (simp add: mem_only_def)
qed

lemma mem_onlyD:
  assumes "mem_only s t"
  shows "lks t = lks s" "slks t = slks s" "procs t = procs s" "curproc t = curproc s"
    "kend t = kend s" "kernel_pagetable t = kernel_pagetable s"
  by (subst assms [unfolded mem_only_def], simp)+

section \<open>The operations\<close>

definition kfree :: "u64 \<Rightarrow> 'a kmst_scheme \<Rightarrow> 'a kmst_scheme res" where
  "kfree pa s =
     (if pa mod PGSIZE \<noteq> 0 \<or> pa < kend s \<or> PHYSTOP \<le> pa then Fail (Panic ''kfree'')
      else
        let s = s\<lparr>mem := memset (mem s) pa 1 4096\<rparr> in
        andthen (acquire KmemLock s) (\<lambda>s.
        release KmemLock (s\<lparr>mem := store64 (mem s) pa (freelist s), freelist := pa\<rparr>)))"

definition kalloc :: "'a kmst_scheme \<Rightarrow> (u64 \<times> 'a kmst_scheme) res" where
  "kalloc s =
     andthen (acquire KmemLock s) (\<lambda>s.
     let r = freelist s in
     let s = (if r \<noteq> 0 then s\<lparr>freelist := load64 (mem s) r\<rparr> else s) in
     andthen (release KmemLock s) (\<lambda>s.
     Ok (r, if r \<noteq> 0 then s\<lparr>mem := memset (mem s) r 5 4096\<rparr> else s)))"

text \<open>The loop of \<open>freerange\<close>; its 64-bit pointer could wrap, so it is a partial function.\<close>

partial_function (option) freerange_loop ::
  "u64 \<Rightarrow> u64 \<Rightarrow> 'a kmst_scheme \<Rightarrow> 'a kmst_scheme res option" where
  "freerange_loop p pa_end s =
     (if p + PGSIZE \<le> pa_end
      then (case kfree p s of
              Fail e \<Rightarrow> Some (Fail e)
            | Ok s' \<Rightarrow> freerange_loop (p + PGSIZE) pa_end s')
      else Some (Ok s))"

definition freerange :: "u64 \<Rightarrow> u64 \<Rightarrow> 'a kmst_scheme \<Rightarrow> 'a kmst_scheme res option" where
  "freerange pa_start pa_end s = freerange_loop (PGROUNDUP pa_start) pa_end s"

definition kinit :: "'a kmst_scheme \<Rightarrow> 'a kmst_scheme res option" where
  "kinit s = freerange (kend s) PHYSTOP (s\<lparr>lks := (lks s)(KmemLock := False)\<rparr>)"

section \<open>The free list as a list of pages\<close>

fun chain :: "bytemem \<Rightarrow> u64 \<Rightarrow> u64 list \<Rightarrow> bool" where
  "chain m p [] \<longleftrightarrow> p = 0"
| "chain m p (q # qs) \<longleftrightarrow> p = q \<and> chain m (load64 m q) qs"

definition kpage :: "'a kmst_scheme \<Rightarrow> u64 \<Rightarrow> bool" where
  "kpage s p \<longleftrightarrow> page_aligned p \<and> kend s \<le> p \<and> p < PHYSTOP"

definition kmem_inv :: "'a kmst_scheme \<Rightarrow> u64 list \<Rightarrow> bool" where
  "kmem_inv s ps \<longleftrightarrow> 0 < kend s \<and> \<not> lks s KmemLock \<and>
     chain (mem s) (freelist s) ps \<and> distinct ps \<and> (\<forall>p \<in> set ps. kpage s p)"

lemma kpage_nonzero: "\<lbrakk>kmem_inv s ps; kpage s p\<rbrakk> \<Longrightarrow> p \<noteq> 0"
  by (auto simp: kmem_inv_def kpage_def)

lemma chain_cong:
  "\<lbrakk>\<forall>q \<in> set qs. page_aligned q; \<And>a. page_of a \<in> set qs \<Longrightarrow> m' a = m a\<rbrakk> \<Longrightarrow>
   chain m' p qs = chain m p qs"
proof (induction qs arbitrary: p)
  case (Cons q qs)
  have "load64 m' q = load64 m q"
    using load64_page_cong [of q 0 m' m] Cons.prems by (simp add: slot_def)
  with Cons show ?case by simp
qed simp

text \<open>A write outside the free pages does not disturb the allocator.\<close>

lemma kmem_inv_frame:
  assumes "kmem_inv s ps" "\<And>a. page_of a \<in> set ps \<Longrightarrow> mem t a = mem s a"
    "freelist t = freelist s" "kend t = kend s" "lks t KmemLock = lks s KmemLock"
  shows "kmem_inv t ps"
proof -
  have al: "\<forall>q \<in> set ps. page_aligned q"
    using assms(1) by (auto simp: kmem_inv_def kpage_def)
  have "chain (mem t) (freelist s) ps = chain (mem s) (freelist s) ps"
    by (rule chain_cong [OF al]) (rule assms(2))
  then show ?thesis
    using assms by (auto simp: kmem_inv_def kpage_def)
qed

section \<open>kalloc and kfree are pop and push\<close>

lemma kalloc_empty: "kmem_inv s [] \<Longrightarrow> kalloc s = Ok (0, s)"
  by (simp add: kmem_inv_def kalloc_def res_simps)

lemma kalloc_pop:
  assumes "kmem_inv s (p # ps)"
  shows "\<exists>t. kalloc s = Ok (p, t) \<and> kmem_inv t ps \<and> p \<noteq> 0 \<and> kpage s p \<and>
    t = s\<lparr>freelist := load64 (mem s) p, mem := fill_page (mem s) p 5\<rparr>"
proof -
  let ?t = "s\<lparr>freelist := load64 (mem s) p, mem := fill_page (mem s) p 5\<rparr>"
  have p: "page_aligned p" "p \<noteq> 0" "freelist s = p" "p \<notin> set ps" "\<not> lks s KmemLock" "kpage s p"
    using assms by (auto simp: kmem_inv_def kpage_def)
  then have run: "kalloc s = Ok (p, ?t)"
    by (simp add: kalloc_def res_simps memset_page)
  have al: "\<forall>q \<in> set ps. page_aligned q"
    using assms by (auto simp: kmem_inv_def kpage_def)
  have "chain (fill_page (mem s) p 5) (load64 (mem s) p) ps = chain (mem s) (load64 (mem s) p) ps"
    by (rule chain_cong [OF al]) (use p in \<open>auto simp: fill_page_def\<close>)
  then have "kmem_inv ?t ps"
    using assms by (auto simp: kmem_inv_def kpage_def)
  with run p show ?thesis by blast
qed

lemma kfree_push:
  assumes inv: "kmem_inv s ps" and p: "kpage s p" "p \<notin> set ps"
  shows "\<exists>t. kfree p s = Ok t \<and> kmem_inv t (p # ps) \<and> mem_only s t \<and>
    (\<forall>a. page_of a \<noteq> p \<longrightarrow> mem t a = mem s a)"
proof -
  let ?m = "store64 (fill_page (mem s) p 1) p (freelist s)"
  let ?t = "s\<lparr>mem := ?m, freelist := p\<rparr>"
  have pa: "page_aligned p" "\<not> p < kend s" "\<not> PHYSTOP \<le> p"
    using p by (auto simp: kpage_def)
  then have run: "kfree p s = Ok ?t"
    using inv by (simp add: kfree_def res_simps memset_page kmem_inv_def page_aligned_mod)
  have out: "?m a = mem s a" if "page_of a \<noteq> p" for a
    using store64_outside [of p 0 a] that pa(1) by (simp add: slot_def fill_page_def)
  have al: "\<forall>q \<in> set ps. page_aligned q"
    using inv by (auto simp: kmem_inv_def kpage_def)
  have "chain ?m (freelist s) ps = chain (mem s) (freelist s) ps"
    by (rule chain_cong [OF al], rule out) (use p in auto)
  then have "kmem_inv ?t (p # ps)"
    using inv p by (auto simp: kmem_inv_def kpage_def load64_store64_same)
  with run out show ?thesis by auto
qed

lemma kfree_bad: "\<not> kpage s p \<Longrightarrow> kfree p s = Fail (Panic ''kfree'')"
  unfolding kfree_def kpage_def page_aligned_mod by (auto simp: not_le not_less simp del: PGSIZE_def)

section \<open>freerange\<close>

lemma freerange_loop_all:
  "\<lbrakk>kmem_inv s ps; page_aligned p; kend s \<le> p; unat p + 4096 * n = 0x88000000;
    \<forall>q \<in> set ps. q < p\<rbrakk> \<Longrightarrow>
   \<exists>t. freerange_loop p PHYSTOP s = Some (Ok t) \<and> lks t = lks s \<and> kend t = kend s \<and>
     kmem_inv t (rev (map (\<lambda>i. p + 4096 * of_nat i) [0..<n]) @ ps)"
proof (induction n arbitrary: s ps p)
  case 0
  then have "p = 0x88000000" by (simp add: word_unat_eq_iff)
  with 0 show ?case
    by (subst freerange_loop.simps) auto
next
  case (Suc n)
  have up: "unat (p + 4096) = unat p + 4096"
    using Suc.prems(4) by (simp add: unat_word_ariths)
  have le: "p + 4096 \<le> 0x88000000" and lt: "p < 0x88000000"
    using Suc.prems(4) up by (auto simp: word_le_nat_alt word_less_nat_alt)
  have "kpage s p" "p \<notin> set ps"
    using Suc.prems lt by (auto simp: kpage_def)
  then obtain t where t: "kfree p s = Ok t" "kmem_inv t (p # ps)" "mem_only s t"
    using kfree_push [OF Suc.prems(1)] by blast
  note ke = mem_onlyD(1,5) [OF t(3)]
  have bound: "kend s \<le> p + 4096" "\<forall>q \<in> set (p # ps). q < p + 4096"
    using Suc.prems(3,5) up by (auto simp: word_le_nat_alt word_less_nat_alt)
  have "\<exists>u. freerange_loop (p + 4096) PHYSTOP t = Some (Ok u) \<and> lks u = lks t \<and> kend u = kend t \<and>
     kmem_inv u (rev (map (\<lambda>i. p + 4096 + 4096 * of_nat i) [0..<n]) @ p # ps)"
    by (rule Suc.IH) (use t ke bound Suc.prems up in \<open>auto intro: page_aligned_add\<close>)
  moreover have "rev (map (\<lambda>i. p + 4096 * of_nat i) [0..<Suc n])
      = rev (map (\<lambda>i. p + 4096 + 4096 * of_nat i) [0..<n]) @ [p]"
    unfolding map_upt_Suc by (simp add: algebra_simps)
  ultimately show ?case
    using le t ke by (subst freerange_loop.simps) auto
qed

lemma PGROUNDUP_unat:
  assumes "a \<le> 0x88000000"
  shows "\<exists>n. unat (PGROUNDUP a) + 4096 * n = 0x88000000" and "a \<le> PGROUNDUP a"
proof -
  let ?r = "PGROUNDUP a"
  have r: "?r = page_of (a + 4095)"
    by (simp add: PGROUNDUP_def page_of_def mask_eq_exp_minus_1 add.commute)
  have ua: "unat (a + 4095) = unat a + 4095"
    using assms by (simp add: unat_word_ariths word_le_nat_alt)
  have "a + 4095 = ?r + take_bit 12 (a + 4095)"
    unfolding r page_of_def
    by (simp add: take_bit_eq_mask add.commute [of _ "_ AND mask 12"] disjunctive_add_eq_or
        bit_eq_iff bit_simps) blast
  then have "?r = (a + 4095) - take_bit 12 (a + 4095)" by (simp add: eq_diff_eq)
  moreover have tb: "unat (take_bit 12 (a + 4095)) = (unat a + 4095) mod 4096"
    using ua by (simp add: take_bit_eq_mod unat_mod_distrib)
  moreover have "take_bit 12 (a + 4095) \<le> a + 4095"
    unfolding word_le_nat_alt tb ua by (rule mod_less_eq_dividend)
  ultimately have ur: "unat ?r = (unat a + 4095) - (unat a + 4095) mod 4096"
    using ua by (simp add: unat_sub_if_size word_le_nat_alt)
  have "unat a \<le> 0x88000000" using assms by (simp add: word_le_nat_alt)
  moreover have q: "unat ?r = 4096 * ((unat a + 4095) div 4096)"
    unfolding ur by (simp add: minus_mod_eq_mult_div)
  ultimately have "(unat a + 4095) div 4096 \<le> 0x88000" by linarith
  then have "unat ?r + 4096 * (0x88000 - (unat a + 4095) div 4096) = 0x88000000"
    unfolding q by simp
  then show "\<exists>n. unat ?r + 4096 * n = 0x88000000" by blast
  show "a \<le> ?r" unfolding word_le_nat_alt q by linarith
qed

section \<open>The allocator's contract\<close>

text \<open>
  What the callers of the allocator rely on: there is a set of free pages, an allocation takes one
  of them or returns 0 when there is none, and giving back a page that is not free adds it.
\<close>

locale page_allocator =
  fixes free_set :: "'s \<Rightarrow> u64 set \<Rightarrow> bool"
    and alloc :: "'s \<Rightarrow> (u64 \<times> 's) res"
    and dealloc :: "u64 \<Rightarrow> 's \<Rightarrow> 's res"
    and valid :: "'s \<Rightarrow> u64 \<Rightarrow> bool"
  assumes alloc_none: "free_set s {} \<Longrightarrow> alloc s = Ok (0, s)"
    and alloc_some: "\<lbrakk>free_set s F; F \<noteq> {}\<rbrakk> \<Longrightarrow>
      \<exists>p t. alloc s = Ok (p, t) \<and> p \<in> F \<and> p \<noteq> 0 \<and> free_set t (F - {p}) \<and> valid t = valid s"
    and dealloc_adds: "\<lbrakk>free_set s F; valid s p; p \<notin> F\<rbrakk> \<Longrightarrow>
      \<exists>t. dealloc p s = Ok t \<and> free_set t (insert p F) \<and> valid t = valid s"
    and free_valid: "\<lbrakk>free_set s F; p \<in> F\<rbrakk> \<Longrightarrow> valid s p"

text \<open>
  A client of an allocator: it keeps a list of the pages it got, asks for pages and gives back the
  \<open>i\<close>-th of those it holds.
\<close>

datatype areq = ReqAlloc | ReqFree nat

fun serve :: "('s \<Rightarrow> (u64 \<times> 's) res) \<Rightarrow> (u64 \<Rightarrow> 's \<Rightarrow> 's res) \<Rightarrow> areq list \<Rightarrow> u64 list \<Rightarrow> 's
    \<Rightarrow> (u64 list \<times> 's) res" where
  "serve al fr [] own s = Ok (own, s)"
| "serve al fr (ReqAlloc # rs) own s =
     andthen (al s) (\<lambda>(p, t). serve al fr rs (if p = 0 then own else p # own) t)"
| "serve al fr (ReqFree i # rs) own s =
     (if i < length own
      then andthen (fr (own ! i) s) (\<lambda>t. serve al fr rs (take i own @ drop (Suc i) own) t)
      else serve al fr rs own s)"

text \<open>The pages a client holds and the free pages never overlap and none is held twice.\<close>

definition separate :: "u64 list \<Rightarrow> u64 set \<Rightarrow> bool" where
  "separate own F \<longleftrightarrow> distinct own \<and> set own \<inter> F = {}"

lemma separate_take_one:
  "\<lbrakk>separate own F; p \<in> F\<rbrakk> \<Longrightarrow> separate (p # own) (F - {p})"
  by (auto simp: separate_def)

lemma separate_give_back:
  assumes "separate own F" "i < length own"
  shows "separate (take i own @ drop (Suc i) own) (insert (own ! i) F)"
    and "set (take i own @ drop (Suc i) own) \<union> insert (own ! i) F = set own \<union> F"
    and "own ! i \<notin> F"
proof -
  let ?r = "take i own @ drop (Suc i) own"
  have split: "own = take i own @ own ! i # drop (Suc i) own"
    using assms(2) by (rule id_take_nth_drop)
  have "distinct (take i own @ own ! i # drop (Suc i) own)"
    using assms(1) split unfolding separate_def by metis
  then have d: "distinct ?r" "own ! i \<notin> set ?r" by simp_all
  have st: "set own = insert (own ! i) (set ?r)"
    using arg_cong [OF split, of set] by (simp only: set_append list.simps) auto
  show "separate ?r (insert (own ! i) F)"
    using assms(1) d st unfolding separate_def by auto
  show "set ?r \<union> insert (own ! i) F = set own \<union> F"
    using st by auto
  show "own ! i \<notin> F"
    using assms by (auto simp: separate_def disjoint_iff)
qed

context page_allocator
begin

lemma serve_safe:
  "\<lbrakk>free_set s F; separate own F; \<forall>p \<in> set own. valid s p\<rbrakk> \<Longrightarrow>
   \<exists>own' t F'. serve alloc dealloc rs own s = Ok (own', t) \<and> free_set t F' \<and>
     separate own' F' \<and> set own' \<union> F' = set own \<union> F"
proof (induction rs arbitrary: own s F)
  case Nil
  then show ?case by auto
next
  case (Cons r rs)
  show ?case
  proof (cases r)
    case ReqAlloc
    show ?thesis
    proof (cases "F = {}")
      case True
      then show ?thesis
        using Cons.IH [OF Cons.prems] Cons.prems(1) ReqAlloc by (simp add: alloc_none)
    next
      case False
      then obtain p t where t: "alloc s = Ok (p, t)" "p \<in> F" "p \<noteq> 0" "free_set t (F - {p})"
        "valid t = valid s"
        using alloc_some [OF Cons.prems(1)] by blast
      have "\<forall>q \<in> set (p # own). valid t q"
        using Cons.prems t free_valid by auto
      moreover have "set (p # own) \<union> (F - {p}) = set own \<union> F" using t(2) by auto
      ultimately show ?thesis
        using Cons.IH [OF t(4) separate_take_one [OF Cons.prems(2) t(2)]] t(1,3) ReqAlloc by simp
    qed
  next
    case (ReqFree i)
    show ?thesis
    proof (cases "i < length own")
      case True
      note sep = separate_give_back [OF Cons.prems(2) True]
      obtain t where t: "dealloc (own ! i) s = Ok t" "free_set t (insert (own ! i) F)"
        "valid t = valid s"
        using dealloc_adds [OF Cons.prems(1)] Cons.prems(3) sep(3) True by fastforce
      have "\<forall>q \<in> set (take i own @ drop (Suc i) own). valid t q"
        using Cons.prems(3) t(3) by (auto dest: in_set_takeD in_set_dropD)
      from Cons.IH [OF t(2) sep(1) this] sep(2)
      show ?thesis using t True ReqFree by simp
    next
      case False
      then show ?thesis using Cons.IH [OF Cons.prems] ReqFree by simp
    qed
  qed
qed

end

definition kfree_set :: "'a kmst_scheme \<Rightarrow> u64 set \<Rightarrow> bool" where
  "kfree_set s F \<longleftrightarrow> (\<exists>ps. set ps = F \<and> kmem_inv s ps)"

interpretation kmem: page_allocator kfree_set kalloc kfree kpage
proof
  fix s :: "'a kmst_scheme"
  assume "kfree_set s {}"
  then show "kalloc s = Ok (0, s)" by (auto simp: kfree_set_def intro: kalloc_empty)
next
  fix s :: "'a kmst_scheme" and F
  assume "kfree_set s F" "F \<noteq> {}"
  then obtain p ps where "set (p # ps) = F" "kmem_inv s (p # ps)"
    unfolding kfree_set_def by (metis list.exhaust list.set(1))
  moreover from this have "p \<notin> set ps" by (simp add: kmem_inv_def)
  ultimately show "\<exists>p t. kalloc s = Ok (p, t) \<and> p \<in> F \<and> p \<noteq> 0 \<and> kfree_set t (F - {p}) \<and>
      kpage t = kpage s"
    using kalloc_pop [of s p ps]
    by (fastforce simp: kfree_set_def kpage_def fun_eq_iff)
next
  fix s :: "'a kmst_scheme" and F p
  assume "kfree_set s F" "kpage s p" "p \<notin> F"
  then obtain ps where ps: "set ps = F" "kmem_inv s ps" by (auto simp: kfree_set_def)
  then obtain t where t: "kfree p s = Ok t" "kmem_inv t (p # ps)"
      "mem_only s t"
    using kfree_push [of s ps p] \<open>kpage s p\<close> \<open>p \<notin> F\<close> by auto
  have "kend t = kend s" by (rule mem_onlyD [OF t(3)])
  then have "kpage t = kpage s" by (simp add: kpage_def fun_eq_iff)
  moreover have "kfree_set t (insert p F)"
    using ps t(2) by (auto simp: kfree_set_def intro!: exI [of _ "p # ps"])
  ultimately show "\<exists>t. kfree p s = Ok t \<and> kfree_set t (insert p F) \<and> kpage t = kpage s"
    using t(1) by blast
next
  fix s :: "'a kmst_scheme" and F p
  assume "kfree_set s F" "p \<in> F"
  then show "kpage s p" by (auto simp: kfree_set_def kmem_inv_def)
qed

section \<open>Properties\<close>

text \<open>The kernel's memory at boot, with the kernel image ending at \<open>e\<close>.\<close>

definition boot_kmst :: "u64 \<Rightarrow> kmst" where
  "boot_kmst e = \<lparr>lks = (\<lambda>_. False), slks = (\<lambda>_. \<lparr>sl_locked = False, sl_pid = 0\<rparr>),
     procs = (\<lambda>_. zero_proc), curproc = None, mem = (\<lambda>_. 0), freelist = 0, kend = e, kernel_pagetable = 0\<rparr>"

lemma kmem_inv_boot: "0 < e \<Longrightarrow> kmem_inv (boot_kmst e) []"
  by (simp add: kmem_inv_def boot_kmst_def)

text \<open>C5: whatever sequence of allocations and frees a client runs, \<open>kalloc\<close> and \<open>kfree\<close>
  never panic on pages the client owns, never hand out a page that is already owned, and lose no
  page: owned and free pages stay disjoint and their union is the same before and after.\<close>

theorem kalloc_serve_safe:
  assumes "kmem_inv s ps" "separate own (set ps)" "\<forall>p \<in> set own. kpage s p"
  shows "\<exists>own' t ps'. serve kalloc kfree rs own s = Ok (own', t) \<and> kmem_inv t ps' \<and>
    separate own' (set ps') \<and> set own' \<union> set ps' = set own \<union> set ps"
proof -
  have "kfree_set s (set ps)" using assms(1) by (auto simp: kfree_set_def)
  from kmem.serve_safe [OF this assms(2,3), of rs] show ?thesis
    by (auto simp: kfree_set_def)
qed

theorem kalloc_serve_safe_witness:
  "\<exists>own' t ps'. serve kalloc kfree [ReqFree 0, ReqAlloc, ReqAlloc] [0x87FFF000]
      (boot_kmst 0x80021000) = Ok (own', t) \<and> kmem_inv t ps' \<and> separate own' (set ps') \<and>
    set own' \<union> set ps' = {0x87FFF000}"
  using kalloc_serve_safe [OF kmem_inv_boot [of "0x80021000"], of "[0x87FFF000]"
      "[ReqFree 0, ReqAlloc, ReqAlloc]"]
  by (simp add: separate_def kpage_def boot_kmst_def page_aligned_mod)

text \<open>C18: \<open>kinit\<close> terminates without a panic and leaves on the free list exactly the page
  frames between the end of the kernel, rounded up, and \<open>PHYSTOP\<close>.\<close>

theorem kinit_all_pages:
  assumes "0 < kend s" "kend s \<le> PHYSTOP" "freelist s = 0"
  shows "\<exists>t n. kinit s = Some (Ok t) \<and> unat (PGROUNDUP (kend s)) + 4096 * n = unat PHYSTOP \<and>
    kmem_inv t (rev (map (\<lambda>i. PGROUNDUP (kend s) + 4096 * of_nat i) [0..<n]))"
proof -
  let ?s = "s\<lparr>lks := (lks s)(KmemLock := False)\<rparr>"
  have "kmem_inv ?s []" using assms by (simp add: kmem_inv_def)
  moreover obtain n where "unat (PGROUNDUP (kend s)) + 4096 * n = 0x88000000"
    using PGROUNDUP_unat(1) [of "kend s"] assms by auto
  ultimately show ?thesis
    using freerange_loop_all [of ?s "[]" "PGROUNDUP (kend s)" n] PGROUNDUP_unat(2) [of "kend s"] assms
    by (auto simp: kinit_def freerange_def)
qed

theorem kinit_all_pages_witness:
  "\<exists>t n. kinit (boot_kmst 0x80021a70) = Some (Ok t) \<and> unat (PGROUNDUP 0x80021a70) + 4096 * n = unat PHYSTOP \<and>
    kmem_inv t (rev (map (\<lambda>i. PGROUNDUP 0x80021a70 + 4096 * of_nat i) [0..<n]))"
  using kinit_all_pages [of "boot_kmst 0x80021a70"] by (simp add: boot_kmst_def)

end
