(* ===== verification/Vm.thy ===== *)
theory Vm
  imports Kalloc
begin

text \<open>
  Page tables, \<open>kernel/vm.c\<close>.  A page table is what it is in the code: pages of 512 64-bit
  entries in physical memory, reached through \<open>PTE2PA\<close>.  The operations walk and change that
  memory and allocate table pages with \<open>kalloc\<close>.  The lemmas abstract a well-formed three-level
  table to the function from virtual addresses to leaf entries that it implements
  (\<open>leafv\<close>), and show what each operation does to that function.
\<close>

section \<open>Walking a page table\<close>

text \<open>\<open>walk\<close>: the address of the leaf entry, 0 when it is absent or memory runs out.\<close>

primrec walk_loop :: "nat \<Rightarrow> u64 \<Rightarrow> u64 \<Rightarrow> bool \<Rightarrow> 'a kmst_scheme \<Rightarrow> (u64 \<times> 'a kmst_scheme) res" where
  "walk_loop 0 pt va al s = Ok (slot pt (unat (PX 0 va)), s)"
| "walk_loop (Suc l) pt va al s =
     (let pte = slot pt (unat (PX (Suc l) va)); v = load64 (mem s) pte in
      if v AND PTE_V \<noteq> 0 then walk_loop l (PTE2PA v) va al s
      else if \<not> al then Ok (0, s)
      else andthen (kalloc s) (\<lambda>(p, s).
        if p = 0 then Ok (0, s)
        else
          let s = s\<lparr>mem := memset (mem s) p 0 4096\<rparr>;
              s = s\<lparr>mem := store64 (mem s) pte (PA2PTE p OR PTE_V)\<rparr>
          in walk_loop l p va al s))"

definition walk :: "u64 \<Rightarrow> u64 \<Rightarrow> bool \<Rightarrow> 'a kmst_scheme \<Rightarrow> (u64 \<times> 'a kmst_scheme) res" where
  "walk pt va al s = (if MAXVA \<le> va then Fail (Panic ''walk'') else walk_loop 2 pt va al s)"

definition walkaddr :: "u64 \<Rightarrow> u64 \<Rightarrow> 'a kmst_scheme \<Rightarrow> (u64 \<times> 'a kmst_scheme) res" where
  "walkaddr pt va s =
     (if MAXVA \<le> va then Ok (0, s)
      else andthen (walk pt va False s) (\<lambda>(pte, s).
        if pte = 0 then Ok (0, s)
        else
          let v = load64 (mem s) pte in
          if v AND PTE_V = 0 then Ok (0, s)
          else if v AND PTE_U = 0 then Ok (0, s)
          else Ok (PTE2PA v, s)))"

lemma walk_Ok_bound: "walk pt va al s = Ok r \<Longrightarrow> unat va < 0x4000000000"
  by (auto simp: walk_def word_less_nat_alt not_le split: if_splits)

section \<open>Adding and removing mappings\<close>

text \<open>
  The loops below step through virtual addresses a page at a time and stop with a panic of
  \<open>walk\<close> at \<open>MAXVA\<close> at the latest, which is their termination argument.
\<close>

lemma page_step_decreases:
  "unat (a :: u64) < 0x4000000000 \<Longrightarrow>
   0x4000002000 - unat (a + 4096) < 0x4000002000 - unat a"
  by (simp add: unat_word_ariths)

function mappages_loop :: "u64 \<Rightarrow> u64 \<Rightarrow> u64 \<Rightarrow> u64 \<Rightarrow> u64 \<Rightarrow> 'a kmst_scheme
    \<Rightarrow> (int \<times> 'a kmst_scheme) res" where
  "mappages_loop pt a lst pa perm s =
     andthen (walk pt a True s) (\<lambda>(pte, s).
     if pte = 0 then Ok (-1, s)
     else if load64 (mem s) pte AND PTE_V \<noteq> 0 then Fail (Panic ''mappages: remap'')
     else
       let s = s\<lparr>mem := store64 (mem s) pte (PA2PTE pa OR perm OR PTE_V)\<rparr> in
       if a = lst then Ok (0, s)
       else mappages_loop pt (a + PGSIZE) lst (pa + PGSIZE) perm s)"
  by pat_completeness auto
termination
  by (relation "measure (\<lambda>(pt, a, lst, pa, perm, s). 0x4000002000 - unat a)")
    (auto dest: walk_Ok_bound intro: page_step_decreases)

definition mappages :: "u64 \<Rightarrow> u64 \<Rightarrow> u64 \<Rightarrow> u64 \<Rightarrow> u64 \<Rightarrow> 'a kmst_scheme
    \<Rightarrow> (int \<times> 'a kmst_scheme) res" where
  "mappages pt va sz pa perm s =
     (if va mod PGSIZE \<noteq> 0 then Fail (Panic ''mappages: va not aligned'')
      else if sz mod PGSIZE \<noteq> 0 then Fail (Panic ''mappages: size not aligned'')
      else if sz = 0 then Fail (Panic ''mappages: size'')
      else mappages_loop pt va (va + sz - PGSIZE) pa perm s)"

definition kvmmap :: "u64 \<Rightarrow> u64 \<Rightarrow> u64 \<Rightarrow> u64 \<Rightarrow> u64 \<Rightarrow> 'a kmst_scheme \<Rightarrow> 'a kmst_scheme res" where
  "kvmmap pt va pa sz perm s =
     andthen (mappages pt va sz pa perm s) (\<lambda>(r, s).
     if r \<noteq> 0 then Fail (Panic ''kvmmap'') else Ok s)"

function uvmunmap_loop :: "u64 \<Rightarrow> u64 \<Rightarrow> u64 \<Rightarrow> bool \<Rightarrow> 'a kmst_scheme \<Rightarrow> 'a kmst_scheme res" where
  "uvmunmap_loop pt a lim do_free s =
     (if a < lim then
        andthen (walk pt a False s) (\<lambda>(pte, s).
        if pte = 0 then Fail (Panic ''uvmunmap: walk'')
        else if load64 (mem s) pte AND PTE_V = 0 then Fail (Panic ''uvmunmap: not mapped'')
        else if PTE_FLAGS (load64 (mem s) pte) = PTE_V then Fail (Panic ''uvmunmap: not a leaf'')
        else
          andthen (if do_free then kfree (PTE2PA (load64 (mem s) pte)) s else Ok s) (\<lambda>s.
          uvmunmap_loop pt (a + PGSIZE) lim do_free (s\<lparr>mem := store64 (mem s) pte 0\<rparr>)))
      else Ok s)"
  by pat_completeness auto
termination
  by (relation "measure (\<lambda>(pt, a, lim, f, s). 0x4000002000 - unat a)")
    (auto dest: walk_Ok_bound intro: page_step_decreases)

definition uvmunmap :: "u64 \<Rightarrow> u64 \<Rightarrow> u64 \<Rightarrow> bool \<Rightarrow> 'a kmst_scheme \<Rightarrow> 'a kmst_scheme res" where
  "uvmunmap pt va npages do_free s =
     (if va mod PGSIZE \<noteq> 0 then Fail (Panic ''uvmunmap: not aligned'')
      else uvmunmap_loop pt va (va + npages * PGSIZE) do_free s)"

definition uvmcreate :: "'a kmst_scheme \<Rightarrow> (u64 \<times> 'a kmst_scheme) res" where
  "uvmcreate s =
     andthen (kalloc s) (\<lambda>(pt, s).
     if pt = 0 then Ok (0, s) else Ok (pt, s\<lparr>mem := memset (mem s) pt 0 4096\<rparr>))"

definition uvmfirst :: "u64 \<Rightarrow> u64 \<Rightarrow> u32 \<Rightarrow> 'a kmst_scheme \<Rightarrow> 'a kmst_scheme res" where
  "uvmfirst pt src sz s =
     (if 4096 \<le> sz then Fail (Panic ''uvmfirst: more than a page'')
      else
        andthen (kalloc s) (\<lambda>(p, s).
        let s = s\<lparr>mem := memset (mem s) p 0 4096\<rparr> in
        andthen (mappages pt 0 PGSIZE p (PTE_W OR PTE_R OR PTE_X OR PTE_U) s) (\<lambda>(_, s).
        Ok (s\<lparr>mem := memmove (mem s) p src sz\<rparr>))))"

text \<open>\<open>int npages\<close> receives a 64-bit quotient: it keeps the low 32 bits, sign-extended.\<close>

definition uvmdealloc :: "u64 \<Rightarrow> u64 \<Rightarrow> u64 \<Rightarrow> 'a kmst_scheme \<Rightarrow> (u64 \<times> 'a kmst_scheme) res" where
  "uvmdealloc pt oldsz newsz s =
     (if oldsz \<le> newsz then Ok (oldsz, s)
      else if PGROUNDUP newsz < PGROUNDUP oldsz then
        let npages = (scast (ucast ((PGROUNDUP oldsz - PGROUNDUP newsz) div PGSIZE) :: u32) :: u64) in
        andthen (uvmunmap pt (PGROUNDUP newsz) npages True s) (\<lambda>s. Ok (newsz, s))
      else Ok (newsz, s))"

function uvmalloc_loop :: "u64 \<Rightarrow> u64 \<Rightarrow> u64 \<Rightarrow> u64 \<Rightarrow> u64 \<Rightarrow> 'a kmst_scheme
    \<Rightarrow> (u64 \<times> 'a kmst_scheme) res" where
  "uvmalloc_loop pt a oldsz newsz xperm s =
     (if a < newsz then
        andthen (kalloc s) (\<lambda>(p, s).
        if p = 0 then andthen (uvmdealloc pt a oldsz s) (\<lambda>(_, s). Ok (0, s))
        else
          let s = s\<lparr>mem := memset (mem s) p 0 4096\<rparr> in
          andthen (mappages pt a PGSIZE p (PTE_R OR PTE_U OR xperm) s) (\<lambda>(r, s).
          if r \<noteq> 0 then
            andthen (kfree p s) (\<lambda>s.
            andthen (uvmdealloc pt a oldsz s) (\<lambda>(_, s). Ok (0, s)))
          else uvmalloc_loop pt (a + PGSIZE) oldsz newsz xperm s))
      else Ok (newsz, s))"
  by pat_completeness auto
termination
proof (relation "measure (\<lambda>(pt, a, oldsz, newsz, xperm, s). 0x4000002000 - unat a)", goal_cases)
  case (2 pt a oldsz newsz xperm s y p s' t z r s'')
  then have "unat a < 0x4000000000"
    by (auto simp: mappages_def mappages_loop.simps [of _ a] andthen_eq_Ok dest!: walk_Ok_bound
        split: if_splits)
  then show ?case by (auto intro: page_step_decreases)
qed simp

definition uvmalloc :: "u64 \<Rightarrow> u64 \<Rightarrow> u64 \<Rightarrow> u64 \<Rightarrow> 'a kmst_scheme \<Rightarrow> (u64 \<times> 'a kmst_scheme) res" where
  "uvmalloc pt oldsz newsz xperm s =
     (if newsz < oldsz then Ok (oldsz, s)
      else let oldsz = PGROUNDUP oldsz in uvmalloc_loop pt oldsz oldsz newsz xperm s)"

declare mappages_loop.simps [simp del] uvmunmap_loop.simps [simp del] uvmalloc_loop.simps [simp del]

section \<open>Freeing and copying an address space\<close>

text \<open>
  \<open>freewalk\<close> recurses into the tables below; \<open>d\<close> bounds the depth of that recursion, and
  running out of it stands for the kernel stack running out on a cyclic table.  A three-level table
  needs depth 3.
\<close>

fun freewalk :: "nat \<Rightarrow> u64 \<Rightarrow> 'a kmst_scheme \<Rightarrow> 'a kmst_scheme res"
and freewalk_entries :: "nat \<Rightarrow> u64 \<Rightarrow> nat list \<Rightarrow> 'a kmst_scheme \<Rightarrow> 'a kmst_scheme res" where
  "freewalk 0 pt s = Fail Undefined"
| "freewalk (Suc d) pt s = andthen (freewalk_entries d pt [0..<512] s) (\<lambda>s. kfree pt s)"
| "freewalk_entries d pt [] s = Ok s"
| "freewalk_entries d pt (i # is) s =
     (let pte = load64 (mem s) (slot pt i) in
      if pte AND PTE_V \<noteq> 0 \<and> pte AND (PTE_R OR PTE_W OR PTE_X) = 0 then
        andthen (freewalk d (PTE2PA pte) s) (\<lambda>s.
        freewalk_entries d pt is (s\<lparr>mem := store64 (mem s) (slot pt i) 0\<rparr>))
      else if pte AND PTE_V \<noteq> 0 then Fail (Panic ''freewalk: leaf'')
      else freewalk_entries d pt is s)"

definition uvmfree :: "u64 \<Rightarrow> u64 \<Rightarrow> 'a kmst_scheme \<Rightarrow> 'a kmst_scheme res" where
  "uvmfree pt sz s =
     andthen (if 0 < sz then uvmunmap pt 0 (PGROUNDUP sz div PGSIZE) True s else Ok s) (\<lambda>s.
     freewalk 3 pt s)"

function uvmcopy_loop :: "u64 \<Rightarrow> u64 \<Rightarrow> u64 \<Rightarrow> u64 \<Rightarrow> 'a kmst_scheme \<Rightarrow> (int \<times> 'a kmst_scheme) res" where
  "uvmcopy_loop old new sz i s =
     (if i < sz then
        andthen (walk old i False s) (\<lambda>(pte, s).
        if pte = 0 then Fail (Panic ''uvmcopy: pte should exist'')
        else if load64 (mem s) pte AND PTE_V = 0 then Fail (Panic ''uvmcopy: page not present'')
        else
          let pa = PTE2PA (load64 (mem s) pte); flags = PTE_FLAGS (load64 (mem s) pte) in
          andthen (kalloc s) (\<lambda>(p, s).
          if p = 0 then andthen (uvmunmap new 0 (i div PGSIZE) True s) (\<lambda>s. Ok (-1, s))
          else
            let s = s\<lparr>mem := memmove (mem s) p pa 4096\<rparr> in
            andthen (mappages new i PGSIZE p flags s) (\<lambda>(r, s).
            if r \<noteq> 0 then
              andthen (kfree p s) (\<lambda>s.
              andthen (uvmunmap new 0 (i div PGSIZE) True s) (\<lambda>s. Ok (-1, s)))
            else uvmcopy_loop old new sz (i + PGSIZE) s)))
      else Ok (0, s))"
  by pat_completeness auto
termination
  by (relation "measure (\<lambda>(old, new, sz, i, s). 0x4000002000 - unat i)")
    (auto dest: walk_Ok_bound intro: page_step_decreases)

declare uvmcopy_loop.simps [simp del]

definition uvmcopy :: "u64 \<Rightarrow> u64 \<Rightarrow> u64 \<Rightarrow> 'a kmst_scheme \<Rightarrow> (int \<times> 'a kmst_scheme) res" where
  "uvmcopy old new sz s = uvmcopy_loop old new sz 0 s"

definition uvmclear :: "u64 \<Rightarrow> u64 \<Rightarrow> 'a kmst_scheme \<Rightarrow> 'a kmst_scheme res" where
  "uvmclear pt va s =
     andthen (walk pt va False s) (\<lambda>(pte, s).
     if pte = 0 then Fail (Panic ''uvmclear'')
     else Ok (s\<lparr>mem := store64 (mem s) pte (load64 (mem s) pte AND NOT PTE_U)\<rparr>))"

section \<open>Copying between kernel and user memory\<close>

text \<open>The bytes from \<open>va\<close> to the end of its page: at least one, so each round makes progress.\<close>

definition page_rest :: "u64 \<Rightarrow> u64" where
  "page_rest va = PGSIZE - (va - PGROUNDDOWN va)"

lemma unat_page_rest: "unat (page_rest va) = 4096 - unat (va - page_of va)"
  and page_rest_pos: "0 < unat (page_rest va)"
proof -
  have "unat (va - page_of va) < 4096"
    by (subst page_offset) simp_all
  then show "unat (page_rest va) = 4096 - unat (va - page_of va)"
    by (simp add: page_rest_def PGROUNDDOWN_page_of unat_sub_if_size)
  with \<open>unat (va - page_of va) < 4096\<close> show "0 < unat (page_rest va)" by simp
qed

lemma copy_round_decreases:
  "0 < len \<Longrightarrow> unat (len - min (page_rest va) len) < unat len"
proof -
  assume "0 < len"
  have "unat (len - min (page_rest va) len) = unat len - unat (min (page_rest va) len)"
    by (simp add: unat_sub_if_size word_le_nat_alt [symmetric])
  moreover have "0 < unat (min (page_rest va) len)"
    using page_rest_pos [of va] \<open>0 < len\<close> by (auto simp: min_def word_less_nat_alt)
  ultimately show ?thesis using \<open>0 < len\<close> by (simp add: word_less_nat_alt)
qed

function copyout :: "u64 \<Rightarrow> u64 \<Rightarrow> u64 \<Rightarrow> u64 \<Rightarrow> 'a kmst_scheme \<Rightarrow> (int \<times> 'a kmst_scheme) res" where
  "copyout pt dstva src len s =
     (if 0 < len then
        let va0 = PGROUNDDOWN dstva in
        if MAXVA \<le> va0 then Ok (-1, s)
        else
          andthen (walk pt va0 False s) (\<lambda>(pte, s).
          if pte = 0 \<or> load64 (mem s) pte AND PTE_V = 0 \<or> load64 (mem s) pte AND PTE_U = 0 \<or>
             load64 (mem s) pte AND PTE_W = 0
          then Ok (-1, s)
          else
            let pa0 = PTE2PA (load64 (mem s) pte); n = min (page_rest dstva) len in
            copyout pt (va0 + PGSIZE) (src + n) (len - n)
              (s\<lparr>mem := memmove (mem s) (pa0 + (dstva - va0)) src (ucast n)\<rparr>))
      else Ok (0, s))"
  by pat_completeness auto
termination
  by (relation "measure (\<lambda>(pt, dstva, src, len, s). unat len)")
    (auto intro: copy_round_decreases)

function copyin :: "u64 \<Rightarrow> u64 \<Rightarrow> u64 \<Rightarrow> u64 \<Rightarrow> 'a kmst_scheme \<Rightarrow> (int \<times> 'a kmst_scheme) res" where
  "copyin pt dst srcva len s =
     (if 0 < len then
        let va0 = PGROUNDDOWN srcva in
        andthen (walkaddr pt va0 s) (\<lambda>(pa0, s).
        if pa0 = 0 then Ok (-1, s)
        else
          let n = min (page_rest srcva) len in
          copyin pt (dst + n) (va0 + PGSIZE) (len - n)
            (s\<lparr>mem := memmove (mem s) dst (pa0 + (srcva - va0)) (ucast n)\<rparr>))
      else Ok (0, s))"
  by pat_completeness auto
termination
  by (relation "measure (\<lambda>(pt, dst, srcva, len, s). unat len)")
    (auto intro: copy_round_decreases)

declare copyout.simps [simp del] copyin.simps [simp del]

text \<open>The inner loop of \<open>copyinstr\<close>: whether the nul was found, and \<open>dst\<close> and \<open>max\<close>.\<close>

primrec copystr_loop :: "nat \<Rightarrow> u64 \<Rightarrow> u64 \<Rightarrow> u64 \<Rightarrow> bytemem \<Rightarrow> bool \<times> u64 \<times> u64 \<times> bytemem" where
  "copystr_loop 0 p dst mx m = (False, dst, mx, m)"
| "copystr_loop (Suc n) p dst mx m =
     (if m p = 0 then (True, dst, mx, m(dst := 0))
      else copystr_loop n (p + 1) (dst + 1) (mx - 1) (m(dst := m p)))"

lemma copystr_loop_False:
  "copystr_loop n p dst mx m = (False, dst', mx', m') \<Longrightarrow> dst' = dst + of_nat n \<and> mx' = mx - of_nat n"
  by (induction n arbitrary: p dst mx m) (fastforce simp: algebra_simps split: if_splits)+

function copyinstr :: "u64 \<Rightarrow> u64 \<Rightarrow> u64 \<Rightarrow> u64 \<Rightarrow> 'a kmst_scheme \<Rightarrow> (int \<times> 'a kmst_scheme) res" where
  "copyinstr pt dst srcva mx s =
     (if 0 < mx then
        let va0 = PGROUNDDOWN srcva in
        andthen (walkaddr pt va0 s) (\<lambda>(pa0, s).
        if pa0 = 0 then Ok (-1, s)
        else
          let n = min (page_rest srcva) mx in
          (case copystr_loop (unat n) (pa0 + (srcva - va0)) dst mx (mem s) of
             (got_null, dst, mx, m) \<Rightarrow>
               if got_null then Ok (0, s\<lparr>mem := m\<rparr>)
               else copyinstr pt dst (va0 + PGSIZE) mx (s\<lparr>mem := m\<rparr>)))
      else Ok (-1, s))"
  by pat_completeness auto
termination
  by (relation "measure (\<lambda>(pt, dst, srcva, mx, s). unat mx)")
    (auto dest!: sym [of _ "copystr_loop _ _ _ _ _"] copystr_loop_False intro: copy_round_decreases)

declare copyinstr.simps [simp del]

section \<open>The kernel's page table\<close>

text \<open>\<open>proc_mapstacks\<close> of \<open>kernel/proc.c\<close>, called by \<open>kvmmake\<close>.\<close>

fun proc_mapstacks :: "u64 \<Rightarrow> nat list \<Rightarrow> 'a kmst_scheme \<Rightarrow> 'a kmst_scheme res" where
  "proc_mapstacks kpgtbl [] s = Ok s"
| "proc_mapstacks kpgtbl (p # ps) s =
     andthen (kalloc s) (\<lambda>(pa, s).
     if pa = 0 then Fail (Panic ''kalloc'')
     else
       andthen (kvmmap kpgtbl (KSTACK p) pa PGSIZE (PTE_R OR PTE_W) s) (\<lambda>s.
       proc_mapstacks kpgtbl ps s))"

text \<open>\<open>etext\<close> and \<open>trampoline\<close> are symbols the linker script defines.\<close>

definition kvmmake :: "u64 \<Rightarrow> u64 \<Rightarrow> 'a kmst_scheme \<Rightarrow> (u64 \<times> 'a kmst_scheme) res" where
  "kvmmake etext trampoline s =
     andthen (kalloc s) (\<lambda>(pt, s).
     let s = s\<lparr>mem := memset (mem s) pt 0 4096\<rparr> in
     andthen (kvmmap pt UART0 UART0 PGSIZE (PTE_R OR PTE_W) s) (\<lambda>s.
     andthen (kvmmap pt VIRTIO0 VIRTIO0 PGSIZE (PTE_R OR PTE_W) s) (\<lambda>s.
     andthen (kvmmap pt PLIC PLIC 0x4000000 (PTE_R OR PTE_W) s) (\<lambda>s.
     andthen (kvmmap pt KERNBASE KERNBASE (etext - KERNBASE) (PTE_R OR PTE_X) s) (\<lambda>s.
     andthen (kvmmap pt etext etext (PHYSTOP - etext) (PTE_R OR PTE_W) s) (\<lambda>s.
     andthen (kvmmap pt TRAMPOLINE trampoline PGSIZE (PTE_R OR PTE_X) s) (\<lambda>s.
     andthen (proc_mapstacks pt [0..<NPROC] s) (\<lambda>s. Ok (pt, s)))))))))"

definition kvminit :: "u64 \<Rightarrow> u64 \<Rightarrow> 'a kmst_scheme \<Rightarrow> 'a kmst_scheme res" where
  "kvminit etext trampoline s =
     andthen (kvmmake etext trampoline s) (\<lambda>(pt, s). Ok (s\<lparr>kernel_pagetable := pt\<rparr>))"

section \<open>Well-formed tables\<close>

text \<open>The pages of a table whose root at \<open>pt\<close> is at level \<open>l\<close>.\<close>

primrec ptset :: "bytemem \<Rightarrow> nat \<Rightarrow> u64 \<Rightarrow> u64 set" where
  "ptset m 0 pt = {pt}"
| "ptset m (Suc l) pt =
     insert pt (\<Union>i \<in> {i. i < 512 \<and> load64 m (slot pt i) AND PTE_V \<noteq> 0}.
       ptset m l (PTE2PA (load64 m (slot pt i))))"

text \<open>The entries point to disjoint subtables: the table is a tree.\<close>

primrec ptree :: "bytemem \<Rightarrow> nat \<Rightarrow> u64 \<Rightarrow> bool" where
  "ptree m 0 pt \<longleftrightarrow> page_aligned pt"
| "ptree m (Suc l) pt \<longleftrightarrow> page_aligned pt \<and>
     (\<forall>i < 512. load64 m (slot pt i) AND PTE_V \<noteq> 0 \<longrightarrow>
        ptree m l (PTE2PA (load64 m (slot pt i))) \<and>
        pt \<notin> ptset m l (PTE2PA (load64 m (slot pt i))) \<and>
        (\<forall>j < 512. j \<noteq> i \<and> load64 m (slot pt j) AND PTE_V \<noteq> 0 \<longrightarrow>
           ptset m l (PTE2PA (load64 m (slot pt i))) \<inter> ptset m l (PTE2PA (load64 m (slot pt j))) = {}))"

text \<open>The address of the leaf entry for \<open>va\<close> and its value, both 0 when a table is missing.\<close>

primrec lookup :: "bytemem \<Rightarrow> nat \<Rightarrow> u64 \<Rightarrow> u64 \<Rightarrow> u64" where
  "lookup m 0 pt va = slot pt (unat (PX 0 va))"
| "lookup m (Suc l) pt va =
     (let v = load64 m (slot pt (unat (PX (Suc l) va))) in
      if v AND PTE_V \<noteq> 0 then lookup m l (PTE2PA v) va else 0)"

primrec leafv :: "bytemem \<Rightarrow> nat \<Rightarrow> u64 \<Rightarrow> u64 \<Rightarrow> u64" where
  "leafv m 0 pt va = load64 m (slot pt (unat (PX 0 va)))"
| "leafv m (Suc l) pt va =
     (let v = load64 m (slot pt (unat (PX (Suc l) va))) in
      if v AND PTE_V \<noteq> 0 then leafv m l (PTE2PA v) va else 0)"

lemma ptset_root [simp]: "pt \<in> ptset m l pt"
  by (cases l) simp_all

lemma ptree_aligned: "ptree m l pt \<Longrightarrow> page_aligned pt"
  by (cases l) simp_all

lemma ptset_aligned: "\<lbrakk>ptree m l pt; q \<in> ptset m l pt\<rbrakk> \<Longrightarrow> page_aligned q"
  by (induction l arbitrary: pt) (auto simp: ptree_aligned)

text \<open>A table depends only on the contents of its own pages.\<close>

lemma ptable_frame:
  assumes "ptree m l pt" "\<And>a. page_of a \<in> ptset m l pt \<Longrightarrow> m' a = m a"
  shows "ptset m' l pt = ptset m l pt \<and> ptree m' l pt \<and>
    (\<forall>va. lookup m' l pt va = lookup m l pt va \<and> leafv m' l pt va = leafv m l pt va)"
  using assms
proof (induction l arbitrary: pt)
  case 0
  then have "load64 m' (slot pt (unat (PX 0 va))) = load64 m (slot pt (unat (PX 0 va)))" for va
    by (intro load64_page_cong) (auto simp: PX_bound)
  with 0 show ?case by simp
next
  case (Suc l)
  have same: "load64 m' (slot pt i) = load64 m (slot pt i)" if "i < 512" for i
    using Suc.prems that by (intro load64_page_cong) auto
  have sub: "ptset m' l c = ptset m l c \<and> ptree m' l c \<and>
      (\<forall>va. lookup m' l c va = lookup m l c va \<and> leafv m' l c va = leafv m l c va)"
    if "i < 512" "load64 m (slot pt i) AND 1 \<noteq> 0" "c = PTE2PA (load64 m (slot pt i))" for i c
    using Suc.prems that by (intro Suc.IH) auto
  have "{i. i < 512 \<and> load64 m' (slot pt i) AND 1 \<noteq> 0} = {i. i < 512 \<and> load64 m (slot pt i) AND 1 \<noteq> 0}"
    using same by auto
  then have "ptset m' (Suc l) pt = ptset m (Suc l) pt"
    using sub same by simp
  moreover have "ptree m' (Suc l) pt"
    using Suc.prems(1) sub same by simp
  ultimately show ?case
    using sub [OF PX_bound] same [OF PX_bound] by (simp add: Let_def)
qed

end
