(* ===== verification/Pagetable.thy ===== *)
theory Pagetable
  imports Vm
begin

text \<open>
  What the operations of \<open>kernel/vm.c\<close> do to a well-formed page table.  The table is the tree
  of pages of theory Vm; the lemmas show that \<open>walk\<close> keeps it a tree, takes the pages it adds
  from the free list and changes no mapping, that \<open>mappages\<close> sets exactly the entries of its
  range, and that \<open>copyout\<close>, \<open>copyin\<close> and \<open>copyinstr\<close> move bytes between the kernel and
  the user's address space as the mapping says.
\<close>

section \<open>Lookups\<close>

lemma walk_loop_lookup: "walk_loop l pt va False s = Ok (lookup (mem s) l pt va, s)"
  by (induction l arbitrary: pt) (simp_all add: Let_def)

lemma walk_lookup: "va < MAXVA \<Longrightarrow> walk pt va False s = Ok (lookup (mem s) 2 pt va, s)"
  by (simp add: walk_def walk_loop_lookup not_le [symmetric] del: MAXVA_eq)

lemma PTE_V_set [simp]: "(PA2PTE p OR 1) AND 1 \<noteq> (0 :: u64)"
proof -
  have "bit ((PA2PTE p OR 1) AND 1 :: u64) 0" by (simp add: bit_simps)
  then show ?thesis by auto
qed

lemma PTE2PA_table [simp]: "page_aligned p \<Longrightarrow> PTE2PA (PA2PTE p OR 1) = p"
  by (rule PTE2PA_PA2PTE) simp_all

lemma leafv_lookup:
  "\<lbrakk>ptree m l pt; 0 \<notin> ptset m l pt\<rbrakk> \<Longrightarrow>
   leafv m l pt va = (if lookup m l pt va = 0 then 0 else load64 m (lookup m l pt va))"
proof (induction l arbitrary: pt)
  case 0
  have "page_of (slot pt (unat (PX 0 va))) = pt"
    using 0 by (intro slot_page0) (auto simp: PX_bound)
  then have "slot pt (unat (PX 0 va)) \<noteq> 0"
    using 0 by (auto simp: page_of_def)
  then show ?case by simp
next
  case (Suc l)
  then show ?case using PX_bound [of "Suc l" va] by (auto simp: Let_def)
qed

text \<open>The level-0 page that holds the entry of \<open>va\<close> is a page of the table.\<close>

lemma lookup_slot:
  "\<lbrakk>ptree m l pt; lookup m l pt va \<noteq> 0\<rbrakk> \<Longrightarrow>
   \<exists>q \<in> ptset m l pt. lookup m l pt va = slot q (unat (PX 0 va))"
proof (induction l arbitrary: pt)
  case (Suc l)
  then show ?case using PX_bound [of "Suc l" va] by (fastforce simp: Let_def split: if_splits)
qed simp

section \<open>Changing a subtable\<close>

lemma ptable_subtable:
  assumes wf: "ptree m (Suc l) pt" and i: "i < 512" "load64 m (slot pt i) AND 1 \<noteq> 0"
    and c: "c = PTE2PA (load64 m (slot pt i))"
    and m': "ptree m' l c" "ptset m' l c = ptset m l c \<union> Q"
    and Q: "Q \<inter> ptset m (Suc l) pt = {}"
    and frame: "\<And>a. page_of a \<notin> ptset m' l c \<Longrightarrow> m' a = m a"
  shows "ptree m' (Suc l) pt" "ptset m' (Suc l) pt = ptset m (Suc l) pt \<union> Q"
    "load64 m' (slot pt j) = load64 m (slot pt j) \<or> 512 \<le> j"
    "leafv m' (Suc l) pt va =
       (if unat (PX (Suc l) va) = i then leafv m' l c va else leafv m (Suc l) pt va)"
    "lookup m' (Suc l) pt va =
       (if unat (PX (Suc l) va) = i then lookup m' l c va else lookup m (Suc l) pt va)"
proof -
  have pt: "page_aligned pt" "pt \<notin> ptset m' l c"
    using wf i c m'(2) Q by auto
  have same: "load64 m' (slot pt j) = load64 m (slot pt j)" if "j < 512" for j
    using pt that frame by (intro load64_page_cong) auto
  then show "load64 m' (slot pt j) = load64 m (slot pt j) \<or> 512 \<le> j" by (meson not_le)
  have other: "ptset m' l d = ptset m l d \<and> ptree m' l d \<and>
      (\<forall>va. lookup m' l d va = lookup m l d va \<and> leafv m' l d va = leafv m l d va) \<and>
      ptset m l d \<inter> (ptset m l c \<union> Q) = {} \<and> pt \<notin> ptset m l d"
    if "j < 512" "j \<noteq> i" "load64 m (slot pt j) AND 1 \<noteq> 0" "d = PTE2PA (load64 m (slot pt j))" for j d
  proof -
    have "ptset m l d \<inter> ptset m l c = {}" "ptree m l d" "pt \<notin> ptset m l d"
      using wf i c that by auto
    moreover have "ptset m l d \<subseteq> ptset m (Suc l) pt"
      using that by auto
    ultimately show ?thesis
      using ptable_frame [of m l d m'] frame m'(2) Q by blast
  qed
  have inside: "ptset m l c \<subseteq> ptset m (Suc l) pt" using i c by auto
  have ix: "{i. i < 512 \<and> load64 m' (slot pt i) AND 1 \<noteq> 0}
      = insert i ({i. i < 512 \<and> load64 m (slot pt i) AND 1 \<noteq> 0} - {i})"
    using same i by auto
  have "ptset m' (Suc l) pt = insert pt (ptset m' l c \<union>
      (\<Union>j \<in> {i. i < 512 \<and> load64 m (slot pt i) AND 1 \<noteq> 0} - {i}. ptset m' l (PTE2PA (load64 m' (slot pt j)))))"
    unfolding ptset.simps PTE_V_def ix UN_insert using same i c by simp
  also have "\<dots> = insert pt (ptset m l c \<union> Q \<union>
      (\<Union>j \<in> {i. i < 512 \<and> load64 m (slot pt i) AND 1 \<noteq> 0} - {i}. ptset m l (PTE2PA (load64 m (slot pt j)))))"
    using other same m'(2) by simp
  also have "\<dots> = ptset m (Suc l) pt \<union> Q"
    using i c by auto
  finally show "ptset m' (Suc l) pt = ptset m (Suc l) pt \<union> Q" .
  have entry: "ptree m' l d \<and> pt \<notin> ptset m' l d"
    if "j < 512" "load64 m (slot pt j) AND 1 \<noteq> 0" "d = PTE2PA (load64 m (slot pt j))" for j d
    using other [OF that(1) _ that(2,3)] m'(1) pt(2) c that by (cases "j = i") auto
  have disj: "ptset m' l d \<inter> ptset m' l e = {}"
    if "j < 512" "load64 m (slot pt j) AND 1 \<noteq> 0" "d = PTE2PA (load64 m (slot pt j))"
      "k < 512" "load64 m (slot pt k) AND 1 \<noteq> 0" "e = PTE2PA (load64 m (slot pt k))" "j \<noteq> k" for j d k e
  proof (cases "j = i \<or> k = i")
    case True
    then show ?thesis
      using other [OF that(1) _ that(2,3)] other [OF that(4) _ that(5,6)] c that m'(2) by auto
  next
    case False
    then show ?thesis
      using other [OF that(1) _ that(2,3)] other [OF that(4) _ that(5,6)] wf that by auto
  qed
  show "ptree m' (Suc l) pt"
    using pt(1) entry disj same by (simp del: not_gr0)
  show "leafv m' (Suc l) pt va =
       (if unat (PX (Suc l) va) = i then leafv m' l c va else leafv m (Suc l) pt va)"
    using same [OF PX_bound] other [OF PX_bound] c i by (auto simp: Let_def)
  show "lookup m' (Suc l) pt va =
       (if unat (PX (Suc l) va) = i then lookup m' l c va else lookup m (Suc l) pt va)"
    using same [OF PX_bound] other [OF PX_bound] c i by (auto simp: Let_def)
qed

section \<open>Adding a table page\<close>

lemma ptable_zero_page:
  assumes "page_aligned p" "\<And>a. page_of a = p \<Longrightarrow> m a = 0"
  shows "ptset m l p = {p}" "ptree m l p" "leafv m l p va = 0"
proof -
  have z: "load64 m (slot p i) = 0" if "i < 512" for i
  proof -
    have "load64 m (slot p i) = load64 (fill_page m p 0) (slot p i)"
      using assms that by (intro load64_page_cong) (auto simp: fill_page_def)
    then show ?thesis using assms that by (simp add: load64_fill_page_zero)
  qed
  show "ptset m l p = {p}" by (cases l) (simp_all add: z)
  show "ptree m l p" using assms(1) by (cases l) (simp_all add: z)
  show "leafv m l p va = 0" by (cases l) (simp_all add: z PX_bound)
qed

lemma ptable_attach:
  assumes wf: "ptree m (Suc l) pt" and i: "i < 512" "load64 m (slot pt i) AND 1 = 0"
    and p: "page_aligned p" "p \<notin> ptset m (Suc l) pt"
    and m': "m' = store64 (fill_page m p 0) (slot pt i) (PA2PTE p OR 1)"
  shows "ptree m' (Suc l) pt" "ptset m' (Suc l) pt = insert p (ptset m (Suc l) pt)"
    "load64 m' (slot pt i) = PA2PTE p OR 1"
    "leafv m' (Suc l) pt va = leafv m (Suc l) pt va"
    "page_of a \<noteq> pt \<Longrightarrow> page_of a \<noteq> p \<Longrightarrow> m' a = m a"
proof -
  have pt: "page_aligned pt" "pt \<noteq> p" using wf p by auto
  have out: "m' a = m a" if "page_of a \<noteq> pt" "page_of a \<noteq> p" for a
    using that store64_outside [OF pt(1) i(1)] by (simp add: m' fill_page_def)
  then show "page_of a \<noteq> pt \<Longrightarrow> page_of a \<noteq> p \<Longrightarrow> m' a = m a" .
  have zero: "m' a = 0" if "page_of a = p" for a
    using that store64_outside [OF pt(1) i(1), of a] pt(2) by (simp add: m' fill_page_def)
  have "load64 (fill_page m p 0) (slot pt j) = load64 m (slot pt j)" if "j < 512" for j
    using pt that by (intro load64_page_cong) (auto simp: fill_page_def)
  then have same: "load64 m' (slot pt j) = (if j = i then PA2PTE p OR 1 else load64 m (slot pt j))"
    if "j < 512" for j
    using pt(1) i(1) that by (auto simp: m' load64_store64_slot)
  then show "load64 m' (slot pt i) = PA2PTE p OR 1" using i by simp
  have sub: "ptset m' l d = ptset m l d \<and> ptree m' l d \<and> (\<forall>va. leafv m' l d va = leafv m l d va) \<and>
      pt \<notin> ptset m l d \<and> p \<notin> ptset m l d"
    if "j < 512" "load64 m (slot pt j) AND 1 \<noteq> 0" "d = PTE2PA (load64 m (slot pt j))" for j d
  proof -
    have "ptree m l d" "pt \<notin> ptset m l d" "p \<notin> ptset m l d" using wf p that by auto
    then show ?thesis using ptable_frame [of m l d m'] out by metis
  qed
  note new = ptable_zero_page [of p m', OF p(1) zero]
  have ix: "{j. j < 512 \<and> load64 m' (slot pt j) AND 1 \<noteq> 0}
      = insert i {j. j < 512 \<and> load64 m (slot pt j) AND 1 \<noteq> 0}"
    using same i by (auto split: if_splits)
  show "ptset m' (Suc l) pt = insert p (ptset m (Suc l) pt)"
    unfolding ptset.simps PTE_V_def ix UN_insert
    using same i sub new(1) p by (auto split: if_splits)
  have entry: "j \<noteq> i \<Longrightarrow> load64 m' (slot pt j) = load64 m (slot pt j)" if "j < 512" for j
    using same that by simp
  show "ptree m' (Suc l) pt"
    unfolding ptree.simps PTE_V_def
  proof (intro conjI allI impI)
    fix j assume j: "j < 512" "load64 m' (slot pt j) AND 1 \<noteq> 0"
    show "ptree m' l (PTE2PA (load64 m' (slot pt j)))"
      using new(2) sub entry j same p(1) by (cases "j = i") auto
    show "pt \<notin> ptset m' l (PTE2PA (load64 m' (slot pt j)))"
      using new(1) sub entry j same p(1) pt(2) by (cases "j = i") auto
    fix k assume k: "k < 512" "k \<noteq> j \<and> load64 m' (slot pt k) AND 1 \<noteq> 0"
    show "ptset m' l (PTE2PA (load64 m' (slot pt j))) \<inter> ptset m' l (PTE2PA (load64 m' (slot pt k))) = {}"
      using new(1) sub entry j k same p(1) wf by (cases "j = i"; cases "k = i") auto
  qed (rule pt(1))
  show "leafv m' (Suc l) pt va = leafv m (Suc l) pt va"
    using same [OF PX_bound] sub [OF PX_bound] new(3) i p(1) by (auto simp: Let_def)
qed

section \<open>walk with allocation\<close>

text \<open>The table at \<open>pt\<close> is a tree of pages none of which is on the free list \<open>ps\<close>.\<close>

definition table_inv :: "'a kmst_scheme \<Rightarrow> nat \<Rightarrow> u64 \<Rightarrow> u64 list \<Rightarrow> bool" where
  "table_inv s l pt ps \<longleftrightarrow> kmem_inv s ps \<and> ptree (mem s) l pt \<and> 0 \<notin> ptset (mem s) l pt \<and>
     set ps \<inter> ptset (mem s) l pt = {}"

text \<open>
  A step that grows the table: the pages \<open>qs\<close> move from the front of the free list into the
  table, nothing outside the table changes, and every address keeps its leaf entry.
\<close>

definition grows :: "nat \<Rightarrow> u64 \<Rightarrow> u64 list \<Rightarrow> 'a kmst_scheme \<Rightarrow> u64 list \<Rightarrow> 'a kmst_scheme \<Rightarrow> u64 list \<Rightarrow> bool" where
  "grows l pt qs s ps t rest \<longleftrightarrow> ps = qs @ rest \<and> table_inv t l pt rest \<and>
     ptset (mem t) l pt = ptset (mem s) l pt \<union> set qs \<and>
     (\<forall>a. page_of a \<notin> ptset (mem t) l pt \<longrightarrow> mem t a = mem s a) \<and>
     mem_only s t \<and>
     (\<forall>va. leafv (mem t) l pt va = leafv (mem s) l pt va)"

lemma growsD:
  assumes "grows l pt qs s ps t rest"
  shows "ps = qs @ rest" "table_inv t l pt rest" "ptset (mem t) l pt = ptset (mem s) l pt \<union> set qs"
    "page_of a \<notin> ptset (mem t) l pt \<Longrightarrow> mem t a = mem s a" "mem_only s t"
    "leafv (mem t) l pt va = leafv (mem s) l pt va"
  using assms by (auto simp: grows_def)

lemma slot_nonzero: "\<lbrakk>page_aligned p; p \<noteq> 0; i < 512\<rbrakk> \<Longrightarrow> slot p i \<noteq> 0"
  using slot_page0 [of p i] by (auto simp: page_of_def)

text \<open>
  The outcome of \<open>walk\<close> with allocation: the address of the entry, or 0 when memory ran out;
  \<open>d\<close> bounds the pages it took.
\<close>

definition walked :: "nat \<Rightarrow> nat \<Rightarrow> u64 \<Rightarrow> u64 \<Rightarrow> u64 \<Rightarrow> 'a kmst_scheme \<Rightarrow> u64 list \<Rightarrow> u64 list \<Rightarrow> bool" where
  "walked d l pt va r t qs rest \<longleftrightarrow>
     r = 0 \<and> rest = [] \<and> length qs < d \<or> r \<noteq> 0 \<and> length qs \<le> d \<and> r = lookup (mem t) l pt va"

lemma walk_loop_valid:
  assumes IH: "\<exists>r t qs rest. walk_loop l c va True s = Ok (r, t) \<and> grows l c qs s ps t rest \<and>
      walked l l c va r t qs rest"
    and inv: "table_inv s (Suc l) pt ps"
    and v: "load64 (mem s) (slot pt (unat (PX (Suc l) va))) AND 1 \<noteq> 0"
    and c: "c = PTE2PA (load64 (mem s) (slot pt (unat (PX (Suc l) va))))"
  shows "\<exists>r t qs rest. walk_loop (Suc l) pt va True s = Ok (r, t) \<and> grows (Suc l) pt qs s ps t rest \<and>
      walked l (Suc l) pt va r t qs rest"
proof -
  obtain r t qs rest where run: "walk_loop l c va True s = Ok (r, t)"
    and g: "grows l c qs s ps t rest" and r: "walked l l c va r t qs rest"
    using IH by blast
  have wf: "ptree (mem s) (Suc l) pt" and Q: "set qs \<inter> ptset (mem s) (Suc l) pt = {}"
    and rest: "set rest \<inter> ptset (mem s) (Suc l) pt = {}"
    and nz: "0 \<notin> ptset (mem s) (Suc l) pt" "0 \<notin> set qs" "set qs \<inter> set rest = {}"
    using inv g by (auto simp: table_inv_def grows_def kmem_inv_def kpage_def)
  have m': "ptree (mem t) l c" "kmem_inv t rest"
    using growsD(2) [OF g] by (simp_all add: table_inv_def)
  note sub = ptable_subtable [OF wf PX_bound v c m'(1) growsD(3) [OF g] Q growsD(4) [OF g]]
  have e: "load64 (mem t) (slot pt (unat (PX (Suc l) va))) = load64 (mem s) (slot pt (unat (PX (Suc l) va)))"
    using sub(3) PX_bound [of "Suc l" va] by (meson not_le)
  have "grows (Suc l) pt qs s ps t rest"
    unfolding grows_def table_inv_def
  proof (intro conjI allI impI)
    fix a assume "page_of a \<notin> ptset (mem t) (Suc l) pt"
    then have "page_of a \<notin> ptset (mem t) l c"
      using sub(2) growsD(3) [OF g] v c PX_bound [of "Suc l" va] by auto
    then show "mem t a = mem s a" by (rule growsD(4) [OF g])
  next
    fix va' show "leafv (mem t) (Suc l) pt va' = leafv (mem s) (Suc l) pt va'"
      using sub(4) [of va'] growsD(6) [OF g, of va'] v c by (auto simp: Let_def)
  qed (use growsD(1,5) [OF g] m'(2) sub(1,2) rest nz in \<open>auto simp del: ptree.simps ptset.simps\<close>)
  moreover have "walk_loop (Suc l) pt va True s = Ok (r, t)"
    using run v c by (simp add: Let_def)
  moreover have "lookup (mem t) (Suc l) pt va = lookup (mem t) l c va"
    using e v c by (simp add: Let_def)
  ultimately show ?thesis using r [unfolded walked_def]
    by (intro exI [of _ r] exI [of _ t] exI [of _ qs] exI [of _ rest]) (simp only: simp_thms walked_def)
qed

lemma fill_page_twice [simp]: "fill_page (fill_page m p x) p y = fill_page m p y"
  by (auto simp: fill_page_def)

lemma walk_loop_missing:
  assumes inv: "table_inv s (Suc l) pt (p # ps)"
    and v: "load64 (mem s) (slot pt (unat (PX (Suc l) va))) AND 1 = 0"
  shows "\<exists>t. walk_loop (Suc l) pt va True s = walk_loop (Suc l) pt va True t \<and>
      grows (Suc l) pt [p] s (p # ps) t ps \<and>
      load64 (mem t) (slot pt (unat (PX (Suc l) va))) AND 1 \<noteq> 0"
proof -
  let ?i = "unat (PX (Suc l) va)"
  let ?m = "store64 (fill_page (mem s) p 0) (slot pt ?i) (PA2PTE p OR 1)"
  let ?t = "s\<lparr>freelist := load64 (mem s) p, mem := ?m\<rparr>"
  have km: "kmem_inv s (p # ps)" and wf: "ptree (mem s) (Suc l) pt" and nz: "0 \<notin> ptset (mem s) (Suc l) pt"
    and disj: "p \<notin> ptset (mem s) (Suc l) pt" "set ps \<inter> ptset (mem s) (Suc l) pt = {}"
    using inv by (auto simp: table_inv_def)
  then have p: "page_aligned p" "p \<notin> set ps" by (auto simp: kmem_inv_def kpage_def)
  obtain u where u: "kalloc s = Ok (p, u)" "kmem_inv u ps" "p \<noteq> 0"
    "u = s\<lparr>freelist := load64 (mem s) p, mem := fill_page (mem s) p 5\<rparr>"
    using kalloc_pop [OF km] by blast
  note at = ptable_attach [OF wf PX_bound v p(1) disj(1) refl]
  have "pt \<notin> set ps" using disj(2) ptset_root by blast
  have "kmem_inv ?t ps"
  proof (rule kmem_inv_frame [OF u(2)])
    fix a assume "page_of a \<in> set ps"
    then have "page_of a \<noteq> pt" "page_of a \<noteq> p" using \<open>pt \<notin> set ps\<close> p(2) by auto
    then show "mem ?t a = mem u a" using at(5) u(4) by (simp add: fill_page_outside)
  qed (use u(4) in simp_all)
  have "grows (Suc l) pt [p] s (p # ps) ?t ps"
    unfolding grows_def table_inv_def
  proof (intro conjI allI impI)
    fix a assume "page_of a \<notin> ptset (mem ?t) (Suc l) pt"
    then have "page_of a \<noteq> pt" "page_of a \<noteq> p" using at(2) by auto
    then show "mem ?t a = mem s a" using at(5) by simp
  qed (use \<open>kmem_inv ?t ps\<close> at(1,2,4) nz u(3) disj p(2) in
      \<open>auto simp del: ptree.simps ptset.simps leafv.simps\<close>)
  moreover have "walk_loop (Suc l) pt va True s = walk_loop (Suc l) pt va True ?t"
    using v u(1,3,4) p(1) at(3) by (simp add: Let_def memset_page)
  ultimately show ?thesis using at(3) by (intro exI [of _ ?t]) auto
qed

lemma grows_trans:
  assumes "grows l pt qs s ps t rest" "grows l pt qs' t rest u rest'"
  shows "grows l pt (qs @ qs') s ps u rest'"
  unfolding grows_def
proof (intro conjI allI impI)
  show "mem_only s u"
    using growsD(5) [OF assms(1)] growsD(5) [OF assms(2)] by (rule mem_only_trans)
  fix a assume "page_of a \<notin> ptset (mem u) l pt"
  then show "mem u a = mem s a"
    using growsD(3,4) [OF assms(1)] growsD(3,4) [OF assms(2)] by auto
qed (use growsD [OF assms(1)] growsD [OF assms(2)] in auto)

lemma walk_loop_alloc:
  "table_inv s l pt ps \<Longrightarrow>
   \<exists>r t qs rest. walk_loop l pt va True s = Ok (r, t) \<and> grows l pt qs s ps t rest \<and>
     walked l l pt va r t qs rest"
proof (induction l arbitrary: s pt ps)
  case 0
  then have "grows 0 pt [] s ps s ps" and "slot pt (unat (PX 0 va)) \<noteq> 0"
    by (auto simp: grows_def table_inv_def slot_nonzero PX_bound)
  then show ?case by (auto simp: walked_def)
next
  case (Suc l)
  have valid: "\<exists>r u qs rest. walk_loop (Suc l) pt va True t = Ok (r, u) \<and> grows (Suc l) pt qs t ps u rest \<and>
      walked l (Suc l) pt va r u qs rest"
    if inv: "table_inv t (Suc l) pt ps"
      and v: "load64 (mem t) (slot pt (unat (PX (Suc l) va))) AND 1 \<noteq> 0"
    for t :: "'a kmst_scheme" and ps
  proof (rule walk_loop_valid [OF _ inv v refl])
    have "table_inv t l (PTE2PA (load64 (mem t) (slot pt (unat (PX (Suc l) va))))) ps"
      using inv v PX_bound [of "Suc l" va] by (auto simp: table_inv_def)
    then show "\<exists>r u qs rest. walk_loop l (PTE2PA (load64 (mem t) (slot pt (unat (PX (Suc l) va))))) va True t = Ok (r, u) \<and>
        grows l (PTE2PA (load64 (mem t) (slot pt (unat (PX (Suc l) va))))) qs t ps u rest \<and>
        walked l l (PTE2PA (load64 (mem t) (slot pt (unat (PX (Suc l) va))))) va r u qs rest"
      by (rule Suc.IH)
  qed
  have weaken: "walked l (Suc l) pt va r u qs rest \<Longrightarrow> walked (Suc l) (Suc l) pt va r u qs rest"
    and more: "walked l (Suc l) pt va r u qs rest \<Longrightarrow> walked (Suc l) (Suc l) pt va r u ([p] @ qs) rest"
    for r :: u64 and u :: "'a kmst_scheme" and qs rest p
    by (auto simp: walked_def)
  show ?case
  proof (cases "load64 (mem s) (slot pt (unat (PX (Suc l) va))) AND 1 = 0")
    case False
    then show ?thesis using valid Suc.prems weaken by blast
  next
    case True
    show ?thesis
    proof (cases ps)
      case Nil
      have "kmem_inv s []" using Suc.prems Nil by (simp add: table_inv_def)
      then have "walk_loop (Suc l) pt va True s = Ok (0, s)"
        using True by (simp add: kalloc_empty Let_def)
      moreover have "grows (Suc l) pt [] s ps s ps"
        using Suc.prems by (simp add: grows_def del: ptree.simps ptset.simps)
      moreover have "walked (Suc l) (Suc l) pt va 0 s [] ps" using Nil by (simp add: walked_def)
      ultimately show ?thesis by blast
    next
      case (Cons p ps')
      then obtain t where t: "walk_loop (Suc l) pt va True s = walk_loop (Suc l) pt va True t"
        "grows (Suc l) pt [p] s ps t ps'" "load64 (mem t) (slot pt (unat (PX (Suc l) va))) AND 1 \<noteq> 0"
        using walk_loop_missing [of s l pt p ps'] Suc.prems True by blast
      then show ?thesis
        using valid [OF growsD(2) [OF t(2)] t(3)] grows_trans [OF t(2)] more by metis
    qed
  qed
qed

section \<open>Setting a leaf entry\<close>

definition same_vpn :: "nat \<Rightarrow> u64 \<Rightarrow> u64 \<Rightarrow> bool" where
  "same_vpn l va va' \<longleftrightarrow> (\<forall>k \<le> l. PX k va = PX k va')"

lemma same_vpn_Suc: "same_vpn (Suc l) va va' \<longleftrightarrow> PX (Suc l) va = PX (Suc l) va' \<and> same_vpn l va va'"
  by (auto simp: same_vpn_def le_Suc_eq)

lemma ptable_set_leaf:
  assumes "ptree m l pt" "lookup m l pt va \<noteq> 0"
  shows "ptree (store64 m (lookup m l pt va) v) l pt \<and>
    ptset (store64 m (lookup m l pt va) v) l pt = ptset m l pt \<and>
    (\<forall>va'. lookup (store64 m (lookup m l pt va) v) l pt va' = lookup m l pt va' \<and>
      leafv (store64 m (lookup m l pt va) v) l pt va' =
        (if same_vpn l va va' then v else leafv m l pt va')) \<and>
    (\<forall>a. page_of a \<notin> ptset m l pt \<longrightarrow> store64 m (lookup m l pt va) v a = m a)"
  using assms
proof (induction l arbitrary: pt)
  case 0
  then show ?case
    using PX_bound [of 0 va] PX_bound [of 0]
    by (auto simp: load64_store64_slot same_vpn_def store64_outside word_unat_eq_iff)
next
  case (Suc l)
  let ?i = "unat (PX (Suc l) va)" and ?e = "load64 m (slot pt (unat (PX (Suc l) va)))"
  let ?m = "store64 m (lookup m (Suc l) pt va) v"
  have v: "?e AND 1 \<noteq> 0" and lk: "lookup m (Suc l) pt va = lookup m l (PTE2PA ?e) va"
    using Suc.prems(2) by (auto simp: Let_def split: if_splits)
  have sub: "ptree m l (PTE2PA ?e)" "ptset m l (PTE2PA ?e) \<subseteq> ptset m (Suc l) pt"
    using Suc.prems(1) v PX_bound [of "Suc l" va] by auto
  have IH: "ptree ?m l (PTE2PA ?e)" "ptset ?m l (PTE2PA ?e) = ptset m l (PTE2PA ?e) \<union> {}"
    "\<And>a. page_of a \<notin> ptset ?m l (PTE2PA ?e) \<Longrightarrow> ?m a = m a"
    "\<And>va'. lookup ?m l (PTE2PA ?e) va' = lookup m l (PTE2PA ?e) va'"
    "\<And>va'. leafv ?m l (PTE2PA ?e) va' = (if same_vpn l va va' then v else leafv m l (PTE2PA ?e) va')"
    using Suc.IH [OF sub(1)] Suc.prems(2) unfolding lk by simp_all
  note st = ptable_subtable [OF Suc.prems(1) PX_bound v refl IH(1,2) _ IH(3)]
  have "leafv ?m (Suc l) pt va' = (if same_vpn (Suc l) va va' then v else leafv m (Suc l) pt va')" for va'
  proof (cases "PX (Suc l) va' = PX (Suc l) va")
    case True
    then have "leafv ?m (Suc l) pt va' = leafv ?m l (PTE2PA ?e) va'"
      "leafv m (Suc l) pt va' = leafv m l (PTE2PA ?e) va'"
      using st(4) [of va'] v by (simp_all add: Let_def del: leafv.simps) (simp add: Let_def)
    then show ?thesis using IH(5) [of va'] True by (simp add: same_vpn_Suc del: leafv.simps)
  next
    case False
    then have "unat (PX (Suc l) va') \<noteq> ?i" by (simp add: word_unat_eq_iff)
    then show ?thesis using st(4) [of va'] False by (simp add: same_vpn_Suc del: leafv.simps)
  qed
  moreover have "lookup ?m (Suc l) pt va' = lookup m (Suc l) pt va'" for va'
    using st(5) [of va'] IH(4) [of va'] v by (auto simp: Let_def)
  moreover have "?m a = m a" if "page_of a \<notin> ptset m (Suc l) pt" for a
    using that IH(2,3) sub(2) by blast
  ultimately show ?case
    using st(1,2) by (simp del: ptree.simps ptset.simps leafv.simps lookup.simps)
qed

text \<open>Below \<open>MAXVA\<close> the three indices determine the page.\<close>

lemma bit_PX: "bit (PX k va) n \<longleftrightarrow> n < 9 \<and> bit va (12 + 9 * k + n)"
proof -
  have "PX k va = take_bit 9 (drop_bit (PXSHIFT k) va)"
    by (simp add: PX_def take_bit_eq_mask mask_eq_exp_minus_1)
  then show ?thesis by (auto simp: bit_simps PXSHIFT_def dest: bit_imp_le_length)
qed

lemma same_vpn_page:
  assumes "va < MAXVA" "va' < MAXVA"
  shows "same_vpn 2 va va' \<longleftrightarrow> page_of va = page_of va'"
proof
  assume "page_of va = page_of va'"
  then have "bit va n = bit va' n" if "12 \<le> n" for n
    using bit_page_of that by metis
  then show "same_vpn 2 va va'"
    unfolding same_vpn_def by (auto intro!: bit_word_eqI simp: bit_PX)
next
  assume s: "same_vpn 2 va va'"
  have bound: "n < 38" if "bit w n" "w < MAXVA" for w :: u64 and n
    using bit_below [of w 38 n] that by simp
  show "page_of va = page_of va'"
  proof (rule bit_word_eqI)
    fix n
    have "bit va n = bit va' n" if "12 \<le> n" "n < 38"
    proof -
      have "bit (PX ((n - 12) div 9) va) ((n - 12) mod 9) = bit (PX ((n - 12) div 9) va') ((n - 12) mod 9)"
        using s that by (auto simp: same_vpn_def)
      moreover have "12 + 9 * ((n - 12) div 9) + (n - 12) mod 9 = n"
        using that by presburger
      ultimately show ?thesis by (simp add: bit_PX)
    qed
    then show "bit (page_of va) n = bit (page_of va') n"
      using bound [of va n] bound [of va' n] assms by (auto simp: bit_page_of)
  qed
qed

section \<open>mappages\<close>

lemma page_of_range:
  assumes "page_aligned a" "unat a + 4096 \<le> 2 ^ 64"
  shows "page_of va = a \<longleftrightarrow> unat a \<le> unat va \<and> unat va < unat a + 4096"
proof -
  have "page_of va = a \<longleftrightarrow> unat (va - a) < 4096" using page_offset [OF assms(1)] by simp
  also have "\<dots> \<longleftrightarrow> unat a \<le> unat va \<and> unat va < unat a + 4096"
  proof (cases "unat a \<le> unat va")
    case True
    then show ?thesis by (auto simp: unat_sub_if_size)
  next
    case False
    then show ?thesis using assms(2) by (auto simp: unat_sub_if_size word_size)
  qed
  finally show ?thesis .
qed

text \<open>The mapping \<open>f\<close> with \<open>n\<close> pages from \<open>a\<close> mapped to the frames from \<open>pa\<close>.\<close>

definition map_range :: "u64 \<Rightarrow> nat \<Rightarrow> u64 \<Rightarrow> u64 \<Rightarrow> (u64 \<Rightarrow> u64) \<Rightarrow> u64 \<Rightarrow> u64" where
  "map_range a n pa perm f va =
     (if unat a \<le> unat va \<and> unat va < unat a + 4096 * n
      then PA2PTE (pa + (page_of va - a)) OR perm OR 1 else f va)"

lemma map_range_0 [simp]: "map_range a 0 pa perm f = f"
  by (auto simp: map_range_def fun_eq_iff)

lemma map_range_Suc:
  assumes "page_aligned a" "unat a + 4096 \<le> 2 ^ 63"
  shows "map_range (a + 4096) n (pa + 4096) perm
      (\<lambda>va. if page_of va = a then PA2PTE pa OR perm OR 1 else f va) va
    = map_range a (Suc n) pa perm f va"
proof -
  have ua: "unat (a + 4096) = unat a + 4096"
    using assms(2) by (simp add: unat_word_ariths)
  have pg: "page_of va = a \<longleftrightarrow> unat a \<le> unat va \<and> unat va < unat a + 4096"
    using page_of_range assms by simp
  have "pa + 4096 + (page_of va - (a + 4096)) = pa + (page_of va - a)" by simp
  then show ?thesis
    unfolding map_range_def ua using pg by auto
qed

lemma table_inv_set_leaf:
  assumes inv: "table_inv s 2 pt ps" and r: "lookup (mem s) 2 pt va \<noteq> 0" "va < MAXVA"
    and t: "t = s\<lparr>mem := store64 (mem s) (lookup (mem s) 2 pt va) v\<rparr>"
  shows "table_inv t 2 pt ps" "ptset (mem t) 2 pt = ptset (mem s) 2 pt"
    "va' < MAXVA \<Longrightarrow> leafv (mem t) 2 pt va' = (if page_of va' = page_of va then v else leafv (mem s) 2 pt va')"
    "lookup (mem t) 2 pt va' = lookup (mem s) 2 pt va'"
    "page_of a \<notin> ptset (mem s) 2 pt \<Longrightarrow> mem t a = mem s a"
proof -
  have wf: "ptree (mem s) 2 pt" using inv by (simp add: table_inv_def)
  note l = ptable_set_leaf [OF wf r(1), of v]
  show "va' < MAXVA \<Longrightarrow> leafv (mem t) 2 pt va' = (if page_of va' = page_of va then v else leafv (mem s) 2 pt va')"
    using l same_vpn_page [OF r(2)] t by simp
  show "ptset (mem t) 2 pt = ptset (mem s) 2 pt" "lookup (mem t) 2 pt va' = lookup (mem s) 2 pt va'"
    and out: "page_of a \<notin> ptset (mem s) 2 pt \<Longrightarrow> mem t a = mem s a" for a
    using l t by simp_all
  have "kmem_inv t ps"
    by (rule kmem_inv_frame [of s]) (use inv out t in \<open>auto simp: table_inv_def\<close>)
  then show "table_inv t 2 pt ps" using l inv t by (simp add: table_inv_def)
qed

lemma walk_alloc:
  assumes "table_inv s 2 pt ps" "va < MAXVA"
  shows "\<exists>r t qs rest. walk pt va True s = Ok (r, t) \<and> grows 2 pt qs s ps t rest \<and> length qs \<le> 2 \<and>
    (r = 0 \<and> rest = [] \<and> length qs < 2 \<or>
     r \<noteq> 0 \<and> r = lookup (mem t) 2 pt va \<and> load64 (mem t) r = leafv (mem s) 2 pt va)"
proof -
  obtain r t qs rest where w: "walk_loop 2 pt va True s = Ok (r, t)" "grows 2 pt qs s ps t rest"
    "walked 2 2 pt va r t qs rest"
    using walk_loop_alloc [OF assms(1)] by blast
  have "r \<noteq> 0 \<Longrightarrow> r = lookup (mem t) 2 pt va \<Longrightarrow> load64 (mem t) r = leafv (mem s) 2 pt va"
    using leafv_lookup [of "mem t" 2 pt va] growsD(2,6) [OF w(2)] by (simp add: table_inv_def)
  moreover have "walk pt va True s = Ok (r, t)" using assms(2) w(1) by (simp add: walk_def leD)
  moreover have "length qs \<le> 2" using w(3) by (auto simp: walked_def)
  ultimately show ?thesis
    using w(2) w(3) [unfolded walked_def] by blast
qed

text \<open>One page: what an iteration of \<open>mappages\<close> does to the table.\<close>

definition maps :: "u64 \<Rightarrow> u64 \<Rightarrow> nat \<Rightarrow> u64 \<Rightarrow> u64 \<Rightarrow> 'a kmst_scheme \<Rightarrow> u64 list \<Rightarrow> 'a kmst_scheme \<Rightarrow> u64 list \<Rightarrow> bool" where
  "maps pt a n pa perm s ps t rest \<longleftrightarrow> table_inv t 2 pt rest \<and> mem_only s t \<and>
     (\<exists>qs. ps = qs @ rest \<and> ptset (mem t) 2 pt = ptset (mem s) 2 pt \<union> set qs) \<and>
     (\<forall>a. page_of a \<notin> ptset (mem t) 2 pt \<longrightarrow> mem t a = mem s a) \<and>
     (\<forall>va < MAXVA. leafv (mem t) 2 pt va = map_range a n pa perm (leafv (mem s) 2 pt) va)"

lemma grows_maps: "grows 2 pt qs s ps t rest \<Longrightarrow> maps pt a 0 pa perm s ps t rest"
  by (auto simp: maps_def dest: growsD)

lemma maps_one:
  assumes g: "grows 2 pt qs s ps t rest" and r: "lookup (mem t) 2 pt a \<noteq> 0" "a < MAXVA" "page_aligned a"
  shows "maps pt a 1 pa perm s ps
    (t\<lparr>mem := store64 (mem t) (lookup (mem t) 2 pt a) (PA2PTE pa OR perm OR 1)\<rparr>) rest" (is "maps _ _ _ _ _ _ _ ?u _")
proof -
  note l = table_inv_set_leaf [OF growsD(2) [OF g] r(1,2) refl, where v = "PA2PTE pa OR perm OR 1"]
  have a: "page_of a = a" using r(3) by (simp add: page_aligned_iff)
  have "unat a + 4096 \<le> 2 ^ 63" using r(2) by (simp add: word_less_nat_alt)
  then have "map_range a 1 pa perm f va = (if page_of va = a then PA2PTE pa OR perm OR 1 else f va)" for f va
    using map_range_Suc [OF r(3), of 0 pa perm f va] by simp
  then show ?thesis
    unfolding maps_def
    using l growsD [OF g] a mem_only_trans [OF growsD(5) [OF g]]
    by (auto simp del: MAXVA_eq simp: page_aligned_iff)
qed

lemma maps_trans:
  assumes s: "maps pt a 1 pa perm s ps t rest" and t: "maps pt (a + 4096) k (pa + 4096) perm t rest u rest'"
    and a: "page_aligned a" "unat a + 4096 \<le> 2 ^ 63"
  shows "maps pt a (Suc k) pa perm s ps u rest'"
proof -
  have one: "map_range a 1 pa perm f va = (if page_of va = a then PA2PTE pa OR perm OR 1 else f va)" for f va
    using map_range_Suc [OF a, of 0 pa perm f va] by simp
  obtain qs qs' where qs: "ps = qs @ rest" "ptset (mem t) 2 pt = ptset (mem s) 2 pt \<union> set qs"
    "rest = qs' @ rest'" "ptset (mem u) 2 pt = ptset (mem t) 2 pt \<union> set qs'"
    using s t unfolding maps_def by blast
  have leaf: "leafv (mem u) 2 pt va = map_range a (Suc k) pa perm (leafv (mem s) 2 pt) va"
    if va: "va < MAXVA" for va
  proof -
    have "leafv (mem u) 2 pt va = map_range (a + 4096) k (pa + 4096) perm (leafv (mem t) 2 pt) va"
      using t va by (simp add: maps_def)
    also have "\<dots> = map_range (a + 4096) k (pa + 4096) perm
        (\<lambda>va. if page_of va = a then PA2PTE pa OR perm OR 1 else leafv (mem s) 2 pt va) va"
      using s va unfolding maps_def one [symmetric] by (simp add: map_range_def)
    finally show ?thesis by (simp add: map_range_Suc [OF a])
  qed
  have out: "mem u b = mem s b" if "page_of b \<notin> ptset (mem u) 2 pt" for b
    using s t qs that unfolding maps_def by auto
  have "table_inv u 2 pt rest'" "mem_only s u"
    using s t mem_only_trans unfolding maps_def by blast+
  moreover have "\<exists>qs. ps = qs @ rest' \<and> ptset (mem u) 2 pt = ptset (mem s) 2 pt \<union> set qs"
    using qs by (intro exI [of _ "qs @ qs'"]) auto
  ultimately show ?thesis
    unfolding maps_def using leaf out by blast
qed

lemma mappages_loop_ok:
  "\<lbrakk>table_inv s 2 pt ps; page_aligned a; unat a + 4096 * Suc n \<le> 0x4000000000;
    lst = a + 4096 * of_nat n;
    \<forall>va. unat a \<le> unat va \<and> unat va < unat a + 4096 * Suc n \<longrightarrow> leafv (mem s) 2 pt va AND 1 = 0\<rbrakk> \<Longrightarrow>
   \<exists>r t k rest. mappages_loop pt a lst pa perm s = Ok (r, t) \<and> maps pt a k pa perm s ps t rest \<and>
     (r = 0 \<and> k = Suc n \<or> r = -1 \<and> k \<le> n \<and> rest = [] \<and> length ps < 2 * Suc n)"
proof (induction n arbitrary: s ps a pa)
  case 0
  have a: "a < MAXVA" using "0.prems"(3) by (simp add: word_less_nat_alt)
  obtain r t qs rest where w: "walk pt a True s = Ok (r, t)" "grows 2 pt qs s ps t rest"
    "length qs \<le> 2"
    "r = 0 \<and> rest = [] \<and> length qs < 2 \<or> r \<noteq> 0 \<and> r = lookup (mem t) 2 pt a \<and> load64 (mem t) r = leafv (mem s) 2 pt a"
    using walk_alloc [OF "0.prems"(1) a] by blast
  show ?case
  proof (cases "r = 0")
    case True
    then show ?thesis
      using w grows_maps [OF w(2)] growsD(1) [OF w(2)] by (subst mappages_loop.simps) auto
  next
    case False
    moreover have "leafv (mem s) 2 pt a AND 1 = 0" using "0.prems"(5) by auto
    ultimately show ?thesis
      using w maps_one [OF w(2) _ a "0.prems"(2)] "0.prems"(4)
      by (subst mappages_loop.simps) auto
  qed
next
  case (Suc n)
  have a: "a < MAXVA" "unat a + 4096 \<le> 2 ^ 63" and ua: "unat (a + 4096) = unat a + 4096"
    using Suc.prems(3) by (simp_all add: word_less_nat_alt unat_word_ariths)
  obtain r t qs rest where w: "walk pt a True s = Ok (r, t)" "grows 2 pt qs s ps t rest"
    "length qs \<le> 2"
    "r = 0 \<and> rest = [] \<and> length qs < 2 \<or> r \<noteq> 0 \<and> r = lookup (mem t) 2 pt a \<and> load64 (mem t) r = leafv (mem s) 2 pt a"
    using walk_alloc [OF Suc.prems(1) a(1)] by blast
  show ?case
  proof (cases "r = 0")
    case True
    then show ?thesis
      using w grows_maps [OF w(2)] growsD(1) [OF w(2)] by (subst mappages_loop.simps) auto
  next
    case False
    let ?u = "t\<lparr>mem := store64 (mem t) r (PA2PTE pa OR perm OR 1)\<rparr>"
    have free: "leafv (mem s) 2 pt a AND 1 = 0" using Suc.prems(5) by auto
    have m: "maps pt a 1 pa perm s ps ?u rest"
      using maps_one [OF w(2) _ a(1) Suc.prems(2)] w(4) False by auto
    have ne: "a \<noteq> lst"
      using Suc.prems(3,4) unat_of_nat_u64 [of "4096 * Suc n"] by (auto simp: word_unat_eq_iff unat_word_ariths)
    have "\<exists>r' u k rest'. mappages_loop pt (a + 4096) lst (pa + 4096) perm ?u = Ok (r', u) \<and>
        maps pt (a + 4096) k (pa + 4096) perm ?u rest u rest' \<and>
        (r' = 0 \<and> k = Suc n \<or> r' = -1 \<and> k \<le> n \<and> rest' = [] \<and> length rest < 2 * Suc n)"
    proof (rule Suc.IH)
      show "table_inv ?u 2 pt rest" using m by (simp add: maps_def)
      show "\<forall>va. unat (a + 4096) \<le> unat va \<and> unat va < unat (a + 4096) + 4096 * Suc n \<longrightarrow>
          leafv (mem ?u) 2 pt va AND 1 = 0"
      proof (intro allI impI)
        fix va :: u64 assume va: "unat (a + 4096) \<le> unat va \<and> unat va < unat (a + 4096) + 4096 * Suc n"
        then have "va < MAXVA" using Suc.prems(3) ua by (simp add: word_less_nat_alt)
        then have "leafv (mem ?u) 2 pt va = map_range a 1 pa perm (leafv (mem s) 2 pt) va"
          using m by (simp add: maps_def)
        then show "leafv (mem ?u) 2 pt va AND 1 = 0"
          using va ua Suc.prems(5) by (auto simp: map_range_def)
      qed
    qed (use Suc.prems ua in \<open>auto intro: page_aligned_add simp: algebra_simps\<close>)
    then obtain r' u k rest' where i: "mappages_loop pt (a + 4096) lst (pa + 4096) perm ?u = Ok (r', u)"
        "maps pt (a + 4096) k (pa + 4096) perm ?u rest u rest'"
        "r' = 0 \<and> k = Suc n \<or> r' = -1 \<and> k \<le> n \<and> rest' = [] \<and> length rest < 2 * Suc n" by blast
    have "mappages_loop pt a lst pa perm s = Ok (r', u)"
      using w False free ne i(1) by (subst mappages_loop.simps) auto
    moreover have "maps pt a (Suc k) pa perm s ps u rest'"
      by (rule maps_trans [OF m i(2) Suc.prems(2) a(2)])
    ultimately show ?thesis using i(3) w(3) growsD(1) [OF w(2)] by (intro exI [of _ r'] exI [of _ u] exI [of _ "Suc k"] exI [of _ rest']) auto
  qed
qed

section \<open>Properties\<close>

text \<open>C3: \<open>mappages\<close> on a range of unmapped pages below \<open>MAXVA\<close> never panics.  If it returns 0,
  every page of the range is mapped to its frame with the given permissions; if it returns -1 then
  the free list is used up, it held fewer than two pages for each page of the range, and a proper
  prefix of the range is mapped.  In both cases every other address
  keeps its entry, the table stays a tree of pages that are not free, the table pages it added come
  from the free list, and no memory outside the table changes.\<close>

theorem mappages_refines_map:
  assumes "table_inv s 2 pt ps" "page_aligned va" "0 < n" "unat va + 4096 * n \<le> unat MAXVA"
    "\<forall>a. unat va \<le> unat a \<and> unat a < unat va + 4096 * n \<longrightarrow> leafv (mem s) 2 pt a AND PTE_V = 0"
  shows "\<exists>r t k rest. mappages pt va (4096 * of_nat n) pa perm s = Ok (r, t) \<and>
    maps pt va k pa perm s ps t rest \<and>
    (r = 0 \<and> k = n \<or> r = -1 \<and> k < n \<and> rest = [] \<and> length ps < 2 * n)"
proof -
  obtain n' where n: "n = Suc n'" using assms(3) by (cases n) auto
  have un: "unat (4096 * of_nat n :: u64) = 4096 * n"
    using assms(4) unat_of_nat_u64 [of "4096 * n"] by simp
  have al: "page_aligned (4096 * of_nat n)" by (simp add: page_aligned_unat un)
  have nz: "4096 * of_nat n \<noteq> (0 :: u64)" using un assms(3) by (auto simp del: of_nat_mult)
  have "mappages pt va (4096 * of_nat n) pa perm s =
      mappages_loop pt va (va + 4096 * of_nat n') pa perm s"
    using al nz assms(2) unfolding page_aligned_mod mappages_def by (simp add: n algebra_simps)
  then show ?thesis
    using mappages_loop_ok [of s pt ps va n' _ pa perm] assms n by (auto simp: less_Suc_eq_le)
qed

text \<open>A page of zeros is an empty table.\<close>

lemma table_inv_empty:
  assumes "kmem_inv s ps" "page_aligned pt" "pt \<noteq> 0" "pt \<notin> set ps"
    "\<And>a. page_of a = pt \<Longrightarrow> mem s a = 0"
  shows "table_inv s 2 pt ps" "leafv (mem s) 2 pt va = 0"
  using assms ptable_zero_page [of pt "mem s" 2] by (auto simp: table_inv_def)

text \<open>A state with two free pages and an empty table.\<close>

lemma two_free_pages:
  obtains s :: kmst where "kmem_inv s [0x87FFF000, 0x87FFE000]" "table_inv s 2 0x80100000 [0x87FFF000, 0x87FFE000]"
    "\<forall>va. leafv (mem s) 2 0x80100000 va = 0" "ptset (mem s) 2 0x80100000 = {0x80100000}"
proof -
  let ?s = "boot_kmst 0x80021000"
  have kp: "kpage ?s 0x87FFE000" "kpage ?s 0x87FFF000" by (simp_all add: kpage_def boot_kmst_def page_aligned_mod)
  obtain t where t: "kmem_inv t [0x87FFE000]" "mem_only ?s t" "\<And>a. page_of a \<noteq> 0x87FFE000 \<Longrightarrow> mem t a = mem ?s a"
    using kfree_push [OF kmem_inv_boot kp(1)] by auto
  have "kpage t 0x87FFF000" using kp(2) mem_onlyD(5) [OF t(2)] by (simp add: kpage_def)
  then obtain u :: kmst where u: "kmem_inv u [0x87FFF000, 0x87FFE000]" "\<And>a. page_of a \<noteq> 0x87FFF000 \<Longrightarrow> mem u a = mem t a"
    using kfree_push [OF t(1), of "0x87FFF000"] by auto
  have z: "mem u a = 0" if "page_of a = 0x80100000" for a
    using that t(3) u(2) by (simp add: boot_kmst_def)
  have al: "page_aligned 0x80100000" by (simp add: page_aligned_mod)
  show ?thesis
  proof (rule that [OF u(1)])
    show "table_inv u 2 0x80100000 [0x87FFF000, 0x87FFE000]"
      by (rule table_inv_empty(1) [OF u(1) al _ _ z]) simp_all
    show "\<forall>va. leafv (mem u) 2 0x80100000 va = 0"
      by (intro allI, rule table_inv_empty(2) [OF u(1) al _ _ z]) simp_all
    show "ptset (mem u) 2 0x80100000 = {0x80100000}" by (rule ptable_zero_page(1) [OF al z])
  qed
qed

theorem mappages_refines_map_witness:
  "\<exists>(s :: kmst) t k rest. mappages 0x80100000 0x3000 (4096 * of_nat 1) 0x80200000 6 s = Ok (0, t) \<and>
    maps 0x80100000 0x3000 k 0x80200000 6 s [0x87FFF000, 0x87FFE000] t rest \<and> k = 1"
proof -
  obtain s :: kmst where "kmem_inv s [0x87FFF000, 0x87FFE000]"
    and s: "table_inv s 2 0x80100000 [0x87FFF000, 0x87FFE000]"
      "\<forall>va. leafv (mem s) 2 0x80100000 va = 0" "ptset (mem s) 2 0x80100000 = {0x80100000}"
    by (rule two_free_pages)
  show ?thesis
    using mappages_refines_map [OF s(1), of "0x3000" 1 "0x80200000" 6] s(2)
    by (auto simp: page_aligned_mod)
qed

lemma or_one_below: "w < 1024 \<Longrightarrow> w OR 1 < (1024 :: u64)"
proof -
  assume "w < 1024"
  then have "take_bit 10 (w OR 1) = w OR 1" by (simp add: take_bit_or take_bit_below)
  moreover have "take_bit 10 (w OR 1) = (w OR 1) mod 1024" by (simp add: take_bit_eq_mod)
  moreover have "(w OR 1) mod 1024 < 1024"
    by (simp add: word_less_nat_alt unat_mod_distrib)
  ultimately show ?thesis by simp
qed

lemma and_1_bit: "(v :: u64) AND 1 = 0 \<longleftrightarrow> \<not> bit v 0"
  using and_exp_eq_0_iff_not_bit [of v 0] by simp

lemma and_16_bit: "(v :: u64) AND 16 = 0 \<longleftrightarrow> \<not> bit v 4"
  using and_exp_eq_0_iff_not_bit [of v 4] by simp

lemma walkaddr_ptree:
  assumes "ptree (mem s) 2 pt" "0 \<notin> ptset (mem s) 2 pt" "va < MAXVA"
  shows "walkaddr pt va s = Ok (let v = leafv (mem s) 2 pt va in
    if v AND 1 \<noteq> 0 \<and> v AND 16 \<noteq> 0 then PTE2PA v else 0, s)"
  using assms leafv_lookup [of "mem s" 2 pt va]
  by (auto simp: walkaddr_def walk_lookup Let_def not_le [symmetric] simp del: MAXVA_eq)

lemma walkaddr_leafv:
  assumes "table_inv s 2 pt ps" "va < MAXVA"
  shows "walkaddr pt va s = Ok (let v = leafv (mem s) 2 pt va in
    if v AND 1 \<noteq> 0 \<and> v AND 16 \<noteq> 0 then PTE2PA v else 0, s)"
  using assms by (intro walkaddr_ptree) (simp_all add: table_inv_def)

text \<open>C17: a page that \<open>mappages\<close> has just mapped with the user bit is found again: \<open>walkaddr\<close>
  returns the frame that was passed in, and for any other page it returns what it returned
  before.\<close>

theorem mappages_walkaddr:
  assumes "table_inv s 2 pt ps" "page_aligned va" "va < MAXVA" "leafv (mem s) 2 pt va AND PTE_V = 0"
    "page_aligned pa" "perm < 1024" "perm AND PTE_U \<noteq> 0" "mappages pt va PGSIZE pa perm s = Ok (0, t)"
  shows "walkaddr pt va t = Ok (pa, t) \<and>
    (\<forall>a < MAXVA. page_of a \<noteq> va \<longrightarrow> (\<forall>x. walkaddr pt a t = Ok (x, t) \<longleftrightarrow> walkaddr pt a s = Ok (x, s)))"
proof -
  have ub: "unat va + 4096 \<le> 2 ^ 64" "unat va + 4096 * Suc 0 \<le> 0x4000000000"
    using assms(2,3) by (auto simp: word_less_nat_alt page_aligned_unat dvd_def)
  have same: "leafv (mem s) 2 pt a = leafv (mem s) 2 pt va"
    if "unat va \<le> unat a \<and> unat a < unat va + 4096" for a
  proof -
    have "page_of a = va" using page_of_range [OF assms(2) ub(1)] that by simp
    moreover have "a < MAXVA" using that ub(2) by (simp add: word_less_nat_alt)
    ultimately have "same_vpn 2 a va"
      using same_vpn_page [of a va] assms(2,3) by (simp add: page_aligned_iff)
    then have "PX k a = PX k va" if "k \<le> 2" for k using that by (simp add: same_vpn_def)
    then show ?thesis by (simp add: numeral_2_eq_2 Let_def)
  qed
  have "mappages pt va PGSIZE pa perm s = mappages_loop pt va va pa perm s"
    using assms(2) unfolding page_aligned_mod mappages_def by simp
  moreover have "\<forall>a. unat va \<le> unat a \<and> unat a < unat va + 4096 * Suc 0 \<longrightarrow> leafv (mem s) 2 pt a AND 1 = 0"
    using assms(4) by (intro allI impI, subst same) simp_all
  ultimately obtain k rest where m: "maps pt va k pa perm s ps t rest" "k = Suc 0"
    using mappages_loop_ok [OF assms(1,2) ub(2), of va pa perm] assms(8) by auto
  have new: "leafv (mem t) 2 pt a =
      (if page_of a = va then PA2PTE (pa + (page_of a - va)) OR perm OR 1 else leafv (mem s) 2 pt a)"
    if "a < MAXVA" for a
    using m that page_of_range [OF assms(2) ub(1)] by (simp add: maps_def map_range_def)
  have "leafv (mem t) 2 pt va = PA2PTE pa OR (perm OR 1)"
    using new [OF assms(3)] assms(2) by (simp add: page_aligned_iff or.assoc)
  moreover have "PTE2PA (PA2PTE pa OR (perm OR 1)) = pa"
    by (rule PTE2PA_PA2PTE [OF assms(5) or_one_below [OF assms(6)]])
  moreover have "(PA2PTE pa OR (perm OR 1)) AND 1 \<noteq> 0" "(PA2PTE pa OR (perm OR 1)) AND 16 \<noteq> 0"
    using assms(7) unfolding and_1_bit and_16_bit by (simp_all add: bit_simps and_16_bit)
  moreover have inv: "table_inv t 2 pt rest" using m by (simp add: maps_def)
  ultimately have "walkaddr pt va t = Ok (pa, t)"
    by (simp add: walkaddr_leafv [OF _ assms(3)])
  moreover have "walkaddr pt a t = Ok (x, t) \<longleftrightarrow> walkaddr pt a s = Ok (x, s)"
    if "a < MAXVA" "page_of a \<noteq> va" for a x
    using that new [OF that(1)] inv assms(1) by (simp add: walkaddr_leafv del: MAXVA_eq)
  ultimately show ?thesis by blast
qed

theorem mappages_walkaddr_witness:
  "\<exists>(s :: kmst) t. mappages 0x80100000 0x3000 PGSIZE 0x80200000 22 s = Ok (0, t) \<and>
    walkaddr 0x80100000 0x3000 t = Ok (0x80200000, t)"
proof -
  obtain s :: kmst where "kmem_inv s [0x87FFF000, 0x87FFE000]"
    and s: "table_inv s 2 0x80100000 [0x87FFF000, 0x87FFE000]"
      "\<forall>va. leafv (mem s) 2 0x80100000 va = 0" "ptset (mem s) 2 0x80100000 = {0x80100000}"
    by (rule two_free_pages)
  obtain t where t: "mappages 0x80100000 0x3000 PGSIZE 0x80200000 22 s = Ok (0, t)"
    using mappages_loop_ok [OF s(1), of "0x3000" 0 "0x3000" "0x80200000" 22] s(2)
    by (auto simp: page_aligned_mod mappages_def)
  show ?thesis
    using mappages_walkaddr [OF s(1) _ _ _ _ _ _ t] t s(2) by (auto simp: page_aligned_mod)
qed

end
