(* ===== verification/Usercopy.thy ===== *)
theory Usercopy
  imports Pagetable
begin

text \<open>
  \<open>copyin\<close> and \<open>copyout\<close> of \<open>kernel/vm.c\<close> against the meaning of a page table: the byte at a
  user address is the byte at the address it translates to.  The loops of the code work page by
  page with \<open>memmove\<close>; the lemmas show that they read and write the user's bytes one by one, in
  order, and fail exactly when some address of the range is not mapped for the user.
\<close>

section \<open>Translation\<close>

definition utrans :: "bytemem \<Rightarrow> u64 \<Rightarrow> u64 \<Rightarrow> u64 option" where
  "utrans m pt va =
     (let v = leafv m 2 pt va in
      if va < MAXVA \<and> v AND PTE_V \<noteq> 0 \<and> v AND PTE_U \<noteq> 0 \<and> PTE2PA v \<noteq> 0
      then Some (PTE2PA v + (va - page_of va)) else None)"

text \<open>The \<open>n\<close> bytes of user memory from \<open>va\<close>, when they are all mapped.\<close>

primrec user_read :: "bytemem \<Rightarrow> u64 \<Rightarrow> u64 \<Rightarrow> nat \<Rightarrow> u8 list option" where
  "user_read m pt va 0 = Some []"
| "user_read m pt va (Suc n) =
     (case utrans m pt va of
        None \<Rightarrow> None
      | Some pa \<Rightarrow> map_option (\<lambda>bs. m pa # bs) (user_read m pt (va + 1) n))"

lemma user_read_append:
  "user_read m pt va (a + b) =
     (case user_read m pt va a of
        None \<Rightarrow> None
      | Some xs \<Rightarrow> map_option (\<lambda>ys. xs @ ys) (user_read m pt (va + of_nat a) b))"
proof (induction a arbitrary: va)
  case (Suc a)
  then show ?case
    by (cases "user_read m pt (va + (1 + of_nat a)) b")
      (auto split: option.splits simp: algebra_simps)
next
  case 0
  show ?case by (cases "user_read m pt va b") simp_all
qed

lemma page_MAXVA: "page_of va < MAXVA \<longleftrightarrow> va < MAXVA"
proof -
  have "bit (page_of va) n = bit va n" if "12 \<le> n" for n using that by (simp add: bit_page_of)
  then have "drop_bit 38 (page_of va) = drop_bit 38 va"
    by (auto intro!: bit_word_eqI simp: bit_simps)
  moreover have "w < MAXVA \<longleftrightarrow> drop_bit 38 w = 0" for w :: u64
    by (simp add: drop_bit_eq_div word_less_nat_alt unat_div_distrib word_unat_eq_iff div_eq_0_iff)
  ultimately show ?thesis by simp
qed

lemma leafv_same_page:
  assumes "page_of va = page_of va'"
  shows "leafv m 2 pt va = leafv m 2 pt va'"
proof -
  have "bit va n = bit va' n" if "12 \<le> n" for n
    using assms bit_page_of that by metis
  then have "PX k va = PX k va'" for k
    by (auto intro!: bit_word_eqI simp: bit_PX)
  then show ?thesis by (simp add: numeral_2_eq_2 Let_def)
qed

text \<open>Within the page of \<open>va\<close>, translation is adding the offset.\<close>

lemma page_of_within:
  assumes "k < unat (page_rest va)"
  shows "page_of (va + of_nat k) = page_of va"
proof -
  have o: "unat (va - page_of va) < 4096" by (subst page_offset) simp_all
  have "unat (va - page_of va) + k < 4096"
    using assms o by (simp add: unat_page_rest)
  then have "page_of (page_of va + of_nat (unat (va - page_of va) + k)) = page_of va"
    by (intro page_of_add) simp_all
  then show ?thesis by (simp add: algebra_simps)
qed

lemma utrans_within:
  assumes "k < unat (page_rest va)"
  shows "utrans m pt (va + of_nat k) = map_option (\<lambda>pa. pa + of_nat k) (utrans m pt va)"
  using page_of_within [OF assms] leafv_same_page [OF page_of_within [OF assms], of m pt]
    page_MAXVA [of va] page_MAXVA [of "va + of_nat k"]
  by (simp add: utrans_def Let_def algebra_simps del: MAXVA_eq)

lemma user_read_page:
  assumes "utrans m pt va = Some pa" "n \<le> unat (page_rest va)"
  shows "user_read m pt va n = Some (bytes_at m pa n)"
  using assms(2)
proof (induction n)
  case (Suc n)
  have "user_read m pt va (n + 1) = Some (bytes_at m pa n @ [m (pa + of_nat n)])"
    unfolding user_read_append using Suc assms(1) utrans_within [of n va m pt] by simp
  then show ?case by (simp add: bytes_at_def at_def)
qed (simp add: bytes_at_def)

lemma user_read_None: "\<lbrakk>utrans m pt va = None; 0 < n\<rbrakk> \<Longrightarrow> user_read m pt va n = None"
  by (cases n) simp_all

lemma bytes_at_append: "bytes_at m p (a + b) = bytes_at m p a @ bytes_at m (p + of_nat a) b"
  by (induction b) (simp_all add: bytes_at_def at_def algebra_simps)

lemma bytes_at_cong: "(\<And>i. i < n \<Longrightarrow> m' (p + of_nat i) = m (p + of_nat i)) \<Longrightarrow> bytes_at m' p n = bytes_at m p n"
  by (simp add: bytes_at_def at_def)

text \<open>\<open>walkaddr\<close> on the page of an address.\<close>

lemma walkaddr_utrans:
  assumes "ptree (mem s) 2 pt" "0 \<notin> ptset (mem s) 2 pt"
  shows "walkaddr pt (page_of va) s =
    Ok (case utrans (mem s) pt va of None \<Rightarrow> 0 | Some pa \<Rightarrow> pa - (va - page_of va), s)"
proof -
  have "leafv (mem s) 2 pt (page_of va) = leafv (mem s) 2 pt va"
    by (rule leafv_same_page) simp
  then show ?thesis
    using walkaddr_ptree [OF assms, of "page_of va"] page_MAXVA [of va]
    by (cases "va < MAXVA") (auto simp: utrans_def Let_def walkaddr_def simp del: MAXVA_eq)
qed

lemma utrans_base_nonzero:
  "utrans m pt va = Some pa \<Longrightarrow> pa - (va - page_of va) \<noteq> 0"
  by (auto simp: utrans_def Let_def split: if_splits)

section \<open>copyin\<close>

text \<open>
  A kernel buffer of \<open>n\<close> bytes at \<open>p\<close> that user memory and the page table do not overlap.
\<close>

definition kbuf :: "bytemem \<Rightarrow> u64 \<Rightarrow> u64 \<Rightarrow> nat \<Rightarrow> bool" where
  "kbuf m pt p n \<longleftrightarrow> unat p + n < 2 ^ 64 \<and>
     (\<forall>a. unat (a - p) < n \<longrightarrow> page_of a \<notin> ptset m 2 pt \<and> (\<forall>va. utrans m pt va \<noteq> Some a))"

text \<open>A user page table: a tree whose user frames do not reach the end of the address space.\<close>

definition upt :: "bytemem \<Rightarrow> u64 \<Rightarrow> bool" where
  "upt m pt \<longleftrightarrow> ptree m 2 pt \<and> 0 \<notin> ptset m 2 pt \<and>
     (\<forall>va pa. utrans m pt va = Some pa \<longrightarrow> unat pa + 4096 < 2 ^ 64)"

lemma offset_sub:
  fixes p :: u64
  assumes "unat p + n < 2 ^ 64" "k \<le> n"
  shows "unat (p + of_nat k) = unat p + k" "unat (a - (p + of_nat k)) < n - k \<Longrightarrow> unat (a - p) < n"
proof -
  have k: "unat (of_nat k :: u64) = k" using assms by (intro unat_of_nat_u64) simp
  then show "unat (p + of_nat k) = unat p + k"
    using assms by (simp add: unat_word_ariths)
  have "a - p = (a - (p + of_nat k)) + of_nat k" by simp
  then have "unat (a - p) = (unat (a - (p + of_nat k)) + k) mod 2 ^ 64"
    by (simp only: unat_word_ariths k) simp
  then have "unat (a - p) \<le> unat (a - (p + of_nat k)) + k" by simp
  then show "unat (a - (p + of_nat k)) < n - k \<Longrightarrow> unat (a - p) < n" by linarith
qed

lemma before_block:
  fixes d :: u64
  assumes "i < k" "k + n < 2 ^ 64"
  shows "\<not> unat (d + of_nat i - (d + of_nat k)) < n"
proof -
  have u: "unat (of_nat i :: u64) = i" "unat (of_nat k :: u64) = k"
    using assms by (auto intro!: unat_of_nat_u64)
  have "d + of_nat i - (d + of_nat k) = (of_nat i - of_nat k :: u64)" by simp
  moreover have "unat (of_nat i - of_nat k :: u64) = i + 2 ^ 64 - k"
    using assms u by (simp add: unat_sub_if_size word_size)
  ultimately show ?thesis using assms by simp
qed

text \<open>Writing a kernel buffer leaves the table and the user's memory alone.\<close>

lemma kbuf_write:
  assumes m': "\<And>a. \<not> unat (a - p) < n \<Longrightarrow> m' a = m a" and b: "kbuf m pt p n" "upt m pt"
  shows "upt m' pt" "utrans m' pt va = utrans m pt va" "ptset m' 2 pt = ptset m 2 pt"
    "user_read m' pt va k = user_read m pt va k"
proof -
  have wf: "ptree m 2 pt" using b(2) by (simp add: upt_def)
  have f: "ptset m' 2 pt = ptset m 2 pt \<and> ptree m' 2 pt \<and>
      (\<forall>va. lookup m' 2 pt va = lookup m 2 pt va \<and> leafv m' 2 pt va = leafv m 2 pt va)"
  proof (rule ptable_frame [OF wf])
    fix a assume "page_of a \<in> ptset m 2 pt"
    then have "\<not> unat (a - p) < n" using b(1) by (auto simp: kbuf_def)
    then show "m' a = m a" by (rule m')
  qed
  show u: "utrans m' pt va = utrans m pt va" for va using f by (simp add: utrans_def)
  show "upt m' pt" using b(2) f u by (simp add: upt_def)
  show "ptset m' 2 pt = ptset m 2 pt" using f by simp
  have "m' pa = m pa" if "utrans m pt va = Some pa" for va pa
    using b(1) m' that by (metis kbuf_def)
  then show "user_read m' pt va k = user_read m pt va k"
    by (induction k arbitrary: va) (auto simp: u split: option.splits)
qed

lemma kbuf_sub:
  assumes "kbuf m pt p n" "k \<le> n" "ptset m' 2 pt = ptset m 2 pt" "\<And>va. utrans m' pt va = utrans m pt va"
  shows "kbuf m' pt (p + of_nat k) (n - k)"
  using assms offset_sub [of p n k] by (auto simp: kbuf_def)

lemma copyin_ok:
  "\<lbrakk>upt (mem s) pt; kbuf (mem s) pt dst (unat len)\<rbrakk> \<Longrightarrow>
   \<exists>r t. copyin pt dst srcva len s = Ok (r, t) \<and> mem_only s t \<and>
     (\<forall>a. \<not> unat (a - dst) < unat len \<longrightarrow> mem t a = mem s a) \<and>
     (case user_read (mem s) pt srcva (unat len) of
        None \<Rightarrow> r = -1 | Some bs \<Rightarrow> r = 0 \<and> bytes_at (mem t) dst (unat len) = bs)"
proof (induction pt dst srcva len s rule: copyin.induct)
  case (1 pt dst srcva len s)
  show ?case
  proof (cases "len = 0")
    case True
    then show ?thesis by (subst copyin.simps) (auto simp: bytes_at_def)
  next
    case False
    let ?m = "mem s"
    have tree: "ptree ?m 2 pt" "0 \<notin> ptset ?m 2 pt" using "1.prems"(1) by (auto simp: upt_def)
    note w = walkaddr_utrans [OF tree, of srcva]
    show ?thesis
    proof (cases "utrans ?m pt srcva")
      case None
      then have "copyin pt dst srcva len s = Ok (-1, s)"
        using False w by (subst copyin.simps) (simp add: PGROUNDDOWN_page_of Let_def word_neq_0_conv)
      then show ?thesis
        using user_read_None [OF None, of "unat len"] False by (auto simp: unat_gt_0)
    next
      case (Some pa)
      let ?n = "min (page_rest srcva) len"
      let ?k = "unat ?n"
      let ?u = "s\<lparr>mem := memmove ?m dst pa (ucast ?n)\<rparr>"
      have k: "?k \<le> unat (page_rest srcva)" "?k \<le> unat len" "?k \<le> 4096"
        using unat_page_rest [of srcva] by (auto simp: min_def word_le_nat_alt)
      have nn: "of_nat ?k = ?n" by simp
      have c: "unat (ucast ?n :: u32) = ?k"
        using k(3) by (simp add: unsigned_ucast_eq take_bit_nat_eq_self)
      have bounds: "unat pa + ?k < 2 ^ 64" "unat dst + ?k < 2 ^ 64"
        using "1.prems" Some k by (fastforce simp: upt_def kbuf_def)+
      have mm: "mem ?u = (\<lambda>a. if unat (a - dst) < ?k then ?m (pa + (a - dst)) else ?m a)"
        using memmove_eq [of pa "ucast ?n" dst ?m] bounds by (simp add: c)
      have out: "mem ?u a = ?m a" if "\<not> unat (a - dst) < unat len" for a
        using that k(2) by (simp add: mm)
      note kw = kbuf_write [OF out "1.prems"(2,1)]
      have b: "kbuf (mem ?u) pt (dst + ?n) (unat (len - ?n))"
        using kbuf_sub [OF "1.prems"(2) k(2) kw(3,2)] k(2)
        by (simp add: unat_sub_if_size)
      have pos: "0 < len" using False by (simp add: word_neq_0_conv)
      have base: "pa - (srcva - page_of srcva) \<noteq> 0" by (rule utrans_base_nonzero [OF Some])
      have w': "walkaddr pt (PGROUNDDOWN srcva) s = Ok (pa - (srcva - page_of srcva), s)"
        using w Some by (simp add: PGROUNDDOWN_page_of)
      have "\<exists>r t. copyin pt (dst + ?n) (page_of srcva + PGSIZE) (len - ?n) ?u = Ok (r, t) \<and> mem_only ?u t \<and>
          (\<forall>a. \<not> unat (a - (dst + ?n)) < unat (len - ?n) \<longrightarrow> mem t a = mem ?u a) \<and>
          (case user_read (mem ?u) pt (page_of srcva + PGSIZE) (unat (len - ?n)) of
             None \<Rightarrow> r = -1 | Some bs \<Rightarrow> r = 0 \<and> bytes_at (mem t) (dst + ?n) (unat (len - ?n)) = bs)"
        using "1.IH" [OF pos refl w' refl base refl] kw(1) b by (simp add: PGROUNDDOWN_page_of)
      then obtain r t where IH: "copyin pt (dst + ?n) (page_of srcva + PGSIZE) (len - ?n) ?u = Ok (r, t)" "mem_only ?u t"
          "\<And>a. \<not> unat (a - (dst + ?n)) < unat (len - ?n) \<Longrightarrow> mem t a = mem ?u a"
          "case user_read (mem ?u) pt (page_of srcva + PGSIZE) (unat (len - ?n)) of
             None \<Rightarrow> r = -1 | Some bs \<Rightarrow> r = 0 \<and> bytes_at (mem t) (dst + ?n) (unat (len - ?n)) = bs"
        by blast
      have ul: "unat len = ?k + unat (len - ?n)" using k(2) by (simp add: unat_sub_if_size)
      have run: "copyin pt dst srcva len s = Ok (r, t)"
        using pos w' base IH(1) by (subst copyin.simps) (simp add: PGROUNDDOWN_page_of Let_def)
      have next_va: "user_read ?m pt (page_of srcva + PGSIZE) (unat (len - ?n)) =
          user_read ?m pt (srcva + of_nat ?k) (unat (len - ?n))"
      proof (cases "page_rest srcva \<le> len")
        case True
        then have "srcva + of_nat ?k = page_of srcva + PGSIZE"
          by (simp add: min_def page_rest_def PGROUNDDOWN_page_of)
        then show ?thesis by simp
      qed (simp add: min_def)
      have out': "mem t a = ?m a" if "\<not> unat (a - dst) < unat len" for a
      proof -
        have "\<not> unat (a - (dst + ?n)) < unat (len - ?n)"
          using that offset_sub(2) [of dst "unat len" ?k a] "1.prems"(2) k(2) ul by (auto simp: kbuf_def)
        then show ?thesis using IH(3) out that by simp
      qed
      have first: "bytes_at (mem t) dst ?k = bytes_at ?m pa ?k"
      proof (unfold bytes_at_def, rule map_cong [OF refl])
        fix i assume "i \<in> set [0..<?k]"
        then have i: "i < ?k" by simp
        have "\<not> unat (dst + of_nat i - (dst + ?n)) < unat (len - ?n)"
          using before_block [OF i, of "unat (len - ?n)"] nn ul unat_u64_bound [of len] by simp
        then have "mem t (dst + of_nat i) = mem ?u (dst + of_nat i)" by (rule IH(3))
        moreover have "unat (of_nat i :: u64) = i" using i k(3) by (intro unat_of_nat_u64) simp
        ultimately show "at (mem t) dst i = at ?m pa i" using i by (simp add: mm at_def)
      qed
      have "user_read ?m pt srcva (unat len) =
          map_option (\<lambda>ys. bytes_at ?m pa ?k @ ys) (user_read (mem ?u) pt (page_of srcva + PGSIZE) (unat (len - ?n)))"
        unfolding ul [unfolded nn] user_read_append user_read_page [OF Some k(1)]
        using kw(4) [of "page_of srcva + PGSIZE" "unat (len - ?n)"] next_va by simp
      moreover have "bytes_at (mem t) dst (unat len) =
          bytes_at ?m pa ?k @ bytes_at (mem t) (dst + ?n) (unat (len - ?n))"
        unfolding ul bytes_at_append first nn by simp
      moreover have "mem_only s t" by (rule mem_only_trans [OF _ IH(2)]) simp
      ultimately show ?thesis
        using run out' IH(4) by (auto split: option.splits)
    qed
  qed
qed

section \<open>copyout\<close>

text \<open>\<open>copyout\<close> asks for the write permission as well and does not look for frame 0.\<close>

definition utransw :: "bytemem \<Rightarrow> u64 \<Rightarrow> u64 \<Rightarrow> u64 option" where
  "utransw m pt va =
     (let v = leafv m 2 pt va in
      if va < MAXVA \<and> v AND PTE_V \<noteq> 0 \<and> v AND PTE_U \<noteq> 0 \<and> v AND PTE_W \<noteq> 0
      then Some (PTE2PA v + (va - page_of va)) else None)"

text \<open>Storing bytes one by one at consecutive user addresses, as a user program would.\<close>

primrec user_write :: "bytemem \<Rightarrow> u64 \<Rightarrow> u64 \<Rightarrow> u8 list \<Rightarrow> bytemem option" where
  "user_write m pt va [] = Some m"
| "user_write m pt va (b # bs) =
     (case utransw m pt va of
        None \<Rightarrow> None
      | Some pa \<Rightarrow> user_write (m(pa := b)) pt (va + 1) bs)"

text \<open>No writable user address lies in a page of the table or runs over the end of memory.\<close>

definition uptw :: "bytemem \<Rightarrow> u64 \<Rightarrow> bool" where
  "uptw m pt \<longleftrightarrow> ptree m 2 pt \<and> 0 \<notin> ptset m 2 pt \<and>
     (\<forall>va pa. utransw m pt va = Some pa \<longrightarrow> unat pa + 4096 < 2 ^ 64 \<and> page_of pa \<notin> ptset m 2 pt)"

lemma utransw_within:
  assumes "k < unat (page_rest va)"
  shows "utransw m pt (va + of_nat k) = map_option (\<lambda>pa. pa + of_nat k) (utransw m pt va)"
  using page_of_within [OF assms] leafv_same_page [OF page_of_within [OF assms], of m pt]
    page_MAXVA [of va] page_MAXVA [of "va + of_nat k"]
  by (simp add: utransw_def Let_def algebra_simps del: MAXVA_eq)

lemma uptw_frame:
  assumes "uptw m pt" "\<And>a. page_of a \<in> ptset m 2 pt \<Longrightarrow> m' a = m a"
  shows "uptw m' pt" "utransw m' pt va = utransw m pt va" "ptset m' 2 pt = ptset m 2 pt"
    "leafv m' 2 pt va = leafv m 2 pt va"
proof -
  have "ptree m 2 pt" using assms(1) by (simp add: uptw_def)
  note f = ptable_frame [OF this assms(2)]
  then show u: "utransw m' pt va = utransw m pt va" "leafv m' 2 pt va = leafv m 2 pt va" for va
    by (simp_all add: utransw_def)
  show "ptset m' 2 pt = ptset m 2 pt" using f by simp
  then show "uptw m' pt" using assms(1) f u by (simp add: uptw_def)
qed

lemma uptw_store:
  assumes "uptw m pt" "utransw m pt va = Some pa"
  shows "uptw (m(pa := b)) pt" "utransw (m(pa := b)) pt va' = utransw m pt va'"
    "ptset (m(pa := b)) 2 pt = ptset m 2 pt" "leafv (m(pa := b)) 2 pt va' = leafv m 2 pt va'"
proof -
  have "page_of pa \<notin> ptset m 2 pt" using assms by (auto simp: uptw_def)
  then have "(m(pa := b)) a = m a" if "page_of a \<in> ptset m 2 pt" for a using that by auto
  note f = uptw_frame [OF assms(1) this]
  show "uptw (m(pa := b)) pt" by (rule f(1))
  show "utransw (m(pa := b)) pt va' = utransw m pt va'" by (rule f(2))
  show "ptset (m(pa := b)) 2 pt = ptset m 2 pt" by (rule f(3))
  show "leafv (m(pa := b)) 2 pt va' = leafv m 2 pt va'" by (rule f(4))
qed

lemma user_write_append:
  "user_write m pt va (bs @ cs) =
     (case user_write m pt va bs of None \<Rightarrow> None | Some m' \<Rightarrow> user_write m' pt (va + of_nat (length bs)) cs)"
  by (induction bs arbitrary: m va) (auto split: option.splits simp: algebra_simps)

text \<open>Inside one page the stores fill a block of physical memory.\<close>

definition put_block :: "bytemem \<Rightarrow> u64 \<Rightarrow> u8 list \<Rightarrow> bytemem" where
  "put_block m p bs = (\<lambda>a. if unat (a - p) < length bs then bs ! unat (a - p) else m a)"

lemma put_block_snoc:
  assumes "length bs < 2 ^ 64"
  shows "put_block m p (bs @ [b]) = (put_block m p bs)(p + of_nat (length bs) := b)"
proof (rule ext)
  fix a
  have u: "unat (of_nat (length bs) :: u64) = length bs" using assms by (rule unat_of_nat_u64)
  have "a = p + of_nat (length bs) \<longleftrightarrow> a - p = of_nat (length bs)" by (auto simp: algebra_simps)
  also have "\<dots> \<longleftrightarrow> unat (a - p) = length bs" using u by (metis word_unat_eq_iff)
  finally show "put_block m p (bs @ [b]) a = ((put_block m p bs)(p + of_nat (length bs) := b)) a"
    by (auto simp: put_block_def nth_append)
qed

lemma user_write_page:
  assumes "uptw m pt" "utransw m pt va = Some pa" "length bs \<le> unat (page_rest va)"
  shows "user_write m pt va bs = Some (put_block m pa bs) \<and> uptw (put_block m pa bs) pt \<and>
    (\<forall>va. utransw (put_block m pa bs) pt va = utransw m pt va)"
  using assms(3)
proof (induction bs rule: rev_induct)
  case Nil
  then show ?case using assms(1) by (simp add: put_block_def)
next
  case (snoc b bs)
  have len: "length bs < unat (page_rest va)" using snoc.prems by simp
  have IH: "user_write m pt va bs = Some (put_block m pa bs)" "uptw (put_block m pa bs) pt"
    "\<And>va. utransw (put_block m pa bs) pt va = utransw m pt va"
    using snoc by auto
  have t: "utransw (put_block m pa bs) pt (va + of_nat (length bs)) = Some (pa + of_nat (length bs))"
    unfolding IH(3) utransw_within [OF len] using assms(2) by simp
  have l: "length bs < 2 ^ 64" using len unat_page_rest [of va] by simp
  note st = uptw_store [OF IH(2) t, of b, folded put_block_snoc [OF l]]
  have "user_write m pt va (bs @ [b]) = Some (put_block m pa (bs @ [b]))"
    using IH(1) t by (simp add: user_write_append put_block_snoc [OF l])
  with st IH(3) show ?case by simp
qed

text \<open>The source of \<open>copyout\<close> is a kernel buffer no writable user address points into.\<close>

definition ksrc :: "bytemem \<Rightarrow> u64 \<Rightarrow> u64 \<Rightarrow> nat \<Rightarrow> bool" where
  "ksrc m pt p n \<longleftrightarrow> unat p + n < 2 ^ 64 \<and>
     (\<forall>va pa. utransw m pt va = Some pa \<longrightarrow> \<not> unat (pa - p) < n)"

lemma ksrc_sub:
  assumes "ksrc m pt p n" "k \<le> n" "\<And>va. utransw m' pt va = utransw m pt va"
  shows "ksrc m' pt (p + of_nat k) (n - k)"
  using assms offset_sub [of p n k] by (auto simp: ksrc_def)

lemma put_block_inside:
  assumes "put_block m p bs a \<noteq> m a"
  shows "\<exists>i < length bs. a = p + of_nat i"
  using assms by (intro exI [of _ "unat (a - p)"]) (auto simp: put_block_def split: if_splits)

text \<open>One round: writing into the page of \<open>va\<close> leaves the source and the table alone.\<close>

lemma copyout_round:
  assumes "uptw m pt" "utransw m pt va = Some pa" "k \<le> unat (page_rest va)" "ksrc m pt src n" "k \<le> n"
  shows "memmove m pa src (of_nat k) = put_block m pa (bytes_at m src k)"
    "bytes_at (put_block m pa (bytes_at m src k)) (src + of_nat k) (n - k) = bytes_at m (src + of_nat k) (n - k)"
proof -
  have len: "length (bytes_at m src k) = k" by (simp add: bytes_at_def)
  have k: "k \<le> 4096" using assms(3) unat_page_rest [of va] by simp
  then have c: "unat (of_nat k :: u32) = k" by (simp add: unat_of_nat take_bit_nat_eq_self)
  have "unat pa + 4096 < 2 ^ 64" using assms(1,2) by (simp add: uptw_def)
  then have b: "unat pa + k < 2 ^ 64" "unat src + k < 2 ^ 64" using k assms(4,5) by (auto simp: ksrc_def)
  show "memmove m pa src (of_nat k) = put_block m pa (bytes_at m src k)"
    using memmove_eq [of src "of_nat k" pa m] b c
    by (auto simp: put_block_def len bytes_at_def at_def fun_eq_iff)
  show "bytes_at (put_block m pa (bytes_at m src k)) (src + of_nat k) (n - k) = bytes_at m (src + of_nat k) (n - k)"
  proof (rule bytes_at_cong, rule ccontr)
    fix i assume i: "i < n - k"
      and "put_block m pa (bytes_at m src k) (src + of_nat k + of_nat i) \<noteq> m (src + of_nat k + of_nat i)"
    then obtain j where j: "j < k" "src + of_nat k + of_nat i = pa + of_nat j"
      using put_block_inside len by metis
    have "utransw m pt (va + of_nat j) = Some (src + of_nat (k + i))"
      using utransw_within [of j va m pt] assms(2,3) j by (simp add: algebra_simps)
    moreover have "unat (of_nat (k + i) :: u64) = k + i"
      using i assms(4) by (intro unat_of_nat_u64) (auto simp: ksrc_def)
    ultimately show False using assms(4) i unfolding ksrc_def
      by (metis add_diff_cancel_left' less_diff_conv2 add.commute assms(5) less_diff_conv)
  qed
qed

lemma copyout_ok:
  "\<lbrakk>uptw (mem s) pt; ksrc (mem s) pt src (unat len)\<rbrakk> \<Longrightarrow>
   \<exists>r t. copyout pt dstva src len s = Ok (r, t) \<and> mem_only s t \<and>
     (case user_write (mem s) pt dstva (bytes_at (mem s) src (unat len)) of
        None \<Rightarrow> r = -1 | Some m \<Rightarrow> r = 0 \<and> mem t = m)"
proof (induction pt dstva src len s rule: copyout.induct)
  case (1 pt dstva src len s)
  let ?m = "mem s"
  have tree: "ptree ?m 2 pt" "0 \<notin> ptset ?m 2 pt" using "1.prems"(1) by (auto simp: uptw_def)
  have leaf: "leafv ?m 2 pt dstva = (if lookup ?m 2 pt (page_of dstva) = 0 then 0
      else load64 ?m (lookup ?m 2 pt (page_of dstva)))"
    using leafv_lookup [OF tree, of "page_of dstva"] leafv_same_page [of dstva "page_of dstva"] by simp
  have pm: "page_of dstva < MAXVA \<longleftrightarrow> dstva < MAXVA" by (rule page_MAXVA)
  show ?case
  proof (cases "len = 0")
    case True
    then show ?thesis by (subst copyout.simps) (auto simp: bytes_at_def)
  next
    case False
    then have pos: "0 < len" by (simp add: word_neq_0_conv)
    show ?thesis
    proof (cases "utransw ?m pt dstva")
      case None
      have "copyout pt dstva src len s = Ok (-1, s)"
        using None pos leaf pm
        by (subst copyout.simps)
          (auto simp: PGROUNDDOWN_page_of Let_def utransw_def walk_lookup not_le split: if_splits simp del: MAXVA_eq)
      moreover obtain b bs where "bytes_at ?m src (unat len) = b # bs"
        using pos by (cases "bytes_at ?m src (unat len)") (auto simp: bytes_at_def word_less_nat_alt)
      ultimately show ?thesis using None by auto
    next
      case (Some pa)
      let ?n = "min (page_rest dstva) len"
      let ?k = "unat ?n"
      let ?pte = "lookup ?m 2 pt (page_of dstva)"
      have v: "\<not> MAXVA \<le> page_of dstva" "?pte \<noteq> 0" "load64 ?m ?pte AND 1 \<noteq> 0" "load64 ?m ?pte AND 16 \<noteq> 0"
          "load64 ?m ?pte AND 4 \<noteq> 0" "pa = PTE2PA (load64 ?m ?pte) + (dstva - page_of dstva)"
        using Some leaf pm by (auto simp: utransw_def Let_def not_le split: if_splits simp del: MAXVA_eq)
      have k: "?k \<le> unat (page_rest dstva)" "?k \<le> unat len"
        by (auto simp: min_def word_le_nat_alt)
      have nn: "of_nat ?k = ?n" by simp
      note rd = copyout_round [OF "1.prems"(1) Some k(1) "1.prems"(2) k(2)]
      let ?b = "bytes_at ?m src ?k"
      let ?u = "s\<lparr>mem := put_block ?m pa ?b\<rparr>"
      have lb: "length ?b \<le> unat (page_rest dstva)" using k(1) by (simp add: bytes_at_def)
      note pg = user_write_page [OF "1.prems"(1) Some lb]
      have w: "walk pt (PGROUNDDOWN dstva) False s = Ok (?pte, s)"
        using v(1) by (simp add: walk_lookup PGROUNDDOWN_page_of not_le del: MAXVA_eq)
      have ks: "ksrc (mem ?u) pt (src + ?n) (unat (len - ?n))"
        using ksrc_sub [OF "1.prems"(2) k(2), of "mem ?u"] pg k(2) by (simp add: unat_sub_if_size)
      have mv: "memmove ?m pa src (ucast ?n) = put_block ?m pa ?b"
        using rd(1) by simp
      have "\<exists>r t. copyout pt (page_of dstva + PGSIZE) (src + ?n) (len - ?n) ?u = Ok (r, t) \<and> mem_only ?u t \<and>
          (case user_write (mem ?u) pt (page_of dstva + PGSIZE) (bytes_at (mem ?u) (src + ?n) (unat (len - ?n))) of
             None \<Rightarrow> r = -1 | Some m \<Rightarrow> r = 0 \<and> mem t = m)"
        using "1.IH" [OF pos refl _ w refl _ refl refl] v(1-5) pg ks mv v(6) [symmetric]
        by (simp add: PGROUNDDOWN_page_of del: MAXVA_eq)
      then obtain r t where IH: "copyout pt (page_of dstva + PGSIZE) (src + ?n) (len - ?n) ?u = Ok (r, t)" "mem_only ?u t"
          "case user_write (mem ?u) pt (page_of dstva + PGSIZE) (bytes_at (mem ?u) (src + ?n) (unat (len - ?n))) of
             None \<Rightarrow> r = -1 | Some m \<Rightarrow> r = 0 \<and> mem t = m"
        by blast
      have ul: "unat len = ?k + unat (len - ?n)" using k(2) by (simp add: unat_sub_if_size)
      have run: "copyout pt dstva src len s = Ok (r, t)"
        using pos v(1-5) v(6) [symmetric] w mv IH(1)
        by (subst copyout.simps) (simp add: PGROUNDDOWN_page_of Let_def del: MAXVA_eq)
      have next_va: "user_write (mem ?u) pt (page_of dstva + PGSIZE) bs = user_write (mem ?u) pt (dstva + of_nat ?k) bs"
        if "page_rest dstva \<le> len" for bs
        using that by (simp add: min_def page_rest_def PGROUNDDOWN_page_of add.commute)
      have split: "bytes_at ?m src (unat len) = ?b @ bytes_at (mem ?u) (src + ?n) (unat (len - ?n))"
        using rd(2) ul nn unfolding ul bytes_at_append by (simp add: unat_sub_if_size)
      have "user_write ?m pt dstva (bytes_at ?m src (unat len)) =
          user_write (mem ?u) pt (page_of dstva + PGSIZE) (bytes_at (mem ?u) (src + ?n) (unat (len - ?n)))"
      proof (cases "page_rest dstva \<le> len")
        case True
        then show ?thesis
          unfolding split user_write_append next_va [OF True] using pg by (simp add: bytes_at_def)
      next
        case False
        then show ?thesis
          unfolding split user_write_append using pg by (simp add: min_def bytes_at_def)
      qed
      moreover have "mem_only s t" by (rule mem_only_trans [OF _ IH(2)]) simp
      ultimately show ?thesis using run IH(3) by auto
    qed
  qed
qed

section \<open>Properties\<close>

text \<open>A state with one user page at 0x3000 backed by the frame at 0x80200000.\<close>

lemma user_pte: "PTE2PA (PA2PTE 0x80200000 OR 22 OR 1) = 0x80200000"
  "(PA2PTE 0x80200000 OR 22 OR 1) AND 1 \<noteq> 0" "(PA2PTE 0x80200000 OR 22 OR 1) AND 16 \<noteq> 0"
  "(PA2PTE 0x80200000 OR 22 OR 1) AND 4 \<noteq> 0"
  by (simp_all add: PTE2PA_def PA2PTE_def)

lemma one_user_page:
  obtains t :: kmst where "ptree (mem t) 2 0x80100000" "ptset (mem t) 2 0x80100000 \<subseteq> {0x80100000, 0x87FFF000, 0x87FFE000}"
    "\<forall>va < MAXVA. leafv (mem t) 2 0x80100000 va =
      (if 0x3000 \<le> va \<and> va < 0x4000 then PA2PTE 0x80200000 OR 22 OR 1 else 0)"
proof -
  obtain s :: kmst where "kmem_inv s [0x87FFF000, 0x87FFE000]"
    and s: "table_inv s 2 0x80100000 [0x87FFF000, 0x87FFE000]"
      "\<forall>va. leafv (mem s) 2 0x80100000 va = 0" "ptset (mem s) 2 0x80100000 = {0x80100000}"
    by (rule two_free_pages)
  obtain t rest where m: "maps 0x80100000 0x3000 (Suc 0) 0x80200000 22 s [0x87FFF000, 0x87FFE000] t rest"
    using mappages_loop_ok [OF s(1), of "0x3000" 0 "0x3000" "0x80200000" 22] s(2)
    by (auto simp: page_aligned_mod)
  have "page_of va = 0x3000" if "0x3000 \<le> va" "va < 0x4000" for va
    using that page_of_range [of "0x3000" va] by (simp add: page_aligned_mod word_le_nat_alt word_less_nat_alt)
  then have "leafv (mem t) 2 0x80100000 va =
      (if 0x3000 \<le> va \<and> va < 0x4000 then PA2PTE 0x80200000 OR 22 OR 1 else 0)" if "va < MAXVA" for va
    using m that s(2) by (simp add: maps_def map_range_def word_le_nat_alt word_less_nat_alt)
  moreover have "ptset (mem t) 2 0x80100000 \<subseteq> {0x80100000, 0x87FFF000, 0x87FFE000}"
    using m s(3) unfolding maps_def by (metis Un_insert_left insert_mono list.set(1,2) set_append sup.cobounded1 sup_bot_left)
  ultimately show ?thesis using that m by (auto simp: maps_def table_inv_def)
qed

lemma one_user_page_trans:
  obtains t :: kmst where "upt (mem t) 0x80100000" "uptw (mem t) 0x80100000"
    "\<forall>va. 0x3000 \<le> va \<and> va < 0x4000 \<longrightarrow> utrans (mem t) 0x80100000 va = Some (0x80200000 + (va - 0x3000)) \<and>
      utransw (mem t) 0x80100000 va = Some (0x80200000 + (va - 0x3000))"
    "kbuf (mem t) 0x80100000 0x80300000 4" "ksrc (mem t) 0x80100000 0x80300000 4"
proof -
  obtain t :: kmst where t: "ptree (mem t) 2 0x80100000" "ptset (mem t) 2 0x80100000 \<subseteq> {0x80100000, 0x87FFF000, 0x87FFE000}"
    and leaf: "\<forall>va < MAXVA. leafv (mem t) 2 0x80100000 va =
      (if 0x3000 \<le> va \<and> va < 0x4000 then PA2PTE 0x80200000 OR 22 OR 1 else 0)"
    by (rule one_user_page)
  have pg: "page_of va = 0x3000 \<longleftrightarrow> 0x3000 \<le> va \<and> va < 0x4000" for va
    using page_of_range [of "0x3000" va] by (simp add: page_aligned_mod word_le_nat_alt word_less_nat_alt)
  have u: "utrans (mem t) 0x80100000 va = (if 0x3000 \<le> va \<and> va < 0x4000 then Some (0x80200000 + (va - 0x3000)) else None) \<and>
      utransw (mem t) 0x80100000 va = (if 0x3000 \<le> va \<and> va < 0x4000 then Some (0x80200000 + (va - 0x3000)) else None)" for va
  proof (cases "va < MAXVA")
    case True
    then show ?thesis using leaf user_pte pg [of va] by (simp add: utrans_def utransw_def Let_def)
  next
    case False
    then have "\<not> va < 0x4000" by (auto simp: word_less_nat_alt not_less word_le_nat_alt)
    then show ?thesis using False by (simp add: utrans_def utransw_def Let_def)
  qed
  have frame: "unat pa < 0x80201000 \<and> 0x80200000 \<le> unat pa"
    if "utrans (mem t) 0x80100000 va = Some pa \<or> utransw (mem t) 0x80100000 va = Some pa" for va pa
  proof -
    have r: "0x3000 \<le> va" "va < 0x4000" "pa = 0x80200000 + (va - 0x3000)"
      using that u [of va] by (auto split: if_splits)
    then show ?thesis
      by (simp add: unat_word_ariths unat_sub_if_size word_le_nat_alt word_less_nat_alt)
  qed
  have pf: "page_of pa = 0x80200000" if "unat pa < 0x80201000" "0x80200000 \<le> unat pa" for pa
    using that page_of_range [of "0x80200000" pa] by (simp add: page_aligned_mod)
  have apart: "page_of a = 0x80300000 \<and> 0x80300000 \<le> unat a" if "unat (a - 0x80300000) < 4" for a
  proof -
    have "page_of a = 0x80300000" using page_offset [of "0x80300000" a] that by (simp add: page_aligned_mod)
    then show ?thesis using page_of_range [of "0x80300000" a] by (simp add: page_aligned_mod)
  qed
  have nz: "0 \<notin> ptset (mem t) 2 0x80100000" and fr: "0x80200000 \<notin> ptset (mem t) 2 0x80100000" "0x80300000 \<notin> ptset (mem t) 2 0x80100000"
    using t(2) by auto
  show ?thesis
  proof (rule that [of t])
    have "unat pa + 4096 < 2 ^ 64" if "utrans (mem t) 0x80100000 va = Some pa" for va pa
      using frame [of va pa] that by simp
    then show "upt (mem t) 0x80100000" using t(1) nz by (auto simp: upt_def)
    have "unat pa + 4096 < 2 ^ 64 \<and> page_of pa \<notin> ptset (mem t) 2 0x80100000"
      if "utransw (mem t) 0x80100000 va = Some pa" for va pa
      using frame [of va pa] that pf [of pa] fr(1) by simp
    then show "uptw (mem t) 0x80100000" using t(1) nz by (auto simp: uptw_def)
    have "utrans (mem t) 0x80100000 va \<noteq> Some a" if "unat (a - 0x80300000) < 4" for a va
      using frame [of va a] apart [OF that] by auto
    then show "kbuf (mem t) 0x80100000 0x80300000 4" using apart fr(2) by (auto simp: kbuf_def)
    have "\<not> unat (pa - 0x80300000) < 4" if "utransw (mem t) 0x80100000 va = Some pa" for va pa
      using frame [of va pa] apart [of pa] that by auto
    then show "ksrc (mem t) 0x80100000 0x80300000 4" by (auto simp: ksrc_def)
  qed (use u in simp)
qed

text \<open>C8: \<open>copyin\<close> into a kernel buffer that user memory does not overlap always returns; it returns 0
  exactly when every byte of the user's range is mapped for the user, and then the buffer holds those
  bytes in order; otherwise it returns -1.  It writes nothing outside the buffer.\<close>

theorem copyin_reads_user_memory:
  assumes "upt (mem s) pt" "kbuf (mem s) pt dst (unat len)"
  shows "\<exists>r t. copyin pt dst srcva len s = Ok (r, t) \<and> mem_only s t \<and>
    (\<forall>a. \<not> unat (a - dst) < unat len \<longrightarrow> mem t a = mem s a) \<and>
    (case user_read (mem s) pt srcva (unat len) of
       None \<Rightarrow> r = -1 | Some bs \<Rightarrow> r = 0 \<and> bytes_at (mem t) dst (unat len) = bs)"
  by (rule copyin_ok [OF assms])

lemma unat_two_Suc: "unat (2 :: u64) = Suc (Suc 0)"
  by simp

theorem copyin_reads_user_memory_witness:
  "\<exists>(s :: kmst) t. copyin 0x80100000 0x80300000 0x3ffe 2 s = Ok (0, t) \<and>
    bytes_at (mem t) 0x80300000 2 = [mem s 0x80200ffe, mem s 0x80200fff]"
proof -
  obtain s :: kmst where s: "upt (mem s) 0x80100000" "uptw (mem s) 0x80100000"
    "\<forall>va. 0x3000 \<le> va \<and> va < 0x4000 \<longrightarrow> utrans (mem s) 0x80100000 va = Some (0x80200000 + (va - 0x3000)) \<and>
      utransw (mem s) 0x80100000 va = Some (0x80200000 + (va - 0x3000))"
    "kbuf (mem s) 0x80100000 0x80300000 4" "ksrc (mem s) 0x80100000 0x80300000 4"
    by (rule one_user_page_trans)
  have "kbuf (mem s) 0x80100000 0x80300000 (unat (2 :: u64))"
    using s(4) by (auto simp: kbuf_def)
  moreover have "user_read (mem s) 0x80100000 0x3ffe (Suc (Suc 0)) = Some [mem s 0x80200ffe, mem s 0x80200fff]"
    using s(3) [rule_format, of "0x3ffe"] s(3) [rule_format, of "0x3fff"] by simp
  then have rd: "user_read (mem s) 0x80100000 0x3ffe (unat (2 :: u64)) = Some [mem s 0x80200ffe, mem s 0x80200fff]"
    by (simp only: unat_two_Suc)
  ultimately obtain r t where "copyin 0x80100000 0x80300000 0x3ffe 2 s = Ok (r, t)"
    "r = 0 \<and> bytes_at (mem t) 0x80300000 (unat (2 :: u64)) = [mem s 0x80200ffe, mem s 0x80200fff]"
    using copyin_reads_user_memory [OF s(1), of "0x80300000" 2 "0x3ffe"] unfolding rd by auto
  then show ?thesis by auto
qed

lemma user_write_frame:
  "\<lbrakk>user_write m pt va bs = Some m'; uptw m pt\<rbrakk> \<Longrightarrow>
   uptw m' pt \<and> (\<forall>va. leafv m' 2 pt va = leafv m 2 pt va) \<and>
   (\<forall>a. (\<forall>i < length bs. utransw m pt (va + of_nat i) \<noteq> Some a) \<longrightarrow> m' a = m a)"
proof (induction bs arbitrary: m va)
  case (Cons b bs)
  obtain pa m1 where pa: "utransw m pt va = Some pa" "user_write m1 pt (va + 1) bs = Some m'" "m1 = m(pa := b)"
    using Cons.prems(1) by (auto split: option.splits)
  note st = uptw_store [OF Cons.prems(2) pa(1), of b, folded pa(3)]
  note IH = Cons.IH [OF pa(2) st(1)]
  have "m' a = m a" if n: "\<forall>i < length (b # bs). utransw m pt (va + of_nat i) \<noteq> Some a" for a
  proof -
    have "a \<noteq> pa" using n [rule_format, of 0] pa(1) by auto
    moreover have "utransw m pt (va + 1 + of_nat i) \<noteq> Some a" if "i < length bs" for i
      using n [rule_format, of "Suc i"] that by (simp add: algebra_simps)
    ultimately show ?thesis using IH st(2) pa(3) by (metis fun_upd_other)
  qed
  then show ?case using IH st(4) by simp
qed simp

lemma user_write_read:
  "\<lbrakk>user_write m pt va bs = Some m'; uptw m pt;
    \<forall>i < length bs. \<forall>j < length bs. utransw m pt (va + of_nat i) = utransw m pt (va + of_nat j) \<longrightarrow> i = j;
    \<forall>i < length bs. utrans m pt (va + of_nat i) = utransw m pt (va + of_nat i)\<rbrakk> \<Longrightarrow>
   user_read m' pt va (length bs) = Some bs"
proof (induction bs arbitrary: m va)
  case (Cons b bs)
  obtain pa where pa: "utransw m pt va = Some pa" "user_write (m(pa := b)) pt (va + 1) bs = Some m'"
    using Cons.prems(1) by (auto split: option.splits)
  note st = uptw_store [OF Cons.prems(2) pa(1), of b]
  note fr = user_write_frame [OF pa(2) st(1)]
  have tr: "utrans (m(pa := b)) pt va' = utrans m pt va'" "utrans m' pt va' = utrans m pt va'" for va'
    using st(4) fr by (simp_all add: utrans_def)
  have sh: "va + 1 + of_nat i = va + of_nat (Suc i)" for i by (simp add: algebra_simps)
  have "user_read m' pt (va + 1) (length bs) = Some bs"
  proof (rule Cons.IH [OF pa(2) st(1)])
    show "\<forall>i < length bs. \<forall>j < length bs. utransw (m(pa := b)) pt (va + 1 + of_nat i) =
        utransw (m(pa := b)) pt (va + 1 + of_nat j) \<longrightarrow> i = j"
      unfolding st(2) sh using Cons.prems(3) by (metis Suc_less_eq length_Cons nat.inject)
    show "\<forall>i < length bs. utrans (m(pa := b)) pt (va + 1 + of_nat i) = utransw (m(pa := b)) pt (va + 1 + of_nat i)"
      unfolding st(2) tr sh using Cons.prems(4) by (metis Suc_less_eq length_Cons)
  qed
  moreover have "utransw m pt (va + of_nat (Suc i)) \<noteq> Some pa" if "i < length bs" for i
    using Cons.prems(3) [rule_format, of "Suc i" 0] that pa(1) by auto
  then have "m' pa = b" using fr st(2) by (simp add: sh)
  moreover have "utrans m' pt va = Some pa"
    using Cons.prems(4) [rule_format, of 0] pa(1) tr by simp
  ultimately show ?case by simp
qed simp

text \<open>C9: \<open>copyout\<close> from a kernel buffer that no user address points into always returns; it returns 0
  exactly when every byte of the user's range is mapped writable for the user, and then memory is
  what storing the buffer's bytes one by one at the user's addresses would give; otherwise it returns
  -1.  When it succeeds and the addresses of the range are distinct and readable, reading the range
  back gives the bytes of the buffer.\<close>

theorem copyout_writes_user_memory:
  assumes "uptw (mem s) pt" "ksrc (mem s) pt src (unat len)"
  shows "\<exists>r t. copyout pt dstva src len s = Ok (r, t) \<and> mem_only s t \<and>
    (case user_write (mem s) pt dstva (bytes_at (mem s) src (unat len)) of
       None \<Rightarrow> r = -1 | Some m \<Rightarrow> r = 0 \<and> mem t = m) \<and>
    (r = 0 \<and> inj_on (\<lambda>i. utransw (mem s) pt (dstva + of_nat i)) {..<unat len} \<and>
       (\<forall>i < unat len. utrans (mem s) pt (dstva + of_nat i) = utransw (mem s) pt (dstva + of_nat i)) \<longrightarrow>
     user_read (mem t) pt dstva (unat len) = Some (bytes_at (mem s) src (unat len)))"
proof -
  let ?bs = "bytes_at (mem s) src (unat len)"
  have len: "length ?bs = unat len" by (simp add: bytes_at_def)
  obtain r t where rt: "copyout pt dstva src len s = Ok (r, t)" "mem_only s t"
    "case user_write (mem s) pt dstva ?bs of None \<Rightarrow> r = -1 | Some m \<Rightarrow> r = 0 \<and> mem t = m"
    using copyout_ok [OF assms] by blast
  have "user_read (mem t) pt dstva (unat len) = Some ?bs"
    if r: "r = 0" and inj: "inj_on (\<lambda>i. utransw (mem s) pt (dstva + of_nat i)) {..<unat len}"
      and rd: "\<forall>i < unat len. utrans (mem s) pt (dstva + of_nat i) = utransw (mem s) pt (dstva + of_nat i)"
  proof -
    have w: "user_write (mem s) pt dstva ?bs = Some (mem t)"
      using rt(3) r by (auto split: option.splits)
    show ?thesis
      using user_write_read [OF w assms(1)] inj rd unfolding len by (auto simp: inj_on_def)
  qed
  with rt show ?thesis by blast
qed

theorem copyout_writes_user_memory_witness:
  "\<exists>(s :: kmst) t. copyout 0x80100000 0x3ffe 0x80300000 2 s = Ok (0, t) \<and>
    user_read (mem t) 0x80100000 0x3ffe 2 = Some (bytes_at (mem s) 0x80300000 2)"
proof -
  obtain s :: kmst where s: "upt (mem s) 0x80100000" "uptw (mem s) 0x80100000"
    "\<forall>va. 0x3000 \<le> va \<and> va < 0x4000 \<longrightarrow> utrans (mem s) 0x80100000 va = Some (0x80200000 + (va - 0x3000)) \<and>
      utransw (mem s) 0x80100000 va = Some (0x80200000 + (va - 0x3000))"
    "kbuf (mem s) 0x80100000 0x80300000 4" "ksrc (mem s) 0x80100000 0x80300000 4"
    by (rule one_user_page_trans)
  have tr: "utransw (mem s) 0x80100000 (0x3ffe + of_nat i) = Some (0x80200ffe + of_nat i) \<and>
      utrans (mem s) 0x80100000 (0x3ffe + of_nat i) = Some (0x80200ffe + of_nat i)" if "i < 2" for i
  proof -
    have "i = 0 \<or> i = 1" using that by auto
    then show ?thesis
      using s(3) [rule_format, of "0x3ffe"] s(3) [rule_format, of "0x3fff"] by auto
  qed
  have inj: "inj_on (\<lambda>i. utransw (mem s) 0x80100000 (0x3ffe + of_nat i)) {..<unat (2 :: u64)}"
    using tr of_nat_u64_inj by (auto simp: inj_on_def)
  obtain b c where bc: "bytes_at (mem s) 0x80300000 (unat (2 :: u64)) = [b, c]"
    by (simp only: unat_two_Suc) (simp add: bytes_at_def)
  have k: "ksrc (mem s) 0x80100000 0x80300000 (unat (2 :: u64))" using s(5) by (fastforce simp: ksrc_def)
  note st = uptw_store [OF s(2) tr [of 0, THEN conjunct1, simplified], of b]
  have "utransw ((mem s)(0x80200ffe := b)) 0x80100000 0x3fff = Some 0x80200fff"
    using st(2) tr [of 1] by simp
  then have w: "user_write (mem s) 0x80100000 0x3ffe [b, c] \<noteq> None"
    using tr [of 0] by simp
  then obtain t where "copyout 0x80100000 0x3ffe 0x80300000 2 s = Ok (0, t)"
    "user_read (mem t) 0x80100000 0x3ffe (unat (2 :: u64)) = Some [b, c]"
    using copyout_writes_user_memory [OF s(2) k, of "0x3ffe"] inj tr unfolding bc by auto
  then show ?thesis using bc by (intro exI [of _ s] exI [of _ t]) simp
qed

end
