(* ===== verification/Pipe.thy ===== *)
theory Pipe
  imports Usercopy
begin

text \<open>
  Pipes, \<open>kernel/pipe.c\<close>.  A reader or writer runs under the pipe's lock until it returns or
  sleeps; each such run is one function here, and a sleeping call continues with its \<open>resume\<close>
  function.  The pipe's ring buffer with its two 32-bit counters, which are never reduced and wrap
  around, refines a bounded queue of bytes; no byte is lost, duplicated or reordered, and a process
  is asleep on the pipe only while there is nothing for it to do.

  The one-byte \<open>copyin\<close> and \<open>copyout\<close> go to a variable on the kernel stack and are used through
  what theory Usercopy proves of them.  Another hart may run \<open>kill\<close> on the writer at any time: the
  argument \<open>K\<close> says before which loop iterations it does.
\<close>

definition PIPESIZE :: u32 where [simp]: "PIPESIZE = 512"

record pipe =
  pi_data :: "u8 list"
  pi_nread :: u32
  pi_nwrite :: u32
  pi_readopen :: bool
  pi_writeopen :: bool

record pst = kmst +
  pipes :: "u64 \<Rightarrow> pipe"

definition set_pipe :: "u64 \<Rightarrow> pipe \<Rightarrow> 'a pst_scheme \<Rightarrow> 'a pst_scheme" where
  "set_pipe pi p s = s\<lparr>pipes := (pipes s)(pi := p)\<rparr>"

section \<open>Closing\<close>

definition pipeclose :: "u64 \<Rightarrow> bool \<Rightarrow> 'a pst_scheme \<Rightarrow> 'a pst_scheme res" where
  "pipeclose pi writable s =
     andthen (acquire (PipeLock pi) s) (\<lambda>s.
     andthen (if writable
              then wakeup (ChPipeRead pi) (set_pipe pi ((pipes s pi)\<lparr>pi_writeopen := False\<rparr>) s)
              else wakeup (ChPipeWrite pi) (set_pipe pi ((pipes s pi)\<lparr>pi_readopen := False\<rparr>) s)) (\<lambda>s.
     if \<not> pi_readopen (pipes s pi) \<and> \<not> pi_writeopen (pipes s pi)
     then andthen (release (PipeLock pi) s) (\<lambda>s. kfree pi s)
     else release (PipeLock pi) s))"

section \<open>Writing\<close>

text \<open>What a run of \<open>pipewrite\<close> or \<open>piperead\<close> ends with: a return value, or sleep at index \<open>i\<close>.\<close>

datatype prun = Returns int | Sleeps int

definition copyin1 :: "u64 \<Rightarrow> u64 \<Rightarrow> 'a kmst_scheme \<Rightarrow> u8 option" where
  "copyin1 pt va s = map_option hd (user_read (mem s) pt va 1)"

definition copyout1 :: "u64 \<Rightarrow> u64 \<Rightarrow> u8 \<Rightarrow> 'a kmst_scheme \<Rightarrow> 'a kmst_scheme option" where
  "copyout1 pt va b s = map_option (\<lambda>m. s\<lparr>mem := m\<rparr>) (user_write (mem s) pt va [b])"

definition pipe_put :: "u8 \<Rightarrow> pipe \<Rightarrow> pipe" where
  "pipe_put ch p =
     p\<lparr>pi_data := (pi_data p)[unat (pi_nwrite p mod PIPESIZE) := ch], pi_nwrite := pi_nwrite p + 1\<rparr>"

definition pipe_get :: "pipe \<Rightarrow> u8 \<times> pipe" where
  "pipe_get p = (pi_data p ! unat (pi_nread p mod PIPESIZE), p\<lparr>pi_nread := pi_nread p + 1\<rparr>)"

definition pipewrite_end :: "u64 \<Rightarrow> int \<Rightarrow> 'a pst_scheme \<Rightarrow> (prun \<times> 'a pst_scheme) res" where
  "pipewrite_end pi i s =
     andthen (wakeup (ChPipeRead pi) s) (\<lambda>s.
     andthen (release (PipeLock pi) s) (\<lambda>s. Ok (Returns i, s)))"

function pipewrite_loop :: "(int \<Rightarrow> bool) \<Rightarrow> nat \<Rightarrow> u64 \<Rightarrow> u64 \<Rightarrow> int \<Rightarrow> int \<Rightarrow> 'a pst_scheme
    \<Rightarrow> (prun \<times> 'a pst_scheme) res" where
  "pipewrite_loop K pr pi addr n i s =
     (if i < n then
        let s = (if K i then set_proc pr (p_killed_update (\<lambda>_. 1)) s else s) in
        andthen (if \<not> pi_readopen (pipes s pi) then Ok (True, s)
                 else andthen (killed pr s) (\<lambda>(k, s). Ok (k \<noteq> 0, s))) (\<lambda>(stop, s).
        if stop then andthen (release (PipeLock pi) s) (\<lambda>s. Ok (Returns (-1), s))
        else if pi_nwrite (pipes s pi) = pi_nread (pipes s pi) + PIPESIZE then
          andthen (wakeup (ChPipeRead pi) s) (\<lambda>s.
          andthen (sleep_enter (ChPipeWrite pi) (PipeLock pi) s) (\<lambda>s. Ok (Sleeps i, s)))
        else
          (case copyin1 (p_pagetable (procs s pr)) (addr + of_int i) s of
             None \<Rightarrow> pipewrite_end pi i s
           | Some ch \<Rightarrow> pipewrite_loop K pr pi addr n (i + 1) (set_pipe pi (pipe_put ch (pipes s pi)) s)))
      else pipewrite_end pi i s)"
  by pat_completeness auto
termination
  by (relation "measure (\<lambda>(K, pr, pi, addr, n, i, s). nat (n - i))") auto

declare pipewrite_loop.simps [simp del]

definition pipewrite :: "(int \<Rightarrow> bool) \<Rightarrow> u64 \<Rightarrow> u64 \<Rightarrow> int \<Rightarrow> 'a pst_scheme \<Rightarrow> (prun \<times> 'a pst_scheme) res" where
  "pipewrite K pi addr n s =
     (case myproc s of
        None \<Rightarrow> Fail Undefined
      | Some pr \<Rightarrow> andthen (acquire (PipeLock pi) s) (\<lambda>s. pipewrite_loop K pr pi addr n 0 s))"

definition pipewrite_resume :: "(int \<Rightarrow> bool) \<Rightarrow> nat \<Rightarrow> u64 \<Rightarrow> u64 \<Rightarrow> int \<Rightarrow> int \<Rightarrow> 'a pst_scheme
    \<Rightarrow> (prun \<times> 'a pst_scheme) res" where
  "pipewrite_resume K pr pi addr n i s =
     andthen (sleep_exit pr (PipeLock pi) s) (\<lambda>s. pipewrite_loop K pr pi addr n i s)"

section \<open>Reading\<close>

definition piperead_end :: "u64 \<Rightarrow> int \<Rightarrow> 'a pst_scheme \<Rightarrow> (prun \<times> 'a pst_scheme) res" where
  "piperead_end pi i s =
     andthen (wakeup (ChPipeWrite pi) s) (\<lambda>s.
     andthen (release (PipeLock pi) s) (\<lambda>s. Ok (Returns i, s)))"

function piperead_copy :: "nat \<Rightarrow> u64 \<Rightarrow> u64 \<Rightarrow> int \<Rightarrow> int \<Rightarrow> 'a pst_scheme \<Rightarrow> (prun \<times> 'a pst_scheme) res" where
  "piperead_copy pr pi addr n i s =
     (if i < n then
        if pi_nread (pipes s pi) = pi_nwrite (pipes s pi) then piperead_end pi i s
        else
          (case pipe_get (pipes s pi) of (ch, p) \<Rightarrow>
             let s = set_pipe pi p s in
             (case copyout1 (p_pagetable (procs s pr)) (addr + of_int i) ch s of
                None \<Rightarrow> piperead_end pi i s
              | Some s \<Rightarrow> piperead_copy pr pi addr n (i + 1) s))
      else piperead_end pi i s)"
  by pat_completeness auto
termination
  by (relation "measure (\<lambda>(pr, pi, addr, n, i, s). nat (n - i))") auto

declare piperead_copy.simps [simp del]

definition piperead_wait :: "nat \<Rightarrow> u64 \<Rightarrow> u64 \<Rightarrow> int \<Rightarrow> 'a pst_scheme \<Rightarrow> (prun \<times> 'a pst_scheme) res" where
  "piperead_wait pr pi addr n s =
     (if pi_nread (pipes s pi) = pi_nwrite (pipes s pi) \<and> pi_writeopen (pipes s pi) then
        andthen (killed pr s) (\<lambda>(k, s).
        if k \<noteq> 0 then andthen (release (PipeLock pi) s) (\<lambda>s. Ok (Returns (-1), s))
        else andthen (sleep_enter (ChPipeRead pi) (PipeLock pi) s) (\<lambda>s. Ok (Sleeps 0, s)))
      else piperead_copy pr pi addr n 0 s)"

definition piperead :: "u64 \<Rightarrow> u64 \<Rightarrow> int \<Rightarrow> 'a pst_scheme \<Rightarrow> (prun \<times> 'a pst_scheme) res" where
  "piperead pi addr n s =
     (case myproc s of
        None \<Rightarrow> Fail Undefined
      | Some pr \<Rightarrow> andthen (acquire (PipeLock pi) s) (\<lambda>s. piperead_wait pr pi addr n s))"

definition piperead_resume :: "nat \<Rightarrow> u64 \<Rightarrow> u64 \<Rightarrow> int \<Rightarrow> 'a pst_scheme \<Rightarrow> (prun \<times> 'a pst_scheme) res" where
  "piperead_resume pr pi addr n s =
     andthen (sleep_exit pr (PipeLock pi) s) (\<lambda>s. piperead_wait pr pi addr n s)"

section \<open>The ring buffer is a bounded queue\<close>

definition pipe_ok :: "pipe \<Rightarrow> bool" where
  "pipe_ok p \<longleftrightarrow> length (pi_data p) = 512 \<and> unat (pi_nwrite p - pi_nread p) \<le> 512"

definition queue :: "pipe \<Rightarrow> u8 list" where
  "queue p = map (\<lambda>k. pi_data p ! ((unat (pi_nread p) + k) mod 512)) [0..<unat (pi_nwrite p - pi_nread p)]"

lemma full_iff: "pipe_ok p \<Longrightarrow> pi_nwrite p = pi_nread p + PIPESIZE \<longleftrightarrow> length (queue p) = 512"
proof -
  have "pi_nwrite p = pi_nread p + 512 \<longleftrightarrow> pi_nwrite p - pi_nread p = 512" by (auto simp: algebra_simps)
  also have "\<dots> \<longleftrightarrow> unat (pi_nwrite p - pi_nread p) = 512" by (simp add: word_unat_eq_iff)
  finally show ?thesis by (simp add: queue_def)
qed

lemma empty_iff: "pi_nread p = pi_nwrite p \<longleftrightarrow> queue p = []"
  by (auto simp: queue_def unat_eq_zero)

lemma queue_bound: "pipe_ok p \<Longrightarrow> length (queue p) \<le> 512"
  by (simp add: queue_def pipe_ok_def)

lemma mod_4G_512: "(x mod 4294967296) mod 512 = x mod (512 :: nat)"
  by (rule mod_mod_cancel) simp

lemma ring_distinct:
  assumes "k < d" "d < 512"
  shows "(n + k) mod 512 \<noteq> (n + d) mod (512 :: nat)"
proof
  assume "(n + k) mod 512 = (n + d) mod 512"
  then have "512 dvd (n + d) - (n + k)" using assms(1) by (metis mod_eq_dvd_iff_nat nat_add_left_cancel_le less_imp_le)
  then show False using assms by (auto dest: dvd_imp_le)
qed

text \<open>The distance between two wrapping counters.\<close>

lemma counter_up: "unat (a - b :: u32) < 4294967295 \<Longrightarrow> unat (a + 1 - b) = Suc (unat (a - b))"
proof -
  assume "unat (a - b) < 4294967295"
  moreover have "a + 1 - b = (a - b) + 1" by simp
  ultimately show ?thesis by (simp only: unat_word_ariths) simp
qed

lemma counter_down: "unat (a - b :: u32) = Suc d \<Longrightarrow> unat (a - (b + 1)) = d"
proof -
  assume d: "unat (a - b) = Suc d"
  have "a - (b + 1) = (a - b) - 1" by simp
  moreover have "unat ((a - b) - 1) = unat (a - b) - 1"
    using d by (subst unat_sub) (auto simp: word_le_nat_alt)
  ultimately show ?thesis using d by (simp only:)
qed

lemma counter_sum: "unat (a :: u32) = (unat b + unat (a - b)) mod 4294967296"
proof -
  have "unat a = unat (b + (a - b))" by simp
  also have "\<dots> = (unat b + unat (a - b)) mod 4294967296"
    by (simp only: unat_word_ariths) simp
  finally show ?thesis .
qed

lemma pipe_put_queue:
  assumes ok: "pipe_ok p" and room: "length (queue p) < 512"
  shows "pipe_ok (pipe_put ch p) \<and> queue (pipe_put ch p) = queue p @ [ch]"
proof -
  let ?d = "unat (pi_nwrite p - pi_nread p)" and ?r = "unat (pi_nread p)"
  have d: "?d < 512" and len: "length (pi_data p) = 512"
    using room ok by (simp_all add: queue_def pipe_ok_def)
  have up: "unat (pi_nwrite p + 1 - pi_nread p) = Suc ?d" using d by (simp add: counter_up)
  have "unat (pi_nwrite p) = (?r + ?d) mod 4294967296" by (rule counter_sum)
  then have ix: "unat (pi_nwrite p mod 512) = (?r + ?d) mod 512"
    by (simp add: unat_mod_distrib mod_4G_512)
  have "(pi_data p)[(?r + ?d) mod 512 := ch] ! ((?r + k) mod 512) =
      (if k = ?d then ch else pi_data p ! ((?r + k) mod 512))" if "k \<le> ?d" for k
    using ring_distinct [of k ?d ?r] d that len by (auto simp: nth_list_update)
  then show ?thesis
    using up ix len d by (auto simp: pipe_ok_def queue_def pipe_put_def)
qed

lemma pipe_get_queue:
  assumes ok: "pipe_ok p" and ne: "queue p \<noteq> []"
  shows "pipe_ok (snd (pipe_get p)) \<and> queue p = fst (pipe_get p) # queue (snd (pipe_get p))"
proof -
  let ?d = "unat (pi_nwrite p - pi_nread p)" and ?r = "unat (pi_nread p)"
  obtain d where d: "?d = Suc d" using ne by (cases ?d) (auto simp: queue_def)
  have down: "unat (pi_nwrite p - (pi_nread p + 1)) = d" using d by (rule counter_down)
  have ix: "(unat (pi_nread p + 1) + k) mod 512 = (?r + Suc k) mod 512" for k
  proof -
    have "unat (pi_nread p + 1) = Suc ?r mod 4294967296" by (simp add: unat_word_ariths)
    then have "(unat (pi_nread p + 1) + k) mod 512 = ((Suc ?r mod 4294967296) mod 512 + k) mod 512"
      by (simp add: mod_add_left_eq)
    then show ?thesis by (simp add: mod_4G_512 mod_add_left_eq)
  qed
  have "unat (pi_nread p mod 512) = ?r mod 512" by (simp add: unat_mod_distrib)
  then show ?thesis
    using ok d down by (auto simp: pipe_ok_def queue_def pipe_get_def ix map_upt_Suc simp del: upt_Suc)
qed

section \<open>The queue contract\<close>

text \<open>
  What readers and writers rely on: a bounded queue.  The client is any sequence of insertions, when
  there is room, and removals, when there is something.
\<close>

datatype 'b qop = Put 'b | Get

fun qrun :: "('b \<Rightarrow> 'p \<Rightarrow> 'p) \<Rightarrow> ('p \<Rightarrow> 'b \<times> 'p) \<Rightarrow> ('p \<Rightarrow> nat) \<Rightarrow> nat \<Rightarrow> 'b qop list \<Rightarrow> 'p
    \<Rightarrow> 'b list \<times> 'b list \<times> 'p" where
  "qrun put get len cap [] p = ([], [], p)"
| "qrun put get len cap (Put b # ops) p =
     (if len p < cap
      then (case qrun put get len cap ops (put b p) of (ws, rs, q) \<Rightarrow> (b # ws, rs, q))
      else qrun put get len cap ops p)"
| "qrun put get len cap (Get # ops) p =
     (if 0 < len p
      then (case get p of (b, p') \<Rightarrow>
        (case qrun put get len cap ops p' of (ws, rs, q) \<Rightarrow> (ws, b # rs, q)))
      else qrun put get len cap ops p)"

locale bounded_fifo =
  fixes ok :: "'p \<Rightarrow> bool" and contents :: "'p \<Rightarrow> 'b list" and put :: "'b \<Rightarrow> 'p \<Rightarrow> 'p"
    and get :: "'p \<Rightarrow> 'b \<times> 'p" and cap :: nat
  assumes bounded: "ok p \<Longrightarrow> length (contents p) \<le> cap"
    and put_last: "\<lbrakk>ok p; length (contents p) < cap\<rbrakk> \<Longrightarrow>
      ok (put b p) \<and> contents (put b p) = contents p @ [b]"
    and get_first: "\<lbrakk>ok p; contents p \<noteq> []\<rbrakk> \<Longrightarrow>
      ok (snd (get p)) \<and> contents p = fst (get p) # contents (snd (get p))"
begin

lemma fifo:
  "\<lbrakk>ok p; qrun put get (\<lambda>p. length (contents p)) cap ops p = (ws, rs, q)\<rbrakk> \<Longrightarrow>
   ok q \<and> length (contents q) \<le> cap \<and> contents p @ ws = rs @ contents q"
proof (induction ops arbitrary: p ws rs)
  case Nil
  then show ?case using bounded by auto
next
  case (Cons a ops)
  then show ?case
    using put_last [of p] get_first [of p]
    by (cases a) (fastforce split: prod.splits if_splits)+
qed

end

interpretation ring: bounded_fifo pipe_ok queue pipe_put pipe_get 512
proof
  fix p :: pipe and b
  assume ok: "pipe_ok p"
  then show "length (queue p) \<le> 512" by (rule queue_bound)
  show "length (queue p) < 512 \<Longrightarrow> pipe_ok (pipe_put b p) \<and> queue (pipe_put b p) = queue p @ [b]"
    using ok by (rule pipe_put_queue)
  show "queue p \<noteq> [] \<Longrightarrow> pipe_ok (snd (pipe_get p)) \<and> queue p = fst (pipe_get p) # queue (snd (pipe_get p))"
    using ok by (rule pipe_get_queue)
qed

section \<open>What a run of pipewrite does\<close>

text \<open>
  The bytes \<open>ws\<close>, read from the writer's memory from \<open>addr + i\<close> on, are appended; the lock is
  released and nothing else of the pipes or of memory changes.
\<close>

definition wrote :: "nat \<Rightarrow> u64 \<Rightarrow> u64 \<Rightarrow> int \<Rightarrow> u8 list \<Rightarrow> 'a pst_scheme \<Rightarrow> 'a pst_scheme \<Rightarrow> bool" where
  "wrote pr pi addr i ws s t \<longleftrightarrow>
     pipe_ok (pipes t pi) \<and> queue (pipes t pi) = queue (pipes s pi) @ ws \<and>
     (\<forall>j < length ws. copyin1 (p_pagetable (procs s pr)) (addr + of_int (i + int j)) s = Some (ws ! j)) \<and>
     (\<forall>q. q \<noteq> pi \<longrightarrow> pipes t q = pipes s q) \<and>
     pi_readopen (pipes t pi) = pi_readopen (pipes s pi) \<and>
     pi_writeopen (pipes t pi) = pi_writeopen (pipes s pi) \<and>
     mem t = mem s \<and> freelist t = freelist s \<and> kend t = kend s \<and>
     lks t = (lks s)(PipeLock pi := False) \<and> slks t = slks s"

text \<open>How the run ends: stopped with -1, finished after a wakeup, or asleep on a full pipe.\<close>

definition write_end :: "nat \<Rightarrow> u64 \<Rightarrow> int \<Rightarrow> u8 list \<Rightarrow> prun \<Rightarrow> 'a pst_scheme \<Rightarrow> 'a pst_scheme \<Rightarrow> bool" where
  "write_end pr pi i ws out s t \<longleftrightarrow>
     (case out of
        Returns r \<Rightarrow> curproc t = Some pr \<and>
          (r = -1 \<and> (\<exists>q. procs t = (procs s)(pr := q)) \<or>
           r = i + int (length ws) \<and> procs t = wake (ChPipeRead pi) (Some pr) {..<NPROC} (procs s))
      | Sleeps k \<Rightarrow> curproc t = None \<and> k = i + int (length ws) \<and> length (queue (pipes t pi)) = 512 \<and>
          pi_readopen (pipes s pi) \<and>
          procs t = (wake (ChPipeRead pi) (Some pr) {..<NPROC} (procs s))
            (pr := (procs s pr)\<lparr>p_chan := ChPipeWrite pi, p_state := SLEEPING\<rparr>))"

lemma set_pipe_simps [simp]:
  "pipes (set_pipe pi p s) = (pipes s)(pi := p)" "mem (set_pipe pi p s) = mem s"
  "freelist (set_pipe pi p s) = freelist s" "kend (set_pipe pi p s) = kend s"
  "lks (set_pipe pi p s) = lks s" "slks (set_pipe pi p s) = slks s"
  "procs (set_pipe pi p s) = procs s" "curproc (set_pipe pi p s) = curproc s"
  "copyin1 pt va (set_pipe pi p s) = copyin1 pt va s"
  by (simp_all add: set_pipe_def copyin1_def)

lemma pipe_put_flags [simp]:
  "pi_readopen (pipe_put ch p) = pi_readopen p" "pi_writeopen (pipe_put ch p) = pi_writeopen p"
  by (simp_all add: pipe_put_def)

definition pipe_pre :: "nat \<Rightarrow> u64 \<Rightarrow> 'a pst_scheme \<Rightarrow> bool" where
  "pipe_pre pr pi s \<longleftrightarrow> pipe_ok (pipes s pi) \<and> lks s (PipeLock pi) \<and> (\<forall>p < 64. \<not> lks s (ProcLock p)) \<and>
     pr < 64 \<and> curproc s = Some pr"

lemma pipewrite_end_effect:
  assumes "pipe_pre pr pi s"
  shows "\<exists>t. pipewrite_end pi i s = Ok (Returns i, t) \<and> wrote pr pi addr i [] s t \<and>
    write_end pr pi i [] (Returns i) s t"
  using assms by (simp add: pipe_pre_def pipewrite_end_def res_simps wrote_def write_end_def)

lemma pipewrite_loop_effect:
  "pipe_pre pr pi s \<Longrightarrow>
   \<exists>out t ws. pipewrite_loop K pr pi addr n i s = Ok (out, t) \<and> wrote pr pi addr i ws s t \<and>
     write_end pr pi i ws out s t"
proof (induction K pr pi addr n i s rule: pipewrite_loop.induct)
  case (1 K pr pi addr n i s)
  note pre = "1.prems" [unfolded pipe_pre_def]
  let ?s = "if K i then set_proc pr (p_killed_update (\<lambda>_. 1)) s else s"
  let ?stop = "\<not> pi_readopen (pipes s pi) \<or> p_killed (procs ?s pr) \<noteq> 0"
  have check: "(if \<not> pi_readopen (pipes ?s pi) then Ok (True, ?s)
      else andthen (killed pr ?s) (\<lambda>(k, s). Ok (k \<noteq> 0, s))) = Ok (?stop, ?s)"
    using pre by (auto simp: res_simps set_proc_def)
  consider (finish) "\<not> i < n" | (stop) "i < n" "?stop"
    | (full) "i < n" "\<not> ?stop" "pi_nwrite (pipes s pi) = pi_nread (pipes s pi) + PIPESIZE"
    | (fault) "i < n" "\<not> ?stop" "pi_nwrite (pipes s pi) \<noteq> pi_nread (pipes s pi) + PIPESIZE"
        "copyin1 (p_pagetable (procs s pr)) (addr + of_int i) s = None"
    | (byte) ch where "i < n" "\<not> ?stop" "pi_nwrite (pipes s pi) \<noteq> pi_nread (pipes s pi) + PIPESIZE"
        "copyin1 (p_pagetable (procs s pr)) (addr + of_int i) s = Some ch"
    by (metis option.exhaust)
  then show ?case
  proof cases
    case finish
    then show ?thesis
      using pipewrite_end_effect [OF "1.prems", of i addr] by (subst pipewrite_loop.simps) auto
  next
    case stop
    have "pipewrite_loop K pr pi addr n i s = Ok (Returns (-1), ?s\<lparr>lks := (lks s)(PipeLock pi := False)\<rparr>)"
      using stop check pre by (subst pipewrite_loop.simps) (simp add: Let_def res_simps set_proc_def)
    moreover have "\<exists>q. procs ?s = (procs s)(pr := q)"
      by (cases "K i") (auto simp: set_proc_def intro: exI [of _ "procs s pr"])
    ultimately show ?thesis
      using pre by (intro exI [of _ "Returns (-1)"] exI [of _ "[]"] exI conjI)
        (auto simp: wrote_def write_end_def set_proc_def split: if_splits)
  next
    case full
    then have "?s = s" by (auto simp: set_proc_def)
    then show ?thesis
      using full check pre full_iff [of "pipes s pi"]
      by (subst pipewrite_loop.simps)
        (auto simp: Let_def res_simps sleep_enter_def myproc_def set_proc_def wrote_def write_end_def
          fun_upd_False_idem intro!: exI [of _ "[]"])
  next
    case fault
    then have "?s = s" by (auto simp: set_proc_def)
    then show ?thesis
      using fault check pipewrite_end_effect [OF "1.prems", of i addr]
      by (subst pipewrite_loop.simps) (auto simp: Let_def)
  next
    case (byte ch)
    then have same: "?s = s" by (auto simp: set_proc_def)
    let ?u = "set_pipe pi (pipe_put ch (pipes s pi)) s"
    have put: "pipe_ok (pipe_put ch (pipes s pi))" "queue (pipe_put ch (pipes s pi)) = queue (pipes s pi) @ [ch]"
      using pipe_put_queue [of "pipes s pi" ch] pre byte(3) full_iff queue_bound by fastforce+
    have "pipe_pre pr pi ?u" using put(1) pre by (simp add: pipe_pre_def set_pipe_def)
    then obtain out t ws where IH: "pipewrite_loop K pr pi addr n (i + 1) ?u = Ok (out, t)"
      "wrote pr pi addr (i + 1) ws ?u t" "write_end pr pi (i + 1) ws out ?u t"
      using "1.IH" [OF byte(1) refl check refl byte(2), unfolded same, OF byte(3,4)] by blast
    have "pipewrite_loop K pr pi addr n i s = Ok (out, t)"
      using byte check IH(1) unfolding same by (subst pipewrite_loop.simps) (simp add: Let_def same)
    moreover have "wrote pr pi addr i (ch # ws) s t"
      using IH(2) put byte(4)
      by (auto simp: wrote_def less_Suc_eq_0_disj algebra_simps)
    moreover have "write_end pr pi i (ch # ws) out s t"
      using IH(3) by (auto simp: write_end_def set_pipe_def pipe_put_def split: prun.splits)
    ultimately show ?thesis by blast
  qed
qed

section \<open>What a run of piperead does\<close>

text \<open>
  The bytes \<open>rs\<close> leave the queue from its front and the first \<open>d\<close> of them are stored in the
  reader's memory; they are all of \<open>rs\<close>, but for one byte when storing that byte fails.
\<close>

definition took :: "nat \<Rightarrow> u64 \<Rightarrow> u64 \<Rightarrow> int \<Rightarrow> u8 list \<Rightarrow> nat \<Rightarrow> 'a pst_scheme \<Rightarrow> 'a pst_scheme \<Rightarrow> bool" where
  "took pr pi addr i rs d s t \<longleftrightarrow>
     pipe_ok (pipes t pi) \<and> queue (pipes s pi) = rs @ queue (pipes t pi) \<and>
     user_write (mem s) (p_pagetable (procs s pr)) (addr + of_int i) (take d rs) = Some (mem t) \<and>
     (length rs = d \<or> length rs = Suc d \<and>
        utransw (mem t) (p_pagetable (procs s pr)) (addr + of_int (i + int d)) = None) \<and>
     (\<forall>q. q \<noteq> pi \<longrightarrow> pipes t q = pipes s q) \<and>
     pi_readopen (pipes t pi) = pi_readopen (pipes s pi) \<and>
     pi_writeopen (pipes t pi) = pi_writeopen (pipes s pi) \<and>
     freelist t = freelist s \<and> kend t = kend s \<and>
     lks t = (lks s)(PipeLock pi := False) \<and> slks t = slks s"

lemma piperead_end_effect:
  assumes "pipe_pre pr pi s"
  shows "\<exists>t. piperead_end pi i s = Ok (Returns i, t) \<and> took pr pi addr i [] 0 s t \<and> curproc t = Some pr \<and>
    procs t = wake (ChPipeWrite pi) (Some pr) {..<NPROC} (procs s)"
  using assms by (simp add: pipe_pre_def piperead_end_def res_simps took_def)

lemma pipe_get_flags [simp]:
  "pi_readopen (snd (pipe_get p)) = pi_readopen p" "pi_writeopen (snd (pipe_get p)) = pi_writeopen p"
  by (simp_all add: pipe_get_def)

lemma copyout1_None: "copyout1 pt va b s = None \<longleftrightarrow> utransw (mem s) pt va = None"
  by (auto simp: copyout1_def split: option.splits)

lemma copyout1_Some: "copyout1 pt va b s = Some t \<longleftrightarrow>
    (\<exists>pa. utransw (mem s) pt va = Some pa \<and> t = s\<lparr>mem := (mem s)(pa := b)\<rparr>)"
  by (auto simp: copyout1_def split: option.splits)

lemma piperead_copy_effect:
  "pipe_pre pr pi s \<Longrightarrow>
   \<exists>t rs d. piperead_copy pr pi addr n i s = Ok (Returns (i + int d), t) \<and> took pr pi addr i rs d s t \<and>
     curproc t = Some pr \<and> procs t = wake (ChPipeWrite pi) (Some pr) {..<NPROC} (procs s)"
proof (induction pr pi addr n i s rule: piperead_copy.induct)
  case (1 pr pi addr n i s)
  note pre = "1.prems" [unfolded pipe_pre_def]
  let ?pt = "p_pagetable (procs s pr)" and ?p = "pipes s pi"
  obtain ch p where get: "pipe_get ?p = (ch, p)" by (cases "pipe_get ?p")
  consider (finish) "\<not> i < n \<or> queue ?p = []"
    | (fault) "i < n" "queue ?p \<noteq> []" "utransw (mem s) ?pt (addr + of_int i) = None"
    | (byte) pa where "i < n" "queue ?p \<noteq> []" "utransw (mem s) ?pt (addr + of_int i) = Some pa"
    by (metis option.exhaust)
  then show ?case
  proof cases
    case finish
    then show ?thesis
      using piperead_end_effect [OF "1.prems", of i addr] empty_iff [of ?p]
      by (subst piperead_copy.simps) (auto intro!: exI [of _ "[]"] exI [of _ 0])
  next
    case fault
    let ?u = "set_pipe pi p s"
    have q: "pipe_ok p" "queue ?p = ch # queue p" "pi_readopen p = pi_readopen ?p" "pi_writeopen p = pi_writeopen ?p"
      using pipe_get_queue [of ?p] pre fault(2) get pipe_get_flags [of ?p] by auto
    then have "pipe_pre pr pi ?u" using pre by (simp add: pipe_pre_def)
    then obtain t where t: "piperead_end pi i ?u = Ok (Returns i, t)" "took pr pi addr i [] 0 ?u t" "curproc t = Some pr"
      "procs t = wake (ChPipeWrite pi) (Some pr) {..<NPROC} (procs ?u)"
      using piperead_end_effect [of pr pi ?u] by blast
    have "piperead_copy pr pi addr n i s = Ok (Returns i, t)"
      using fault get t(1) empty_iff [of ?p] copyout1_None [of ?pt "addr + of_int i" ch ?u]
      by (subst piperead_copy.simps) (auto simp: Let_def)
    moreover have "took pr pi addr i [ch] 0 s t"
      using t(2) q fault(3) by (auto simp: took_def)
    ultimately show ?thesis using t(3,4) by (intro exI [of _ t] exI [of _ "[ch]"] exI [of _ 0]) auto
  next
    case (byte pa)
    let ?u = "(set_pipe pi p s)\<lparr>mem := (mem s)(pa := ch)\<rparr>"
    have q: "pipe_ok p" "queue ?p = ch # queue p" "pi_readopen p = pi_readopen ?p" "pi_writeopen p = pi_writeopen ?p"
      using pipe_get_queue [of ?p] pre byte(2) get pipe_get_flags [of ?p] by auto
    have co: "copyout1 ?pt (addr + of_int i) ch (set_pipe pi p s) = Some ?u"
      using byte(3) by (simp add: copyout1_Some)
    have "pipe_pre pr pi ?u" using pre q(1) by (simp add: pipe_pre_def)
    then obtain t rs d where t: "piperead_copy pr pi addr n (i + 1) ?u = Ok (Returns (i + 1 + int d), t)"
      "took pr pi addr (i + 1) rs d ?u t" "curproc t = Some pr"
      "procs t = wake (ChPipeWrite pi) (Some pr) {..<NPROC} (procs ?u)"
      using "1.IH" [OF byte(1) _ get [symmetric] refl] co byte(2) empty_iff [of ?p] by fastforce
    have "piperead_copy pr pi addr n i s = Ok (Returns (i + int (Suc d)), t)"
      using byte get t(1) co empty_iff [of ?p]
      by (subst piperead_copy.simps) (auto simp: Let_def algebra_simps)
    moreover have "took pr pi addr i (ch # rs) (Suc d) s t"
      using t(2) q byte(3) by (auto simp: took_def algebra_simps)
    ultimately show ?thesis using t(3,4) by (intro exI [of _ t] exI [of _ "ch # rs"] exI [of _ "Suc d"]) simp
  qed
qed

section \<open>No process sleeps without a reason\<close>

definition asleep :: "'a kst_scheme \<Rightarrow> chan \<Rightarrow> nat \<Rightarrow> bool" where
  "asleep s c p \<longleftrightarrow> p < NPROC \<and> p_state (procs s p) = SLEEPING \<and> p_chan (procs s p) = c"

text \<open>Writers sleep only on a full pipe with a reader, readers only on an empty pipe with a writer.\<close>

definition wake_inv :: "u64 \<Rightarrow> 'a pst_scheme \<Rightarrow> bool" where
  "wake_inv pi s \<longleftrightarrow>
     (\<forall>p. asleep s (ChPipeWrite pi) p \<longrightarrow> length (queue (pipes s pi)) = 512 \<and> pi_readopen (pipes s pi)) \<and>
     (\<forall>p. asleep s (ChPipeRead pi) p \<longrightarrow> queue (pipes s pi) = [] \<and> pi_writeopen (pipes s pi))"

definition pipe_inv :: "u64 \<Rightarrow> 'a pst_scheme \<Rightarrow> bool" where
  "pipe_inv pi s \<longleftrightarrow> quiet s \<and> pipe_ok (pipes s pi) \<and> wake_inv pi s \<and>
     (\<forall>p. curproc s = Some p \<longrightarrow> p_state (procs s p) \<noteq> SLEEPING)"

text \<open>
  What processes and the rest of the kernel do to a pipe, one run at a time: calls and their
  continuations after a sleep, closing an end while the other stays open, and anything else that
  leaves this pipe alone and puts nobody to sleep on it.
\<close>

inductive pipe_step :: "u64 \<Rightarrow> 'a pst_scheme \<Rightarrow> 'a pst_scheme \<Rightarrow> bool" for pi where
  p_write: "\<lbrakk>curproc s = Some pr; pr < 64; pipewrite (\<lambda>_. False) pi addr n s = Ok (out, t)\<rbrakk> \<Longrightarrow> pipe_step pi s t"
| p_write_resume: "\<lbrakk>pr < 64; 0 \<le> i; p_state (procs s pr) = RUNNABLE; curproc s = None;
    pipewrite_resume (\<lambda>_. False) pr pi addr n i s = Ok (out, t)\<rbrakk> \<Longrightarrow> pipe_step pi s t"
| p_read: "\<lbrakk>curproc s = Some pr; pr < 64; piperead pi addr n s = Ok (out, t)\<rbrakk> \<Longrightarrow> pipe_step pi s t"
| p_read_resume: "\<lbrakk>pr < 64; p_state (procs s pr) = RUNNABLE; curproc s = None;
    piperead_resume pr pi addr n s = Ok (out, t)\<rbrakk> \<Longrightarrow> pipe_step pi s t"
| p_close: "\<lbrakk>if w then pi_readopen (pipes s pi) else pi_writeopen (pipes s pi); pipeclose pi w s = Ok t\<rbrakk> \<Longrightarrow>
    pipe_step pi s t"
| p_other: "\<lbrakk>pipes t pi = pipes s pi; quiet t; \<And>p. asleep t (ChPipeWrite pi) p \<Longrightarrow> asleep s (ChPipeWrite pi) p;
    \<And>p. asleep t (ChPipeRead pi) p \<Longrightarrow> asleep s (ChPipeRead pi) p;
    \<And>p. curproc t = Some p \<Longrightarrow> p_state (procs t p) \<noteq> SLEEPING\<rbrakk> \<Longrightarrow> pipe_step pi s t"

lemma asleep_wake:
  "\<lbrakk>procs t = wake c me {..<NPROC} pt; asleep t d p\<rbrakk> \<Longrightarrow>
   p_state (pt p) = SLEEPING \<and> p_chan (pt p) = d \<and> p < NPROC \<and> (c = d \<longrightarrow> me = Some p)"
  by (auto simp: asleep_def wake_def split: if_splits)

text \<open>The condition for a run to start: the lock just taken by a process that is not asleep.\<close>

definition run_pre :: "nat \<Rightarrow> u64 \<Rightarrow> 'a pst_scheme \<Rightarrow> bool" where
  "run_pre pr pi s \<longleftrightarrow> pipe_pre pr pi s \<and> wake_inv pi s \<and> p_state (procs s pr) \<noteq> SLEEPING \<and>
     lks s = (\<lambda>_. False)(PipeLock pi := True)"

lemma pipewrite_not_stopped:
  "\<lbrakk>pipe_pre pr pi s; pi_readopen (pipes s pi); p_killed (procs s pr) = 0; 0 \<le> i\<rbrakk> \<Longrightarrow>
   pipewrite_loop (\<lambda>_. False) pr pi addr n i s \<noteq> Ok (Returns (-1), t)"
proof (induction "\<lambda>_ :: int. False" pr pi addr n i s rule: pipewrite_loop.induct)
  case (1 pr pi addr n i s)
  note pre = "1.prems"(1) [unfolded pipe_pre_def]
  have check: "(if \<not> pi_readopen (pipes s pi) then Ok (True, s)
      else andthen (killed pr s) (\<lambda>(k, s). Ok (k \<noteq> 0, s))) = Ok (False, s)"
    using pre "1.prems"(2,3) by (simp add: res_simps)
  have fin: "pipewrite_end pi i s \<noteq> Ok (Returns (-1), t)"
    using pre "1.prems"(4) by (simp add: pipewrite_end_def res_simps)
  show ?case
  proof (cases "i < n \<and> pi_nwrite (pipes s pi) \<noteq> pi_nread (pipes s pi) + PIPESIZE")
    case False
    then show ?thesis
      using check fin pre by (subst pipewrite_loop.simps)
        (auto simp: Let_def andthen_eq_Ok)
  next
    case True
    show ?thesis
    proof (cases "copyin1 (p_pagetable (procs s pr)) (addr + of_int i) s")
      case None
      then show ?thesis using True check fin by (subst pipewrite_loop.simps) (auto simp: Let_def)
    next
      case (Some ch)
      let ?u = "set_pipe pi (pipe_put ch (pipes s pi)) s"
      have "pipe_ok (pipe_put ch (pipes s pi))"
        using pipe_put_queue [of "pipes s pi" ch] pre True full_iff queue_bound by fastforce
      then have "pipe_pre pr pi ?u" using pre by (simp add: pipe_pre_def)
      then have "pipewrite_loop (\<lambda>_. False) pr pi addr n (i + 1) ?u \<noteq> Ok (Returns (-1), t)"
        using "1.hyps" [OF _ _ check refl] True Some "1.prems" by simp
      then show ?thesis
        using True check Some by (subst pipewrite_loop.simps) (auto simp: Let_def)
    qed
  qed
qed

lemma pipewrite_never_killed:
  assumes pre: "pipe_pre pr pi s" and i: "0 \<le> i"
    and run: "pipewrite_loop (\<lambda>_. False) pr pi addr n i s = Ok (Returns (-1), t)"
  shows "t = s\<lparr>lks := (lks s)(PipeLock pi := False)\<rparr>"
proof -
  have stop: "\<not> pi_readopen (pipes s pi) \<or> p_killed (procs s pr) \<noteq> 0"
    using pipewrite_not_stopped [OF pre _ _ i] run by blast
  have "i < n"
    using run i pre by (subst (asm) pipewrite_loop.simps)
      (auto simp: pipewrite_end_def pipe_pre_def res_simps split: if_splits)
  then show ?thesis
    using run stop pre by (subst (asm) pipewrite_loop.simps)
      (auto simp: pipe_pre_def res_simps Let_def split: if_splits)
qed

lemma quiet_unlocked: "lks s = (\<lambda>_. False)(PipeLock pi := True) \<Longrightarrow> lks t = (lks s)(PipeLock pi := False) \<Longrightarrow> quiet t"
  by (simp add: quiet_def fun_eq_iff)

lemma write_run_inv:
  assumes pre: "run_pre pr pi s" and run: "pipewrite_loop (\<lambda>_. False) pr pi addr n i s = Ok (out, t)" "0 \<le> i"
  shows "pipe_inv pi t"
proof -
  note p = pre [unfolded run_pre_def]
  obtain ws where e: "wrote pr pi addr i ws s t" "write_end pr pi i ws out s t"
    using pipewrite_loop_effect [of pr pi s "\<lambda>_. False" addr n i] p run(1) by auto
  have "lks t = (lks s)(PipeLock pi := False)" using e(1) by (simp add: wrote_def)
  with p have q: "quiet t" using quiet_unlocked by blast
  have ok: "pipe_ok (pipes t pi)" and qt: "queue (pipes t pi) = queue (pipes s pi) @ ws"
    and fl: "pi_readopen (pipes t pi) = pi_readopen (pipes s pi)" "pi_writeopen (pipes t pi) = pi_writeopen (pipes s pi)"
    using e(1) by (auto simp: wrote_def)
  have full: "ws = []" if "length (queue (pipes s pi)) = 512"
    using queue_bound [OF ok] qt that by simp
  show ?thesis
  proof (cases "out = Returns (-1)")
    case True
    then have "t = s\<lparr>lks := (lks s)(PipeLock pi := False)\<rparr>"
      using pipewrite_never_killed [of pr pi s i addr n t] p run by simp
    then show ?thesis using p q ok by (auto simp: pipe_inv_def wake_inv_def asleep_def pipe_pre_def)
  next
    case False
    show ?thesis
    proof (cases out)
      case (Returns r)
      then have pt: "procs t = wake (ChPipeRead pi) (Some pr) {..<NPROC} (procs s)" "curproc t = Some pr"
        using e(2) False by (auto simp: write_end_def)
      have "wake_inv pi t"
        unfolding wake_inv_def
        using asleep_wake [OF pt(1)] p full qt fl by (fastforce simp: wake_inv_def asleep_def)
      then show ?thesis using q ok pt p by (simp add: pipe_inv_def)
    next
      case (Sleeps k)
      then have t: "curproc t = None" "length (queue (pipes t pi)) = 512" "pi_readopen (pipes s pi)"
        "procs t = (wake (ChPipeRead pi) (Some pr) {..<NPROC} (procs s))
          (pr := (procs s pr)\<lparr>p_chan := ChPipeWrite pi, p_state := SLEEPING\<rparr>)"
        using e(2) by (auto simp: write_end_def)
      have "\<not> asleep t (ChPipeRead pi) j" for j
        using t(4) by (auto simp: asleep_def wake_def split: if_splits)
      then have "wake_inv pi t" unfolding wake_inv_def using t(2,3) fl by simp
      then show ?thesis using q ok t(1) by (simp add: pipe_inv_def)
    qed
  qed
qed

lemma read_run_inv:
  assumes pre: "run_pre pr pi s" and run: "piperead_wait pr pi addr n s = Ok (out, t)"
  shows "pipe_inv pi t"
proof -
  note p = pre [unfolded run_pre_def]
  note pp = p [unfolded pipe_pre_def]
  show ?thesis
  proof (cases "queue (pipes s pi) = [] \<and> pi_writeopen (pipes s pi)")
    case True
    then have "t = s\<lparr>lks := (lks s)(PipeLock pi := False)\<rparr> \<or>
        t = s\<lparr>lks := (lks s)(PipeLock pi := False),
          procs := (procs s)(pr := (procs s pr)\<lparr>p_chan := ChPipeRead pi, p_state := SLEEPING\<rparr>), curproc := None\<rparr>"
      using run pp empty_iff [of "pipes s pi"]
      by (auto simp: piperead_wait_def res_simps sleep_enter_def myproc_def set_proc_def fun_upd_False_idem split: if_splits)
    moreover have "quiet (s\<lparr>lks := (lks s)(PipeLock pi := False)\<rparr>)"
      using p by (simp add: quiet_def fun_eq_iff)
    ultimately show ?thesis
      using True pp by (auto simp: pipe_inv_def wake_inv_def asleep_def quiet_def split: if_splits)
  next
    case False
    then have "piperead_copy pr pi addr n 0 s = Ok (out, t)"
      using run empty_iff [of "pipes s pi"] by (auto simp: piperead_wait_def)
    then obtain rs d where e: "took pr pi addr 0 rs d s t" "curproc t = Some pr"
      "procs t = wake (ChPipeWrite pi) (Some pr) {..<NPROC} (procs s)"
      using piperead_copy_effect [of pr pi s addr n 0] p by auto
    have "lks t = (lks s)(PipeLock pi := False)" using e(1) by (simp add: took_def)
    with p have q: "quiet t" using quiet_unlocked by blast
    have qt: "pipe_ok (pipes t pi)" "queue (pipes s pi) = rs @ queue (pipes t pi)"
      "pi_writeopen (pipes t pi) = pi_writeopen (pipes s pi)"
      using e(1) by (auto simp: took_def)
    have "\<not> asleep t (ChPipeWrite pi) j" for j
      using asleep_wake [OF e(3), of "ChPipeWrite pi" j] p by auto
    moreover have "queue (pipes t pi) = [] \<and> pi_writeopen (pipes t pi)" if "asleep t (ChPipeRead pi) j" for j
      using asleep_wake [OF e(3) that] p qt by (auto simp: wake_inv_def asleep_def)
    ultimately have "wake_inv pi t" by (auto simp: wake_inv_def)
    then show ?thesis using q qt e p by (simp add: pipe_inv_def)
  qed
qed

lemma run_pre_call:
  assumes "pipe_inv pi s" "curproc s = Some pr" "pr < 64"
  shows "acquire (PipeLock pi) s = Ok (s\<lparr>lks := (lks s)(PipeLock pi := True)\<rparr>)"
    "run_pre pr pi (s\<lparr>lks := (lks s)(PipeLock pi := True)\<rparr>)"
  using assms
  by (auto simp: res_simps run_pre_def pipe_pre_def pipe_inv_def quiet_def wake_inv_def asleep_def)

lemma run_pre_resume:
  assumes "pipe_inv pi s" "p_state (procs s pr) = RUNNABLE" "pr < 64"
  shows "\<exists>u. sleep_exit pr (PipeLock pi) s = Ok u \<and> run_pre pr pi u"
  using assms
  by (auto simp: sleep_exit_def res_simps set_proc_def run_pre_def pipe_pre_def pipe_inv_def quiet_def
      wake_inv_def asleep_def fun_upd_False_idem)

lemma pipeclose_inv:
  assumes inv: "pipe_inv pi s" and open_end: "if w then pi_readopen (pipes s pi) else pi_writeopen (pipes s pi)"
    and run: "pipeclose pi w s = Ok t"
  shows "pipe_inv pi t"
proof -
  let ?p = "if w then (pipes s pi)\<lparr>pi_writeopen := False\<rparr> else (pipes s pi)\<lparr>pi_readopen := False\<rparr>"
  let ?c = "if w then ChPipeRead pi else ChPipeWrite pi"
  have q: "quiet s" using inv by (simp add: pipe_inv_def)
  have t: "t = s\<lparr>pipes := (pipes s)(pi := ?p), procs := wake ?c (curproc s) {..<NPROC} (procs s)\<rparr>"
    using run open_end q by (auto simp: pipeclose_def res_simps set_pipe_def split: if_splits)
  have pt: "procs t = wake ?c (curproc s) {..<NPROC} (procs s)" by (simp add: t)
  have qp: "queue ?p = queue (pipes s pi)" "pipe_ok ?p = pipe_ok (pipes s pi)"
    by (simp_all add: queue_def pipe_ok_def)
  have "wake_inv pi t"
    unfolding wake_inv_def
  proof (intro conjI allI impI)
    fix j assume "asleep t (ChPipeWrite pi) j"
    from asleep_wake [OF pt this] show "length (queue (pipes t pi)) = 512" "pi_readopen (pipes t pi)"
      using inv qp by (auto simp: t pipe_inv_def wake_inv_def asleep_def split: if_splits)
  next
    fix j assume "asleep t (ChPipeRead pi) j"
    from asleep_wake [OF pt this] show "queue (pipes t pi) = []" "pi_writeopen (pipes t pi)"
      using inv qp by (auto simp: t pipe_inv_def wake_inv_def asleep_def split: if_splits)
  qed
  then show ?thesis
    using inv qp by (auto simp: pipe_inv_def t quiet_def)
qed

lemma pipe_inv_step: "\<lbrakk>pipe_step pi s t; pipe_inv pi s\<rbrakk> \<Longrightarrow> pipe_inv pi t"
proof (induction rule: pipe_step.induct)
  case (p_write s pr addr n out t)
  note r = run_pre_call [OF p_write(4,1,2)]
  have "pipewrite_loop (\<lambda>_. False) pr pi addr n 0 (s\<lparr>lks := (lks s)(PipeLock pi := True)\<rparr>) = Ok (out, t)"
    using p_write(1,3) r(1) by (simp add: pipewrite_def myproc_def)
  then show ?case by (rule write_run_inv [OF r(2)]) simp
next
  case (p_write_resume pr i s addr n out t)
  obtain u where u: "sleep_exit pr (PipeLock pi) s = Ok u" "run_pre pr pi u"
    using run_pre_resume [OF p_write_resume(6,3,1)] by blast
  have "pipewrite_loop (\<lambda>_. False) pr pi addr n i u = Ok (out, t)"
    using p_write_resume(5) u(1) by (simp add: pipewrite_resume_def)
  then show ?case by (rule write_run_inv [OF u(2) _ p_write_resume(2)])
next
  case (p_read s pr addr n out t)
  note r = run_pre_call [OF p_read(4,1,2)]
  have "piperead_wait pr pi addr n (s\<lparr>lks := (lks s)(PipeLock pi := True)\<rparr>) = Ok (out, t)"
    using p_read(1,3) r(1) by (simp add: piperead_def myproc_def)
  then show ?case by (rule read_run_inv [OF r(2)])
next
  case (p_read_resume pr s addr n out t)
  obtain u where u: "sleep_exit pr (PipeLock pi) s = Ok u" "run_pre pr pi u"
    using run_pre_resume [OF p_read_resume(5,2,1)] by blast
  have "piperead_wait pr pi addr n u = Ok (out, t)"
    using p_read_resume(4) u(1) by (simp add: piperead_resume_def)
  then show ?case by (rule read_run_inv [OF u(2)])
next
  case (p_close w s t)
  then show ?case by (blast intro: pipeclose_inv)
next
  case (p_other t s)
  then show ?case by (simp add: pipe_inv_def wake_inv_def) blast
qed

section \<open>Properties\<close>

text \<open>C10: the ring buffer with its two wrapping 32-bit counters is a first-in first-out queue of at most
  512 bytes: for any sequence of insertions and removals that respect its full and empty tests, the
  bytes that were in it followed by the bytes inserted are the bytes removed followed by the bytes
  left in it, also across the wrap-around of the counters.\<close>

theorem pipe_ring_fifo:
  assumes "pipe_ok p" "qrun pipe_put pipe_get (\<lambda>p. length (queue p)) 512 ops p = (ws, rs, q)"
  shows "pipe_ok q \<and> length (queue q) \<le> 512 \<and> queue p @ ws = rs @ queue q"
  using assms by (rule ring.fifo)

theorem pipe_ring_fifo_witness:
  "\<exists>q. qrun pipe_put pipe_get (\<lambda>p. length (queue p)) 512 [Put 7, Get]
      \<lparr>pi_data = replicate 512 0, pi_nread = 0xFFFFFFFF, pi_nwrite = 0xFFFFFFFF, pi_readopen = True,
       pi_writeopen = True\<rparr> = ([7], [7], q) \<and> queue q = []"
proof -
  let ?p = "\<lparr>pi_data = replicate 512 0, pi_nread = 0xFFFFFFFF, pi_nwrite = 0xFFFFFFFF, pi_readopen = True,
       pi_writeopen = True\<rparr>"
  obtain ws rs q where r: "qrun pipe_put pipe_get (\<lambda>p. length (queue p)) 512 [Put 7, Get] ?p = (ws, rs, q)"
    by (cases "qrun pipe_put pipe_get (\<lambda>p. length (queue p)) 512 [Put 7, Get] ?p") auto
  have ok: "pipe_ok ?p" by (simp add: pipe_ok_def)
  have "queue ?p = []" by (simp add: queue_def)
  moreover have "ws = [7] \<and> length rs = 1"
    using r by (auto simp: queue_def pipe_put_def pipe_get_def split: if_splits)
  ultimately show ?thesis
    using pipe_ring_fifo [OF ok r] r by (cases rs) auto
qed

text \<open>
  A state to apply the properties to: process 1 runs, process 0 is in state \<open>st\<close> on channel \<open>c\<close>,
  memory is \<open>m\<close>, and the pipe at \<open>pi\<close> is new.
\<close>

definition pipe_state :: "procstate \<Rightarrow> chan \<Rightarrow> bytemem \<Rightarrow> pst" where
  "pipe_state st c m = \<lparr>lks = (\<lambda>_. False), slks = (\<lambda>_. \<lparr>sl_locked = False, sl_pid = 0\<rparr>),
     procs = (\<lambda>_. zero_proc)(0 := zero_proc\<lparr>p_state := st, p_chan := c\<rparr>,
       1 := zero_proc\<lparr>p_state := RUNNING, p_pagetable := 0x80100000\<rparr>),
     curproc = Some 1, mem = m, freelist = 0, kend = 0x80021000, kernel_pagetable = 0,
     pipes = (\<lambda>_. \<lparr>pi_data = replicate 512 0, pi_nread = 0, pi_nwrite = 0, pi_readopen = True, pi_writeopen = True\<rparr>)\<rparr>"

lemma pipe_state_inv:
  "st \<noteq> SLEEPING \<or> c = ChPipeRead pi \<Longrightarrow> pipe_inv pi (pipe_state st c m)"
  "curproc (pipe_state st c m) = Some 1" "1 < NPROC"
  by (auto simp: pipe_state_def pipe_inv_def quiet_def pipe_ok_def wake_inv_def asleep_def queue_def zero_proc_def)





text \<open>C4: no wakeup is lost as long as no writer is killed in the middle of a run.  However the runs of
  readers, writers, the first close and the rest of the kernel interleave, a writer is asleep on the pipe only while the pipe is full and has a reader, and a reader
  only while it is empty and has a writer.\<close>

theorem pipe_no_lost_wakeup:
  assumes "(pipe_step pi)\<^sup>*\<^sup>* s t" "pipe_inv pi s"
  shows "(asleep t (ChPipeWrite pi) p \<longrightarrow> length (queue (pipes t pi)) = 512 \<and> pi_readopen (pipes t pi)) \<and>
    (asleep t (ChPipeRead pi) p \<longrightarrow> queue (pipes t pi) = [] \<and> pi_writeopen (pipes t pi))"
proof -
  have "pipe_inv pi t" using assms by (induction rule: rtranclp_induct) (auto intro: pipe_inv_step)
  then show ?thesis unfolding pipe_inv_def wake_inv_def by blast
qed

theorem pipe_no_lost_wakeup_witness:
  "\<exists>t. (pipe_step 0x80200000)\<^sup>*\<^sup>* (pipe_state UNUSED ChNone (\<lambda>_. 0)) t \<and>
    asleep t (ChPipeRead 0x80200000) 1 \<and> queue (pipes t 0x80200000) = []"
proof -
  let ?s = "pipe_state UNUSED ChNone (\<lambda>_. 0)"
  obtain t where t: "piperead 0x80200000 0 5 ?s = Ok (Sleeps 0, t)" "asleep t (ChPipeRead 0x80200000) 1"
    by (simp add: piperead_def myproc_def pipe_state_def res_simps piperead_wait_def killed_def sleep_enter_def
        set_proc_def zero_proc_def asleep_def)
  have "pipe_step 0x80200000 ?s t"
    by (rule pipe_step.p_read [OF _ _ t(1), of 1]) (simp_all add: pipe_state_def)
  then have r: "(pipe_step 0x80200000)\<^sup>*\<^sup>* ?s t" by blast
  moreover have "pipe_inv 0x80200000 ?s" by (rule pipe_state_inv) simp
  ultimately show ?thesis using pipe_no_lost_wakeup [of "0x80200000" ?s t 1] t(2) by blast
qed


end
