(* ===== verification/Virtio.thy ===== *)
theory Virtio
  imports Pipe
begin

text \<open>
  The disk driver, \<open>kernel/virtio_disk.c\<close> with the structures of \<open>kernel/virtio.h\<close>, and the
  buffers (\<open>kernel/buf.h\<close>) it transfers.  A request is a chain of three descriptors (header,
  data, status); the driver puts the chain's head into the available ring, sleeps, and the
  interrupt handler wakes it after the device has put the head into the used ring.

  The device itself is hardware.  It is a field of the state, \<open>blkdev\<close>, and what the driver
  relies on of it is the predicate \<open>virtio_blk_device\<close>, after sections 2.6 and 5.2 of the virtio
  specification: when one request is outstanding it carries that request out, reports status 0
  and returns the head in the used ring.  Buffers and driver structures are not in byte memory,
  so a descriptor's address names the object it points to.

  Arrays of eight entries are functions; every index the code uses is below eight or checked
  here, an access out of range being undefined.
\<close>

unbundle bit_operations_syntax

definition NUM :: nat where [simp]: "NUM = 8"
definition VRING_DESC_F_NEXT :: u16 where [simp]: "VRING_DESC_F_NEXT = 1"
definition VRING_DESC_F_WRITE :: u16 where [simp]: "VRING_DESC_F_WRITE = 2"
definition VIRTIO_BLK_T_IN :: u32 where [simp]: "VIRTIO_BLK_T_IN = 0"
definition VIRTIO_BLK_T_OUT :: u32 where [simp]: "VIRTIO_BLK_T_OUT = 1"

section \<open>Buffers and driver state\<close>

text \<open>\<open>struct buf\<close>; \<open>b_prev\<close> and \<open>b_next\<close> are indices into the buffer array, 30 being the list head.\<close>

record buf =
  b_valid :: bool
  b_disk :: bool
  b_dev :: u32
  b_blockno :: u32
  b_refcnt :: u32
  b_prev :: nat
  b_next :: nat
  b_data :: "u8 list"

text \<open>What a descriptor can point to: nothing, \<open>ops[i]\<close>, the data of buffer \<open>b\<close>, \<open>info[i].status\<close>.\<close>

datatype daddr = NoAddr | OpsAddr nat | DataAddr nat | StatusAddr nat

record virtq_desc =
  d_addr :: daddr
  d_len :: u32
  d_flags :: u16
  d_next :: u16

record virtq_avail =
  av_idx :: u16
  av_ring :: "nat \<Rightarrow> u16"

record virtq_used =
  us_idx :: u16
  us_ring :: "nat \<Rightarrow> u32"

record virtio_blk_req =
  rq_type :: u32
  rq_reserved :: u32
  rq_sector :: u64

record vinfo =
  in_b :: "nat option"
  in_status :: u8

record disk =
  desc :: "nat \<Rightarrow> virtq_desc"
  avail :: virtq_avail
  used :: virtq_used
  dfree :: "nat \<Rightarrow> bool"
  used_idx :: u16
  info :: "nat \<Rightarrow> vinfo"
  ops :: "nat \<Rightarrow> virtio_blk_req"

text \<open>The disk: sectors of 512 bytes.\<close>

type_synonym image = "u64 \<Rightarrow> u8 list"

type_synonym device = "disk \<Rightarrow> (nat \<Rightarrow> buf) \<Rightarrow> image \<Rightarrow> disk \<times> (nat \<Rightarrow> buf) \<times> image"

text \<open>\<open>hist\<close> records the images the disk has gone through, newest first: what a crash can leave.\<close>

record vst = pst +
  vdisk :: disk
  bufs :: "nat \<Rightarrow> buf"
  img :: image
  hist :: "image list"
  blkdev :: device

definition set_vdisk :: "(disk \<Rightarrow> disk) \<Rightarrow> 'a vst_scheme \<Rightarrow> 'a vst_scheme" where
  "set_vdisk f s = s\<lparr>vdisk := f (vdisk s)\<rparr>"

definition set_buf :: "nat \<Rightarrow> (buf \<Rightarrow> buf) \<Rightarrow> 'a vst_scheme \<Rightarrow> 'a vst_scheme" where
  "set_buf b f s = s\<lparr>bufs := (bufs s)(b := f (bufs s b))\<rparr>"

section \<open>Descriptors\<close>

definition zero_desc :: virtq_desc where
  "zero_desc = \<lparr>d_addr = NoAddr, d_len = 0, d_flags = 0, d_next = 0\<rparr>"

definition alloc_desc :: "disk \<Rightarrow> nat option \<times> disk" where
  "alloc_desc d =
     (case find (dfree d) [0..<NUM] of
        Some i \<Rightarrow> (Some i, d\<lparr>dfree := (dfree d)(i := False)\<rparr>)
      | None \<Rightarrow> (None, d))"

definition free_desc :: "nat \<Rightarrow> 'a vst_scheme \<Rightarrow> 'a vst_scheme res" where
  "free_desc i s =
     (if NUM \<le> i then Fail (Panic ''free_desc 1'')
      else if dfree (vdisk s) i then Fail (Panic ''free_desc 2'')
      else wakeup ChDiskFree
        (set_vdisk (\<lambda>d. d\<lparr>desc := (desc d)(i := zero_desc), dfree := (dfree d)(i := True)\<rparr>) s))"

lemma free_desc_Ok:
  assumes "free_desc i s = Ok t"
  shows "i < NUM \<and> \<not> dfree (vdisk s) i \<and> dfree (vdisk t) = (dfree (vdisk s))(i := True)"
proof -
  from assms have a: "i < NUM" "\<not> dfree (vdisk s) i"
    and w: "wakeup ChDiskFree (set_vdisk (\<lambda>d. d\<lparr>desc := (desc d)(i := zero_desc), dfree := (dfree d)(i := True)\<rparr>) s) = Ok t"
    by (auto simp: free_desc_def split: if_splits)
  show ?thesis using a wakeup_Ok [OF w] by (auto simp: set_vdisk_def)
qed

function free_chain :: "nat \<Rightarrow> 'a vst_scheme \<Rightarrow> 'a vst_scheme res" where
  "free_chain i s =
     (let flag = d_flags (desc (vdisk s) i); nxt = d_next (desc (vdisk s) i) in
      andthen (free_desc i s) (\<lambda>s.
      if flag AND VRING_DESC_F_NEXT \<noteq> 0 then free_chain (unat nxt) s else Ok s))"
  by pat_completeness auto
termination
proof (relation "measure (\<lambda>(i, s). card {j. j < NUM \<and> \<not> dfree (vdisk s) j})", simp)
  fix i and s t :: "'a vst_scheme" and flag nxt
  assume "free_desc i s = Ok t"
  from free_desc_Ok [OF this] have
    "{j. j < NUM \<and> \<not> dfree (vdisk t) j} = {j. j < NUM \<and> \<not> dfree (vdisk s) j} - {i}"
    "i \<in> {j. j < NUM \<and> \<not> dfree (vdisk s) j}" by auto
  moreover have "finite {j. j < NUM \<and> \<not> dfree (vdisk s) j}" by simp
  ultimately show "((unat nxt, t), i, s) \<in> measure (\<lambda>(i, s). card {j. j < NUM \<and> \<not> dfree (vdisk s) j})"
    by (metis (no_types, lifting) card_Diff1_less in_measure case_prod_conv)
qed

declare free_chain.simps [simp del]

definition alloc3_desc :: "'a vst_scheme \<Rightarrow> ((nat \<times> nat \<times> nat) option \<times> 'a vst_scheme) res" where
  "alloc3_desc s =
     (case alloc_desc (vdisk s) of
        (None, d) \<Rightarrow> Ok (None, s\<lparr>vdisk := d\<rparr>)
      | (Some i0, d) \<Rightarrow>
     (case alloc_desc d of
        (None, d) \<Rightarrow> andthen (free_desc i0 (s\<lparr>vdisk := d\<rparr>)) (\<lambda>s. Ok (None, s))
      | (Some i1, d) \<Rightarrow>
     (case alloc_desc d of
        (None, d) \<Rightarrow> andthen (free_desc i0 (s\<lparr>vdisk := d\<rparr>)) (\<lambda>s.
                     andthen (free_desc i1 s) (\<lambda>s. Ok (None, s)))
      | (Some i2, d) \<Rightarrow> Ok (Some (i0, i1, i2), s\<lparr>vdisk := d\<rparr>))))"

section \<open>Requests\<close>

text \<open>\<open>b->blockno * (BSIZE / 512)\<close> is computed in 32 bits and then widened.\<close>

definition sector_of :: "u32 \<Rightarrow> u64" where
  "sector_of blockno = ucast (blockno * 2)"

text \<open>Formatting the descriptors and publishing the request.\<close>

definition format_request :: "nat \<Rightarrow> bool \<Rightarrow> u64 \<Rightarrow> nat \<times> nat \<times> nat \<Rightarrow> disk \<Rightarrow> disk" where
  "format_request b wr sector idx d =
     (case idx of (i0, i1, i2) \<Rightarrow>
      d\<lparr>ops := (ops d)(i0 := \<lparr>rq_type = (if wr then VIRTIO_BLK_T_OUT else VIRTIO_BLK_T_IN),
                             rq_reserved = 0, rq_sector = sector\<rparr>),
        desc := (desc d)(
          i0 := \<lparr>d_addr = OpsAddr i0, d_len = 16, d_flags = VRING_DESC_F_NEXT, d_next = of_nat i1\<rparr>,
          i1 := \<lparr>d_addr = DataAddr b, d_len = of_nat BSIZE,
                 d_flags = (if wr then 0 else VRING_DESC_F_WRITE) OR VRING_DESC_F_NEXT, d_next = of_nat i2\<rparr>,
          i2 := \<lparr>d_addr = StatusAddr i0, d_len = 1, d_flags = VRING_DESC_F_WRITE, d_next = 0\<rparr>),
        info := (info d)(i0 := \<lparr>in_b = Some b, in_status = 0xff\<rparr>),
        avail := (avail d)\<lparr>av_ring := (av_ring (avail d))(unat (av_idx (avail d) mod 8) := of_nat i0),
                           av_idx := av_idx (avail d) + 1\<rparr>\<rparr>)"

definition run_device :: "'a vst_scheme \<Rightarrow> 'a vst_scheme" where
  "run_device s =
     (case blkdev s (vdisk s) (bufs s) (img s) of (d, B, m) \<Rightarrow>
        s\<lparr>vdisk := d, bufs := B, img := m, hist := m # hist s\<rparr>)"

text \<open>The interrupt handler.  The used index is 16 bits wide, so its loop ends.\<close>

function virtio_disk_intr_loop :: "'a vst_scheme \<Rightarrow> 'a vst_scheme res" where
  "virtio_disk_intr_loop s =
     (if used_idx (vdisk s) \<noteq> us_idx (used (vdisk s)) then
        let i = unat (us_ring (used (vdisk s)) (unat (used_idx (vdisk s) mod 8))) in
        if NUM \<le> i then Fail Undefined
        else if in_status (info (vdisk s) i) \<noteq> 0 then Fail (Panic ''virtio_disk_intr status'')
        else (case in_b (info (vdisk s) i) of
            None \<Rightarrow> Fail Undefined
          | Some b \<Rightarrow>
              andthen (wakeup (ChBuf b) (set_buf b (b_disk_update (\<lambda>_. False)) s)) (\<lambda>s.
              virtio_disk_intr_loop (set_vdisk (\<lambda>d. d\<lparr>used_idx := used_idx d + 1\<rparr>) s)))
      else Ok s)"
  by pat_completeness auto
termination
proof (relation "measure (\<lambda>s. unat (us_idx (used (vdisk s)) - used_idx (vdisk s)))", simp)
  fix s t :: "'a vst_scheme" and i b
  assume ne: "used_idx (vdisk s) \<noteq> us_idx (used (vdisk s))"
    and w: "wakeup (ChBuf b) (set_buf b (b_disk_update (\<lambda>_. False)) s) = Ok t"
  let ?a = "us_idx (used (vdisk s))" and ?b = "used_idx (vdisk s)"
  have "?a - ?b \<noteq> 0" using ne by auto
  then have "unat (?a - ?b - 1) < unat (?a - ?b)"
    by (metis unat_gt_0 unat_minus_one diff_less zero_less_one)
  then show "(set_vdisk (\<lambda>d. d\<lparr>used_idx := used_idx d + 1\<rparr>) t, s)
      \<in> measure (\<lambda>s. unat (us_idx (used (vdisk s)) - used_idx (vdisk s)))"
    using wakeup_Ok [OF w] by (auto simp: set_vdisk_def set_buf_def diff_diff_eq)
qed

declare virtio_disk_intr_loop.simps [simp del]

definition virtio_disk_intr :: "'a vst_scheme \<Rightarrow> 'a vst_scheme res" where
  "virtio_disk_intr s =
     andthen (acquire VdiskLock s) (\<lambda>s.
     andthen (virtio_disk_intr_loop s) (\<lambda>s.
     release VdiskLock s))"

text \<open>
  Waiting for the request: the process sleeps, which releases the driver's lock, the device
  works, its interrupt arrives, and the process runs again.  If the buffer is still owned by the
  disk after that, the process is asleep for good.
\<close>

definition virtio_disk_wait :: "nat \<Rightarrow> nat \<Rightarrow> 'a vst_scheme \<Rightarrow> 'a vst_scheme res" where
  "virtio_disk_wait p b s =
     (if b_disk (bufs s b) then
        andthen (sleep_enter (ChBuf b) VdiskLock s) (\<lambda>s.
        andthen (virtio_disk_intr (run_device s)) (\<lambda>s.
        andthen (sleep_exit p VdiskLock s) (\<lambda>s.
        if b_disk (bufs s b) then Fail Sleeping else Ok s)))
      else Ok s)"

definition virtio_disk_rw :: "nat \<Rightarrow> bool \<Rightarrow> 'a vst_scheme \<Rightarrow> 'a vst_scheme res" where
  "virtio_disk_rw b wr s =
     (let sector = sector_of (b_blockno (bufs s b)) in
      case myproc s of None \<Rightarrow> Fail Undefined | Some p \<Rightarrow>
      andthen (acquire VdiskLock s) (\<lambda>s.
      andthen (alloc3_desc s) (\<lambda>(idx, s).
      case idx of
        None \<Rightarrow> Fail Sleeping
      | Some (i0, i1, i2) \<Rightarrow>
          andthen (virtio_disk_wait p b (set_buf b (b_disk_update (\<lambda>_. True))
            (set_vdisk (format_request b wr sector (i0, i1, i2)) s))) (\<lambda>s.
          andthen (free_chain i0
            (set_vdisk (\<lambda>d. d\<lparr>info := (info d)(i0 := (info d i0)\<lparr>in_b := None\<rparr>)\<rparr>) s)) (\<lambda>s.
          release VdiskLock s)))))"

section \<open>What the driver relies on of the device\<close>

fun put_sectors :: "image \<Rightarrow> u64 \<Rightarrow> u8 list \<Rightarrow> image" where
  "put_sectors m sec bs = (if bs = [] then m else put_sectors (m(sec := take 512 bs)) (sec + 1) (drop 512 bs))"

declare put_sectors.simps [simp del]

definition get_sectors :: "image \<Rightarrow> u64 \<Rightarrow> nat \<Rightarrow> u8 list" where
  "get_sectors m sec n = concat (map (\<lambda>i. m (sec + of_nat i)) [0..<n])"

text \<open>A request of three descriptors, whose direction flags agree with its type.\<close>

definition wf_chain :: "disk \<Rightarrow> nat \<Rightarrow> nat \<Rightarrow> nat \<Rightarrow> nat \<Rightarrow> bool" where
  "wf_chain d h b j k \<longleftrightarrow>
     (let d0 = desc d h; d1 = desc d (unat (d_next d0)); d2 = desc d (unat (d_next d1)) in
      h < NUM \<and> unat (d_next d0) < NUM \<and> unat (d_next d1) < NUM \<and>
      d_addr d0 = OpsAddr j \<and> d_addr d1 = DataAddr b \<and> d_addr d2 = StatusAddr k \<and>
      d_flags d0 AND VRING_DESC_F_NEXT \<noteq> 0 \<and> d_flags d1 AND VRING_DESC_F_NEXT \<noteq> 0 \<and>
      (rq_type (ops d j) = VIRTIO_BLK_T_OUT \<and> d_flags d1 AND VRING_DESC_F_WRITE = 0 \<or>
       rq_type (ops d j) = VIRTIO_BLK_T_IN \<and> d_flags d1 AND VRING_DESC_F_WRITE \<noteq> 0) \<and>
      d_flags d2 AND VRING_DESC_F_WRITE \<noteq> 0)"

definition blk_serve :: "nat \<Rightarrow> nat \<Rightarrow> nat \<Rightarrow> nat \<Rightarrow> device" where
  "blk_serve h b j k d B m =
     (let r = ops d j; len = d_len (desc d (unat (d_next (desc d h)))) in
      (d\<lparr>info := (info d)(k := (info d k)\<lparr>in_status := 0\<rparr>),
         used := (used d)\<lparr>us_ring := (us_ring (used d))(unat (us_idx (used d) mod 8) := of_nat h),
                          us_idx := us_idx (used d) + 1\<rparr>\<rparr>,
       if rq_type r = VIRTIO_BLK_T_OUT then B
       else B(b := (B b)\<lparr>b_data := get_sectors m (rq_sector r) (unat len div 512)\<rparr>),
       if rq_type r = VIRTIO_BLK_T_OUT then put_sectors m (rq_sector r) (take (unat len) (b_data (B b)))
       else m))"

definition virtio_blk_device :: "device \<Rightarrow> bool" where
  "virtio_blk_device dev \<longleftrightarrow>
     (\<forall>d B m h b j k. us_idx (used d) + 1 = av_idx (avail d) \<and>
        h = unat (av_ring (avail d) (unat (us_idx (used d) mod 8))) \<and> wf_chain d h b j k \<longrightarrow>
        dev d B m = blk_serve h b j k d B m)"

text \<open>The driver between requests: all descriptors free, all completions seen.\<close>

definition vd_seen :: "disk \<Rightarrow> bool" where
  "vd_seen d \<longleftrightarrow> used_idx d = us_idx (used d) \<and> us_idx (used d) = av_idx (avail d)"

definition vd_idle :: "disk \<Rightarrow> bool" where
  "vd_idle d \<longleftrightarrow> (\<forall>i < NUM. dfree d i) \<and> vd_seen d"

section \<open>A request transfers its block\<close>

lemma upt_8: "[0..<8] = [0, 1, 2, 3, 4, 5, 6, 7]"
  by (simp add: upt_rec)

lemma alloc3_desc_idle:
  "vd_idle (vdisk s) \<Longrightarrow> alloc3_desc s = Ok (Some (0, 1, 2), set_vdisk (\<lambda>d. d\<lparr>dfree := (dfree d)(0 := False, 1 := False, 2 := False)\<rparr>) s)"
  by (simp add: alloc3_desc_def alloc_desc_def upt_8 vd_idle_def set_vdisk_def)

lemma take_chain:
  assumes "\<forall>p < 64. \<not> lks s (ProcLock p)" "i < NUM" "\<not> dfree (vdisk s) i"
  shows "free_desc i s = Ok (s\<lparr>vdisk := (vdisk s)\<lparr>desc := (desc (vdisk s))(i := zero_desc),
      dfree := (dfree (vdisk s))(i := True)\<rparr>, procs := wake ChDiskFree (curproc s) {..<NPROC} (procs s)\<rparr>)"
  using assms by (simp add: free_desc_def res_simps set_vdisk_def)

lemma free_chain_012:
  assumes "\<forall>p < 64. \<not> lks s (ProcLock p)" "\<forall>i \<in> {0, 1, 2}. \<not> dfree (vdisk s) i"
    "d_next (desc (vdisk s) 0) = 1" "d_next (desc (vdisk s) 1) = 2"
    "d_flags (desc (vdisk s) 0) AND 1 \<noteq> 0" "d_flags (desc (vdisk s) 1) AND 1 \<noteq> 0" "d_flags (desc (vdisk s) 2) AND 1 = 0"
  shows "\<exists>P. same_procs (procs s) P \<and>
    free_chain 0 s = Ok (s\<lparr>vdisk := (vdisk s)\<lparr>desc := (desc (vdisk s))(0 := zero_desc, 1 := zero_desc, 2 := zero_desc),
      dfree := (dfree (vdisk s))(0 := True, 1 := True, 2 := True)\<rparr>, procs := P\<rparr>)"
proof -
  let ?w = "wake ChDiskFree (curproc s) {..<NPROC}"
  have "same_procs (procs s) (?w (?w (?w (procs s))))"
    by (meson same_procs_trans same_procs_wake)
  moreover have "free_chain 0 s = Ok (s\<lparr>vdisk := (vdisk s)\<lparr>desc := (desc (vdisk s))(0 := zero_desc, 1 := zero_desc, 2 := zero_desc),
      dfree := (dfree (vdisk s))(0 := True, 1 := True, 2 := True)\<rparr>, procs := ?w (?w (?w (procs s)))\<rparr>)"
    using assms by (simp add: free_chain.simps [of 0] free_chain.simps [of "Suc 0"] free_chain.simps [of 2] take_chain Let_def)
  ultimately show ?thesis by blast
qed

text \<open>The published request is a well-formed chain for the device, which serves it.\<close>

lemma run_device_request:
  assumes dev: "virtio_blk_device (blkdev s)" and idle: "vd_seen d"
    and d: "vdisk s = format_request b wr sec (0, 1, 2) d"
  defines "r \<equiv> unat (av_idx (avail d) mod 8)"
  shows "run_device s = s\<lparr>
    vdisk := (vdisk s)\<lparr>info := (info d)(0 := \<lparr>in_b = Some b, in_status = 0\<rparr>),
      used := (used d)\<lparr>us_ring := (us_ring (used d))(r := 0), us_idx := us_idx (used d) + 1\<rparr>\<rparr>,
    bufs := (if wr then bufs s else (bufs s)(b := (bufs s b)\<lparr>b_data := get_sectors (img s) sec 2\<rparr>)),
    img := (if wr then put_sectors (img s) sec (take 1024 (b_data (bufs s b))) else img s),
    hist := (if wr then put_sectors (img s) sec (take 1024 (b_data (bufs s b))) else img s) # hist s\<rparr>"
proof -
  have "us_idx (used (vdisk s)) + 1 = av_idx (avail (vdisk s))"
    "0 = unat (av_ring (avail (vdisk s)) (unat (us_idx (used (vdisk s)) mod 8)))"
    using idle by (simp_all add: d format_request_def vd_seen_def)
  moreover have "wf_chain (vdisk s) 0 b 0 0"
    by (simp add: wf_chain_def d format_request_def Let_def)
  ultimately have "blkdev s (vdisk s) (bufs s) (img s) = blk_serve 0 b 0 0 (vdisk s) (bufs s) (img s)"
    using dev unfolding virtio_blk_device_def by blast
  then show ?thesis
    using idle by (simp add: run_device_def blk_serve_def d format_request_def r_def vd_seen_def)
qed

lemma intr_one:
  assumes "\<forall>p < 64. \<not> lks s (ProcLock p)" "\<not> lks s VdiskLock"
    "us_idx (used (vdisk s)) = used_idx (vdisk s) + 1"
    "us_ring (used (vdisk s)) (unat (used_idx (vdisk s) mod 8)) = 0"
    "in_status (info (vdisk s) 0) = 0" "in_b (info (vdisk s) 0) = Some b"
  shows "virtio_disk_intr s = Ok (s\<lparr>procs := wake (ChBuf b) (curproc s) {..<NPROC} (procs s),
    bufs := (bufs s)(b := (bufs s b)\<lparr>b_disk := False\<rparr>),
    vdisk := (vdisk s)\<lparr>used_idx := used_idx (vdisk s) + 1\<rparr>\<rparr>)"
  using assms
  by (simp add: virtio_disk_intr_def virtio_disk_intr_loop.simps res_simps set_buf_def set_vdisk_def Let_def)

text \<open>The buffer and the image after a transfer.\<close>

definition rw_buf :: "bool \<Rightarrow> nat \<Rightarrow> (nat \<Rightarrow> buf) \<Rightarrow> image \<Rightarrow> nat \<Rightarrow> buf" where
  "rw_buf wr b B m = B(b := (B b)\<lparr>b_data :=
     (if wr then b_data (B b) else get_sectors m (sector_of (b_blockno (B b))) 2), b_disk := False\<rparr>)"

definition rw_img :: "bool \<Rightarrow> nat \<Rightarrow> (nat \<Rightarrow> buf) \<Rightarrow> image \<Rightarrow> image" where
  "rw_img wr b B m =
     (if wr then put_sectors m (sector_of (b_blockno (B b))) (take 1024 (b_data (B b))) else m)"

lemma virtio_disk_wait_ok:
  assumes dev: "virtio_blk_device (blkdev s)" and idle: "vd_seen d" and p: "p < 64" "curproc s = Some p"
    and d: "vdisk s = format_request b wr (sector_of (b_blockno (bufs s b))) (0, 1, 2) d"
    and lk: "\<forall>p < 64. \<not> lks s (ProcLock p)" "lks s VdiskLock" and b: "b_disk (bufs s b)"
  shows "\<exists>P. same_procs (procs s) P \<and>
    virtio_disk_wait p b s = Ok (s\<lparr>procs := P, bufs := rw_buf wr b (bufs s) (img s), img := rw_img wr b (bufs s) (img s),
      hist := rw_img wr b (bufs s) (img s) # hist s,
      vdisk := (vdisk s)\<lparr>info := (info d)(0 := \<lparr>in_b = Some b, in_status = 0\<rparr>),
        used := (used d)\<lparr>us_ring := (us_ring (used d))(unat (av_idx (avail d) mod 8) := 0), us_idx := us_idx (used d) + 1\<rparr>,
        used_idx := used_idx d + 1\<rparr>\<rparr>)"
proof -
  let ?s1 = "s\<lparr>lks := (lks s)(VdiskLock := False), curproc := None,
    procs := (procs s)(p := (procs s p)\<lparr>p_chan := ChBuf b, p_state := SLEEPING\<rparr>)\<rparr>"
  have e: "sleep_enter (ChBuf b) VdiskLock s = Ok ?s1"
    using p lk by (simp add: sleep_enter_def myproc_def res_simps set_proc_def fun_upd_twist fun_upd_False_idem)
  have dv: "vdisk ?s1 = format_request b wr (sector_of (b_blockno (bufs s b))) (0, 1, 2) d" using d by simp
  note r = run_device_request [where s = ?s1, OF _ idle dv, simplified, OF dev]
  let ?P1 = "wake (ChBuf b) None {..<NPROC} (procs ?s1)"
  let ?P = "?P1(p := (?P1 p)\<lparr>p_state := RUNNING, p_chan := ChNone\<rparr>)"
  have "same_procs (procs s) (procs ?s1)" by (rule same_procsI) simp
  then have "same_procs (procs s) ?P"
    by (intro same_procs_upd) (rule same_procs_trans [OF _ same_procs_wake])
  moreover have "virtio_disk_wait p b s = Ok (s\<lparr>procs := ?P, bufs := rw_buf wr b (bufs s) (img s), img := rw_img wr b (bufs s) (img s),
      hist := rw_img wr b (bufs s) (img s) # hist s,
      vdisk := (vdisk s)\<lparr>info := (info d)(0 := \<lparr>in_b = Some b, in_status = 0\<rparr>),
        used := (used d)\<lparr>us_ring := (us_ring (used d))(unat (av_idx (avail d) mod 8) := 0), us_idx := us_idx (used d) + 1\<rparr>,
        used_idx := used_idx d + 1\<rparr>\<rparr>)"
    using b lk p idle
    apply (cases wr; simp add: virtio_disk_wait_def e r; subst intr_one [where b = b])
    apply (simp_all add: vd_seen_def d format_request_def sleep_exit_def set_proc_def acquire_def release_def rw_buf_def rw_img_def)
    apply (rule_tac [!] vst.equality)
    apply (simp_all add: fun_upd_idem)
    done
  ultimately show ?thesis by blast
qed

text \<open>The frame of a disk operation: what it leaves alone.\<close>

definition disk_frame :: "'a vst_scheme \<Rightarrow> 'a vst_scheme \<Rightarrow> bool" where
  "disk_frame s t \<longleftrightarrow> lks t = lks s \<and> same_procs (procs s) (procs t) \<and> curproc t = curproc s \<and>
     mem t = mem s \<and> freelist t = freelist s \<and> kend t = kend s \<and> kernel_pagetable t = kernel_pagetable s \<and>
     pipes t = pipes s \<and> blkdev t = blkdev s \<and> vst.more t = vst.more s"

lemma disk_frame_refl [simp]: "disk_frame s s"
  by (simp add: disk_frame_def)

lemma disk_frame_trans [trans]: "\<lbrakk>disk_frame s t; disk_frame t u\<rbrakk> \<Longrightarrow> disk_frame s u"
  unfolding disk_frame_def using same_procs_trans by metis

lemma disk_frameD:
  assumes "disk_frame s t"
  shows "lks t = lks s" "curproc t = curproc s" "mem t = mem s" "blkdev t = blkdev s" "quiet t = quiet s"
    "same_procs (procs s) (procs t)" "vst.more t = vst.more s" "p_pid (procs t i) = p_pid (procs s i)"
  using assms same_procs_fields(1) by (auto simp: disk_frame_def quiet_def)

text \<open>
  With an idle driver, \<open>virtio_disk_rw\<close> returns, has transferred exactly the block, leaves the
  driver idle, and nothing else changes but who is asleep.
\<close>

lemma virtio_disk_rw_ok:
  assumes q: "quiet s" and idle: "vd_idle (vdisk s)" and dev: "virtio_blk_device (blkdev s)"
    and p: "curproc s = Some p" "p < 64"
  shows "\<exists>t. virtio_disk_rw b wr s = Ok t \<and> disk_frame s t \<and> slks t = slks s \<and> vd_idle (vdisk t) \<and>
    bufs t = rw_buf wr b (bufs s) (img s) \<and> img t = rw_img wr b (bufs s) (img s) \<and>
    hist t = rw_img wr b (bufs s) (img s) # hist s"
proof -
  let ?d = "(vdisk s)\<lparr>dfree := (dfree (vdisk s))(0 := False, 1 := False, 2 := False)\<rparr>"
  let ?s0 = "s\<lparr>lks := (lks s)(VdiskLock := True)\<rparr>"
  let ?clear = "set_vdisk (\<lambda>d. d\<lparr>info := (info d)(0 := (info d 0)\<lparr>in_b := None\<rparr>)\<rparr>)"
  define s1 where "s1 = set_buf b (b_disk_update (\<lambda>_. True))
    (set_vdisk (format_request b wr (sector_of (b_blockno (bufs s b))) (0, 1, 2)) (?s0\<lparr>vdisk := ?d\<rparr>))"
  have "alloc3_desc ?s0 = Ok (Some (0, 1, 2), ?s0\<lparr>vdisk := ?d\<rparr>)"
    using alloc3_desc_idle [of ?s0] idle by (simp add: set_vdisk_def)
  then have call: "virtio_disk_rw b wr s =
      andthen (virtio_disk_wait p b s1) (\<lambda>s. andthen (free_chain 0 (?clear s)) (release VdiskLock))"
    using q p by (simp add: virtio_disk_rw_def myproc_def acquire_free s1_def)
  have s1: "vdisk s1 = format_request b wr (sector_of (b_blockno (bufs s1 b))) (0, 1, 2) ?d" "b_disk (bufs s1 b)"
    "lks s1 = (lks s)(VdiskLock := True)" "procs s1 = procs s" "curproc s1 = Some p" "img s1 = img s" "hist s1 = hist s"
    "rw_buf wr b (bufs s1) = rw_buf wr b (bufs s)" "rw_img wr b (bufs s1) = rw_img wr b (bufs s)"
    "slks s1 = slks s" "disk_frame (?s0\<lparr>vdisk := ?d\<rparr>) s1" "blkdev s1 = blkdev s"
    using p by (simp_all add: s1_def set_buf_def set_vdisk_def rw_buf_def rw_img_def fun_eq_iff disk_frame_def)
  have "vd_seen ?d" using idle by (simp add: vd_idle_def vd_seen_def)
  then obtain P where P: "same_procs (procs s) P" and w: "virtio_disk_wait p b s1 = Ok (s1\<lparr>procs := P,
      bufs := rw_buf wr b (bufs s) (img s), img := rw_img wr b (bufs s) (img s), hist := rw_img wr b (bufs s) (img s) # hist s,
      vdisk := (vdisk s1)\<lparr>info := (info ?d)(0 := \<lparr>in_b = Some b, in_status = 0\<rparr>),
        used := (used ?d)\<lparr>us_ring := (us_ring (used ?d))(unat (av_idx (avail ?d) mod 8) := 0), us_idx := us_idx (used ?d) + 1\<rparr>,
        used_idx := used_idx ?d + 1\<rparr>\<rparr>)" (is "_ = Ok ?s2")
    using virtio_disk_wait_ok [of s1 ?d p b wr] dev p q s1 by auto
  have "\<forall>p < 64. \<not> lks (?clear ?s2) (ProcLock p)" using q s1 by (simp add: set_vdisk_def)
  then obtain Q where Q: "same_procs P Q" and f: "free_chain 0 (?clear ?s2) = Ok ((?clear ?s2)\<lparr>vdisk := (vdisk (?clear ?s2))\<lparr>
      desc := (desc (vdisk (?clear ?s2)))(0 := zero_desc, 1 := zero_desc, 2 := zero_desc),
      dfree := (dfree (vdisk (?clear ?s2)))(0 := True, 1 := True, 2 := True)\<rparr>, procs := Q\<rparr>)" (is "_ = Ok ?s4")
    using free_chain_012 [of "?clear ?s2"] by (auto simp: set_vdisk_def s1(1) format_request_def)
  let ?t = "?s4\<lparr>lks := (lks ?s4)(VdiskLock := False)\<rparr>"
  have "release VdiskLock ?s4 = Ok ?t" by (rule release_held) (simp add: set_vdisk_def s1)
  then have "virtio_disk_rw b wr s = Ok ?t" by (simp only: call w andthen.simps f)
  moreover have "disk_frame s ?t"
    using q s1 P Q by (auto simp: disk_frame_def set_vdisk_def quiet_def fun_upd_False_idem intro: same_procs_trans)
  moreover have "vd_idle (vdisk ?t)"
    using idle by (auto simp: vd_idle_def vd_seen_def set_vdisk_def s1(1) format_request_def less_Suc_eq numeral_nat)
  moreover have "slks ?t = slks s" "bufs ?t = rw_buf wr b (bufs s) (img s)" "img ?t = rw_img wr b (bufs s) (img s)"
    "hist ?t = rw_img wr b (bufs s) (img s) # hist s"
    by (simp_all add: set_vdisk_def s1)
  ultimately show ?thesis by blast
qed

section \<open>Initialisation\<close>

text \<open>
  \<open>virtio_disk_init\<close> talks to the device through its control registers.  What a read of a register
  returns is up to the hardware: \<open>rd ws r\<close> is the value read from register \<open>r\<close> after the register
  writes \<open>ws\<close>, oldest first.  The result is the whole sequence of writes and the state.
\<close>

definition VIRTIO_MMIO_MAGIC_VALUE :: u32 where [simp]: "VIRTIO_MMIO_MAGIC_VALUE = 0x000"
definition VIRTIO_MMIO_VERSION :: u32 where [simp]: "VIRTIO_MMIO_VERSION = 0x004"
definition VIRTIO_MMIO_DEVICE_ID :: u32 where [simp]: "VIRTIO_MMIO_DEVICE_ID = 0x008"
definition VIRTIO_MMIO_VENDOR_ID :: u32 where [simp]: "VIRTIO_MMIO_VENDOR_ID = 0x00c"
definition VIRTIO_MMIO_DEVICE_FEATURES :: u32 where [simp]: "VIRTIO_MMIO_DEVICE_FEATURES = 0x010"
definition VIRTIO_MMIO_DRIVER_FEATURES :: u32 where [simp]: "VIRTIO_MMIO_DRIVER_FEATURES = 0x020"
definition VIRTIO_MMIO_QUEUE_SEL :: u32 where [simp]: "VIRTIO_MMIO_QUEUE_SEL = 0x030"
definition VIRTIO_MMIO_QUEUE_NUM_MAX :: u32 where [simp]: "VIRTIO_MMIO_QUEUE_NUM_MAX = 0x034"
definition VIRTIO_MMIO_QUEUE_NUM :: u32 where [simp]: "VIRTIO_MMIO_QUEUE_NUM = 0x038"
definition VIRTIO_MMIO_QUEUE_READY :: u32 where [simp]: "VIRTIO_MMIO_QUEUE_READY = 0x044"
definition VIRTIO_MMIO_STATUS :: u32 where [simp]: "VIRTIO_MMIO_STATUS = 0x070"
definition VIRTIO_MMIO_QUEUE_DESC_LOW :: u32 where [simp]: "VIRTIO_MMIO_QUEUE_DESC_LOW = 0x080"
definition VIRTIO_MMIO_QUEUE_DESC_HIGH :: u32 where [simp]: "VIRTIO_MMIO_QUEUE_DESC_HIGH = 0x084"
definition VIRTIO_MMIO_DRIVER_DESC_LOW :: u32 where [simp]: "VIRTIO_MMIO_DRIVER_DESC_LOW = 0x090"
definition VIRTIO_MMIO_DRIVER_DESC_HIGH :: u32 where [simp]: "VIRTIO_MMIO_DRIVER_DESC_HIGH = 0x094"
definition VIRTIO_MMIO_DEVICE_DESC_LOW :: u32 where [simp]: "VIRTIO_MMIO_DEVICE_DESC_LOW = 0x0a0"
definition VIRTIO_MMIO_DEVICE_DESC_HIGH :: u32 where [simp]: "VIRTIO_MMIO_DEVICE_DESC_HIGH = 0x0a4"

definition VIRTIO_CONFIG_S_ACKNOWLEDGE :: u32 where [simp]: "VIRTIO_CONFIG_S_ACKNOWLEDGE = 1"
definition VIRTIO_CONFIG_S_DRIVER :: u32 where [simp]: "VIRTIO_CONFIG_S_DRIVER = 2"
definition VIRTIO_CONFIG_S_DRIVER_OK :: u32 where [simp]: "VIRTIO_CONFIG_S_DRIVER_OK = 4"
definition VIRTIO_CONFIG_S_FEATURES_OK :: u32 where [simp]: "VIRTIO_CONFIG_S_FEATURES_OK = 8"

text \<open>The feature bits the driver refuses, in the order of the code.\<close>

definition refused_features :: "nat list" where
  "refused_features = [5, 7, 11, 12, 27, 29, 28]"

definition driver_features :: "u32 \<Rightarrow> u32" where
  "driver_features offered =
     ucast (fold (\<lambda>i f. f AND NOT (push_bit i 1)) refused_features (ucast offered :: u64))"

definition zero_queues :: "disk \<Rightarrow> disk" where
  "zero_queues d = d\<lparr>desc := (\<lambda>_. zero_desc), avail := \<lparr>av_idx = 0, av_ring = (\<lambda>_. 0)\<rparr>,
     used := \<lparr>us_idx = 0, us_ring = (\<lambda>_. 0)\<rparr>\<rparr>"

type_synonym mmio = "(u32 \<times> u32) list \<Rightarrow> u32 \<Rightarrow> u32"

text \<open>Up to the check of the queue size: the register writes so far and the status.\<close>

definition virtio_negotiate :: "mmio \<Rightarrow> ((u32 \<times> u32) list \<times> u32) res" where
  "virtio_negotiate rd =
     (if rd [] VIRTIO_MMIO_MAGIC_VALUE \<noteq> 0x74726976 \<or> rd [] VIRTIO_MMIO_VERSION \<noteq> 2 \<or>
         rd [] VIRTIO_MMIO_DEVICE_ID \<noteq> 2 \<or> rd [] VIRTIO_MMIO_VENDOR_ID \<noteq> 0x554d4551
      then Fail (Panic ''could not find virtio disk'')
      else
        let status = 0; ws = [(VIRTIO_MMIO_STATUS, status)];
            status = status OR VIRTIO_CONFIG_S_ACKNOWLEDGE; ws = ws @ [(VIRTIO_MMIO_STATUS, status)];
            status = status OR VIRTIO_CONFIG_S_DRIVER; ws = ws @ [(VIRTIO_MMIO_STATUS, status)];
            ws = ws @ [(VIRTIO_MMIO_DRIVER_FEATURES, driver_features (rd ws VIRTIO_MMIO_DEVICE_FEATURES))];
            status = status OR VIRTIO_CONFIG_S_FEATURES_OK; ws = ws @ [(VIRTIO_MMIO_STATUS, status)];
            status = rd ws VIRTIO_MMIO_STATUS
        in
        if status AND VIRTIO_CONFIG_S_FEATURES_OK = 0 then Fail (Panic ''virtio disk FEATURES_OK unset'')
        else
          let ws = ws @ [(VIRTIO_MMIO_QUEUE_SEL, 0)] in
          if rd ws VIRTIO_MMIO_QUEUE_READY \<noteq> 0 then Fail (Panic ''virtio disk should not be ready'')
          else
            let max = rd ws VIRTIO_MMIO_QUEUE_NUM_MAX in
            if max = 0 then Fail (Panic ''virtio disk has no queue 0'')
            else if max < of_nat NUM then Fail (Panic ''virtio disk max queue too short'')
            else Ok (ws, status))"

definition hi32 :: "u64 \<Rightarrow> u32" where
  "hi32 a = ucast (drop_bit 32 a)"

definition virtio_disk_init :: "mmio \<Rightarrow> 'a vst_scheme \<Rightarrow> ((u32 \<times> u32) list \<times> 'a vst_scheme) res" where
  "virtio_disk_init rd s =
     (let s = s\<lparr>lks := (lks s)(VdiskLock := False)\<rparr> in
      andthen (virtio_negotiate rd) (\<lambda>(ws, status).
      andthen (kalloc s) (\<lambda>(d, s).
      andthen (kalloc s) (\<lambda>(a, s).
      andthen (kalloc s) (\<lambda>(u, s).
      if d = 0 \<or> a = 0 \<or> u = 0 then Fail (Panic ''virtio disk kalloc'')
      else
        let s = s\<lparr>mem := memset (memset (memset (mem s) d 0 4096) a 0 4096) u 0 4096\<rparr>;
            s = set_vdisk zero_queues s;
            ws = ws @ [(VIRTIO_MMIO_QUEUE_NUM, of_nat NUM),
              (VIRTIO_MMIO_QUEUE_DESC_LOW, ucast d), (VIRTIO_MMIO_QUEUE_DESC_HIGH, hi32 d),
              (VIRTIO_MMIO_DRIVER_DESC_LOW, ucast a), (VIRTIO_MMIO_DRIVER_DESC_HIGH, hi32 a),
              (VIRTIO_MMIO_DEVICE_DESC_LOW, ucast u), (VIRTIO_MMIO_DEVICE_DESC_HIGH, hi32 u),
              (VIRTIO_MMIO_QUEUE_READY, 1)];
            s = set_vdisk (\<lambda>d. d\<lparr>dfree := (\<lambda>i. i < NUM \<or> dfree d i)\<rparr>) s;
            status = status OR VIRTIO_CONFIG_S_DRIVER_OK
        in Ok (ws @ [(VIRTIO_MMIO_STATUS, status)], s))))))"

text \<open>The refused features are never accepted, whatever the device offers; the others are left as offered.\<close>

lemma clear_bits:
  "i < 64 \<Longrightarrow> bit (fold (\<lambda>i f. f AND NOT (push_bit i 1)) xs f) i \<longleftrightarrow> bit (f :: u64) i \<and> i \<notin> set xs"
proof (induction xs arbitrary: f)
  case (Cons x xs)
  have "bit (f AND NOT (push_bit x 1)) i \<longleftrightarrow> bit f i \<and> i \<noteq> x" using Cons.prems by (auto simp: bit_simps)
  then show ?case using Cons by auto
qed simp

lemma driver_features_bits:
  "i < 32 \<Longrightarrow> bit (driver_features f) i \<longleftrightarrow> bit f i \<and> i \<notin> set refused_features"
  unfolding driver_features_def bit_ucast_iff using clear_bits [of i refused_features "ucast f"]
  by (simp add: bit_ucast_iff del: push_bit_of_1)

lemma kalloc_vdisk: "kalloc s = Ok (p, t) \<Longrightarrow> vdisk t = vdisk s"
  by (auto simp: kalloc_def acquire_def release_def Let_def andthen_eq_Ok split: if_splits)

text \<open>A successful initialisation leaves the driver idle, all eight descriptors free.\<close>

lemma virtio_disk_init_idle:
  assumes "virtio_disk_init rd s = Ok (ws, t)" "used_idx (vdisk s) = 0"
  shows "vd_idle (vdisk t)"
  using assms
  by (auto simp: virtio_disk_init_def Let_def andthen_eq_Ok set_vdisk_def zero_queues_def vd_idle_def vd_seen_def
      split: if_splits prod.splits dest!: kalloc_vdisk)

section \<open>A device\<close>

text \<open>A device that follows the chain it finds in the available ring; it meets the specification.\<close>

definition chain_device :: device where
  "chain_device d B m =
     (let h = unat (av_ring (avail d) (unat (us_idx (used d) mod 8)));
          d0 = desc d h; d1 = desc d (unat (d_next d0)); d2 = desc d (unat (d_next d1))
      in case (d_addr d0, d_addr d1, d_addr d2) of
           (OpsAddr j, DataAddr b, StatusAddr k) \<Rightarrow> blk_serve h b j k d B m
         | _ \<Rightarrow> (d, B, m))"

lemma chain_device: "virtio_blk_device chain_device"
  by (auto simp: virtio_blk_device_def wf_chain_def chain_device_def Let_def)

definition fresh_disk :: disk where
  "fresh_disk = \<lparr>desc = (\<lambda>_. zero_desc), avail = \<lparr>av_idx = 0, av_ring = (\<lambda>_. 0)\<rparr>,
     used = \<lparr>us_idx = 0, us_ring = (\<lambda>_. 0)\<rparr>, dfree = (\<lambda>_. True), used_idx = 0,
     info = (\<lambda>_. \<lparr>in_b = None, in_status = 0\<rparr>), ops = (\<lambda>_. \<lparr>rq_type = 0, rq_reserved = 0, rq_sector = 0\<rparr>)\<rparr>"

lemma fresh_disk_idle: "vd_idle fresh_disk"
  by (simp add: vd_idle_def vd_seen_def fresh_disk_def)

definition zero_buf :: buf where
  "zero_buf = \<lparr>b_valid = False, b_disk = False, b_dev = 0, b_blockno = 0, b_refcnt = 0, b_prev = 0, b_next = 0,
     b_data = replicate 1024 0\<rparr>"

text \<open>A state with one running process, an idle driver and a blank disk.\<close>

definition disk_state :: "image \<Rightarrow> vst" where
  "disk_state m = \<lparr>lks = (\<lambda>_. False), slks = (\<lambda>_. \<lparr>sl_locked = False, sl_pid = 0\<rparr>),
     procs = (\<lambda>_. zero_proc)(0 := zero_proc\<lparr>p_state := RUNNING, p_pid := 1\<rparr>),
     curproc = Some 0, mem = (\<lambda>_. 0), freelist = 0, kend = 0x80021000, kernel_pagetable = 0,
     pipes = (\<lambda>_. \<lparr>pi_data = replicate 512 0, pi_nread = 0, pi_nwrite = 0, pi_readopen = True, pi_writeopen = True\<rparr>),
     vdisk = fresh_disk, bufs = (\<lambda>_. zero_buf), img = m, hist = [], blkdev = chain_device\<rparr>"

end
