(* ===== verification/Bio.thy ===== *)
theory Bio
  imports Virtio
begin

text \<open>
  The buffer cache, \<open>kernel/bio.c\<close>: thirty buffers on a circular doubly linked list, most
  recently used first.  The list is the pointer structure of the code (index 30 is the head), and
  the walks over it are bounded by the number of buffers; the invariant shows the bound is never
  reached.  The cache is shown to be transparent: seen through it, the disk is a function from
  block numbers to contents (\<open>bview\<close>), which \<open>bread\<close> reads, and which only changes when a
  holder changes a buffer's data; eviction loses nothing as long as every unreferenced buffer
  equals its block on disk.
\<close>

definition BHEAD :: nat where [simp]: "BHEAD = 30"

section \<open>Operations\<close>

fun binit_loop :: "nat list \<Rightarrow> 'a vst_scheme \<Rightarrow> 'a vst_scheme" where
  "binit_loop [] s = s"
| "binit_loop (b # bs) s =
     (let s = set_buf b (\<lambda>q. q\<lparr>b_next := b_next (bufs s BHEAD)\<rparr>) s;
          s = set_buf b (\<lambda>q. q\<lparr>b_prev := BHEAD\<rparr>) s;
          s = initsleeplock (BufSL b) s;
          s = set_buf (b_next (bufs s BHEAD)) (\<lambda>q. q\<lparr>b_prev := b\<rparr>) s;
          s = set_buf BHEAD (\<lambda>q. q\<lparr>b_next := b\<rparr>) s
      in binit_loop bs s)"

definition binit :: "'a vst_scheme \<Rightarrow> 'a vst_scheme" where
  "binit s =
     binit_loop [0..<NBUF]
       (set_buf BHEAD (\<lambda>q. q\<lparr>b_prev := BHEAD, b_next := BHEAD\<rparr>) (s\<lparr>lks := (lks s)(BcacheLock := False)\<rparr>))"

text \<open>The two walks of \<open>bget\<close>, with a bound on the number of steps.\<close>

fun bget_cached :: "nat \<Rightarrow> u32 \<Rightarrow> u32 \<Rightarrow> (nat \<Rightarrow> buf) \<Rightarrow> nat \<Rightarrow> nat option res" where
  "bget_cached 0 dev n B b = Fail Undefined"
| "bget_cached (Suc k) dev n B b =
     (if b = BHEAD then Ok None
      else if b_dev (B b) = dev \<and> b_blockno (B b) = n then Ok (Some b)
      else bget_cached k dev n B (b_next (B b)))"

fun bget_unused :: "nat \<Rightarrow> (nat \<Rightarrow> buf) \<Rightarrow> nat \<Rightarrow> nat option res" where
  "bget_unused 0 B b = Fail Undefined"
| "bget_unused (Suc k) B b =
     (if b = BHEAD then Ok None
      else if b_refcnt (B b) = 0 then Ok (Some b)
      else bget_unused k B (b_prev (B b)))"

definition bget :: "u32 \<Rightarrow> u32 \<Rightarrow> 'a vst_scheme \<Rightarrow> (nat \<times> 'a vst_scheme) res" where
  "bget dev blockno s =
     andthen (acquire BcacheLock s) (\<lambda>s.
     andthen (bget_cached (Suc NBUF) dev blockno (bufs s) (b_next (bufs s BHEAD))) (\<lambda>hit.
     case hit of
       Some b \<Rightarrow>
         andthen (release BcacheLock (set_buf b (\<lambda>q. q\<lparr>b_refcnt := b_refcnt q + 1\<rparr>) s)) (\<lambda>s.
         andthen (acquiresleep (BufSL b) s) (\<lambda>s. Ok (b, s)))
     | None \<Rightarrow>
         andthen (bget_unused (Suc NBUF) (bufs s) (b_prev (bufs s BHEAD))) (\<lambda>lru.
         case lru of
           Some b \<Rightarrow>
             andthen (release BcacheLock (set_buf b (\<lambda>q. q\<lparr>b_dev := dev, b_blockno := blockno,
               b_valid := False, b_refcnt := 1\<rparr>) s)) (\<lambda>s.
             andthen (acquiresleep (BufSL b) s) (\<lambda>s. Ok (b, s)))
         | None \<Rightarrow> Fail (Panic ''bget: no buffers''))))"

definition bread :: "u32 \<Rightarrow> u32 \<Rightarrow> 'a vst_scheme \<Rightarrow> (nat \<times> 'a vst_scheme) res" where
  "bread dev blockno s =
     andthen (bget dev blockno s) (\<lambda>(b, s).
     if \<not> b_valid (bufs s b) then
       andthen (virtio_disk_rw b False s) (\<lambda>s. Ok (b, set_buf b (\<lambda>q. q\<lparr>b_valid := True\<rparr>) s))
     else Ok (b, s))"

definition bwrite :: "nat \<Rightarrow> 'a vst_scheme \<Rightarrow> 'a vst_scheme res" where
  "bwrite b s =
     andthen (holdingsleep (BufSL b) s) (\<lambda>(h, s).
     if \<not> h then Fail (Panic ''bwrite'') else virtio_disk_rw b True s)"

text \<open>Taking a buffer off the list and putting it behind the head.\<close>

definition bunlink :: "nat \<Rightarrow> 'a vst_scheme \<Rightarrow> 'a vst_scheme" where
  "bunlink b s =
     (let s = set_buf (b_next (bufs s b)) (\<lambda>q. q\<lparr>b_prev := b_prev (bufs s b)\<rparr>) s
      in set_buf (b_prev (bufs s b)) (\<lambda>q. q\<lparr>b_next := b_next (bufs s b)\<rparr>) s)"

definition bpush_front :: "nat \<Rightarrow> 'a vst_scheme \<Rightarrow> 'a vst_scheme" where
  "bpush_front b s =
     (let s = set_buf b (\<lambda>q. q\<lparr>b_next := b_next (bufs s BHEAD)\<rparr>) s;
          s = set_buf b (\<lambda>q. q\<lparr>b_prev := BHEAD\<rparr>) s;
          s = set_buf (b_next (bufs s BHEAD)) (\<lambda>q. q\<lparr>b_prev := b\<rparr>) s
      in set_buf BHEAD (\<lambda>q. q\<lparr>b_next := b\<rparr>) s)"

definition brelse :: "nat \<Rightarrow> 'a vst_scheme \<Rightarrow> 'a vst_scheme res" where
  "brelse b s =
     andthen (holdingsleep (BufSL b) s) (\<lambda>(h, s).
     if \<not> h then Fail (Panic ''brelse'')
     else
       andthen (releasesleep (BufSL b) s) (\<lambda>s.
       andthen (acquire BcacheLock s) (\<lambda>s.
       let s = set_buf b (\<lambda>q. q\<lparr>b_refcnt := b_refcnt q - 1\<rparr>) s;
           s = (if b_refcnt (bufs s b) = 0 then bpush_front b (bunlink b s) else s)
       in release BcacheLock s)))"

definition bpin :: "nat \<Rightarrow> 'a vst_scheme \<Rightarrow> 'a vst_scheme res" where
  "bpin b s =
     andthen (acquire BcacheLock s) (\<lambda>s.
     release BcacheLock (set_buf b (\<lambda>q. q\<lparr>b_refcnt := b_refcnt q + 1\<rparr>) s))"

definition bunpin :: "nat \<Rightarrow> 'a vst_scheme \<Rightarrow> 'a vst_scheme res" where
  "bunpin b s =
     andthen (acquire BcacheLock s) (\<lambda>s.
     release BcacheLock (set_buf b (\<lambda>q. q\<lparr>b_refcnt := b_refcnt q - 1\<rparr>) s))"

section \<open>Linked segments\<close>

text \<open>From \<open>a\<close> through \<open>xs\<close> to \<open>z\<close>, in both directions.\<close>

primrec seg :: "(nat \<Rightarrow> nat) \<Rightarrow> (nat \<Rightarrow> nat) \<Rightarrow> nat \<Rightarrow> nat list \<Rightarrow> nat \<Rightarrow> bool" where
  "seg nx pv a [] z \<longleftrightarrow> nx a = z \<and> pv z = a"
| "seg nx pv a (x # xs) z \<longleftrightarrow> nx a = x \<and> pv x = a \<and> seg nx pv x xs z"

lemma seg_append: "seg nx pv a (xs @ b # ys) z \<longleftrightarrow> seg nx pv a xs b \<and> seg nx pv b ys z"
  by (induction xs arbitrary: a) auto

lemma seg_cong:
  "\<lbrakk>\<And>x. x \<in> insert a (set xs) \<Longrightarrow> nx' x = nx x; \<And>x. x \<in> insert z (set xs) \<Longrightarrow> pv' x = pv x\<rbrakk> \<Longrightarrow>
   seg nx' pv' a xs z = seg nx pv a xs z"
  by (induction xs arbitrary: a) auto

lemma seg_rev: "seg nx pv a xs z \<longleftrightarrow> seg pv nx z (rev xs) a"
proof (induction xs arbitrary: a)
  case (Cons x xs)
  then show ?case using seg_append [of pv nx z "rev xs" x "[]" a] by auto
qed auto

lemma seg_first: "seg nx pv a xs z \<Longrightarrow> nx a = hd (xs @ [z])"
  by (cases xs) auto

lemma seg_last: "seg nx pv a xs z \<Longrightarrow> pv z = last (a # xs)"
  by (induction xs arbitrary: a) auto

text \<open>Closing the gap between two adjacent segments.\<close>

lemma seg_join:
  assumes "seg nx pv a xs b" "seg nx pv b ys z" "distinct (b # xs @ ys)" "b \<noteq> a" "b \<noteq> z"
    "a \<notin> set xs \<union> set ys" "z \<notin> set xs \<union> set ys"
  shows "seg (nx(pv b := nx b)) (pv(nx b := pv b)) a (xs @ ys) z"
proof -
  define nx' where "nx' = nx(pv b := nx b)"
  define pv' where "pv' = pv(nx b := pv b)"
  have nx': "nx' (pv b) = nx b" "\<And>y. y \<noteq> pv b \<Longrightarrow> nx' y = nx y" by (simp_all add: nx'_def)
  have pv': "pv' (nx b) = pv b" "\<And>y. y \<noteq> nx b \<Longrightarrow> pv' y = pv y" by (simp_all add: pv'_def)
  have "seg nx' pv' a (xs @ ys) z" using assms
  proof (induction xs arbitrary: a)
    case Nil
    then have a: "pv b = a" by simp
    show ?case
    proof (cases ys)
      case Nil
      then show ?thesis using Nil.prems a nx'(1) pv'(1) by simp
    next
      case (Cons y zs)
      have "seg nx' pv' y zs z = seg nx pv y zs z"
        using Cons Nil.prems a by (intro seg_cong nx'(2) pv'(2)) auto
      then show ?thesis using Cons Nil.prems a nx'(1) pv'(1) by simp
    qed
  next
    case (Cons x xs)
    have "pv b = last (x # xs)" using Cons.prems(1) seg_last by fastforce
    then have "pv b \<in> set (x # xs)" by (metis last_in_set list.distinct(1))
    moreover have "nx b \<in> insert z (set ys)" using seg_first [OF Cons.prems(2)] by (cases ys) auto
    ultimately have "a \<noteq> pv b" "x \<noteq> nx b" using Cons.prems by auto
    then have "nx' a = nx a" "pv' x = pv x" by (simp_all add: nx'(2) pv'(2))
    moreover have "seg nx' pv' x (xs @ ys) z"
      using Cons.prems by (intro Cons.IH) auto
    ultimately show ?case using Cons.prems(1) by simp
  qed
  then show ?thesis by (simp only: nx'_def pv'_def)
qed

lemma seg_insert_first:
  assumes "seg nx pv a xs z" "b \<notin> set xs" "b \<noteq> a" "b \<noteq> z" "distinct xs" "a \<notin> set xs" "z \<notin> set xs"
  shows "seg (nx(b := nx a, a := b)) (pv(b := a, nx a := b)) a (b # xs) z"
proof (cases xs)
  case Nil
  then show ?thesis using assms by auto
next
  case (Cons x ys)
  have "seg (nx(b := nx a, a := b)) (pv(b := a, nx a := b)) x ys z = seg nx pv x ys z"
    using assms Cons by (intro seg_cong) auto
  then show ?thesis using assms Cons by auto
qed

section \<open>The list of buffers\<close>

abbreviation "bnext s \<equiv> \<lambda>i. b_next (bufs s i)"
abbreviation "bprev s \<equiv> \<lambda>i. b_prev (bufs s i)"

definition lru :: "'a vst_scheme \<Rightarrow> nat list \<Rightarrow> bool" where
  "lru s xs \<longleftrightarrow> distinct xs \<and> set xs = {..<NBUF} \<and> seg (bnext s) (bprev s) BHEAD xs BHEAD"

lemma lru_length: "lru s xs \<Longrightarrow> length xs = 30"
  using distinct_card [of xs] by (simp add: lru_def)

lemma bget_cached_find:
  "\<lbrakk>seg (\<lambda>i. b_next (B i)) pv a xs BHEAD; BHEAD \<notin> set xs; length xs < k\<rbrakk> \<Longrightarrow>
   bget_cached k dev n B (b_next (B a)) = Ok (find (\<lambda>b. b_dev (B b) = dev \<and> b_blockno (B b) = n) xs)"
proof (induction xs arbitrary: a k)
  case Nil
  then show ?case by (cases k) auto
next
  case (Cons x xs)
  then show ?case by (cases k) auto
qed

lemma bget_unused_find:
  "\<lbrakk>seg (\<lambda>i. b_prev (B i)) nx a xs BHEAD; BHEAD \<notin> set xs; length xs < k\<rbrakk> \<Longrightarrow>
   bget_unused k B (b_prev (B a)) = Ok (find (\<lambda>b. b_refcnt (B b) = 0) xs)"
proof (induction xs arbitrary: a k)
  case Nil
  then show ?case by (cases k) auto
next
  case (Cons x xs)
  then show ?case by (cases k) auto
qed

lemma lru_walks:
  assumes "lru s xs"
  shows "bget_cached (Suc NBUF) dev n (bufs s) (b_next (bufs s BHEAD)) =
      Ok (find (\<lambda>b. b_dev (bufs s b) = dev \<and> b_blockno (bufs s b) = n) xs)"
    "bget_unused (Suc NBUF) (bufs s) (b_prev (bufs s BHEAD)) = Ok (find (\<lambda>b. b_refcnt (bufs s b) = 0) (rev xs))"
proof -
  have "seg (bnext s) (bprev s) BHEAD xs BHEAD" "BHEAD \<notin> set xs" "length xs < Suc NBUF"
    using assms lru_length [OF assms] by (auto simp: lru_def)
  then show "bget_cached (Suc NBUF) dev n (bufs s) (b_next (bufs s BHEAD)) =
      Ok (find (\<lambda>b. b_dev (bufs s b) = dev \<and> b_blockno (bufs s b) = n) xs)"
    "bget_unused (Suc NBUF) (bufs s) (b_prev (bufs s BHEAD)) = Ok (find (\<lambda>b. b_refcnt (bufs s b) = 0) (rev xs))"
    using bget_cached_find [of "bufs s" "bprev s" BHEAD xs] bget_unused_find [of "bufs s" "bnext s" BHEAD "rev xs"]
    by (auto simp: seg_rev [of "bprev s"])
qed

text \<open>Moving a buffer to the front, the pointer updates of \<open>brelse\<close>.\<close>

lemma bufs_set_buf [simp]: "bufs (set_buf b f s) = (bufs s)(b := f (bufs s b))"
  by (simp add: set_buf_def)

lemma bpush_front_links:
  "\<lbrakk>bnext t BHEAD \<noteq> b; b \<noteq> BHEAD\<rbrakk> \<Longrightarrow> bnext (bpush_front b t) = (bnext t)(b := bnext t BHEAD, BHEAD := b)"
  "\<lbrakk>bnext t BHEAD \<noteq> b; b \<noteq> BHEAD\<rbrakk> \<Longrightarrow> bprev (bpush_front b t) = (bprev t)(b := BHEAD, bnext t BHEAD := b)"
  by (auto simp: bpush_front_def fun_eq_iff Let_def)

lemma bunlink_links:
  "\<lbrakk>bnext s b \<noteq> b; bprev s b \<noteq> b\<rbrakk> \<Longrightarrow> bnext (bunlink b s) = (bnext s)(bprev s b := bnext s b)"
  "\<lbrakk>bnext s b \<noteq> b; bprev s b \<noteq> b\<rbrakk> \<Longrightarrow> bprev (bunlink b s) = (bprev s)(bnext s b := bprev s b)"
  by (auto simp: bunlink_def fun_eq_iff Let_def)

lemma seg_unlink_push:
  assumes "seg nx pv h (as @ b # zs) h" "distinct (b # as @ zs)" "h \<notin> set as \<union> set zs" "b \<noteq> h"
  shows "nx b \<noteq> b" "pv b \<noteq> b" "(nx(pv b := nx b)) h \<noteq> b"
    "seg ((nx(pv b := nx b))(b := (nx(pv b := nx b)) h, h := b))
       ((pv(nx b := pv b))(b := h, (nx(pv b := nx b)) h := b)) h (b # as @ zs) h"
proof -
  have sg: "seg nx pv h as b" "seg nx pv b zs h" using assms(1) by (simp_all add: seg_append)
  have j: "seg (nx(pv b := nx b)) (pv(nx b := pv b)) h (as @ zs) h"
    using assms by (intro seg_join sg) auto
  show "nx b \<noteq> b" using seg_first [OF sg(2)] assms by (cases zs) auto
  show "pv b \<noteq> b" using seg_last [OF sg(1)] assms by (auto simp: last_ConsR split: if_splits)
  show "(nx(pv b := nx b)) h \<noteq> b" using seg_first [OF j] assms by (cases "as @ zs") (auto simp del: fun_upd_apply)
  show "seg ((nx(pv b := nx b))(b := (nx(pv b := nx b)) h, h := b))
       ((pv(nx b := pv b))(b := h, (nx(pv b := nx b)) h := b)) h (b # as @ zs) h"
    using assms by (intro seg_insert_first [OF j]) auto
qed

lemma lru_move_front:
  assumes l: "lru s xs" and b: "b < NBUF"
  shows "lru (bpush_front b (bunlink b s)) (b # remove1 b xs)"
proof -
  obtain as zs where xs: "xs = as @ b # zs" "b \<notin> set as"
    using l b by (metis lru_def lessThan_iff split_list_first)
  then have rem: "remove1 b xs = as @ zs" by (simp add: remove1_append)
  have d: "distinct (b # as @ zs)" "set xs = {..<NBUF}" using l xs by (auto simp: lru_def)
  have "BHEAD \<notin> set as \<union> set zs" "b \<noteq> BHEAD" using d(2) xs b by auto
  note m = seg_unlink_push [OF _ d(1) this, of "bnext s" "bprev s"]
  have sg: "seg (bnext s) (bprev s) BHEAD (as @ b # zs) BHEAD" using l xs by (simp only: lru_def)
  have u: "bnext (bunlink b s) = (bnext s)(bprev s b := bnext s b)" "bprev (bunlink b s) = (bprev s)(bnext s b := bprev s b)"
    using bunlink_links m(1,2) [OF sg] by blast+
  have u0: "bnext (bunlink b s) BHEAD = ((bnext s)(bprev s b := bnext s b)) BHEAD"
    using fun_cong [OF u(1)] by simp
  have "bnext (bunlink b s) BHEAD \<noteq> b" using m(3) [OF sg] u0 by simp
  note p = bpush_front_links [OF this \<open>b \<noteq> BHEAD\<close>]
  have "seg (bnext (bpush_front b (bunlink b s))) (bprev (bpush_front b (bunlink b s))) BHEAD (b # as @ zs) BHEAD"
    unfolding p u u0 by (rule m(4) [OF sg])
  then show ?thesis
    unfolding lru_def rem using d xs by auto
qed

section \<open>The disk as a function from block numbers to contents\<close>

definition dblock :: "image \<Rightarrow> u32 \<Rightarrow> u8 list" where
  "dblock m n = get_sectors m (sector_of n) 2"

definition wblock :: "image \<Rightarrow> u32 \<Rightarrow> u8 list \<Rightarrow> image" where
  "wblock m n bs = put_sectors m (sector_of n) bs"

definition img_ok :: "image \<Rightarrow> bool" where
  "img_ok m \<longleftrightarrow> (\<forall>sec. length (m sec) = 512)"

lemma dblock_eq: "dblock m n = m (sector_of n) @ m (sector_of n + 1)"
  by (simp add: dblock_def get_sectors_def numeral_2_eq_2)

lemma wblock_eq:
  "length bs = 1024 \<Longrightarrow> wblock m n bs = m(sector_of n := take 512 bs, sector_of n + 1 := drop 512 bs)"
proof -
  assume l: "length bs = 1024"
  then have "bs \<noteq> []" "drop 512 bs \<noteq> []" "drop 512 (drop 512 bs) = []" by auto
  then show ?thesis using l by (simp add: wblock_def put_sectors.simps)
qed

lemma length_dblock [simp]: "img_ok m \<Longrightarrow> length (dblock m n) = 1024"
  by (simp add: img_ok_def dblock_eq)

lemma img_ok_wblock: "\<lbrakk>img_ok m; length bs = 1024\<rbrakk> \<Longrightarrow> img_ok (wblock m n bs)"
  by (simp add: img_ok_def wblock_eq)

lemma unat_sector_of: "n < 0x80000000 \<Longrightarrow> unat (sector_of n) = 2 * unat n"
proof -
  assume "n < 0x80000000"
  then have "unat n < 2147483648" by (simp add: word_less_nat_alt)
  then have "unat (n * 2) = 2 * unat n" by (simp add: unat_word_ariths)
  moreover have "unat (sector_of n) = unat (n * 2)"
    using unat_u32_bound [of "n * 2"] by (simp add: sector_of_def unsigned_ucast_eq take_bit_nat_eq_self)
  ultimately show ?thesis by simp
qed

lemma sectors_disjoint:
  assumes "n < 0x80000000" "k < 0x80000000" "n \<noteq> k"
  shows "sector_of k \<noteq> sector_of n" "sector_of k \<noteq> sector_of n + 1" "sector_of k + 1 \<noteq> sector_of n"
proof -
  have *: "unat n \<noteq> unat k" "unat n < 2147483648" "unat k < 2147483648"
    using assms by (simp_all add: word_less_nat_alt word_unat_eq_iff)
  have s1: "unat (sector_of x + 1) = 2 * unat x + 1" if "x < 0x80000000" for x
  proof -
    have "unat x < 2147483648" using that by (simp add: word_less_nat_alt)
    then show ?thesis using unat_sector_of [OF that] by (simp add: unat_word_ariths)
  qed
  show "sector_of k \<noteq> sector_of n" "sector_of k \<noteq> sector_of n + 1" "sector_of k + 1 \<noteq> sector_of n"
    using * s1 [OF assms(1)] s1 [OF assms(2)] unat_sector_of [OF assms(1)] unat_sector_of [OF assms(2)]
    by (metis mult_cancel1 zero_neq_numeral, metis double_not_eq_Suc_double Suc_eq_plus1, metis double_not_eq_Suc_double Suc_eq_plus1)
qed

text \<open>The addressable blocks: sector numbers are computed in 32 bits.\<close>

definition dview :: "image \<Rightarrow> u32 \<Rightarrow> u8 list" where
  "dview m n = (if n < 0x80000000 then dblock m n else [])"

lemma dblock_wblock:
  assumes "n < 0x80000000" "k < 0x80000000" "length bs = 1024"
  shows "dblock (wblock m n bs) k = (if k = n then bs else dblock m k)"
  using assms sectors_disjoint [OF assms(1,2)] by (auto simp: dblock_eq wblock_eq)

lemma dview_wblock:
  "\<lbrakk>n < 0x80000000; length bs = 1024\<rbrakk> \<Longrightarrow> dview (wblock m n bs) = (dview m)(n := bs)"
  by (auto simp: dview_def dblock_wblock fun_eq_iff)

section \<open>The cache invariant\<close>

text \<open>One buffer: \<open>L\<close> says whether its sleep-lock is held.  An unreferenced buffer equals its block.\<close>

definition buf_ok :: "image \<Rightarrow> bool \<Rightarrow> buf \<Rightarrow> bool" where
  "buf_ok m L q \<longleftrightarrow> length (b_data q) = 1024 \<and> (L \<longrightarrow> b_refcnt q \<noteq> 0) \<and> (b_refcnt q \<noteq> 0 \<longrightarrow> b_dev q = ROOTDEV) \<and>
     (b_dev q = ROOTDEV \<longrightarrow> b_blockno q < 0x80000000 \<and> (L \<or> b_valid q) \<and>
       (b_refcnt q = 0 \<longrightarrow> b_data q = dblock m (b_blockno q)))"

definition buf_uniq :: "(nat \<Rightarrow> buf) \<Rightarrow> bool" where
  "buf_uniq B \<longleftrightarrow> (\<forall>i < NBUF. \<forall>j < NBUF. b_dev (B i) = ROOTDEV \<and> b_dev (B j) = ROOTDEV \<and>
     b_blockno (B i) = b_blockno (B j) \<longrightarrow> i = j)"

definition bcache_inv :: "'a vst_scheme \<Rightarrow> bool" where
  "bcache_inv s \<longleftrightarrow> (\<exists>xs. lru s xs) \<and> vd_idle (vdisk s) \<and> virtio_blk_device (blkdev s) \<and> img_ok (img s) \<and>
     buf_uniq (bufs s) \<and> (\<forall>i < NBUF. buf_ok (img s) (sl_locked (slks s (BufSL i))) (bufs s i))"

text \<open>The buffer that caches a block, what the cache shows of the block, and its reference count.\<close>

definition buf_ids :: "nat list" where
  "buf_ids = [0..<NBUF]"

lemma set_buf_ids [simp]: "set buf_ids = {..<30}"
  unfolding buf_ids_def set_upt by auto

definition bslot :: "(nat \<Rightarrow> buf) \<Rightarrow> u32 \<Rightarrow> nat option" where
  "bslot B n = find (\<lambda>i. b_dev (B i) = ROOTDEV \<and> b_blockno (B i) = n) buf_ids"

definition bview :: "'a vst_scheme \<Rightarrow> u32 \<Rightarrow> u8 list" where
  "bview s n = (case bslot (bufs s) n of
      Some i \<Rightarrow> if b_valid (bufs s i) then b_data (bufs s i) else dview (img s) n
    | None \<Rightarrow> dview (img s) n)"

definition brefs :: "(nat \<Rightarrow> buf) \<Rightarrow> u32 \<Rightarrow> nat" where
  "brefs B n = (case bslot B n of Some i \<Rightarrow> unat (b_refcnt (B i)) | None \<Rightarrow> 0)"

definition blocked :: "'a vst_scheme \<Rightarrow> u32 \<Rightarrow> bool" where
  "blocked s n = (case bslot (bufs s) n of Some i \<Rightarrow> sl_locked (slks s (BufSL i)) | None \<Rightarrow> False)"

text \<open>Process \<open>p\<close> holds buffer \<open>b\<close>, which caches block \<open>n\<close>.\<close>

definition bheld :: "'a vst_scheme \<Rightarrow> nat \<Rightarrow> u32 \<Rightarrow> bool" where
  "bheld s b n \<longleftrightarrow> b < NBUF \<and> b_dev (bufs s b) = ROOTDEV \<and> b_blockno (bufs s b) = n \<and> b_valid (bufs s b) \<and>
     sl_locked (slks s (BufSL b)) \<and> (\<exists>p. curproc s = Some p \<and> sl_pid (slks s (BufSL b)) = p_pid (procs s p))"

text \<open>A kernel function running for a process, holding no spinlock.\<close>

definition in_proc :: "'a kst_scheme \<Rightarrow> bool" where
  "in_proc s \<longleftrightarrow> quiet s \<and> (\<exists>p < NPROC. curproc s = Some p)"

lemma find_SomeD: "find P xs = Some x \<Longrightarrow> P x \<and> x \<in> set xs"
  by (induction xs) (auto split: if_splits)

lemma bslot_Some: "bslot B n = Some i \<Longrightarrow> i < NBUF \<and> b_dev (B i) = ROOTDEV \<and> b_blockno (B i) = n"
  unfolding bslot_def by (drule find_SomeD) simp

lemma bslot_None: "bslot B n = None \<Longrightarrow> i < NBUF \<Longrightarrow> \<not> (b_dev (B i) = ROOTDEV \<and> b_blockno (B i) = n)"
  by (auto simp: bslot_def find_None_iff)

lemma find_uniq:
  assumes "P i" "i \<in> set xs" "\<And>j. j \<in> set xs \<Longrightarrow> P j \<Longrightarrow> j = i"
  shows "find P xs = Some i"
proof (cases "find P xs")
  case None
  then have "\<not> (\<exists>x. x \<in> set xs \<and> P x)" by (simp add: find_None_iff)
  then show ?thesis using assms(1,2) by blast
next
  case (Some j)
  then have "P j" "j \<in> set xs" by (auto simp: find_Some_iff)
  then show ?thesis using Some assms(3) by simp
qed

lemma bslot_eq:
  "\<lbrakk>buf_uniq B; i < NBUF; b_dev (B i) = ROOTDEV; b_blockno (B i) = n\<rbrakk> \<Longrightarrow> bslot B n = Some i"
  unfolding bslot_def by (rule find_uniq) (auto simp: buf_uniq_def)

lemma find_lru_bslot:
  assumes "lru s xs" "buf_uniq (bufs s)"
  shows "find (\<lambda>b. b_dev (bufs s b) = ROOTDEV \<and> b_blockno (bufs s b) = n) xs = bslot (bufs s) n"
proof (cases "bslot (bufs s) n")
  case None
  then show ?thesis using assms(1) bslot_None [OF None] by (auto simp: find_None_iff lru_def)
next
  case (Some i)
  then show ?thesis using assms bslot_Some [OF Some] by (auto simp: lru_def buf_uniq_def intro!: find_uniq)
qed

lemma in_procE:
  assumes "in_proc s"
  obtains p where "p < 64" "curproc s = Some p" "quiet s"
  using assms by (auto simp: in_proc_def)

lemma in_proc_frame: "disk_frame s t \<Longrightarrow> in_proc t = in_proc s"
  by (simp add: in_proc_def disk_frameD)

text \<open>An update of one buffer, seen through the abstractions.\<close>

lemma lru_upd:
  "\<lbrakk>lru s xs; \<And>i. b_next (bufs t i) = b_next (bufs s i); \<And>i. b_prev (bufs t i) = b_prev (bufs s i)\<rbrakk> \<Longrightarrow> lru t xs"
  by (simp add: lru_def)

lemma bslot_upd:
  "\<lbrakk>b_dev q = b_dev (B b); b_blockno q = b_blockno (B b)\<rbrakk> \<Longrightarrow> bslot (B(b := q)) n = bslot B n"
  unfolding bslot_def by (rule arg_cong [where f = "\<lambda>P. find P buf_ids"]) auto

lemma buf_uniq_upd:
  "\<lbrakk>b_dev q = b_dev (B b); b_blockno q = b_blockno (B b); buf_uniq B\<rbrakk> \<Longrightarrow> buf_uniq (B(b := q))"
  unfolding buf_uniq_def by (metis fun_upd_apply)

lemma brefs_upd:
  assumes "buf_uniq B" "b < NBUF" "b_dev (B b) = ROOTDEV" "b_dev q = ROOTDEV" "b_blockno q = b_blockno (B b)"
  shows "brefs (B(b := q)) = (brefs B)(b_blockno q := unat (b_refcnt q))"
proof
  fix n
  have "bslot (B(b := q)) n = bslot B n" using assms by (intro bslot_upd) auto
  then show "brefs (B(b := q)) n = ((brefs B)(b_blockno q := unat (b_refcnt q))) n"
    using bslot_eq [OF assms(1-3) refl] assms(5)
    by (cases "bslot B n") (auto simp: brefs_def dest: bslot_Some)
qed

section \<open>What the operations do\<close>

lemma bcache_invD:
  assumes "bcache_inv s"
  shows "\<exists>xs. lru s xs" "vd_idle (vdisk s)" "virtio_blk_device (blkdev s)" "img_ok (img s)" "buf_uniq (bufs s)"
    "i < 30 \<Longrightarrow> buf_ok (img s) (sl_locked (slks s (BufSL i))) (bufs s i)"
  using assms by (auto simp: bcache_inv_def)

definition lock_buf :: "nat \<Rightarrow> 'a vst_scheme \<Rightarrow> slock \<Rightarrow> sleeplock" where
  "lock_buf b s = (slks s)(BufSL b := \<lparr>sl_locked = True, sl_pid = p_pid (procs s (the (curproc s)))\<rparr>)"

lemma bread_hit:
  assumes inv: "bcache_inv s" and run: "in_proc s" and b: "bslot (bufs s) n = Some b"
    and free: "\<not> sl_locked (slks s (BufSL b))"
  shows "bread ROOTDEV n s =
    Ok (b, s\<lparr>bufs := (bufs s)(b := (bufs s b)\<lparr>b_refcnt := b_refcnt (bufs s b) + 1\<rparr>), slks := lock_buf b s\<rparr>)"
proof -
  obtain xs where xs: "lru s xs" using bcache_invD(1) [OF inv] by blast
  obtain p where p: "curproc s = Some p" "quiet s" using run by (rule in_procE)
  have "b_valid (bufs s b)"
    using bcache_invD(6) [OF inv, of b] bslot_Some [OF b] free by (simp add: buf_ok_def)
  moreover have "lru (s\<lparr>lks := (lks s)(BcacheLock := True)\<rparr>) xs" using xs by (rule lru_upd) simp_all
  ultimately show ?thesis
    using p free b find_lru_bslot [OF xs bcache_invD(5) [OF inv], of n] lru_walks(1) [of "s\<lparr>lks := (lks s)(BcacheLock := True)\<rparr>" xs ROOTDEV n]
    by (simp add: bread_def bget_def res_simps set_buf_def lock_buf_def)
qed

lemma bread_miss:
  assumes inv: "bcache_inv s" and run: "in_proc s" and b: "bslot (bufs s) n = None" and xs: "lru s xs"
    and lru: "find (\<lambda>i. b_refcnt (bufs s i) = 0) (rev xs) = Some b"
  shows "\<exists>t. bread ROOTDEV n s = Ok (b, t) \<and> disk_frame s t \<and> vd_idle (vdisk t) \<and> slks t = lock_buf b s \<and>
    bufs t = (bufs s)(b := (bufs s b)\<lparr>b_dev := ROOTDEV, b_blockno := n, b_refcnt := 1, b_data := dblock (img s) n,
      b_disk := False, b_valid := True\<rparr>) \<and> img t = img s \<and> hist t = img s # hist s"
proof -
  obtain p where p: "curproc s = Some p" "quiet s" "p < 64" using run by (rule in_procE)
  have b30: "b < 30" "b_refcnt (bufs s b) = 0"
    using find_SomeD [OF lru] xs by (auto simp: lru_def)
  then have free: "\<not> sl_locked (slks s (BufSL b))"
    using bcache_invD(6) [OF inv b30(1)] by (auto simp: buf_ok_def)
  have l: "lru (s\<lparr>lks := (lks s)(BcacheLock := True)\<rparr>) xs" using xs by (rule lru_upd) simp_all
  let ?s = "s\<lparr>bufs := (bufs s)(b := (bufs s b)\<lparr>b_dev := ROOTDEV, b_blockno := n, b_valid := False, b_refcnt := 1\<rparr>),
    slks := lock_buf b s\<rparr>"
  have g: "bget ROOTDEV n s = Ok (b, ?s)"
    using p free b lru find_lru_bslot [OF xs bcache_invD(5) [OF inv], of n]
      lru_walks(1) [OF l, of ROOTDEV n] lru_walks(2) [OF l]
    by (simp add: bget_def res_simps set_buf_def lock_buf_def)
  obtain t where t: "virtio_disk_rw b False ?s = Ok t" "disk_frame ?s t" "slks t = slks ?s" "vd_idle (vdisk t)"
    "bufs t = rw_buf False b (bufs ?s) (img ?s)" "img t = img s" "hist t = img s # hist s"
    using virtio_disk_rw_ok [of ?s p b False] p bcache_invD(2,3) [OF inv] by (auto simp: quiet_def rw_img_def)
  have "bread ROOTDEV n s = Ok (b, set_buf b (\<lambda>q. q\<lparr>b_valid := True\<rparr>) t)"
    using g t(1) by (simp add: bread_def)
  moreover have "disk_frame s (set_buf b (\<lambda>q. q\<lparr>b_valid := True\<rparr>) t)"
    using t(2) by (simp add: disk_frame_def set_buf_def)
  moreover have "bufs (set_buf b (\<lambda>q. q\<lparr>b_valid := True\<rparr>) t) = (bufs s)(b := (bufs s b)\<lparr>b_dev := ROOTDEV,
      b_blockno := n, b_refcnt := 1, b_data := dblock (img s) n, b_disk := False, b_valid := True\<rparr>)"
    by (simp add: set_buf_def t(5) rw_buf_def dblock_def)
  moreover have "vd_idle (vdisk (set_buf b (\<lambda>q. q\<lparr>b_valid := True\<rparr>) t))" "slks (set_buf b (\<lambda>q. q\<lparr>b_valid := True\<rparr>) t) = lock_buf b s"
    "img (set_buf b (\<lambda>q. q\<lparr>b_valid := True\<rparr>) t) = img s" "hist (set_buf b (\<lambda>q. q\<lparr>b_valid := True\<rparr>) t) = img s # hist s"
    using t by (simp_all add: set_buf_def)
  ultimately show ?thesis by blast
qed

text \<open>A buffer given to another block.\<close>

lemma bslot_new:
  assumes "buf_uniq B" "b < NBUF" "b_dev q = ROOTDEV" "bslot B (b_blockno q) = None"
  shows "buf_uniq (B(b := q))"
    "bslot (B(b := q)) k = (if k = b_blockno q then Some b else if bslot B k = Some b then None else bslot B k)"
proof -
  show u: "buf_uniq (B(b := q))"
    using assms(1) bslot_None [OF assms(4)] unfolding buf_uniq_def by (metis fun_upd_apply)
  show "bslot (B(b := q)) k = (if k = b_blockno q then Some b else if bslot B k = Some b then None else bslot B k)"
  proof (cases "k = b_blockno q")
    case True
    then show ?thesis using bslot_eq [OF u assms(2), of k] assms(3) by simp
  next
    case False
    show ?thesis
    proof (cases "bslot B k")
      case None
      then have "\<not> (b_dev ((B(b := q)) i) = ROOTDEV \<and> b_blockno ((B(b := q)) i) = k)" if "i < NBUF" for i
        using bslot_None [OF None that] False by (simp split: if_splits)
      then have "bslot (B(b := q)) k = None" by (auto simp: bslot_def find_None_iff)
      then show ?thesis using None False by simp
    next
      case (Some i)
      note i = bslot_Some [OF Some]
      show ?thesis
      proof (cases "i = b")
        case True
        have "\<not> (b_dev ((B(b := q)) j) = ROOTDEV \<and> b_blockno ((B(b := q)) j) = k)" if "j < NBUF" for j
          using assms(1) i that False True unfolding buf_uniq_def by (metis fun_upd_apply)
        then have "bslot (B(b := q)) k = None" by (auto simp: bslot_def find_None_iff)
        then show ?thesis using Some True False by simp
      next
        case n: False
        then have "bslot (B(b := q)) k = Some i" using i by (intro bslot_eq [OF u]) auto
        then show ?thesis using Some n False by simp
      qed
    qed
  qed
qed

text \<open>One buffer and its lock change; the image stays.\<close>

lemma bcache_inv_upd:
  assumes "bcache_inv s" "lru t ys" "vd_idle (vdisk t)" "blkdev t = blkdev s" "img t = img s"
    "bufs t = B" "\<forall>i. i \<noteq> b \<longrightarrow> B i = bufs s i \<or> (\<exists>nx pv. B i = (bufs s i)\<lparr>b_next := nx, b_prev := pv\<rparr>)"
    "slks t = (slks s)(BufSL b := l)"
    "buf_uniq B" "b < 30 \<Longrightarrow> buf_ok (img s) (sl_locked l) (B b)"
  shows "bcache_inv t"
  unfolding bcache_inv_def
proof (intro conjI allI impI)
  fix i assume i: "i < NBUF"
  show "buf_ok (img t) (sl_locked (slks t (BufSL i))) (bufs t i)"
  proof (cases "i = b")
    case True
    then show ?thesis using assms i by simp
  next
    case False
    have "buf_ok (img s) (sl_locked (slks s (BufSL i))) (bufs s i)" using bcache_invD(6) [OF assms(1)] i by simp
    moreover have "B i = bufs s i \<or> (\<exists>nx pv. B i = (bufs s i)\<lparr>b_next := nx, b_prev := pv\<rparr>)" using assms(7) False by blast
    ultimately show ?thesis using assms(5,6,8) False by (auto simp: buf_ok_def)
  qed
qed (use assms bcache_invD [OF assms(1)] in auto)

text \<open>The frame of a cache operation.\<close>

definition bio_frame :: "'a vst_scheme \<Rightarrow> 'a vst_scheme \<Rightarrow> bool" where
  "bio_frame s t \<longleftrightarrow> disk_frame s t \<and> (\<forall>i. slks t (InodeSL i) = slks s (InodeSL i))"

lemma bio_frame_refl [simp]: "bio_frame s s"
  by (simp add: bio_frame_def)

lemma bio_frame_trans [trans]: "\<lbrakk>bio_frame s t; bio_frame t u\<rbrakk> \<Longrightarrow> bio_frame s u"
  unfolding bio_frame_def using disk_frame_trans by metis

definition bread_post :: "u32 \<Rightarrow> nat \<Rightarrow> 'a vst_scheme \<Rightarrow> 'a vst_scheme \<Rightarrow> bool" where
  "bread_post n b s t \<longleftrightarrow> bcache_inv t \<and> bio_frame s t \<and> bheld t b n \<and>
     bview t = bview s \<and> blocked t = (blocked s)(n := True) \<and>
     brefs (bufs t) = (brefs (bufs s))(n := Suc (brefs (bufs s) n)) \<and> img t = img s \<and>
     (hist t = hist s \<or> hist t = img s # hist s) \<and> (\<forall>c m. bheld s c m \<longrightarrow> bheld t c m)"

lemma bheld_data: "\<lbrakk>bcache_inv s; bheld s b n\<rbrakk> \<Longrightarrow> b_data (bufs s b) = bview s n"
  using bslot_eq [of "bufs s" b n] by (auto simp: bheld_def bview_def bcache_invD(5))

lemma bheld_slot: "\<lbrakk>bcache_inv s; bheld s b n\<rbrakk> \<Longrightarrow> bslot (bufs s) n = Some b"
  using bslot_eq [of "bufs s" b n] by (auto simp: bheld_def bcache_invD(5))

lemma bheld_blocked: "\<lbrakk>bcache_inv s; bheld s b n\<rbrakk> \<Longrightarrow> blocked s n"
  using bheld_slot [of s b n] by (simp add: blocked_def bheld_def)

lemma bheld_frame:
  assumes "bheld s c m" "curproc t = curproc s" "\<And>p. p_pid (procs t p) = p_pid (procs s p)"
    "slks t (BufSL c) = slks s (BufSL c)" "b_dev (bufs t c) = b_dev (bufs s c)"
    "b_blockno (bufs t c) = b_blockno (bufs s c)" "b_valid (bufs t c) = b_valid (bufs s c)"
  shows "bheld t c m"
  using assms by (simp add: bheld_def)

lemma unat_plus1: "unat (x :: u32) < 4294967295 \<Longrightarrow> unat (x + 1) = Suc (unat x)"
  by (simp add: unat_word_ariths)

lemma bview_slot_upd:
  assumes "bufs t = (bufs s)(b := q)" "b_dev q = b_dev (bufs s b)" "b_blockno q = b_blockno (bufs s b)"
    "b_data q = b_data (bufs s b)" "b_valid q = b_valid (bufs s b)" "img t = img s"
  shows "bview t = bview s"
proof
  fix k
  have "bslot (bufs t) k = bslot (bufs s) k" unfolding assms(1) using assms(2,3) by (rule bslot_upd)
  then show "bview t k = bview s k" using assms by (auto simp: bview_def split: option.splits)
qed

lemma bread_hit_post:
  assumes inv: "bcache_inv s" and run: "in_proc s" and b: "bslot (bufs s) n = Some b"
    and free: "\<not> sl_locked (slks s (BufSL b))" and bound: "brefs (bufs s) n < 4294967295"
  shows "bread_post n b s (s\<lparr>bufs := (bufs s)(b := (bufs s b)\<lparr>b_refcnt := b_refcnt (bufs s b) + 1\<rparr>), slks := lock_buf b s\<rparr>)"
    (is "bread_post n b s ?t")
proof -
  obtain p where p: "curproc s = Some p" "quiet s" "p < 64" using run by (rule in_procE)
  obtain xs where xs: "lru s xs" using bcache_invD(1) [OF inv] by blast
  have b': "b < 30" "b_dev (bufs s b) = ROOTDEV" "b_blockno (bufs s b) = n" using bslot_Some [OF b] by auto
  have ok: "buf_ok (img s) False (bufs s b)" using bcache_invD(6) [OF inv b'(1)] free by simp
  have nz: "b_refcnt (bufs s b) + 1 \<noteq> 0"
    using bound b unat_plus1 [of "b_refcnt (bufs s b)"] by (auto simp: brefs_def)
  let ?q = "(bufs s b)\<lparr>b_refcnt := b_refcnt (bufs s b) + 1\<rparr>"
  have u: "buf_uniq (bufs ?t)" using bcache_invD(5) [OF inv] by (simp add: buf_uniq_upd)
  have "bcache_inv ?t"
  proof (rule bcache_inv_upd [OF inv _ _ _ _ refl, where ys = xs])
    show "lru ?t xs" using xs by (rule lru_upd) simp_all
    show "slks ?t = (slks s)(BufSL b := \<lparr>sl_locked = True, sl_pid = p_pid (procs s (the (curproc s)))\<rparr>)"
      by (simp add: lock_buf_def)
    show "b < 30 \<Longrightarrow> buf_ok (img s) (sl_locked \<lparr>sl_locked = True, sl_pid = p_pid (procs s (the (curproc s)))\<rparr>) (bufs ?t b)"
      using ok nz b' by (simp add: buf_ok_def)
  qed (use u bcache_invD(2) [OF inv] in simp_all)
  moreover have "bheld ?t b n" using b' ok p by (simp add: bheld_def lock_buf_def buf_ok_def)
  moreover have "bview ?t = bview s" by (rule bview_slot_upd [of _ _ b ?q]) simp_all
  moreover have "blocked ?t = (blocked s)(n := True)"
  proof
    fix k
    have "bslot (bufs ?t) k = bslot (bufs s) k" by (simp add: bslot_upd)
    then show "blocked ?t k = ((blocked s)(n := True)) k"
      using b bslot_Some [of "bufs s" k] b'
      by (cases "bslot (bufs s) k") (auto simp: blocked_def lock_buf_def)
  qed
  moreover have "brefs (bufs ?t) = (brefs (bufs s))(n := Suc (brefs (bufs s) n))"
    using brefs_upd [OF bcache_invD(5) [OF inv], of b ?q] b' b bound by (simp add: unat_plus1 brefs_def)
  moreover have "bheld ?t c m" if "bheld s c m" for c m
    using that free by (auto simp: bheld_def lock_buf_def)
  moreover have "bio_frame s ?t" by (simp add: bio_frame_def disk_frame_def lock_buf_def)
  ultimately show ?thesis by (simp add: bread_post_def)
qed

lemma bread_miss_post:
  assumes inv: "bcache_inv s" and run: "in_proc s" and b: "bslot (bufs s) n = None" and xs: "lru s xs"
    and n: "n < 0x80000000" and b0: "b < 30" "b_refcnt (bufs s b) = 0"
    and t: "disk_frame s t" "vd_idle (vdisk t)" "slks t = lock_buf b s" "img t = img s" "hist t = img s # hist s"
      "bufs t = (bufs s)(b := (bufs s b)\<lparr>b_dev := ROOTDEV, b_blockno := n, b_refcnt := 1, b_data := dblock (img s) n,
        b_disk := False, b_valid := True\<rparr>)"
  shows "bread_post n b s t"
proof -
  obtain p where p: "curproc s = Some p" using run by (rule in_procE)
  let ?q = "(bufs s b)\<lparr>b_dev := ROOTDEV, b_blockno := n, b_refcnt := 1, b_data := dblock (img s) n,
        b_disk := False, b_valid := True\<rparr>"
  have ok: "buf_ok (img s) (sl_locked (slks s (BufSL b))) (bufs s b)" using bcache_invD(6) [OF inv b0(1)] .
  have sl: "buf_uniq (bufs t)"
    "bslot (bufs t) k = (if k = n then Some b else if bslot (bufs s) k = Some b then None else bslot (bufs s) k)" for k
    using bslot_new [OF bcache_invD(5) [OF inv], of b ?q] b b0 t(6) by simp_all
  have tb: "bufs t b = ?q" "\<And>i. i \<noteq> b \<Longrightarrow> bufs t i = bufs s i" by (simp_all add: t(6))
  have "bcache_inv t"
  proof (rule bcache_inv_upd [OF inv _ t(2) _ t(4) refl _ _ sl(1), where ys = xs])
    show "lru t xs" using xs by (rule lru_upd) (simp_all add: t(6))
    show "slks t = (slks s)(BufSL b := \<lparr>sl_locked = True, sl_pid = p_pid (procs s (the (curproc s)))\<rparr>)"
      by (simp add: t lock_buf_def)
    show "b < 30 \<Longrightarrow> buf_ok (img s) (sl_locked \<lparr>sl_locked = True, sl_pid = p_pid (procs s (the (curproc s)))\<rparr>) (bufs t b)"
      using n bcache_invD(4) [OF inv] by (simp add: buf_ok_def t(6))
  qed (use t in \<open>simp_all add: disk_frameD\<close>)
  moreover have "bheld t b n" using b0 t p by (simp add: bheld_def lock_buf_def disk_frameD)
  moreover have "bview t = bview s"
  proof
    fix k
    show "bview t k = bview s k"
      using ok b b0 t(4) tb bslot_Some [of "bufs s" k]
      by (cases "bslot (bufs s) k") (auto simp: bview_def sl(2) buf_ok_def dview_def n)
  qed
  moreover have "brefs (bufs t) = (brefs (bufs s))(n := Suc (brefs (bufs s) n))"
  proof
    fix k
    show "brefs (bufs t) k = ((brefs (bufs s))(n := Suc (brefs (bufs s) n))) k"
      using b b0 tb by (cases "bslot (bufs s) k") (auto simp: brefs_def sl(2))
  qed
  moreover have "blocked t = (blocked s)(n := True)"
  proof
    fix k
    show "blocked t k = ((blocked s)(n := True)) k"
      using b ok b0 t(3) by (cases "bslot (bufs s) k") (auto simp: blocked_def sl(2) lock_buf_def buf_ok_def)
  qed
  moreover have "bheld t c m" if "bheld s c m" for c m
  proof -
    have "c \<noteq> b" using that ok b0 by (auto simp: bheld_def buf_ok_def)
    then show ?thesis using that t tb by (intro bheld_frame [OF that]) (auto simp: lock_buf_def disk_frameD)
  qed
  moreover have "bio_frame s t" using t by (simp add: bio_frame_def lock_buf_def)
  ultimately show ?thesis using t by (simp add: bread_post_def)
qed

text \<open>\<open>bread\<close> returns the block, locked, unless another process holds it or every buffer is in use.\<close>

lemma bread_ok:
  assumes inv: "bcache_inv s" and run: "in_proc s" and n: "n < 0x80000000" and free: "\<not> blocked s n"
    and room: "bslot (bufs s) n = None \<Longrightarrow> \<exists>i < 30. b_refcnt (bufs s i) = 0"
    and bound: "brefs (bufs s) n < 4294967295"
  shows "\<exists>b t. bread ROOTDEV n s = Ok (b, t) \<and> bread_post n b s t"
proof (cases "bslot (bufs s) n")
  case (Some b)
  then have "\<not> sl_locked (slks s (BufSL b))" using free by (simp add: blocked_def)
  then show ?thesis using bread_hit [OF inv run Some] bread_hit_post [OF inv run Some _ bound] by blast
next
  case None
  obtain xs where xs: "lru s xs" using bcache_invD(1) [OF inv] by blast
  obtain i where i: "i < 30" "b_refcnt (bufs s i) = 0" using room [OF None] by blast
  then have "find (\<lambda>i. b_refcnt (bufs s i) = 0) (rev xs) \<noteq> None" using xs by (auto simp: find_None_iff lru_def)
  then obtain b where b: "find (\<lambda>i. b_refcnt (bufs s i) = 0) (rev xs) = Some b" by blast
  then have "b < 30" "b_refcnt (bufs s b) = 0" using find_SomeD [OF b] xs by (auto simp: lru_def)
  then show ?thesis using bread_miss [OF inv run None xs b] bread_miss_post [OF inv run None xs n] by meson
qed

text \<open>A buffer is free as long as fewer than thirty blocks are referenced.\<close>

lemma bread_room:
  assumes inv: "bcache_inv s" and c: "finite S" "card S < 30" "\<And>n. brefs (bufs s) n \<noteq> 0 \<Longrightarrow> n \<in> S"
  shows "\<exists>i < 30. b_refcnt (bufs s i) = 0"
proof (rule ccontr)
  assume "\<not> ?thesis"
  then have used: "b_refcnt (bufs s i) \<noteq> 0" if "i < 30" for i using that by blast
  then have dev: "b_dev (bufs s i) = ROOTDEV" if "i < 30" for i
    using bcache_invD(6) [OF inv that] that by (auto simp: buf_ok_def)
  have "inj_on (\<lambda>i. b_blockno (bufs s i)) {..<30}"
    using bcache_invD(5) [OF inv] dev by (auto simp: inj_on_def buf_uniq_def)
  moreover have "(\<lambda>i. b_blockno (bufs s i)) ` {..<30} \<subseteq> S"
  proof
    fix n assume "n \<in> (\<lambda>i. b_blockno (bufs s i)) ` {..<30}"
    then obtain i where i: "i < 30" "n = b_blockno (bufs s i)" by auto
    then have "bslot (bufs s) n = Some i" using bslot_eq [OF bcache_invD(5) [OF inv], of i n] dev by simp
    then have "brefs (bufs s) n \<noteq> 0" using used [OF i(1)] by (simp add: brefs_def unat_eq_zero)
    then show "n \<in> S" by (rule c(3))
  qed
  ultimately have "30 \<le> card S" using card_inj_on_le [OF _ _ c(1)] by fastforce
  then show False using c(2) by simp
qed

text \<open>The holder changes the data.\<close>

definition put_data :: "nat \<Rightarrow> u8 list \<Rightarrow> 'a vst_scheme \<Rightarrow> 'a vst_scheme" where
  "put_data b d s = set_buf b (\<lambda>q. q\<lparr>b_data := d\<rparr>) s"

lemma bheld_refs: "\<lbrakk>bcache_inv s; bheld s b n\<rbrakk> \<Longrightarrow> b_refcnt (bufs s b) \<noteq> 0 \<and> brefs (bufs s) n = unat (b_refcnt (bufs s b)) \<and> 0 < brefs (bufs s) n"
  using bcache_invD(6) [of s b] bheld_slot [of s b n] by (auto simp: bheld_def buf_ok_def brefs_def unat_gt_0)

lemma blocked_upd:
  assumes "\<And>k. bslot (bufs t) k = bslot (bufs s) k" "\<And>i. i \<noteq> b \<Longrightarrow> slks t (BufSL i) = slks s (BufSL i)"
    "bslot (bufs s) n = Some b"
  shows "blocked t = (blocked s)(n := sl_locked (slks t (BufSL b)))"
proof
  fix k
  show "blocked t k = ((blocked s)(n := sl_locked (slks t (BufSL b)))) k"
  proof (cases "k = n")
    case False
    then have "bslot (bufs s) k \<noteq> Some b" using bslot_Some assms(3) by metis
    then show ?thesis using False assms(1,2) by (auto simp: blocked_def split: option.split)
  qed (simp add: blocked_def assms(1,3))
qed

lemma blocked_cong:
  "\<lbrakk>\<And>k. bslot (bufs t) k = bslot (bufs s) k; slks t = slks s\<rbrakk> \<Longrightarrow> blocked t = blocked s"
  by (simp add: blocked_def fun_eq_iff split: option.split)

lemma put_data_ok:
  assumes inv: "bcache_inv s" and h: "bheld s b n" and d: "length d = 1024"
  shows "bcache_inv (put_data b d s)" "bio_frame s (put_data b d s)" "bview (put_data b d s) = (bview s)(n := d)"
    "blocked (put_data b d s) = blocked s" "brefs (bufs (put_data b d s)) = brefs (bufs s)"
    "bheld s c m \<Longrightarrow> bheld (put_data b d s) c m" "img (put_data b d s) = img s" "hist (put_data b d s) = hist s"
proof -
  let ?t = "put_data b d s" and ?q = "(bufs s b)\<lparr>b_data := d\<rparr>"
  have t: "bufs ?t = (bufs s)(b := ?q)" "slks ?t = slks s" "img ?t = img s" "curproc ?t = curproc s" "procs ?t = procs s"
    by (simp_all add: put_data_def set_buf_def)
  obtain xs where xs: "lru s xs" using bcache_invD(1) [OF inv] by blast
  have b: "b < 30" "b_dev (bufs s b) = ROOTDEV" "b_blockno (bufs s b) = n" "b_valid (bufs s b)" using h by (auto simp: bheld_def)
  have sl: "bslot (bufs ?t) k = bslot (bufs s) k" for k unfolding t by (rule bslot_upd) simp_all
  show "bcache_inv ?t"
  proof (rule bcache_inv_upd [OF inv _ _ _ _ refl, where ys = xs])
    show "lru ?t xs" using xs by (rule lru_upd) (simp_all add: t)
    show "slks ?t = (slks s)(BufSL b := slks s (BufSL b))" by (simp add: t)
    show "b < 30 \<Longrightarrow> buf_ok (img s) (sl_locked (slks s (BufSL b))) (bufs ?t b)"
      using bcache_invD(6) [OF inv b(1)] bheld_refs [OF inv h] d by (simp add: t buf_ok_def)
    show "buf_uniq (bufs ?t)" unfolding t by (rule buf_uniq_upd) (simp_all add: bcache_invD(5) [OF inv])
    show "vd_idle (vdisk ?t)" "blkdev ?t = blkdev s" "img ?t = img s"
      using bcache_invD(2) [OF inv] by (simp_all add: put_data_def set_buf_def)
  qed (simp add: t)
  show "bio_frame s ?t" by (simp add: bio_frame_def disk_frame_def put_data_def set_buf_def)
  show "bview ?t = (bview s)(n := d)"
  proof
    fix k
    show "bview ?t k = ((bview s)(n := d)) k"
    proof (cases "k = n")
      case True
      then show ?thesis using bheld_slot [OF inv h] b by (simp add: bview_def sl) (simp add: t)
    next
      case False
      then have "bslot (bufs s) k \<noteq> Some b" using bslot_Some b(3) by blast
      then show ?thesis using False by (simp add: bview_def sl split: option.split) (simp add: t)
    qed
  qed
  show "blocked ?t = blocked s" by (rule blocked_cong) (simp_all add: sl t(2))
  show "brefs (bufs ?t) = brefs (bufs s)"
  proof
    fix k
    show "brefs (bufs ?t) k = brefs (bufs s) k" by (cases "bslot (bufs s) k") (auto simp: brefs_def sl, auto simp: t)
  qed
  show "bheld s c m \<Longrightarrow> bheld ?t c m" by (erule bheld_frame) (simp_all add: t)
  show "img ?t = img s" "hist ?t = hist s" by (simp_all add: put_data_def set_buf_def)
qed

text \<open>\<open>bwrite\<close> makes the disk agree with the cache on the block.\<close>

definition bwrite_post :: "u32 \<Rightarrow> 'a vst_scheme \<Rightarrow> 'a vst_scheme \<Rightarrow> bool" where
  "bwrite_post n s t \<longleftrightarrow> bcache_inv t \<and> bio_frame s t \<and> bview t = bview s \<and> blocked t = blocked s \<and>
     brefs (bufs t) = brefs (bufs s) \<and> hist t = img t # hist s \<and>
     dview (img t) = (dview (img s))(n := bview s n) \<and> (\<forall>c m. bheld s c m \<longrightarrow> bheld t c m)"

lemma rw_write:
  "\<lbrakk>b_blockno (bufs s b) = n; b_data (bufs s b) = d; length d = 1024\<rbrakk> \<Longrightarrow>
   rw_buf True b (bufs s) (img s) = (bufs s)(b := (bufs s b)\<lparr>b_disk := False\<rparr>) \<and> rw_img True b (bufs s) (img s) = wblock (img s) n d"
  by (auto simp: rw_buf_def rw_img_def wblock_def)

lemma bwrite_ok:
  assumes inv: "bcache_inv s" and run: "in_proc s" and h: "bheld s b n"
  shows "\<exists>t. bwrite b s = Ok t \<and> bwrite_post n s t"
proof -
  obtain p where p: "curproc s = Some p" "quiet s" "p < 64" using run by (rule in_procE)
  have b: "b < 30" "b_dev (bufs s b) = ROOTDEV" "b_blockno (bufs s b) = n" "b_valid (bufs s b)" using h by (auto simp: bheld_def)
  have ok: "length (b_data (bufs s b)) = 1024" "n < 0x80000000"
    using bcache_invD(6) [OF inv b(1)] b by (auto simp: buf_ok_def)
  obtain xs where xs: "lru s xs" using bcache_invD(1) [OF inv] by blast
  have d: "b_data (bufs s b) = bview s n" by (rule bheld_data [OF inv h])
  obtain t where t: "virtio_disk_rw b True s = Ok t" "disk_frame s t" "slks t = slks s" "vd_idle (vdisk t)"
    "bufs t = (bufs s)(b := (bufs s b)\<lparr>b_disk := False\<rparr>)" "img t = wblock (img s) n (bview s n)" "hist t = img t # hist s"
    using virtio_disk_rw_ok [OF p(2) bcache_invD(2,3) [OF inv] p(1,3), of b True] rw_write [of s b n] b ok d
    by (metis (no_types, lifting))
  have tb: "b_data (bufs t i) = b_data (bufs s i)" "b_valid (bufs t i) = b_valid (bufs s i)" "b_refcnt (bufs t i) = b_refcnt (bufs s i)"
    "b_dev (bufs t i) = b_dev (bufs s i)" "b_blockno (bufs t i) = b_blockno (bufs s i)" for i
    by (simp_all add: t(5))
  have sl: "bslot (bufs t) k = bslot (bufs s) k" for k unfolding t by (rule bslot_upd) simp_all
  have dv: "dview (img t) = (dview (img s))(n := bview s n)"
    unfolding t(6) by (rule dview_wblock) (use ok d in auto)
  have call: "bwrite b s = Ok t" using h p t(1) by (simp add: bwrite_def res_simps bheld_def)
  have "bcache_inv t"
    unfolding bcache_inv_def
  proof (intro conjI allI impI)
    have "lru t xs" using xs by (rule lru_upd) (simp_all add: t(5))
    then show "\<exists>xs. lru t xs" by blast
    show "buf_uniq (bufs t)" unfolding t(5) by (rule buf_uniq_upd) (simp_all add: bcache_invD(5) [OF inv])
    show "img_ok (img t)" unfolding t(6) using img_ok_wblock [OF bcache_invD(4) [OF inv]] ok d by simp
    show "vd_idle (vdisk t)" "virtio_blk_device (blkdev t)" using t bcache_invD(3) [OF inv] by (simp_all add: disk_frameD)
    fix i assume "i < NBUF"
    then have i: "i < 30" by simp
    have k: "buf_ok (img s) (sl_locked (slks s (BufSL i))) (bufs s i)" by (rule bcache_invD(6) [OF inv i])
    have "dblock (img t) (b_blockno (bufs s i)) = dblock (img s) (b_blockno (bufs s i))"
      if "b_refcnt (bufs s i) = 0" "b_dev (bufs s i) = ROOTDEV"
    proof -
      have "b_blockno (bufs s i) < 0x80000000" using k that by (simp add: buf_ok_def)
      moreover have "b_blockno (bufs s i) \<noteq> n"
      proof
        assume "b_blockno (bufs s i) = n"
        then have "i = b" using bcache_invD(5) [OF inv] b i that unfolding buf_uniq_def by simp
        then show False using that bheld_refs [OF inv h] by simp
      qed
      ultimately show ?thesis using fun_cong [OF dv, of "b_blockno (bufs s i)"] by (simp add: dview_def)
    qed
    then show "buf_ok (img t) (sl_locked (slks t (BufSL i))) (bufs t i)"
      using k unfolding buf_ok_def tb t(3) by auto
  qed
  moreover have "bview t = bview s"
  proof
    fix k
    show "bview t k = bview s k"
      using bheld_slot [OF inv h] bcache_invD(6) [OF inv] b
      by (cases "bslot (bufs s) k") (auto simp: bview_def sl tb dv)
  qed
  moreover have "blocked t = blocked s" by (rule blocked_cong) (simp_all add: sl t(3))
  moreover have "brefs (bufs t) = brefs (bufs s)" by (simp add: brefs_def fun_eq_iff sl tb split: option.split)
  moreover have "bheld t c m" if "bheld s c m" for c m
    by (rule bheld_frame [OF that]) (use t in \<open>simp_all add: disk_frameD tb\<close>)
  moreover have "bio_frame s t" using t by (simp add: bio_frame_def)
  ultimately show ?thesis using call t dv by (auto simp: bwrite_post_def)
qed

text \<open>A change of one buffer's reference count and lock, and of the list.\<close>

lemma refcnt_change:
  assumes inv: "bcache_inv s" and l: "lru t ys" "vd_idle (vdisk t)" "blkdev t = blkdev s" "img t = img s"
    and same: "\<And>i. b_dev (bufs t i) = b_dev (bufs s i)" "\<And>i. b_blockno (bufs t i) = b_blockno (bufs s i)"
      "\<And>i. b_data (bufs t i) = b_data (bufs s i)" "\<And>i. b_valid (bufs t i) = b_valid (bufs s i)"
      "\<And>i. i \<noteq> b \<Longrightarrow> b_refcnt (bufs t i) = b_refcnt (bufs s i)" "\<And>i. i \<noteq> b \<Longrightarrow> slks t (BufSL i) = slks s (BufSL i)"
    and b: "bslot (bufs s) n = Some b" "buf_ok (img s) (sl_locked (slks t (BufSL b))) (bufs t b)"
  shows "bcache_inv t" "bview t = bview s" "blocked t = (blocked s)(n := sl_locked (slks t (BufSL b)))"
    "brefs (bufs t) = (brefs (bufs s))(n := unat (b_refcnt (bufs t b)))"
proof -
  have sl: "bslot (bufs t) k = bslot (bufs s) k" for k by (simp add: bslot_def same)
  have "buf_ok (img t) (sl_locked (slks t (BufSL i))) (bufs t i)" if "i < NBUF" for i
  proof (cases "i = b")
    case False
    then show ?thesis using bcache_invD(6) [OF inv, of i] that by (simp add: buf_ok_def same l)
  qed (simp add: b l)
  then show "bcache_inv t"
    using l bcache_invD [OF inv] unfolding bcache_inv_def by (auto simp: buf_uniq_def same)
  show "bview t = bview s" by (simp add: bview_def fun_eq_iff sl same l split: option.split)
  show "blocked t = (blocked s)(n := sl_locked (slks t (BufSL b)))"
    by (rule blocked_upd) (simp_all add: sl same b)
  show "brefs (bufs t) = (brefs (bufs s))(n := unat (b_refcnt (bufs t b)))"
  proof
    fix k
    show "brefs (bufs t) k = ((brefs (bufs s))(n := unat (b_refcnt (bufs t b)))) k"
    proof (cases "k = n")
      case False
      then have "bslot (bufs s) k \<noteq> Some b" using bslot_Some b(1) by metis
      then show ?thesis using False same(5) by (auto simp: brefs_def sl split: option.split)
    qed (simp add: brefs_def sl b)
  qed
qed

lemma set_buf_field: "(\<And>q. g (f q) = g q) \<Longrightarrow> g (bufs (set_buf b f s) i) = g (bufs s i)"
  by (simp add: set_buf_def)

lemmas set_buf_fields = set_buf_field [where g = b_dev] set_buf_field [where g = b_blockno]
  set_buf_field [where g = b_data] set_buf_field [where g = b_valid] set_buf_field [where g = b_refcnt]

lemma relink_fields:
  "b_dev (bufs (bpush_front b (bunlink b s)) i) = b_dev (bufs s i)"
  "b_blockno (bufs (bpush_front b (bunlink b s)) i) = b_blockno (bufs s i)"
  "b_data (bufs (bpush_front b (bunlink b s)) i) = b_data (bufs s i)"
  "b_valid (bufs (bpush_front b (bunlink b s)) i) = b_valid (bufs s i)"
  "b_refcnt (bufs (bpush_front b (bunlink b s)) i) = b_refcnt (bufs s i)"
  by (simp_all add: bpush_front_def bunlink_def Let_def set_buf_fields del: bufs_set_buf)

text \<open>The end of \<open>brelse\<close>: move to the front if the count has dropped to zero.\<close>

lemma relink_if:
  assumes "lru s xs" "b < NBUF"
  shows "\<exists>B ys. (if c then bpush_front b (bunlink b s) else s) = s\<lparr>bufs := B\<rparr> \<and> lru (s\<lparr>bufs := B\<rparr>) ys \<and>
    (\<forall>i. b_dev (B i) = b_dev (bufs s i) \<and> b_blockno (B i) = b_blockno (bufs s i) \<and> b_data (B i) = b_data (bufs s i) \<and>
      b_valid (B i) = b_valid (bufs s i) \<and> b_refcnt (B i) = b_refcnt (bufs s i))"
proof (cases c)
  case True
  let ?B = "bufs (bpush_front b (bunlink b s))"
  have e: "bpush_front b (bunlink b s) = s\<lparr>bufs := ?B\<rparr>"
    by (simp add: bpush_front_def bunlink_def Let_def set_buf_def)
  have "lru (s\<lparr>bufs := ?B\<rparr>) (b # remove1 b xs)" using lru_move_front [OF assms] by (subst (asm) e)
  then show ?thesis using True e relink_fields [of b s] by (intro exI [of _ ?B] exI [of _ "b # remove1 b xs"]) simp
next
  case False
  then show ?thesis using assms by (intro exI [of _ "bufs s"] exI [of _ xs]) simp
qed

definition brelse_post :: "u32 \<Rightarrow> nat \<Rightarrow> 'a vst_scheme \<Rightarrow> 'a vst_scheme \<Rightarrow> bool" where
  "brelse_post n b s t \<longleftrightarrow> bcache_inv t \<and> bio_frame s t \<and> bview t = bview s \<and> blocked t = (blocked s)(n := False) \<and>
     brefs (bufs t) = (brefs (bufs s))(n := brefs (bufs s) n - 1) \<and> img t = img s \<and> hist t = hist s \<and>
     (\<forall>c m. bheld s c m \<and> c \<noteq> b \<longrightarrow> bheld t c m)"

lemma unat_minus1: "x \<noteq> 0 \<Longrightarrow> unat (x - 1 :: u32) = unat x - 1"
  by (rule unat_minus_one)

lemma brelse_ok:
  assumes inv: "bcache_inv s" and run: "in_proc s" and h: "bheld s b n"
    and clean: "brefs (bufs s) n = 1 \<Longrightarrow> bview s n = dview (img s) n"
  shows "\<exists>t. brelse b s = Ok t \<and> brelse_post n b s t"
proof -
  obtain p where p: "curproc s = Some p" "quiet s" "p < 64" using run by (rule in_procE)
  have b: "b < 30" "b_dev (bufs s b) = ROOTDEV" "b_blockno (bufs s b) = n" "b_valid (bufs s b)" using h by (auto simp: bheld_def)
  have ok: "buf_ok (img s) True (bufs s b)" using bcache_invD(6) [OF inv b(1)] h by (simp add: bheld_def)
  have r: "b_refcnt (bufs s b) \<noteq> 0" "brefs (bufs s) n = unat (b_refcnt (bufs s b))" using bheld_refs [OF inv h] by auto
  obtain xs where xs: "lru s xs" using bcache_invD(1) [OF inv] by blast
  let ?s1 = "s\<lparr>slks := (slks s)(BufSL b := \<lparr>sl_locked = False, sl_pid = 0\<rparr>),
    procs := wake (ChSleepLock (BufSL b)) (curproc s) {..<NPROC} (procs s),
    lks := (lks s)(BcacheLock := True), bufs := (bufs s)(b := (bufs s b)\<lparr>b_refcnt := b_refcnt (bufs s b) - 1\<rparr>)\<rparr>"
  have "lru ?s1 xs" using xs by (rule lru_upd) simp_all
  then obtain B ys where B: "(if b_refcnt (bufs s b) - 1 = 0 then bpush_front b (bunlink b ?s1) else ?s1) = ?s1\<lparr>bufs := B\<rparr>"
    "lru (?s1\<lparr>bufs := B\<rparr>) ys"
    and f: "\<And>i. b_dev (B i) = b_dev (bufs s i)" "\<And>i. b_blockno (B i) = b_blockno (bufs s i)" "\<And>i. b_data (B i) = b_data (bufs s i)"
      "\<And>i. b_valid (B i) = b_valid (bufs s i)" "\<And>i. i \<noteq> b \<Longrightarrow> b_refcnt (B i) = b_refcnt (bufs s i)"
      "b_refcnt (B b) = b_refcnt (bufs s b) - 1"
    using relink_if [of ?s1 xs b "b_refcnt (bufs s b) - 1 = 0"] b(1) by auto
  let ?t = "?s1\<lparr>bufs := B, lks := lks s\<rparr>"
  have "brelse b s = release BcacheLock (if b_refcnt (bufs s b) - 1 = 0 then bpush_front b (bunlink b ?s1) else ?s1)"
    using h p by (simp add: brelse_def res_simps bheld_def set_buf_def Let_def del: if_split)
  then have "brelse b s = Ok ?t" unfolding B(1) using p(2) by (simp add: release_held)
  moreover have "b_data (bufs s b) = dblock (img s) n" if "b_refcnt (bufs s b) - 1 = 0"
  proof -
    have "b_refcnt (bufs s b) = 1" using that by simp
    then have "bview s n = dview (img s) n" using clean r(2) by simp
    then show ?thesis using bheld_data [OF inv h] ok b by (simp add: dview_def buf_ok_def)
  qed
  then have "buf_ok (img s) False (B b)" using ok b by (simp add: buf_ok_def f)
  then have q: "buf_ok (img s) (sl_locked (slks ?t (BufSL b))) (bufs ?t b)" by simp
  have l: "lru ?t ys" using B(2) by (rule lru_upd) simp_all
  have rc: "bcache_inv ?t" "bview ?t = bview s" "blocked ?t = (blocked s)(n := sl_locked (slks ?t (BufSL b)))"
    "brefs (bufs ?t) = (brefs (bufs s))(n := unat (b_refcnt (bufs ?t b)))"
    by (rule refcnt_change [OF inv l _ _ _ _ _ _ _ _ _ bheld_slot [OF inv h] q]; simp add: f bcache_invD(2) [OF inv])+
  have "brelse_post n b s ?t"
    unfolding brelse_post_def
  proof (intro conjI allI impI)
    show "bcache_inv ?t" "bview ?t = bview s" "blocked ?t = (blocked s)(n := False)"
      "brefs (bufs ?t) = (brefs (bufs s))(n := brefs (bufs s) n - 1)"
      using rc unat_minus1 [OF r(1)] r(2) by (simp_all add: f(6))
    show "bio_frame s ?t" by (simp add: bio_frame_def disk_frame_def same_procs_wake)
    show "bheld ?t c m" if "bheld s c m \<and> c \<noteq> b" for c m
      by (rule bheld_frame [of s c m]) (use that in \<open>simp_all add: f\<close>)
  qed simp_all
  ultimately show ?thesis by blast
qed

definition bpin_post :: "u32 \<Rightarrow> nat \<Rightarrow> 'a vst_scheme \<Rightarrow> 'a vst_scheme \<Rightarrow> bool" where
  "bpin_post n r s t \<longleftrightarrow> bcache_inv t \<and> bio_frame s t \<and> bview t = bview s \<and> blocked t = blocked s \<and>
     brefs (bufs t) = (brefs (bufs s))(n := r) \<and> img t = img s \<and> hist t = hist s \<and> (\<forall>c m. bheld s c m \<longrightarrow> bheld t c m)"

lemma set_refcnt_ok:
  assumes inv: "bcache_inv s" and b: "bslot (bufs s) n = Some b" and r: "r \<noteq> 0"
  shows "bpin_post n (unat r) s (set_buf b (\<lambda>q. q\<lparr>b_refcnt := r\<rparr>) s)" (is "bpin_post n _ s ?t")
proof -
  obtain xs where xs: "lru s xs" using bcache_invD(1) [OF inv] by blast
  have l: "lru ?t xs" using xs by (rule lru_upd) simp_all
  have "b < 30" "b_dev (bufs s b) = ROOTDEV" using bslot_Some [OF b] by auto
  then have q: "buf_ok (img s) (sl_locked (slks ?t (BufSL b))) (bufs ?t b)"
    using bcache_invD(6) [OF inv, of b] r by (simp add: buf_ok_def set_buf_def)
  have rc: "bcache_inv ?t" "bview ?t = bview s" "blocked ?t = (blocked s)(n := sl_locked (slks ?t (BufSL b)))"
    "brefs (bufs ?t) = (brefs (bufs s))(n := unat (b_refcnt (bufs ?t b)))"
    by (rule refcnt_change [OF inv l _ _ _ _ _ _ _ _ _ b q]; simp add: set_buf_def bcache_invD(2) [OF inv])+
  have "blocked ?t = blocked s" using rc(3) b by (simp add: fun_eq_iff blocked_def set_buf_def)
  moreover have "bheld ?t c m" if "bheld s c m" for c m
    by (rule bheld_frame [OF that]) (simp_all add: set_buf_def)
  moreover have "bio_frame s ?t" "img ?t = img s" "hist ?t = hist s" by (simp_all add: bio_frame_def disk_frame_def set_buf_def)
  ultimately show ?thesis using rc by (simp add: bpin_post_def)
qed

lemma bpin_ok:
  assumes "bcache_inv s" "\<not> lks s BcacheLock" "bslot (bufs s) n = Some b" "brefs (bufs s) n < 4294967295"
  shows "\<exists>t. bpin b s = Ok t \<and> bpin_post n (Suc (brefs (bufs s) n)) s t"
proof -
  let ?r = "b_refcnt (bufs s b) + 1"
  have r: "unat ?r = Suc (brefs (bufs s) n)" using assms(3,4) by (simp add: brefs_def unat_plus1)
  then have "?r \<noteq> 0" by auto
  then have "bpin_post n (unat ?r) s (set_buf b (\<lambda>q. q\<lparr>b_refcnt := ?r\<rparr>) s)" by (rule set_refcnt_ok [OF assms(1,3)])
  moreover have "bpin b s = Ok (set_buf b (\<lambda>q. q\<lparr>b_refcnt := ?r\<rparr>) s)"
    using assms(2) by (simp add: bpin_def res_simps set_buf_def)
  ultimately show ?thesis using r by auto
qed

lemma bunpin_ok:
  assumes "bcache_inv s" "\<not> lks s BcacheLock" "bslot (bufs s) n = Some b" "1 < brefs (bufs s) n"
  shows "\<exists>t. bunpin b s = Ok t \<and> bpin_post n (brefs (bufs s) n - 1) s t"
proof -
  let ?r = "b_refcnt (bufs s b) - 1"
  have r: "unat ?r = brefs (bufs s) n - 1" using assms(3,4) by (simp add: brefs_def unat_minus1 unat_gt_0 [symmetric])
  then have "?r \<noteq> 0" using assms(4) by auto
  then have "bpin_post n (unat ?r) s (set_buf b (\<lambda>q. q\<lparr>b_refcnt := ?r\<rparr>) s)" by (rule set_refcnt_ok [OF assms(1,3)])
  moreover have "bunpin b s = Ok (set_buf b (\<lambda>q. q\<lparr>b_refcnt := ?r\<rparr>) s)"
    using assms(2) by (simp add: bunpin_def res_simps set_buf_def)
  ultimately show ?thesis using r by auto
qed

section \<open>The cache after binit\<close>

lemma binit_step_links:
  assumes "bnext s BHEAD \<noteq> b" "b \<noteq> BHEAD"
  shows "bnext (binit_loop [b] s) = (bnext s)(b := bnext s BHEAD, BHEAD := b)"
    "bprev (binit_loop [b] s) = (bprev s)(b := BHEAD, bnext s BHEAD := b)"
  using assms by (auto simp: fun_eq_iff Let_def initsleeplock_def)

lemma binit_loop_Cons: "binit_loop (b # bs) s = binit_loop bs (binit_loop [b] s)"
  by (simp add: Let_def)

lemma binit_loop_seg:
  "\<lbrakk>seg (bnext s) (bprev s) BHEAD xs BHEAD; distinct (bs @ xs); BHEAD \<notin> set (bs @ xs)\<rbrakk> \<Longrightarrow>
   seg (bnext (binit_loop bs s)) (bprev (binit_loop bs s)) BHEAD (rev bs @ xs) BHEAD"
proof (induction bs arbitrary: s xs)
  case (Cons b bs)
  have "bnext s BHEAD \<noteq> b" using seg_first [OF Cons.prems(1)] Cons.prems(2,3) by (cases xs) auto
  then have l: "bnext (binit_loop [b] s) = (bnext s)(b := bnext s BHEAD, BHEAD := b)"
    "bprev (binit_loop [b] s) = (bprev s)(b := BHEAD, bnext s BHEAD := b)"
    using binit_step_links Cons.prems(3) by (metis append_Cons list.set_intros(1))+
  have "seg (bnext (binit_loop [b] s)) (bprev (binit_loop [b] s)) BHEAD (b # xs) BHEAD"
    unfolding l using Cons.prems by (intro seg_insert_first) auto
  then have "seg (bnext (binit_loop bs (binit_loop [b] s))) (bprev (binit_loop bs (binit_loop [b] s))) BHEAD (rev bs @ (b # xs)) BHEAD"
    using Cons.prems by (intro Cons.IH) auto
  then show ?case by (subst (1 2) binit_loop_Cons) simp
qed simp

definition zero_bufs :: "'a vst_scheme \<Rightarrow> bool" where
  "zero_bufs s \<longleftrightarrow> (\<forall>i < NBUF. b_dev (bufs s i) = 0 \<and> b_refcnt (bufs s i) = 0 \<and> length (b_data (bufs s i)) = 1024)"

lemma binit_loop_fields:
  "b_dev (bufs (binit_loop bs s) i) = b_dev (bufs s i)" "b_refcnt (bufs (binit_loop bs s) i) = b_refcnt (bufs s i)"
  "b_data (bufs (binit_loop bs s) i) = b_data (bufs s i)" "vdisk (binit_loop bs s) = vdisk s"
  "img (binit_loop bs s) = img s" "hist (binit_loop bs s) = hist s" "blkdev (binit_loop bs s) = blkdev s"
  "curproc (binit_loop bs s) = curproc s" "procs (binit_loop bs s) = procs s"
  "i \<in> set bs \<or> \<not> sl_locked (slks s (BufSL i)) \<Longrightarrow> \<not> sl_locked (slks (binit_loop bs s) (BufSL i))"
  "quiet s \<Longrightarrow> quiet (binit_loop bs s)"
  by (induction bs arbitrary: s) (auto simp: Let_def initsleeplock_def set_buf_fields set_buf_def quiet_def fun_upd_False_idem)

lemma binit_inv:
  assumes z: "zero_bufs s" and d: "vd_idle (vdisk s)" "virtio_blk_device (blkdev s)" "img_ok (img s)"
  shows "bcache_inv (binit s)" "bview (binit s) = dview (img s)" "brefs (bufs (binit s)) = (\<lambda>_. 0)" "\<not> blocked (binit s) n"
proof -
  let ?s = "set_buf BHEAD (\<lambda>q. q\<lparr>b_prev := BHEAD, b_next := BHEAD\<rparr>) (s\<lparr>lks := (lks s)(BcacheLock := False)\<rparr>)"
  have b: "binit s = binit_loop [0..<NBUF] ?s" by (simp only: binit_def)
  have "seg (bnext (binit s)) (bprev (binit s)) BHEAD (rev [0..<NBUF] @ []) BHEAD"
    unfolding b by (rule binit_loop_seg) (simp_all add: set_buf_def)
  then have l: "lru (binit s) (rev [0..<NBUF])"
    unfolding lru_def by (auto simp del: upt_rec_numeral NBUF_eq)
  have f: "b_dev (bufs (binit s) i) = 0" "b_refcnt (bufs (binit s) i) = 0" "length (b_data (bufs (binit s) i)) = 1024"
    "\<not> sl_locked (slks (binit s) (BufSL i))" if "i < 30" for i
    using z that unfolding b by (simp_all add: binit_loop_fields zero_bufs_def set_buf_def)
  then have sl: "bslot (bufs (binit s)) k = None" for k by (auto simp: bslot_def find_None_iff)
  show "bview (binit s) = dview (img s)" by (simp add: bview_def fun_eq_iff sl) (simp add: b binit_loop_fields set_buf_def)
  show "brefs (bufs (binit s)) = (\<lambda>_. 0)" "\<not> blocked (binit s) n" by (simp_all add: brefs_def blocked_def fun_eq_iff sl)
  show "bcache_inv (binit s)"
    unfolding bcache_inv_def using l d f by (auto simp: buf_uniq_def buf_ok_def b binit_loop_fields set_buf_def)
qed

section \<open>Properties\<close>


text \<open>A disk whose sectors all hold the byte \<open>c\<close>.\<close>

definition flat_image :: "u8 \<Rightarrow> image" where
  "flat_image c = (\<lambda>_. replicate 512 c)"

lemma flat_image_ok: "img_ok (flat_image c)" "dblock (flat_image c) n = replicate 1024 c"
  by (simp_all add: img_ok_def flat_image_def dblock_eq flip: replicate_add)

lemma disk_state_proc: "in_proc (disk_state m)"
  by (auto simp: in_proc_def quiet_def disk_state_def)


text \<open>
  C22: the cache is transparent.  When some buffer is free or already caches the block, and nobody
  holds it, \<open>bread\<close> returns a locked buffer with the block's current contents (what was last put
  in it, or what is on the disk), keeps the invariant of the cache, and changes the contents of no
  block.
\<close>

theorem bread_returns_block:
  assumes "bcache_inv s" "in_proc s" "n < 0x80000000" "\<not> blocked s n" "brefs (bufs s) n < 4294967295"
    "bslot (bufs s) n \<noteq> None \<or> (\<exists>i < NBUF. b_refcnt (bufs s i) = 0)"
  shows "\<exists>b t. bread ROOTDEV n s = Ok (b, t) \<and> bheld t b n \<and> b_data (bufs t b) = bview s n \<and> bcache_inv t \<and>
    bview t = bview s \<and> img t = img s \<and> brefs (bufs t) = (brefs (bufs s))(n := Suc (brefs (bufs s) n))"
proof -
  obtain b t where t: "bread ROOTDEV n s = Ok (b, t)" "bread_post n b s t"
    using bread_ok [OF assms(1-4) _ assms(5)] assms(6) by auto
  then show ?thesis using bheld_data [of t b n] by (auto simp: bread_post_def)
qed

lemma binit_in_proc:
  assumes "in_proc s"
  shows "in_proc (binit s)"
proof -
  have "quiet (set_buf BHEAD f (s\<lparr>lks := (lks s)(BcacheLock := False)\<rparr>))" for f
    using assms by (auto simp: in_proc_def quiet_def set_buf_def)
  then show ?thesis
    using assms unfolding binit_def in_proc_def
    by (simp add: binit_loop_fields del: upt_rec_numeral NBUF_eq) (simp add: set_buf_def)
qed

lemma disk_state_fields: "vdisk (disk_state m) = fresh_disk" "blkdev (disk_state m) = chain_device" "img (disk_state m) = m"
  by (simp_all add: disk_state_def)

lemma disk_state_boot:
  assumes "img_ok m"
  shows "bcache_inv (binit (disk_state m))" "in_proc (binit (disk_state m))" "bview (binit (disk_state m)) = dview m"
    "brefs (bufs (binit (disk_state m))) = (\<lambda>_. 0)" "\<not> blocked (binit (disk_state m)) n"
proof -
  have "zero_bufs (disk_state m)" by (simp add: zero_bufs_def disk_state_def zero_buf_def)
  note b = binit_inv [OF this]
  show "bcache_inv (binit (disk_state m))" "bview (binit (disk_state m)) = dview m"
    "brefs (bufs (binit (disk_state m))) = (\<lambda>_. 0)" "\<not> blocked (binit (disk_state m)) n"
    using b assms by (simp_all add: disk_state_fields fresh_disk_idle chain_device)
qed (rule binit_in_proc [OF disk_state_proc])

theorem bread_returns_block_witness:
  "\<exists>b t. bread ROOTDEV 40 (binit (disk_state (flat_image 7))) = Ok (b, t) \<and> b_data (bufs t b) = replicate 1024 7"
proof -
  note b = disk_state_boot [OF flat_image_ok(1) [of 7]]
  have "\<exists>i < NBUF. b_refcnt (bufs (binit (disk_state (flat_image 7))) i) = 0"
    using bread_room [OF b(1), of "{}"] b(4) by simp
  then show ?thesis
    using bread_returns_block [OF b(1,2), of 40] b(3-5) by (auto simp: dview_def flat_image_ok)
qed

end
