(* ===== verification/Codec.thy ===== *)
theory Codec
  imports Params
begin

text \<open>
  Values in the byte arrays the disk stores: slices of a list, overwriting a slice, and the
  little-endian 16- and 32-bit integers of the log header, the superblock, the inodes, the
  indirect blocks and the directory entries, with their round trips.
\<close>

unbundle bit_operations_syntax

section \<open>Slices\<close>

definition slice :: "u8 list \<Rightarrow> nat \<Rightarrow> nat \<Rightarrow> u8 list" where
  "slice d off k = take k (drop off d)"

definition splice :: "u8 list \<Rightarrow> nat \<Rightarrow> u8 list \<Rightarrow> u8 list" where
  "splice d off bs = take off d @ bs @ drop (off + length bs) d"

lemma length_slice [simp]: "off + k \<le> length d \<Longrightarrow> length (slice d off k) = k"
  by (simp add: slice_def)

lemma length_splice [simp]: "off + length bs \<le> length d \<Longrightarrow> length (splice d off bs) = length d"
  by (simp add: splice_def)

lemma nth_slice: "\<lbrakk>i < k; off + k \<le> length d\<rbrakk> \<Longrightarrow> slice d off k ! i = d ! (off + i)"
  by (simp add: slice_def)

lemma nth_splice:
  "\<lbrakk>off + length bs \<le> length d; i < length d\<rbrakk> \<Longrightarrow>
   splice d off bs ! i = (if off \<le> i \<and> i < off + length bs then bs ! (i - off) else d ! i)"
  by (auto simp: splice_def nth_append min_def)

lemma slice_splice_same [simp]:
  "\<lbrakk>off + length bs \<le> length d; k = length bs\<rbrakk> \<Longrightarrow> slice (splice d off bs) off k = bs"
  by (simp add: slice_def splice_def)

lemma slice_splice_other:
  assumes "off + length bs \<le> length d" "p + k \<le> length d" "p + k \<le> off \<or> off + length bs \<le> p"
  shows "slice (splice d off bs) p k = slice d p k"
proof (rule nth_equalityI)
  show "length (slice (splice d off bs) p k) = length (slice d p k)" using assms by simp
  fix i assume "i < length (slice (splice d off bs) p k)"
  then have "i < k" using assms by simp
  then show "slice (splice d off bs) p k ! i = slice d p k ! i"
    using assms by (auto simp: nth_slice nth_splice)
qed

lemma splice_slice [simp]: "off + k \<le> length d \<Longrightarrow> splice d off (slice d off k) = d"
  by (rule nth_equalityI) (auto simp: nth_splice nth_slice)

section \<open>Little-endian integers\<close>

definition le_bytes :: "nat \<Rightarrow> 'a::len word \<Rightarrow> u8 list" where
  "le_bytes k v = map (\<lambda>i. ucast (drop_bit (8 * i) v)) [0..<k]"

definition le_word :: "u8 list \<Rightarrow> 'a::len word" where
  "le_word bs = foldr (\<lambda>i acc. push_bit (8 * i) (ucast (bs ! i)) OR acc) [0..<length bs] 0"

lemma length_le_bytes [simp]: "length (le_bytes k v) = k"
  by (simp add: le_bytes_def)

lemma bit_foldr_orw:
  "bit (foldr (\<lambda>i acc. f i OR acc) xs (0 :: 'a::len word)) n \<longleftrightarrow> (\<exists>i \<in> set xs. bit (f i) n)"
  by (induction xs) (auto simp: bit_or_iff)

lemma bit_byte:
  "bit (push_bit (8 * i) (ucast (b :: u8)) :: 'a::len word) n \<longleftrightarrow> n < LENGTH('a) \<and> n div 8 = i \<and> bit b (n mod 8)"
proof -
  have "n div 8 = i \<longleftrightarrow> 8 * i \<le> n \<and> n - 8 * i < 8" by auto
  moreover have "n div 8 = i \<Longrightarrow> n - 8 * i = n mod 8" by (metis minus_mult_div_eq_mod)
  ultimately show ?thesis
    by (auto simp: bit_push_bit_iff bit_ucast_iff not_le dest: bit_imp_le_length)
qed

lemma bit_le_word:
  "bit (le_word bs :: 'a::len word) n \<longleftrightarrow> n < LENGTH('a) \<and> n div 8 < length bs \<and> bit (bs ! (n div 8)) (n mod 8)"
  unfolding le_word_def bit_foldr_orw bit_byte by auto

lemma bit_le_bytes: "i < k \<Longrightarrow> bit (le_bytes k (v :: 'a::len word) ! i) j \<longleftrightarrow> j < 8 \<and> bit v (8 * i + j)"
  by (auto simp: le_bytes_def bit_ucast_iff bit_drop_bit_eq dest: bit_imp_le_length)

lemma le_word_bytes [simp]:
  "LENGTH('a) \<le> 8 * k \<Longrightarrow> le_word (le_bytes k v) = (v :: 'a::len word)"
  by (rule bit_word_eqI) (auto simp: bit_le_word bit_le_bytes div_less_iff_less_mult)

lemma le_bytes_word:
  assumes "8 * length bs \<le> LENGTH('a)" "k = length bs"
  shows "le_bytes k (le_word bs :: 'a::len word) = bs"
proof (rule nth_equalityI)
  fix i assume "i < length (le_bytes k (le_word bs :: 'a word))"
  then have i: "i < k" by simp
  show "le_bytes k (le_word bs :: 'a word) ! i = bs ! i"
  proof (rule bit_word_eqI)
    fix j assume "j < LENGTH(8)"
    then have j: "j < 8" by simp
    then have "(8 * i + j) div 8 = i" "(8 * i + j) mod 8 = j" "8 * i + j < LENGTH('a)"
      using i assms by auto
    then show "bit (le_bytes k (le_word bs :: 'a word) ! i) j = bit (bs ! i) j"
      using i j assms(2) by (simp add: bit_le_bytes bit_le_word)
  qed
qed (simp add: assms)

definition get32 :: "u8 list \<Rightarrow> nat \<Rightarrow> u32" where
  "get32 d off = le_word (slice d off 4)"

definition put32 :: "u8 list \<Rightarrow> nat \<Rightarrow> u32 \<Rightarrow> u8 list" where
  "put32 d off v = splice d off (le_bytes 4 v)"

definition get16 :: "u8 list \<Rightarrow> nat \<Rightarrow> u16" where
  "get16 d off = le_word (slice d off 2)"

definition put16 :: "u8 list \<Rightarrow> nat \<Rightarrow> u16 \<Rightarrow> u8 list" where
  "put16 d off v = splice d off (le_bytes 2 v)"

lemma length_put32 [simp]: "off + 4 \<le> length d \<Longrightarrow> length (put32 d off v) = length d"
  by (simp add: put32_def)

lemma length_put16 [simp]: "off + 2 \<le> length d \<Longrightarrow> length (put16 d off v) = length d"
  by (simp add: put16_def)

lemma get32_put32 [simp]: "off + 4 \<le> length d \<Longrightarrow> get32 (put32 d off v) off = v"
  by (simp add: get32_def put32_def)

lemma get16_put16 [simp]: "off + 2 \<le> length d \<Longrightarrow> get16 (put16 d off v) off = v"
  by (simp add: get16_def put16_def)

lemma get32_put32_other:
  "\<lbrakk>off + 4 \<le> length d; p + 4 \<le> length d; p + 4 \<le> off \<or> off + 4 \<le> p\<rbrakk> \<Longrightarrow> get32 (put32 d off v) p = get32 d p"
  by (simp add: get32_def put32_def slice_splice_other)

end
