(* ===== verification/Log.thy ===== *)
theory Log
  imports Bio Codec
begin

text \<open>
  The write-ahead log, \<open>kernel/log.c\<close>.  The in-memory header (\<open>struct logheader\<close>) lists the blocks
  of the current transaction; \<open>commit\<close> copies them from the cache to the log, writes the header,
  installs them at their home locations and clears the header; \<open>recover_from_log\<close> redoes the
  installation after a crash.  The main result is that a commit is atomic with respect to crashes:
  whichever disk image a crash leaves, recovery produces the disk of before or of after the
  transaction.

  The loops over \<open>log.lh.n\<close> run over the value it has when they start, which no call in their
  bodies changes.  Reading a header with more entries than the array has is undefined.
\<close>

section \<open>State and operations\<close>

record logheader =
  lh_n :: int
  lh_block :: "nat \<Rightarrow> u32"

record klog =
  l_start :: u32
  l_size :: int
  l_outstanding :: int
  l_committing :: bool
  l_dev :: u32
  l_lh :: logheader

record lst = vst +
  klog :: klog

definition set_log :: "(klog \<Rightarrow> klog) \<Rightarrow> 'a lst_scheme \<Rightarrow> 'a lst_scheme" where
  "set_log f s = s\<lparr>klog := f (klog s)\<rparr>"

definition set_lh_n :: "int \<Rightarrow> 'a lst_scheme \<Rightarrow> 'a lst_scheme" where
  "set_lh_n n s = set_log (\<lambda>l. l\<lparr>l_lh := (l_lh l)\<lparr>lh_n := n\<rparr>\<rparr>) s"

fun install_trans_loop :: "bool \<Rightarrow> nat list \<Rightarrow> 'a lst_scheme \<Rightarrow> 'a lst_scheme res" where
  "install_trans_loop recovering [] s = Ok s"
| "install_trans_loop recovering (tail # ts) s =
     andthen (bread (l_dev (klog s)) (l_start (klog s) + of_nat tail + 1) s) (\<lambda>(lbuf, s).
     andthen (bread (l_dev (klog s)) (lh_block (l_lh (klog s)) tail) s) (\<lambda>(dbuf, s).
     andthen (bwrite dbuf (put_data dbuf (b_data (bufs s lbuf)) s)) (\<lambda>s.
     andthen (if \<not> recovering then bunpin dbuf s else Ok s) (\<lambda>s.
     andthen (brelse lbuf s) (\<lambda>s.
     andthen (brelse dbuf s) (\<lambda>s.
     install_trans_loop recovering ts s))))))"

definition install_trans :: "bool \<Rightarrow> 'a lst_scheme \<Rightarrow> 'a lst_scheme res" where
  "install_trans recovering s = install_trans_loop recovering [0..<nat (lh_n (l_lh (klog s)))] s"

definition read_head :: "'a lst_scheme \<Rightarrow> 'a lst_scheme res" where
  "read_head s =
     andthen (bread (l_dev (klog s)) (l_start (klog s)) s) (\<lambda>(b, s).
     let d = b_data (bufs s b); n = sint (get32 d 0) in
     if n > int LOGSIZE then Fail Undefined
     else brelse b (set_log (\<lambda>l. l\<lparr>l_lh := \<lparr>lh_n = n,
       lh_block = (\<lambda>i. if int i < n then get32 d (4 + 4 * i) else lh_block (l_lh l) i)\<rparr>\<rparr>) s))"

definition put_head :: "logheader \<Rightarrow> u8 list \<Rightarrow> u8 list" where
  "put_head lh d =
     fold (\<lambda>i d. put32 d (4 + 4 * i) (lh_block lh i)) [0..<nat (lh_n lh)] (put32 d 0 (of_int (lh_n lh)))"

definition write_head :: "'a lst_scheme \<Rightarrow> 'a lst_scheme res" where
  "write_head s =
     andthen (bread (l_dev (klog s)) (l_start (klog s)) s) (\<lambda>(b, s).
     andthen (bwrite b (put_data b (put_head (l_lh (klog s)) (b_data (bufs s b))) s)) (\<lambda>s.
     brelse b s))"

definition recover_from_log :: "'a lst_scheme \<Rightarrow> 'a lst_scheme res" where
  "recover_from_log s =
     andthen (read_head s) (\<lambda>s.
     andthen (install_trans True s) (\<lambda>s.
     write_head (set_lh_n 0 s)))"

text \<open>\<open>sizeof(struct logheader)\<close> is 124, below the block size, so the first check never fails.\<close>

definition initlog :: "u32 \<Rightarrow> u32 \<Rightarrow> u32 \<Rightarrow> 'a lst_scheme \<Rightarrow> 'a lst_scheme res" where
  "initlog dev logstart nlog s =
     (if 4 + 4 * LOGSIZE \<ge> BSIZE then Fail (Panic ''initlog: too big logheader'')
      else recover_from_log (set_log (\<lambda>l. l\<lparr>l_start := logstart, l_size := sint nlog, l_dev := dev\<rparr>)
        (s\<lparr>lks := (lks s)(LogLock := False)\<rparr>)))"

text \<open>
  One turn of the loop of \<open>begin_op\<close>: the operation is admitted, or sleeps.  \<open>begin_op\<close> on its own
  is the call that is admitted at once.
\<close>

definition begin_op_turn :: "'a lst_scheme \<Rightarrow> (bool \<times> 'a lst_scheme) res" where
  "begin_op_turn s =
     (if l_committing (klog s) then andthen (sleep_enter ChLog LogLock s) (\<lambda>s. Ok (False, s))
      else if lh_n (l_lh (klog s)) + (l_outstanding (klog s) + 1) * int MAXOPBLOCKS > int LOGSIZE
      then andthen (sleep_enter ChLog LogLock s) (\<lambda>s. Ok (False, s))
      else andthen (release LogLock (set_log (\<lambda>l. l\<lparr>l_outstanding := l_outstanding l + 1\<rparr>) s)) (\<lambda>s. Ok (True, s)))"

definition begin_op_call :: "'a lst_scheme \<Rightarrow> (bool \<times> 'a lst_scheme) res" where
  "begin_op_call s = andthen (acquire LogLock s) (\<lambda>s. begin_op_turn s)"

definition begin_op_resume :: "nat \<Rightarrow> 'a lst_scheme \<Rightarrow> (bool \<times> 'a lst_scheme) res" where
  "begin_op_resume p s = andthen (sleep_exit p LogLock s) (\<lambda>s. begin_op_turn s)"

definition begin_op :: "'a lst_scheme \<Rightarrow> 'a lst_scheme res" where
  "begin_op s = andthen (begin_op_call s) (\<lambda>(admitted, s). if admitted then Ok s else Fail Sleeping)"

fun write_log_loop :: "nat list \<Rightarrow> 'a lst_scheme \<Rightarrow> 'a lst_scheme res" where
  "write_log_loop [] s = Ok s"
| "write_log_loop (tail # ts) s =
     andthen (bread (l_dev (klog s)) (l_start (klog s) + of_nat tail + 1) s) (\<lambda>(to, s).
     andthen (bread (l_dev (klog s)) (lh_block (l_lh (klog s)) tail) s) (\<lambda>(from, s).
     andthen (bwrite to (put_data to (b_data (bufs s from)) s)) (\<lambda>s.
     andthen (brelse from s) (\<lambda>s.
     andthen (brelse to s) (\<lambda>s.
     write_log_loop ts s)))))"

definition write_log :: "'a lst_scheme \<Rightarrow> 'a lst_scheme res" where
  "write_log s = write_log_loop [0..<nat (lh_n (l_lh (klog s)))] s"

definition commit :: "'a lst_scheme \<Rightarrow> 'a lst_scheme res" where
  "commit s =
     (if lh_n (l_lh (klog s)) > 0 then
        andthen (write_log s) (\<lambda>s.
        andthen (write_head s) (\<lambda>s.
        andthen (install_trans False s) (\<lambda>s.
        write_head (set_lh_n 0 s))))
      else Ok s)"

definition end_op :: "'a lst_scheme \<Rightarrow> 'a lst_scheme res" where
  "end_op s =
     andthen (acquire LogLock s) (\<lambda>s.
     let s = set_log (\<lambda>l. l\<lparr>l_outstanding := l_outstanding l - 1\<rparr>) s in
     if l_committing (klog s) then Fail (Panic ''log.committing'')
     else if l_outstanding (klog s) = 0 then
       andthen (release LogLock (set_log (\<lambda>l. l\<lparr>l_committing := True\<rparr>) s)) (\<lambda>s.
       andthen (commit s) (\<lambda>s.
       andthen (acquire LogLock s) (\<lambda>s.
       andthen (wakeup ChLog (set_log (\<lambda>l. l\<lparr>l_committing := False\<rparr>) s)) (\<lambda>s.
       release LogLock s))))
     else
       andthen (wakeup ChLog s) (\<lambda>s. release LogLock s))"

text \<open>The search for an absorbed block: the index of the entry, or \<open>log.lh.n\<close>.\<close>

definition log_slot :: "logheader \<Rightarrow> u32 \<Rightarrow> nat" where
  "log_slot lh n =
     (case find (\<lambda>i. lh_block lh i = n) [0..<nat (lh_n lh)] of Some i \<Rightarrow> i | None \<Rightarrow> nat (lh_n lh))"

definition log_write :: "nat \<Rightarrow> 'a lst_scheme \<Rightarrow> 'a lst_scheme res" where
  "log_write b s =
     andthen (acquire LogLock s) (\<lambda>s.
     let lh = l_lh (klog s) in
     if lh_n lh \<ge> int LOGSIZE \<or> lh_n lh \<ge> l_size (klog s) - 1 then Fail (Panic ''too big a transaction'')
     else if l_outstanding (klog s) < 1 then Fail (Panic ''log_write outside of trans'')
     else
       let i = log_slot lh (b_blockno (bufs s b));
           s = set_log (\<lambda>l. l\<lparr>l_lh := (l_lh l)\<lparr>lh_block := (lh_block (l_lh l))(i := b_blockno (bufs s b))\<rparr>\<rparr>) s
       in
       andthen (if int i = lh_n lh then andthen (bpin b s) (\<lambda>s. Ok (set_lh_n (lh_n lh + 1) s)) else Ok s) (\<lambda>s.
       release LogLock s))"

section \<open>Sequences of block writes\<close>

type_synonym bwrites = "(u32 \<times> u8 list) list"

definition upds :: "(u32 \<Rightarrow> u8 list) \<Rightarrow> bwrites \<Rightarrow> u32 \<Rightarrow> u8 list" where
  "upds f ws = fold (\<lambda>(n, d) f. f(n := d)) ws f"

lemma upds_simps [simp]:
  "upds f [] = f" "upds f (w # ws) = upds (f(fst w := snd w)) ws" "upds f (ws @ us) = upds (upds f ws) us"
  by (simp_all add: upds_def case_prod_beta)

lemma upds_other: "n \<notin> fst ` set ws \<Longrightarrow> upds f ws n = f n"
  by (induction ws arbitrary: f) auto

lemma upds_cong: "\<lbrakk>\<And>k. k \<in> S \<Longrightarrow> f k = g k; n \<in> S\<rbrakk> \<Longrightarrow> upds f ws n = upds g ws n"
proof (induction ws arbitrary: f g)
  case (Cons w ws)
  have "upds (f(fst w := snd w)) ws n = upds (g(fst w := snd w)) ws n"
    by (rule Cons.IH) (simp_all add: Cons.prems)
  then show ?case by simp
qed simp

text \<open>
  From \<open>s\<close> to \<open>t\<close> the disk went through the writes \<open>ws\<close>; a crash on the way leaves the result of a
  prefix of them.
\<close>

definition dsteps :: "'a lst_scheme \<Rightarrow> 'a lst_scheme \<Rightarrow> bwrites \<Rightarrow> bool" where
  "dsteps s t ws \<longleftrightarrow> dview (img t) = upds (dview (img s)) ws \<and>
     (\<exists>hs. hist t = hs @ hist s \<and> (\<forall>m \<in> set hs. img_ok m \<and> (\<exists>k. dview m = upds (dview (img s)) (take k ws))))"

definition dtrace :: "'a lst_scheme \<Rightarrow> 'a lst_scheme \<Rightarrow> bwrites \<Rightarrow> bool" where
  "dtrace s t ws \<longleftrightarrow> bio_frame s t \<and> dsteps s t ws"

lemma dsteps_trans:
  assumes "dsteps s t ws" "dsteps t u us"
  shows "dsteps s u (ws @ us)"
proof -
  obtain hs gs where h: "hist t = hs @ hist s" "hist u = gs @ hist t"
    and hs: "\<And>m. m \<in> set hs \<Longrightarrow> img_ok m \<and> (\<exists>k. dview m = upds (dview (img s)) (take k ws))"
    and gs: "\<And>m. m \<in> set gs \<Longrightarrow> img_ok m \<and> (\<exists>k. dview m = upds (dview (img t)) (take k us))"
    using assms unfolding dsteps_def by blast
  have "img_ok m \<and> (\<exists>k. dview m = upds (dview (img s)) (take k (ws @ us)))" if "m \<in> set (gs @ hs)" for m
  proof (cases "m \<in> set gs")
    case True
    then obtain k where "dview m = upds (dview (img t)) (take k us)" "img_ok m" using gs by blast
    then have "dview m = upds (dview (img s)) (take (length ws + k) (ws @ us))"
      using assms(1) by (simp add: dsteps_def)
    then show ?thesis using \<open>img_ok m\<close> by blast
  next
    case False
    then have "m \<in> set hs" using that by simp
    then obtain k where k: "dview m = upds (dview (img s)) (take k ws)" "img_ok m" using hs by blast
    have "take k ws = take (min k (length ws)) (ws @ us)" by (cases "k \<le> length ws") (auto simp: min_def)
    then show ?thesis using k by metis
  qed
  moreover have "hist u = (gs @ hs) @ hist s" using h by simp
  moreover have "dview (img u) = upds (dview (img s)) (ws @ us)" using assms by (simp add: dsteps_def)
  ultimately show ?thesis unfolding dsteps_def by blast
qed

lemma dtrace_trans: "\<lbrakk>dtrace s t ws; dtrace t u us\<rbrakk> \<Longrightarrow> dtrace s u (ws @ us)"
  unfolding dtrace_def using bio_frame_trans dsteps_trans by blast

lemma frame_klog: "bio_frame s t \<Longrightarrow> klog t = klog s \<and> lst.more t = lst.more s"
  unfolding bio_frame_def disk_frame_def by (cases s; cases t) simp

lemma bio_frame_klog: "bio_frame s t \<Longrightarrow> bio_frame (s\<lparr>klog := k\<rparr>) (t\<lparr>klog := k\<rparr>)"
  unfolding bio_frame_def disk_frame_def by (cases s; cases t) simp

lemma dtrace_klog: "dtrace s t ws \<Longrightarrow> klog t = klog s"
  using frame_klog [of s t] by (simp add: dtrace_def)

lemma dtrace_steps: "dtrace s t ws \<Longrightarrow> dsteps s t ws"
  by (simp add: dtrace_def)

lemma frame_in_proc: "bio_frame s t \<Longrightarrow> in_proc t = in_proc s"
  by (simp add: bio_frame_def in_proc_frame)

lemma dtraceI:
  assumes "bio_frame s t" "dview (img t) = upds (dview (img s)) ws" "hist t = hs @ hist s"
    "\<And>m. m \<in> set hs \<Longrightarrow> img_ok m \<and> (\<exists>k. dview m = upds (dview (img s)) (take k ws))"
  shows "dtrace s t ws"
  unfolding dtrace_def dsteps_def using assms by blast

lemma dtrace_idle:
  assumes "bcache_inv s" "bio_frame s t" "img t = img s" "hist t = hist s \<or> hist t = img s # hist s"
  shows "dtrace s t []"
proof -
  have "hist t = (if hist t = hist s then [] else [img s]) @ hist s" using assms(4) by auto
  then show ?thesis
    using assms bcache_invD(4) [OF assms(1)] by (intro dtraceI [where hs = "if hist t = hist s then [] else [img s]"])
      (auto split: if_splits)
qed

lemma dtrace_bwrite:
  assumes "bwrite_post n s t"
  shows "dtrace s t [(n, bview s n)]"
proof (rule dtraceI [where hs = "[img t]"])
  have dv: "dview (img t) = (dview (img s))(n := bview s n)" "bcache_inv t" using assms unfolding bwrite_post_def by blast+
  show "dview (img t) = upds (dview (img s)) [(n, bview s n)]" using dv by simp
  fix m assume "m \<in> set [img t]"
  then have "img_ok m" "dview m = upds (dview (img s)) (take 1 [(n, bview s n)])" using dv bcache_invD(4) by auto
  then show "img_ok m \<and> (\<exists>k. dview m = upds (dview (img s)) (take k [(n, bview s n)]))" by blast
qed (use assms in \<open>auto simp: bwrite_post_def\<close>)

lemma dtrace_bread: "\<lbrakk>bread_post n b s t; bcache_inv s\<rbrakk> \<Longrightarrow> dtrace s t []"
  unfolding bread_post_def by (rule dtrace_idle) blast+

lemma dtrace_brelse: "\<lbrakk>brelse_post n b s t; bcache_inv s\<rbrakk> \<Longrightarrow> dtrace s t []"
  unfolding brelse_post_def by (rule dtrace_idle) blast+

lemma dtrace_bpin: "\<lbrakk>bpin_post n r s t; bcache_inv s\<rbrakk> \<Longrightarrow> dtrace s t []"
  unfolding bpin_post_def by (rule dtrace_idle) blast+

lemma dtrace_put: "\<lbrakk>bcache_inv s; bheld s b n; length d = 1024\<rbrakk> \<Longrightarrow> dtrace s (put_data b d s) []"
  using put_data_ok [of s b n d] by (intro dtrace_idle) auto

text \<open>Reading a block when the referenced blocks are among \<open>S\<close>.\<close>

lemma bread_within:
  assumes "bcache_inv s" "in_proc s" "n < 0x80000000" "\<not> blocked s n" "brefs (bufs s) n < 4294967295"
    "finite S" "\<And>k. brefs (bufs s) k \<noteq> 0 \<Longrightarrow> k \<in> S" "brefs (bufs s) n \<noteq> 0 \<or> card S < 30"
  obtains b t where "bread ROOTDEV n s = Ok (b, t)" "bread_post n b s t"
proof -
  have "\<exists>i < 30. b_refcnt (bufs s i) = 0" if "bslot (bufs s) n = None"
    using that assms(8) bread_room [OF assms(1,6) _ assms(7)] by (auto simp: brefs_def)
  then have "\<exists>b t. bread ROOTDEV n s = Ok (b, t) \<and> bread_post n b s t"
    by (intro bread_ok assms)
  then show ?thesis using that by blast
qed

section \<open>Copying a block\<close>

text \<open>
  The blocks that may be read without running out of buffers: no buffer is held, the referenced
  blocks are \<open>S\<close>, and no count is near its limit.
\<close>

definition calm :: "'a lst_scheme \<Rightarrow> u32 set \<Rightarrow> bool" where
  "calm s S \<longleftrightarrow> bcache_inv s \<and> in_proc s \<and> l_dev (klog s) = ROOTDEV \<and> (\<forall>n. \<not> blocked s n) \<and>
     finite S \<and> (\<forall>n. brefs (bufs s) n \<noteq> 0 \<longrightarrow> n \<in> S) \<and> (\<forall>n. brefs (bufs s) n < 1000)"

lemma calmD:
  assumes "calm s S"
  shows "bcache_inv s" "in_proc s" "l_dev (klog s) = ROOTDEV" "\<not> blocked s n" "finite S"
    "brefs (bufs s) n \<noteq> 0 \<Longrightarrow> n \<in> S" "brefs (bufs s) n < 1000"
  using assms by (auto simp: calm_def)

lemma calm_frame:
  assumes "calm s S" "bcache_inv t" "bio_frame s t" "blocked t = blocked s" "\<And>n. brefs (bufs t) n \<le> brefs (bufs s) n"
  shows "calm t S"
  unfolding calm_def
proof (intro conjI allI impI)
  show "n \<in> S" if "brefs (bufs t) n \<noteq> 0" for n using calmD(6) [OF assms(1)] assms(5) [of n] that by simp
  show "brefs (bufs t) n < 1000" for n using calmD(7) [OF assms(1), of n] assms(5) [of n] by simp
qed (use assms calmD [OF assms(1)] frame_klog [OF assms(3)] frame_in_proc [OF assms(3)] in auto)

lemma bheld_length: "\<lbrakk>bcache_inv s; bheld s b n\<rbrakk> \<Longrightarrow> length (bview s n) = 1024"
  using bcache_invD(6) [of s b] bheld_data [of s b n] by (auto simp: bheld_def buf_ok_def)

lemma write_log_step:
  assumes c: "calm s S" and xy: "x \<noteq> y" "x < 0x80000000" "y < 0x80000000"
    and x: "l_start (klog s) + of_nat tail + 1 = x" and y: "lh_block (l_lh (klog s)) tail = y"
    and room: "brefs (bufs s) x \<noteq> 0 \<or> card S < 30" "brefs (bufs s) y \<noteq> 0"
  shows "\<exists>t. write_log_loop (tail # ts) s = write_log_loop ts t \<and> calm t S \<and> dtrace s t [(x, bview s y)] \<and>
    bview t = (bview s)(x := bview s y) \<and> brefs (bufs t) = brefs (bufs s)"
proof -
  note cs = calmD [OF c]
  obtain b1 s1 where 1: "bread ROOTDEV x s = Ok (b1, s1)" "bread_post x b1 s s1"
    using bread_within [OF cs(1,2) xy(2) cs(4) _ cs(5,6) room(1)] cs(7) [of x] by auto
  note p1 = 1(2) [unfolded bread_post_def]
  have f1: "in_proc s1" "klog s1 = klog s" using p1 cs(2) frame_klog frame_in_proc by blast+
  have "\<not> blocked s1 y" using p1 cs(4) xy(1) by simp
  moreover have "brefs (bufs s1) y \<noteq> 0" "brefs (bufs s1) y < 4294967295"
    using p1 xy(1) room(2) cs(7) [of y] by simp_all
  moreover have "k \<in> insert x S" if "brefs (bufs s1) k \<noteq> 0" for k
    using p1 that cs(6) [of k] by (auto split: if_splits)
  ultimately obtain b2 s2 where 2: "bread ROOTDEV y s1 = Ok (b2, s2)" "bread_post y b2 s1 s2"
    using bread_within [of s1 y "insert x S"] p1 f1 xy(3) cs(5) by auto
  note p2 = 2(2) [unfolded bread_post_def]
  have f2: "in_proc s2" "klog s2 = klog s" using p2 f1 frame_klog frame_in_proc by metis+
  have h2: "bheld s2 b1 x" "bheld s2 b2 y" using p1 p2 by blast+
  have d2: "b_data (bufs s2 b2) = bview s y" "length (bview s y) = 1024"
    using bheld_data [OF _ h2(2)] bheld_length [OF _ h2(2)] p1 p2 by simp_all
  let ?s3 = "put_data b1 (bview s y) s2"
  note p3 = put_data_ok [OF _ h2(1) d2(2)]
  have f3: "bcache_inv ?s3" "in_proc ?s3" "bheld ?s3 b1 x" "bheld ?s3 b2 y" "bview ?s3 = (bview s)(x := bview s y)"
    using p2 p3 h2 f2(1) frame_in_proc [OF p3(2)] p1 by auto
  obtain s4 where 4: "bwrite b1 ?s3 = Ok s4" "bwrite_post x ?s3 s4" using bwrite_ok [OF f3(1-3)] by blast
  note p4 = 4(2) [unfolded bwrite_post_def]
  have f4: "bcache_inv s4" "in_proc s4" "bheld s4 b1 x" "bheld s4 b2 y" "bview s4 = (bview s)(x := bview s y)"
    using p4 f3 frame_in_proc [of ?s3 s4] by auto
  have r4: "brefs (bufs s4) = (brefs (bufs s))(x := Suc (brefs (bufs s) x), y := Suc (brefs (bufs s) y))"
    using p4 p3(5) p2 p1 xy(1) by auto
  obtain s5 where 5: "brelse b2 s4 = Ok s5" "brelse_post y b2 s4 s5"
    using brelse_ok [OF f4(1,2,4)] r4 room(2) by auto
  note p5 = 5(2) [unfolded brelse_post_def]
  have "b1 \<noteq> b2" using h2 xy(1) by (auto simp: bheld_def)
  then have f5: "bcache_inv s5" "in_proc s5" "bheld s5 b1 x" using p5 f4 frame_in_proc [of s4 s5] by auto
  have "bview s5 x = dview (img s5) x" using p5 p4 f4(5) f3(5) by simp
  then obtain t where 6: "brelse b1 s5 = Ok t" "brelse_post x b1 s5 t" using brelse_ok [OF f5] by blast
  note p6 = 6(2) [unfolded brelse_post_def]
  have call: "write_log_loop (tail # ts) s = write_log_loop ts t"
    using 1(1) 2(1) 4(1) 5(1) 6(1) d2(1) cs(3) f1(2) by (simp add: x y)
  have view: "bview t = (bview s)(x := bview s y)" using p6 p5 f4(5) by simp
  have refs: "brefs (bufs t) = brefs (bufs s)" using p6 p5 r4 xy(1) by (auto simp: fun_eq_iff)
  have bl: "blocked t = blocked s" using p6 p5 p4 p3(4) p2 p1 cs(4) xy(1) by (auto simp: fun_eq_iff)
  have "bcache_inv s1" "bcache_inv s2" "bview ?s3 x = bview s y" using p1 p2 f3(5) by simp_all
  then have tr: "dtrace s t [(x, bview s y)]"
    using dtrace_brelse [OF 6(2) f5(1)] dtrace_brelse [OF 5(2) f4(1)] dtrace_bwrite [OF 4(2)]
      dtrace_put [OF _ h2(1) d2(2)] dtrace_bread [OF 2(2)] dtrace_bread [OF 1(2) cs(1)]
    by (metis (no_types, lifting) dtrace_trans append_Nil append_Nil2)
  have "calm t S" by (rule calm_frame [OF c _ _ bl]) (use p6 tr refs in \<open>auto simp: dtrace_def\<close>)
  then show ?thesis using call tr view refs by blast
qed

lemma install_trans_step:
  assumes c: "calm s S" and xy: "x \<noteq> y" "x < 0x80000000" "y < 0x80000000"
    and x: "l_start (klog s) + of_nat tail + 1 = x" and y: "lh_block (l_lh (klog s)) tail = y"
    and room: "brefs (bufs s) x \<noteq> 0 \<or> card S < 30" "brefs (bufs s) y \<noteq> 0 \<or> card (insert x S) < 30"
    and pinned: "\<not> recovering \<Longrightarrow> brefs (bufs s) y \<noteq> 0" and clean: "bview s x = dview (img s) x"
  shows "\<exists>t. install_trans_loop recovering (tail # ts) s = install_trans_loop recovering ts t \<and> calm t S \<and>
    dtrace s t [(y, bview s x)] \<and> bview t = (bview s)(y := bview s x) \<and>
    brefs (bufs t) = (if recovering then brefs (bufs s) else (brefs (bufs s))(y := brefs (bufs s) y - 1))"
proof -
  note cs = calmD [OF c]
  obtain b1 s1 where 1: "bread ROOTDEV x s = Ok (b1, s1)" "bread_post x b1 s s1"
    using bread_within [OF cs(1,2) xy(2) cs(4) _ cs(5,6) room(1)] cs(7) [of x] by auto
  note p1 = 1(2) [unfolded bread_post_def]
  have f1: "in_proc s1" "klog s1 = klog s" using p1 cs(2) frame_klog frame_in_proc by blast+
  have "\<not> blocked s1 y" using p1 cs(4) xy(1) by simp
  moreover have "brefs (bufs s1) y \<noteq> 0 \<or> card (insert x S) < 30" "brefs (bufs s1) y < 4294967295"
    using p1 xy(1) room(2) cs(7) [of y] by simp_all
  moreover have "k \<in> insert x S" if "brefs (bufs s1) k \<noteq> 0" for k
    using p1 that cs(6) [of k] by (auto split: if_splits)
  ultimately obtain b2 s2 where 2: "bread ROOTDEV y s1 = Ok (b2, s2)" "bread_post y b2 s1 s2"
    using bread_within [of s1 y "insert x S"] p1 f1 xy(3) cs(5) by auto
  note p2 = 2(2) [unfolded bread_post_def]
  have f2: "in_proc s2" "klog s2 = klog s" using p2 f1 frame_klog frame_in_proc by metis+
  have h2: "bheld s2 b1 x" "bheld s2 b2 y" using p1 p2 by blast+
  have d2: "b_data (bufs s2 b1) = bview s x" "length (bview s x) = 1024"
    using bheld_data [OF _ h2(1)] bheld_length [OF _ h2(1)] p1 p2 by simp_all
  let ?s3 = "put_data b2 (bview s x) s2"
  note p3 = put_data_ok [OF _ h2(2) d2(2)]
  have f3: "bcache_inv ?s3" "in_proc ?s3" "bheld ?s3 b2 y" "bheld ?s3 b1 x" "bview ?s3 = (bview s)(y := bview s x)"
    using p2 p3 h2 f2(1) frame_in_proc [OF p3(2)] p1 by auto
  obtain s4 where 4: "bwrite b2 ?s3 = Ok s4" "bwrite_post y ?s3 s4" using bwrite_ok [OF f3(1-3)] by blast
  note p4 = 4(2) [unfolded bwrite_post_def]
  have f4: "bcache_inv s4" "in_proc s4" "bheld s4 b1 x" "bheld s4 b2 y" "bview s4 = (bview s)(y := bview s x)"
    using p4 f3 frame_in_proc [of ?s3 s4] by auto
  have dv4: "dview (img s4) = (dview (img s))(y := bview s x)" using p4 p3(7) p2 p1 f3(5) by simp
  have r4: "brefs (bufs s4) = (brefs (bufs s))(x := Suc (brefs (bufs s) x), y := Suc (brefs (bufs s) y))"
    using p4 p3(5) p2 p1 xy(1) by auto
  let ?r = "if recovering then Suc (brefs (bufs s) y) else brefs (bufs s) y"
  have "\<exists>s5. (if \<not> recovering then bunpin b2 s4 else Ok s4) = Ok s5 \<and> bpin_post y ?r s4 s5"
  proof (cases recovering)
    case True
    then show ?thesis using f4(1) r4 by (simp add: bpin_post_def)
  next
    case False
    have "\<not> lks s4 BcacheLock" using f4(2) by (auto elim: in_procE)
    then show ?thesis using bunpin_ok [OF f4(1) _ bheld_slot [OF f4(1,4)]] False pinned r4 by simp
  qed
  then obtain s5 where 5: "(if \<not> recovering then bunpin b2 s4 else Ok s4) = Ok s5" "bpin_post y ?r s4 s5" by blast
  note p5 = 5(2) [unfolded bpin_post_def]
  have f5: "bcache_inv s5" "in_proc s5" "bheld s5 b1 x" "bheld s5 b2 y" using p5 f4 frame_in_proc [of s4 s5] by auto
  have "bview s5 x = dview (img s5) x" using p5 f4(5) dv4 clean xy(1) by simp
  then obtain s6 where 6: "brelse b1 s5 = Ok s6" "brelse_post x b1 s5 s6" using brelse_ok [OF f5(1-3)] by blast
  note p6 = 6(2) [unfolded brelse_post_def]
  have "b1 \<noteq> b2" using h2 xy(1) by (auto simp: bheld_def)
  then have f6: "bcache_inv s6" "in_proc s6" "bheld s6 b2 y" using p6 f5 frame_in_proc [of s5 s6] by auto
  have "bview s6 y = dview (img s6) y" using p6 p5 f4(5) dv4 by simp
  then obtain t where 7: "brelse b2 s6 = Ok t" "brelse_post y b2 s6 t" using brelse_ok [OF f6] by blast
  note p7 = 7(2) [unfolded brelse_post_def]
  have call: "install_trans_loop recovering (tail # ts) s = install_trans_loop recovering ts t"
    using 1(1) 2(1) 4(1) 5(1) 6(1) 7(1) d2(1) cs(3) f1(2) by (simp add: x y)
  have view: "bview t = (bview s)(y := bview s x)" using p7 p6 p5 f4(5) by simp
  have refs: "brefs (bufs t) = (if recovering then brefs (bufs s) else (brefs (bufs s))(y := brefs (bufs s) y - 1))"
    using p7 p6 p5 r4 xy(1) by (auto simp: fun_eq_iff)
  have bl: "blocked t = blocked s" using p7 p6 p5 p4 p3(4) p2 p1 cs(4) xy(1) by (auto simp: fun_eq_iff)
  have "bcache_inv s1" "bcache_inv s2" "bview ?s3 y = bview s x" using p1 p2 f3(5) by simp_all
  then have tr: "dtrace s t [(y, bview s x)]"
    using dtrace_brelse [OF 7(2) f6(1)] dtrace_brelse [OF 6(2) f5(1)] dtrace_bpin [OF 5(2) f4(1)] dtrace_bwrite [OF 4(2)]
      dtrace_put [OF _ h2(2) d2(2)] dtrace_bread [OF 2(2)] dtrace_bread [OF 1(2) cs(1)]
    by (metis (no_types, lifting) dtrace_trans append_Nil append_Nil2)
  have le: "brefs (bufs t) n \<le> brefs (bufs s) n" for n using refs by simp
  have "calm t S" by (rule calm_frame [OF c _ _ bl le]) (use p7 tr in \<open>auto simp: dtrace_def\<close>)
  then show ?thesis using call tr view refs by blast
qed

section \<open>The loops\<close>

definition log_blk :: "klog \<Rightarrow> nat \<Rightarrow> u32" where
  "log_blk l i = l_start l + of_nat i + 1"

definition home_blk :: "klog \<Rightarrow> nat \<Rightarrow> u32" where
  "home_blk l i = lh_block (l_lh l) i"

text \<open>The blocks of the log and the home blocks do not overlap, and are addressable.\<close>

definition log_apart :: "klog \<Rightarrow> nat set \<Rightarrow> bool" where
  "log_apart l I \<longleftrightarrow> l_start l < 0x80000000 \<and> (\<forall>i \<in> I. log_blk l i < 0x80000000 \<and> home_blk l i < 0x80000000 \<and>
     home_blk l i \<noteq> l_start l \<and> log_blk l i \<noteq> l_start l \<and> (\<forall>j \<in> I. log_blk l i \<noteq> home_blk l j))"

lemma log_apart_mono: "\<lbrakk>log_apart l I; J \<subseteq> I\<rbrakk> \<Longrightarrow> log_apart l J"
  unfolding log_apart_def by blast

lemma log_apartD:
  "\<lbrakk>log_apart l I; i \<in> I\<rbrakk> \<Longrightarrow> log_blk l i < 0x80000000 \<and> home_blk l i < 0x80000000"
  "\<lbrakk>log_apart l I; i \<in> I; j \<in> I\<rbrakk> \<Longrightarrow> log_blk l i \<noteq> home_blk l j"
  by (auto simp: log_apart_def)

lemma write_log_loop_ok:
  assumes "calm s S" "log_apart (klog s) (set ts)" "\<And>i. i \<in> set ts \<Longrightarrow> brefs (bufs s) (home_blk (klog s) i) \<noteq> 0"
    "card S < 30"
  shows "\<exists>t. write_log_loop ts s = Ok t \<and> calm t S \<and> brefs (bufs t) = brefs (bufs s) \<and>
    dtrace s t (map (\<lambda>i. (log_blk (klog s) i, bview s (home_blk (klog s) i))) ts) \<and>
    bview t = upds (bview s) (map (\<lambda>i. (log_blk (klog s) i, bview s (home_blk (klog s) i))) ts)"
  using assms
proof (induction ts arbitrary: s)
  case Nil
  then show ?case using dtrace_idle [of s s] calmD(1) by auto
next
  case (Cons i ts)
  let ?x = "log_blk (klog s) i" and ?y = "home_blk (klog s) i"
  have "?x \<noteq> ?y" "?x < 0x80000000" "?y < 0x80000000" "brefs (bufs s) ?y \<noteq> 0"
    using log_apartD [OF Cons.prems(2), of i] Cons.prems(3) by auto
  then obtain t where t: "write_log_loop (i # ts) s = write_log_loop ts t" "calm t S" "dtrace s t [(?x, bview s ?y)]"
    "bview t = (bview s)(?x := bview s ?y)" "brefs (bufs t) = brefs (bufs s)"
    using write_log_step [OF Cons.prems(1), of ?x ?y i ts] Cons.prems(4) log_blk_def home_blk_def by metis
  have k: "klog t = klog s" using t(3) frame_klog by (auto simp: dtrace_def)
  have v: "bview t (home_blk (klog s) j) = bview s (home_blk (klog s) j)" if "j \<in> set ts" for j
    using log_apartD(2) [OF Cons.prems(2), of i j] that by (simp add: t(4))
  then have ws: "map (\<lambda>i. (log_blk (klog t) i, bview t (home_blk (klog t) i))) ts =
      map (\<lambda>i. (log_blk (klog s) i, bview s (home_blk (klog s) i))) ts" by (simp add: k)
  have ap: "log_apart (klog t) (set ts)" using log_apart_mono [OF Cons.prems(2)] k by auto
  have pin: "brefs (bufs t) (home_blk (klog t) j) \<noteq> 0" if "j \<in> set ts" for j
    using Cons.prems(3) [of j] that by (simp add: k t(5))
  obtain u where u: "write_log_loop ts t = Ok u" "calm u S" "brefs (bufs u) = brefs (bufs t)"
    "dtrace t u (map (\<lambda>i. (log_blk (klog s) i, bview s (home_blk (klog s) i))) ts)"
    "bview u = upds (bview t) (map (\<lambda>i. (log_blk (klog s) i, bview s (home_blk (klog s) i))) ts)"
    using Cons.IH [OF t(2) ap pin Cons.prems(4), unfolded ws] by blast
  then show ?case using t dtrace_trans [OF t(3) u(4)] by auto
qed

text \<open>
  Installing: the home blocks get the contents of the log blocks.  During a commit the home blocks
  are pinned and each is unpinned once.
\<close>

lemma install_trans_loop_ok:
  assumes "calm s S" "log_apart (klog s) (set ts)" "distinct (map (home_blk (klog s)) ts) \<or> recovering"
    "\<And>i. i \<in> set ts \<Longrightarrow> bview s (log_blk (klog s) i) = dview (img s) (log_blk (klog s) i)"
    "\<not> recovering \<Longrightarrow> card S < 30 \<and> (\<forall>i \<in> set ts. brefs (bufs s) (home_blk (klog s) i) \<noteq> 0)"
    "recovering \<Longrightarrow> card S < 29"
  shows "\<exists>t. install_trans_loop recovering ts s = Ok t \<and> calm t S \<and>
    brefs (bufs t) = (\<lambda>n. if \<not> recovering \<and> n \<in> home_blk (klog s) ` set ts then brefs (bufs s) n - 1 else brefs (bufs s) n) \<and>
    dtrace s t (map (\<lambda>i. (home_blk (klog s) i, bview s (log_blk (klog s) i))) ts) \<and>
    bview t = upds (bview s) (map (\<lambda>i. (home_blk (klog s) i, bview s (log_blk (klog s) i))) ts)"
  using assms
proof (induction ts arbitrary: s)
  case Nil
  then show ?case using dtrace_idle [of s s] calmD(1) by auto
next
  case (Cons i ts)
  let ?x = "log_blk (klog s) i" and ?y = "home_blk (klog s) i"
  let ?r = "if recovering then brefs (bufs s) else (brefs (bufs s))(?y := brefs (bufs s) ?y - 1)"
  have xy: "?x \<noteq> ?y" "?x < 0x80000000" "?y < 0x80000000" "bview s ?x = dview (img s) ?x"
    using log_apartD [OF Cons.prems(2), of i] Cons.prems(4) by auto
  have hx: "l_start (klog s) + of_nat i + 1 = ?x" and hy: "lh_block (l_lh (klog s)) i = ?y"
    by (simp_all add: log_blk_def home_blk_def)
  have "card (insert ?x S) \<le> Suc (card S)" using card_insert_le_m1 calmD(5) [OF Cons.prems(1)] by (simp add: card_insert_if)
  then have rm: "brefs (bufs s) ?x \<noteq> 0 \<or> card S < 30" "brefs (bufs s) ?y \<noteq> 0 \<or> card (insert ?x S) < 30"
    "\<not> recovering \<Longrightarrow> brefs (bufs s) ?y \<noteq> 0"
    using Cons.prems(5,6) by (cases recovering; auto)+
  obtain t where t: "install_trans_loop recovering (i # ts) s = install_trans_loop recovering ts t" "calm t S"
    "dtrace s t [(?y, bview s ?x)]" "bview t = (bview s)(?y := bview s ?x)" "brefs (bufs t) = ?r"
    using install_trans_step [where recovering = recovering and ts = ts, OF Cons.prems(1) xy(1-3) hx hy rm xy(4)] by blast
  have k: "klog t = klog s" and dv: "dview (img t) = (dview (img s))(?y := bview s ?x)"
    using t(3) frame_klog by (auto simp: dtrace_def dsteps_def)
  have v: "bview t (log_blk (klog s) j) = bview s (log_blk (klog s) j)"
    "dview (img t) (log_blk (klog s) j) = dview (img s) (log_blk (klog s) j)" if "j \<in> set ts" for j
    using log_apartD(2) [OF Cons.prems(2), of j i] that by (auto simp: t(4) dv)
  then have ws: "map (\<lambda>i. (home_blk (klog t) i, bview t (log_blk (klog t) i))) ts =
      map (\<lambda>i. (home_blk (klog s) i, bview s (log_blk (klog s) i))) ts" by (simp add: k)
  have ap: "log_apart (klog t) (set ts)" using log_apart_mono [OF Cons.prems(2)] k by auto
  have di: "distinct (map (home_blk (klog t)) ts) \<or> recovering" using Cons.prems(3) k by auto
  have cl: "bview t (log_blk (klog t) j) = dview (img t) (log_blk (klog t) j)" if "j \<in> set ts" for j
    using Cons.prems(4) [of j] that v [OF that] by (simp add: k)
  have pin: "card S < 30 \<and> (\<forall>j \<in> set ts. brefs (bufs t) (home_blk (klog t) j) \<noteq> 0)" if "\<not> recovering"
  proof -
    have "home_blk (klog s) j \<noteq> ?y" if "j \<in> set ts" for j
      using Cons.prems(3) \<open>\<not> recovering\<close> that by (auto simp: rev_image_eqI)
    then show ?thesis using Cons.prems(5) that by (auto simp: k t(5))
  qed
  obtain u where u: "install_trans_loop recovering ts t = Ok u" "calm u S"
    "brefs (bufs u) = (\<lambda>n. if \<not> recovering \<and> n \<in> home_blk (klog t) ` set ts then brefs (bufs t) n - 1 else brefs (bufs t) n)"
    "dtrace t u (map (\<lambda>i. (home_blk (klog s) i, bview s (log_blk (klog s) i))) ts)"
    "bview u = upds (bview t) (map (\<lambda>i. (home_blk (klog s) i, bview s (log_blk (klog s) i))) ts)"
    using Cons.IH [OF t(2) ap di cl pin Cons.prems(6), unfolded ws] by blast
  have "brefs (bufs u) = (\<lambda>n. if \<not> recovering \<and> n \<in> home_blk (klog s) ` set (i # ts) then brefs (bufs s) n - 1 else brefs (bufs s) n)"
    using Cons.prems(3) by (auto simp: u(3) t(5) k fun_eq_iff)
  then show ?case using t u dtrace_trans [OF t(3) u(4)] by auto
qed

section \<open>The header block\<close>

definition put_blocks :: "(nat \<Rightarrow> u32) \<Rightarrow> nat list \<Rightarrow> u8 list \<Rightarrow> u8 list" where
  "put_blocks f is d = fold (\<lambda>i d. put32 d (4 + 4 * i) (f i)) is d"

lemma put_blocks_ok:
  "\<lbrakk>length d = 1024; \<forall>i \<in> set is. i < 30; distinct is\<rbrakk> \<Longrightarrow>
   length (put_blocks f is d) = 1024 \<and> get32 (put_blocks f is d) 0 = get32 d 0 \<and>
   (\<forall>i < 30. get32 (put_blocks f is d) (4 + 4 * i) = (if i \<in> set is then f i else get32 d (4 + 4 * i)))"
proof (induction "is" arbitrary: d)
  case (Cons j js)
  let ?d = "put32 d (4 + 4 * j) (f j)"
  have j: "j < 30" "length ?d = 1024" "get32 ?d 0 = get32 d 0" using Cons.prems by (auto simp: get32_put32_other)
  have g: "get32 ?d (4 + 4 * i) = (if i = j then f j else get32 d (4 + 4 * i))" if "i < 30" for i
  proof (cases "i = j")
    case False
    then have "get32 ?d (4 + 4 * i) = get32 d (4 + 4 * i)"
      using that j(1) Cons.prems(1) by (intro get32_put32_other; presburger)
    then show ?thesis using False by simp
  qed (use j(1) Cons.prems(1) in simp)
  have "put_blocks f (j # js) d = put_blocks f js ?d" by (simp add: put_blocks_def)
  then show ?case using Cons.IH [OF j(2)] Cons.prems j(3) g by auto
qed (simp add: put_blocks_def)

lemma put_head_ok:
  assumes "length d = 1024" "lh_n lh \<le> 30"
  shows "length (put_head lh d) = 1024" "get32 (put_head lh d) 0 = of_int (lh_n lh)"
    "int i < lh_n lh \<Longrightarrow> get32 (put_head lh d) (4 + 4 * i) = lh_block lh i"
proof -
  have "\<forall>i \<in> set [0..<nat (lh_n lh)]. i < 30" using assms(2) by auto
  then have "length (put_head lh d) = 1024 \<and> get32 (put_head lh d) 0 = of_int (lh_n lh) \<and>
      (\<forall>i < 30. get32 (put_head lh d) (4 + 4 * i) = (if i < nat (lh_n lh) then lh_block lh i
        else get32 (put32 d 0 (of_int (lh_n lh))) (4 + 4 * i)))"
    using put_blocks_ok [of "put32 d 0 (of_int (lh_n lh))" "[0..<nat (lh_n lh)]" "lh_block lh"] assms(1)
    by (simp add: put_head_def put_blocks_def)
  then show "length (put_head lh d) = 1024" "get32 (put_head lh d) 0 = of_int (lh_n lh)"
    "int i < lh_n lh \<Longrightarrow> get32 (put_head lh d) (4 + 4 * i) = lh_block lh i"
    using assms(2) by auto
qed

lemma sint_small: "\<lbrakk>0 \<le> n; n \<le> 30\<rbrakk> \<Longrightarrow> sint (of_int n :: u32) = n"
  by (simp add: signed_of_int signed_take_bit_int_eq_self)

lemma bview_clean: "\<lbrakk>bcache_inv s; brefs (bufs s) n = 0\<rbrakk> \<Longrightarrow> bview s n = dview (img s) n"
proof (cases "bslot (bufs s) n")
  case (Some i)
  assume inv: "bcache_inv s" and z: "brefs (bufs s) n = 0"
  have "i < 30" "b_dev (bufs s i) = ROOTDEV" "b_blockno (bufs s i) = n" using bslot_Some [OF Some] by auto
  moreover have "b_refcnt (bufs s i) = 0" using z Some by (simp add: brefs_def unat_eq_zero)
  ultimately show ?thesis
    using bcache_invD(6) [OF inv, of i] Some by (auto simp: bview_def dview_def buf_ok_def)
qed (simp add: bview_def)

lemma write_head_ok:
  assumes c: "calm s S" and x: "l_start (klog s) < 0x80000000" "card S < 30" and n: "lh_n (l_lh (klog s)) \<le> 30"
  defines "h \<equiv> put_head (l_lh (klog s)) (bview s (l_start (klog s)))"
  shows "\<exists>t. write_head s = Ok t \<and> calm t S \<and> brefs (bufs t) = brefs (bufs s) \<and>
    dtrace s t [(l_start (klog s), h)] \<and> bview t = (bview s)(l_start (klog s) := h)"
proof -
  let ?x = "l_start (klog s)"
  note cs = calmD [OF c]
  obtain b s1 where 1: "bread ROOTDEV ?x s = Ok (b, s1)" "bread_post ?x b s s1"
    using bread_within [OF cs(1,2) x(1) cs(4) _ cs(5,6)] cs(7) [of ?x] x(2) by auto
  note p1 = 1(2) [unfolded bread_post_def]
  have f1: "bcache_inv s1" "in_proc s1" "klog s1 = klog s" "bheld s1 b ?x" using p1 cs(2) frame_klog frame_in_proc by blast+
  have d: "b_data (bufs s1 b) = bview s ?x" "length (bview s ?x) = 1024"
    using bheld_data [OF f1(1,4)] bheld_length [OF f1(1,4)] p1 by simp_all
  have h: "length h = 1024" unfolding h_def by (rule put_head_ok(1) [OF d(2) n])
  let ?s2 = "put_data b h s1"
  note p2 = put_data_ok [OF f1(1,4) h]
  have f2: "bcache_inv ?s2" "in_proc ?s2" "bheld ?s2 b ?x" using p2 f1 frame_in_proc [OF p2(2)] by auto
  obtain s3 where 3: "bwrite b ?s2 = Ok s3" "bwrite_post ?x ?s2 s3" using bwrite_ok [OF f2] by blast
  note p3 = 3(2) [unfolded bwrite_post_def]
  have f3: "bcache_inv s3" "in_proc s3" "bheld s3 b ?x" using p3 f2 frame_in_proc [of ?s2 s3] by auto
  have "bview s3 ?x = dview (img s3) ?x" using p3 p2(3) by simp
  then obtain t where 4: "brelse b s3 = Ok t" "brelse_post ?x b s3 t" using brelse_ok [OF f3] by blast
  note p4 = 4(2) [unfolded brelse_post_def]
  have call: "write_head s = Ok t" using 1(1) 3(1) 4(1) d(1) cs(3) f1(3) by (simp add: write_head_def h_def)
  have view: "bview t = (bview s)(?x := h)" using p4 p3 p2(3) p1 by simp
  have refs: "brefs (bufs t) = brefs (bufs s)" using p4 p3 p2(5) p1 by (auto simp: fun_eq_iff)
  have bl: "blocked t = blocked s" using p4 p3 p2(4) p1 cs(4) by (auto simp: fun_eq_iff)
  have "bview ?s2 ?x = h" using p2(3) by simp
  then have tr: "dtrace s t [(?x, h)]"
    using dtrace_brelse [OF 4(2) f3(1)] dtrace_bwrite [OF 3(2)] dtrace_put [OF f1(1,4) h] dtrace_bread [OF 1(2) cs(1)]
    by (metis (no_types, lifting) dtrace_trans append_Nil append_Nil2)
  have "calm t S" by (rule calm_frame [OF c _ _ bl]) (use p4 tr refs in \<open>auto simp: dtrace_def\<close>)
  then show ?thesis using call tr view refs by blast
qed

section \<open>Recovery\<close>

text \<open>What the header block of a disk says, and the disk that recovery makes of it.\<close>

definition hdr_n :: "klog \<Rightarrow> (u32 \<Rightarrow> u8 list) \<Rightarrow> int" where
  "hdr_n l D = sint (get32 (D (l_start l)) 0)"

definition hdr_blk :: "klog \<Rightarrow> (u32 \<Rightarrow> u8 list) \<Rightarrow> nat \<Rightarrow> u32" where
  "hdr_blk l D i = get32 (D (l_start l)) (4 + 4 * i)"

definition redo :: "klog \<Rightarrow> (u32 \<Rightarrow> u8 list) \<Rightarrow> bwrites" where
  "redo l D = map (\<lambda>i. (hdr_blk l D i, D (log_blk l i))) [0..<nat (hdr_n l D)]"

text \<open>The log area, which no file-system block lies in.\<close>

definition log_area :: "klog \<Rightarrow> u32 set" where
  "log_area l = insert (l_start l) (log_blk l ` {..<LOGSIZE})"

definition log_placed :: "klog \<Rightarrow> bool" where
  "log_placed l \<longleftrightarrow> l_dev l = ROOTDEV \<and> (\<forall>n \<in> log_area l. n < 0x80000000) \<and> l_start l \<notin> log_blk l ` {..<LOGSIZE} \<and>
     inj_on (log_blk l) {..<LOGSIZE}"

definition home_ok :: "klog \<Rightarrow> u32 set \<Rightarrow> bool" where
  "home_ok l H \<longleftrightarrow> (\<forall>n \<in> H. n < 0x80000000 \<and> n \<notin> log_area l)"

lemma klog_upd [simp]:
  "bcache_inv (s\<lparr>klog := k\<rparr>) = bcache_inv s" "in_proc (s\<lparr>klog := k\<rparr>) = in_proc s" "bheld (s\<lparr>klog := k\<rparr>) b n = bheld s b n"
  "bview (s\<lparr>klog := k\<rparr>) = bview s" "blocked (s\<lparr>klog := k\<rparr>) = blocked s"
  by (simp_all add: bcache_inv_def lru_def in_proc_def quiet_def bheld_def bview_def blocked_def fun_eq_iff split: option.split)

lemma read_head_ok:
  assumes c: "calm s S" and x: "l_start (klog s) < 0x80000000" "card S < 30" and z: "brefs (bufs s) (l_start (klog s)) = 0"
    and n: "hdr_n (klog s) (bview s) \<le> 30"
  shows "\<exists>t. read_head s = Ok t \<and> calm t S \<and> brefs (bufs t) = brefs (bufs s) \<and> bview t = bview s \<and> img t = img s \<and>
    klog t = (klog s)\<lparr>l_lh := \<lparr>lh_n = hdr_n (klog s) (bview s), lh_block = (\<lambda>i. if int i < hdr_n (klog s) (bview s)
      then hdr_blk (klog s) (bview s) i else lh_block (l_lh (klog s)) i)\<rparr>\<rparr>"
proof -
  let ?x = "l_start (klog s)"
  note cs = calmD [OF c]
  obtain b s1 where 1: "bread ROOTDEV ?x s = Ok (b, s1)" "bread_post ?x b s s1"
    using bread_within [OF cs(1,2) x(1) cs(4) _ cs(5,6)] cs(7) [of ?x] x(2) by auto
  note p1 = 1(2) [unfolded bread_post_def]
  have f1: "bcache_inv s1" "in_proc s1" "klog s1 = klog s" "bheld s1 b ?x" using p1 cs(2) frame_klog frame_in_proc by blast+
  have d: "b_data (bufs s1 b) = bview s ?x" using bheld_data [OF f1(1,4)] p1 by simp
  let ?k = "(klog s)\<lparr>l_lh := \<lparr>lh_n = hdr_n (klog s) (bview s), lh_block = (\<lambda>i. if int i < hdr_n (klog s) (bview s)
      then hdr_blk (klog s) (bview s) i else lh_block (l_lh (klog s)) i)\<rparr>\<rparr>"
  let ?s2 = "s1\<lparr>klog := ?k\<rparr>"
  have f2: "bcache_inv ?s2" "in_proc ?s2" "bheld ?s2 b ?x" "bview ?s2 = bview s1" "blocked ?s2 = blocked s1" "bufs ?s2 = bufs s1"
    using f1 by simp_all
  have "bview ?s2 ?x = dview (img ?s2) ?x" using p1 bview_clean [OF cs(1) z] f2(4) by simp
  then obtain t where 3: "brelse b ?s2 = Ok t" "brelse_post ?x b ?s2 t" using brelse_ok [OF f2(1-3)] by blast
  note p3 = 3(2) [unfolded brelse_post_def]
  have "read_head s = brelse b ?s2"
    using 1(1) d cs(3) f1(3) n by (simp add: read_head_def set_log_def Let_def hdr_n_def hdr_blk_def cong: if_cong)
  moreover have refs: "brefs (bufs t) = brefs (bufs s)" using p3 p1 f2(6) by (auto simp: fun_eq_iff)
  moreover have bl: "blocked t = blocked s" using p3 p1 cs(4) f2(5) by (auto simp: fun_eq_iff)
  moreover have k: "klog t = ?k" "in_proc t" using p3 frame_klog [of ?s2 t] frame_in_proc [of ?s2 t] f2(2) by auto
  moreover have "calm t S" using c p3 refs bl k unfolding calm_def by (auto simp: fun_eq_iff)
  ultimately show ?thesis using 3(1) p3 p1 f2(4) by auto
qed

lemma log_apartI:
  assumes "log_placed l" "home_ok l (home_blk l ` I)" "I \<subseteq> {..<30}"
  shows "log_apart l I"
  using assms by (auto simp: log_apart_def log_placed_def home_ok_def log_area_def) (metis imageI subsetD)+

lemma calm_klog: "\<lbrakk>calm s S; l_dev k = ROOTDEV\<rbrakk> \<Longrightarrow> calm (s\<lparr>klog := k\<rparr>) S"
  by (simp add: calm_def)

lemma recover_ok:
  assumes c: "calm s {}" and pl: "log_placed (klog s)" and n: "hdr_n (klog s) (dview (img s)) \<le> 30"
    and home: "home_ok (klog s) (hdr_blk (klog s) (dview (img s)) ` {..<nat (hdr_n (klog s) (dview (img s)))})"
  shows "\<exists>t h. recover_from_log s = Ok t \<and> calm t {} \<and> lh_n (l_lh (klog t)) = 0 \<and> get32 h 0 = 0 \<and>
    l_start (klog t) = l_start (klog s) \<and>
    dview (img t) = upds (dview (img s)) (redo (klog s) (dview (img s)) @ [(l_start (klog s), h)])"
proof -
  let ?l = "klog s" and ?D = "dview (img s)"
  have z: "brefs (bufs s) k = 0" for k using calmD(6) [OF c, of k] by auto
  have D: "bview s = ?D" using bview_clean [OF calmD(1) [OF c]] z by (auto simp: fun_eq_iff)
  have st: "l_start ?l < 0x80000000" using pl by (simp add: log_placed_def log_area_def)
  obtain s1 where 1: "read_head s = Ok s1" "calm s1 {}" "bview s1 = ?D" "img s1 = img s"
    and k1: "klog s1 = ?l\<lparr>l_lh := \<lparr>lh_n = hdr_n ?l ?D, lh_block = (\<lambda>i. if int i < hdr_n ?l ?D
      then hdr_blk ?l ?D i else lh_block (l_lh ?l) i)\<rparr>\<rparr>"
    using read_head_ok [OF c st _ z, unfolded D, OF _ n] by auto
  let ?ts = "[0..<nat (hdr_n ?l ?D)]"
  have blk: "log_blk (klog s1) = log_blk ?l" "\<And>i. i \<in> set ?ts \<Longrightarrow> home_blk (klog s1) i = hdr_blk ?l ?D i"
    by (auto simp: k1 log_blk_def home_blk_def fun_eq_iff)
  have "home_blk (klog s1) ` set ?ts = hdr_blk ?l ?D ` {..<nat (hdr_n ?l ?D)}" using blk(2) by force
  moreover have "log_placed (klog s1)" "log_area (klog s1) = log_area ?l"
    using pl by (simp_all add: log_placed_def log_area_def blk) (simp_all add: k1)
  ultimately have ap: "log_apart (klog s1) (set ?ts)" using home n by (intro log_apartI) (auto simp: home_ok_def)
  have ws: "map (\<lambda>i. (home_blk (klog s1) i, bview s1 (log_blk (klog s1) i))) ?ts = redo ?l ?D"
    unfolding redo_def by (rule map_cong [OF refl]) (simp add: blk 1(3))
  have z1: "brefs (bufs s1) k = 0" for k using calmD(6) [OF 1(2), of k] by auto
  obtain s2 where 2: "install_trans_loop True ?ts s1 = Ok s2" "calm s2 {}" "dtrace s1 s2 (redo ?l ?D)"
    using install_trans_loop_ok [OF 1(2) ap, of True, unfolded ws] bview_clean [OF calmD(1) [OF 1(2)] z1] by auto
  have k2: "klog s2 = klog s1" using 2(3) frame_klog by (auto simp: dtrace_def)
  let ?s3 = "set_lh_n 0 s2"
  have 3: "calm ?s3 {}" "klog ?s3 = (klog s1)\<lparr>l_lh := (l_lh (klog s1))\<lparr>lh_n := 0\<rparr>\<rparr>"
    using calm_klog [OF 2(2)] calmD(3) [OF 2(2)] by (auto simp: set_lh_n_def set_log_def k2)
  have st3: "l_start (klog ?s3) = l_start ?l" "lh_n (l_lh (klog ?s3)) = 0" by (simp_all add: 3 k1)
  let ?h = "put_head (l_lh (klog ?s3)) (bview ?s3 (l_start ?l))"
  obtain t where t: "write_head ?s3 = Ok t" "calm t {}" "dtrace ?s3 t [(l_start ?l, ?h)]"
    using write_head_ok [OF 3(1)] st st3 by auto
  have "bview ?s3 (l_start ?l) = dview (img ?s3) (l_start ?l)"
    using bview_clean [OF calmD(1) [OF 3(1)]] calmD(6) [OF 3(1)] by blast
  then have "length (bview ?s3 (l_start ?l)) = 1024"
    using st bcache_invD(4) [OF calmD(1) [OF 3(1)]] by (simp add: dview_def)
  then have "get32 ?h 0 = 0" using put_head_ok(2) st3 by simp
  moreover have "recover_from_log s = Ok t"
    using 1(1) 2(1) t(1) by (simp add: recover_from_log_def install_trans_def k1)
  moreover have "klog t = klog ?s3" using t(3) frame_klog by (auto simp: dtrace_def)
  moreover have "img ?s3 = img s2" by (simp add: set_lh_n_def set_log_def)
  moreover have "dview (img t) = upds ?D (redo ?l ?D @ [(l_start ?l, ?h)])"
    using 2(3) t(3) 1(4) by (simp add: dtrace_def dsteps_def set_lh_n_def set_log_def)
  ultimately show ?thesis using t(2) st3 by metis
qed

section \<open>What a crash leaves\<close>

lemma upds_map_in:
  "\<lbrakk>distinct ts; inj_on y (set ts); j \<in> set ts\<rbrakk> \<Longrightarrow> upds f (map (\<lambda>i. (y i, v i)) ts) (y j) = v j"
proof (induction ts arbitrary: f)
  case (Cons i ts)
  show ?case
  proof (cases "j = i")
    case True
    then have "y j \<notin> y ` set ts" using Cons.prems by (auto simp: inj_on_def)
    then show ?thesis using True by (simp add: upds_other image_image)
  next
    case False
    then show ?thesis using Cons by (simp add: inj_on_def)
  qed
qed simp

lemma upds_map_out: "n \<notin> y ` set ts \<Longrightarrow> upds f (map (\<lambda>i. (y i, v i)) ts) n = f n"
  by (rule upds_other) (simp add: image_image)

lemma upds_upt_in: "\<lbrakk>inj_on y {..<n}; j < n\<rbrakk> \<Longrightarrow> upds f (map (\<lambda>i. (y i, v i)) [0..<n]) (y j) = v j"
  by (rule upds_map_in) (simp_all add: atLeast0LessThan)

lemma upds_upt_out: "\<lbrakk>k \<notin> y ` {..<n}; j \<le> n\<rbrakk> \<Longrightarrow> upds f (map (\<lambda>i. (y i, v i)) [0..<j]) k = f k"
  by (rule upds_map_out) auto

text \<open>
  The writes of a commit: \<open>x i\<close> are the log blocks, \<open>y i\<close> the home blocks, \<open>V\<close> the new contents,
  \<open>h\<close> the header with the list, \<open>h0\<close> the cleared one.
\<close>

definition commit_writes :: "nat \<Rightarrow> (nat \<Rightarrow> u32) \<Rightarrow> (nat \<Rightarrow> u32) \<Rightarrow> u32 \<Rightarrow> (u32 \<Rightarrow> u8 list) \<Rightarrow> u8 list \<Rightarrow> u8 list \<Rightarrow> bwrites" where
  "commit_writes n x y st V h h0 =
     map (\<lambda>i. (x i, V (y i))) [0..<n] @ [(st, h)] @ map (\<lambda>i. (y i, V (y i))) [0..<n] @ [(st, h0)]"

definition crash_old :: "nat \<Rightarrow> (nat \<Rightarrow> u32) \<Rightarrow> u32 \<Rightarrow> (u32 \<Rightarrow> u8 list) \<Rightarrow> (u32 \<Rightarrow> u8 list) \<Rightarrow> bool" where
  "crash_old n x st D0 D \<longleftrightarrow> D st = D0 st \<and> (\<forall>k. k \<notin> insert st (x ` {..<n}) \<longrightarrow> D k = D0 k)"

definition crash_mid :: "nat \<Rightarrow> (nat \<Rightarrow> u32) \<Rightarrow> (nat \<Rightarrow> u32) \<Rightarrow> u32 \<Rightarrow> (u32 \<Rightarrow> u8 list) \<Rightarrow> u8 list \<Rightarrow> (u32 \<Rightarrow> u8 list) \<Rightarrow> (u32 \<Rightarrow> u8 list) \<Rightarrow> bool" where
  "crash_mid n x y st V h D0 D \<longleftrightarrow> D st = h \<and> (\<forall>i < n. D (x i) = V (y i)) \<and>
     (\<forall>k. k \<notin> insert st (x ` {..<n}) \<longrightarrow> k \<notin> y ` {..<n} \<longrightarrow> D k = D0 k)"

definition crash_new :: "nat \<Rightarrow> (nat \<Rightarrow> u32) \<Rightarrow> (nat \<Rightarrow> u32) \<Rightarrow> u32 \<Rightarrow> (u32 \<Rightarrow> u8 list) \<Rightarrow> u8 list \<Rightarrow> (u32 \<Rightarrow> u8 list) \<Rightarrow> (u32 \<Rightarrow> u8 list) \<Rightarrow> bool" where
  "crash_new n x y st V h0 D0 D \<longleftrightarrow> D st = h0 \<and>
     (\<forall>k. k \<notin> insert st (x ` {..<n}) \<longrightarrow> D k = (if k \<in> y ` {..<n} then V k else D0 k))"

lemma crash_done:
  assumes inj: "inj_on y {..<n}"
  shows "crash_new n x y st V h0 D0 (upds D0 (commit_writes n x y st V h h0))"
proof -
  let ?wx = "map (\<lambda>i. (x i, V (y i))) [0..<n]" and ?wy = "map (\<lambda>i. (y i, V (y i))) [0..<n]"
  let ?D = "upds D0 (commit_writes n x y st V h h0)"
  have d: "?D m = (if m = st then h0 else upds ((upds D0 ?wx)(st := h)) ?wy m)" for m by (simp add: commit_writes_def)
  have "?D m = (if m \<in> y ` {..<n} then V m else D0 m)" if "m \<notin> insert st (x ` {..<n})" for m
  proof (cases "m \<in> y ` {..<n}")
    case True
    then obtain i where "i < n" "m = y i" by blast
    then show ?thesis using that upds_upt_in [OF inj] by (simp add: d)
  next
    case False
    then show ?thesis using that upds_upt_out [of m x n n] upds_upt_out [of m y n n] by (simp add: d)
  qed
  then show ?thesis unfolding crash_new_def by (simp add: d)
qed

lemma crash_cases:
  assumes inj: "inj_on x {..<n}" "inj_on y {..<n}"
    and ap: "st \<notin> x ` {..<n}" "st \<notin> y ` {..<n}" "x ` {..<n} \<inter> y ` {..<n} = {}"
  shows "crash_old n x st D0 (upds D0 (take k (commit_writes n x y st V h h0))) \<or>
    crash_mid n x y st V h D0 (upds D0 (take k (commit_writes n x y st V h h0))) \<or>
    crash_new n x y st V h0 D0 (upds D0 (take k (commit_writes n x y st V h h0)))"
proof -
  let ?wx = "map (\<lambda>i. (x i, V (y i))) [0..<n]" and ?wy = "map (\<lambda>i. (y i, V (y i))) [0..<n]"
  have tk: "take j (map f [0..<n]) = map f [0..<min j n]" for j and f :: "nat \<Rightarrow> u32 \<times> u8 list"
    by (simp add: take_map take_upt min_def)
  have "k \<le> n \<or> (\<exists>j \<le> n. k = Suc n + j) \<or> (\<exists>j. k = Suc (Suc (n + n)) + j)" by presburger
  then consider "k \<le> n" | j where "k = Suc n + j" "j \<le> n" | j where "k = Suc (Suc (n + n)) + j" by blast
  then show ?thesis
  proof cases
    case 1
    then have "take k (commit_writes n x y st V h h0) = map (\<lambda>i. (x i, V (y i))) [0..<k]"
      by (simp add: commit_writes_def tk min_def)
    then have "crash_old n x st D0 (upds D0 (take k (commit_writes n x y st V h h0)))"
      using ap(1) 1 unfolding crash_old_def by (simp add: upds_upt_out [where n = n])
    then show ?thesis by blast
  next
    case (2 j)
    then have e: "take k (commit_writes n x y st V h h0) = ?wx @ [(st, h)] @ map (\<lambda>i. (y i, V (y i))) [0..<j]"
      by (simp add: commit_writes_def tk min_def)
    let ?D = "upds D0 (take k (commit_writes n x y st V h h0))"
    have d: "?D m = ((upds D0 ?wx)(st := h)) m" if "m \<notin> y ` {..<n}" for m
      unfolding e upds_simps by (simp add: upds_upt_out [OF that 2(2)])
    have "?D (x i) = V (y i)" if "i < n" for i
    proof -
      have "x i \<notin> y ` {..<n}" "x i \<noteq> st" using ap that by blast+
      then show ?thesis using d [of "x i"] upds_upt_in [OF inj(1) that] by simp
    qed
    moreover have "?D m = D0 m" if "m \<notin> insert st (x ` {..<n})" "m \<notin> y ` {..<n}" for m
      using d [OF that(2)] that(1) upds_upt_out [of m x n n] by simp
    ultimately have "crash_mid n x y st V h D0 ?D"
      using d [OF ap(2)] unfolding crash_mid_def by simp
    then show ?thesis by blast
  next
    case (3 j)
    then have "take k (commit_writes n x y st V h h0) = commit_writes n x y st V h h0"
      by (simp add: commit_writes_def tk min_def)
    then show ?thesis using crash_done [OF inj(2)] by metis
  qed
qed

section \<open>Commit\<close>

text \<open>
  A transaction ready to commit: the listed blocks are distinct, outside the log, each pinned once;
  no buffer is held and nothing else is referenced.
\<close>

definition txn :: "'a lst_scheme \<Rightarrow> nat \<Rightarrow> bool" where
  "txn s n \<longleftrightarrow> lh_n (l_lh (klog s)) = int n \<and> n < 30 \<and> log_placed (klog s) \<and>
     calm s (home_blk (klog s) ` {..<n}) \<and> inj_on (home_blk (klog s)) {..<n} \<and>
     home_ok (klog s) (home_blk (klog s) ` {..<n}) \<and> (\<forall>i < n. brefs (bufs s) (home_blk (klog s) i) = 1)"

lemma txnD:
  assumes "txn s n"
  shows "lh_n (l_lh (klog s)) = int n" "n < 30" "log_placed (klog s)" "calm s (home_blk (klog s) ` {..<n})"
    "inj_on (home_blk (klog s)) {..<n}" "home_ok (klog s) (home_blk (klog s) ` {..<n})"
    "i < n \<Longrightarrow> brefs (bufs s) (home_blk (klog s) i) = 1"
    "inj_on (log_blk (klog s)) {..<n}" "l_start (klog s) \<notin> log_blk (klog s) ` {..<n}"
    "l_start (klog s) \<notin> home_blk (klog s) ` {..<n}" "log_blk (klog s) ` {..<n} \<inter> home_blk (klog s) ` {..<n} = {}"
proof -
  show t: "lh_n (l_lh (klog s)) = int n" "n < 30" "log_placed (klog s)" "calm s (home_blk (klog s) ` {..<n})"
    "inj_on (home_blk (klog s)) {..<n}" "home_ok (klog s) (home_blk (klog s) ` {..<n})"
    "i < n \<Longrightarrow> brefs (bufs s) (home_blk (klog s) i) = 1" using assms by (auto simp: txn_def)
  have sub: "{..<n} \<subseteq> {..<30}" using t(2) by auto
  show "inj_on (log_blk (klog s)) {..<n}" using t(3) by (intro inj_on_subset [OF _ sub]) (simp add: log_placed_def)
  show "l_start (klog s) \<notin> log_blk (klog s) ` {..<n}" using t(3) sub by (auto simp: log_placed_def)
  show "l_start (klog s) \<notin> home_blk (klog s) ` {..<n}" using t(6) unfolding home_ok_def log_area_def by blast
  have "home_blk (klog s) ` {..<n} \<inter> log_blk (klog s) ` {..<30} = {}"
    using t(6) unfolding home_ok_def log_area_def LOGSIZE_eq by blast
  moreover have "log_blk (klog s) ` {..<n} \<subseteq> log_blk (klog s) ` {..<30}" using sub by (rule image_mono)
  ultimately show "log_blk (klog s) ` {..<n} \<inter> home_blk (klog s) ` {..<n} = {}" by (simp only: disjoint_iff subset_iff) blast
qed

lemma commit_ok:
  assumes t: "txn s n" and n0: "0 < n"
  shows "\<exists>t h h0. commit s = Ok t \<and>
    dsteps s t (commit_writes n (log_blk (klog s)) (home_blk (klog s)) (l_start (klog s)) (bview s) h h0) \<and>
    get32 h 0 = of_nat n \<and> (\<forall>i < n. get32 h (4 + 4 * i) = home_blk (klog s) i) \<and> get32 h0 0 = 0 \<and> calm t {} \<and>
    klog t = (klog s)\<lparr>l_lh := (l_lh (klog s))\<lparr>lh_n := 0\<rparr>\<rparr>"
proof -
  let ?l = "klog s" and ?V = "bview s" and ?ts = "[0..<n]"
  let ?x = "log_blk ?l" and ?y = "home_blk ?l" and ?st = "l_start ?l" and ?S = "home_blk ?l ` {..<n}"
  note d = txnD [OF t]
  have ts: "set ?ts = {..<n}" by auto
  have ap: "log_apart ?l (set ?ts)" unfolding ts using d(2,3,6) by (intro log_apartI) auto
  have cS: "card ?S < 30" using d(2) card_image_le [of "{..<n}" ?y] by simp
  have st: "?st < 0x80000000" using d(3) by (simp add: log_placed_def log_area_def)
  obtain s1 where 1: "write_log_loop ?ts s = Ok s1" "calm s1 ?S" "brefs (bufs s1) = brefs (bufs s)"
    "dtrace s s1 (map (\<lambda>i. (?x i, ?V (?y i))) ?ts)" "bview s1 = upds ?V (map (\<lambda>i. (?x i, ?V (?y i))) ?ts)"
    using write_log_loop_ok [OF d(4) ap _ cS] d(7) by auto
  have k1: "klog s1 = ?l" by (rule dtrace_klog [OF 1(4)])
  let ?hd = "put_head (l_lh ?l) (bview s1 ?st)"
  obtain s2 where 2: "write_head s1 = Ok s2" "calm s2 ?S" "brefs (bufs s2) = brefs (bufs s1)"
    "dtrace s1 s2 [(?st, ?hd)]" "bview s2 = (bview s1)(?st := ?hd)"
    using write_head_ok [OF 1(2)] k1 st cS d(1,2) by auto
  have k2: "klog s2 = ?l" using dtrace_klog [OF 2(4)] k1 by simp
  have v2: "bview s2 (?x i) = ?V (?y i)" if "i < n" for i
  proof -
    have "?x i \<noteq> ?st" using d(9) that by (metis imageI lessThan_iff)
    then show ?thesis using upds_upt_in [OF d(8) that] by (simp add: 2(5) 1(5))
  qed
  then have ws: "map (\<lambda>i. (?y i, bview s2 (?x i))) ?ts = map (\<lambda>i. (?y i, ?V (?y i))) ?ts" by simp
  have z: "brefs (bufs s2) k = 0" if "k \<notin> ?S" for k using calmD(6) [OF 2(2), of k] that by auto
  have cl: "bview s2 (?x i) = dview (img s2) (?x i)" if "i \<in> set ?ts" for i
    using bview_clean [OF calmD(1) [OF 2(2)]] z [of "?x i"] d(11) that ts by blast
  have pin: "card ?S < 30 \<and> (\<forall>i \<in> set ?ts. brefs (bufs s2) (?y i) \<noteq> 0)" using cS d(7) by (simp add: 2(3) 1(3))
  have "distinct (map ?y ?ts)" using d(5) ts by (simp add: distinct_map)
  then obtain s3 where 3: "install_trans_loop False ?ts s2 = Ok s3" "calm s3 ?S"
    "brefs (bufs s3) = (\<lambda>k. if k \<in> ?y ` set ?ts then brefs (bufs s2) k - 1 else brefs (bufs s2) k)"
    "dtrace s2 s3 (map (\<lambda>i. (?y i, ?V (?y i))) ?ts)"
    using install_trans_loop_ok [where recovering = False, OF 2(2), of ?ts, unfolded k2 ws, OF ap _ cl pin] by auto
  have "brefs (bufs s3) k = 0" for k     unfolding 3(3) ts using z [of k] d(7) by (auto simp: 2(3) 1(3))
  then have c3: "calm s3 {}" using 3(2) by (simp add: calm_def)
  have k3: "klog s3 = ?l" using dtrace_klog [OF 3(4)] k2 by simp
  let ?s4 = "set_lh_n 0 s3" and ?l4 = "?l\<lparr>l_lh := (l_lh ?l)\<lparr>lh_n := 0\<rparr>\<rparr>"
  have 4: "calm ?s4 {}" "klog ?s4 = ?l4" "img ?s4 = img s3" "hist ?s4 = hist s3"
    using calm_klog [OF c3] d(3) by (auto simp: set_lh_n_def set_log_def k3 log_placed_def)
  let ?hz = "put_head (l_lh ?l4) (bview ?s4 ?st)"
  obtain t where 5: "write_head ?s4 = Ok t" "calm t {}" "dtrace ?s4 t [(?st, ?hz)]"
    using write_head_ok [OF 4(1)] 4(2) st by auto
  have k5: "klog t = ?l4" using dtrace_klog [OF 5(3)] 4(2) by simp
  have len: "length (bview u ?st) = 1024" if "bcache_inv u" "brefs (bufs u) ?st = 0" for u :: "'a lst_scheme"
    using bview_clean [OF that] st bcache_invD(4) [OF that(1)] by (simp add: dview_def)
  have "brefs (bufs s1) ?st = 0" using z [of ?st] d(10) 2(3) by simp
  then have h: "get32 ?hd 0 = of_nat n" "\<forall>i < n. get32 ?hd (4 + 4 * i) = ?y i"
    using put_head_ok(2,3) [OF len [OF calmD(1) [OF 1(2)] \<open>brefs (bufs s1) ?st = 0\<close>], of "l_lh ?l"] d(1,2)
    by (simp_all add: home_blk_def)
  have "brefs (bufs ?s4) ?st = 0" using calmD(6) [OF 4(1)] by blast
  then have h0: "get32 ?hz 0 = 0"
    using put_head_ok(2) [OF len [OF calmD(1) [OF 4(1)] \<open>brefs (bufs ?s4) ?st = 0\<close>], of "l_lh ?l4"] by simp
  have "commit s = Ok t"
    using 1(1) 2(1) 3(1) 5(1) n0 d(1) by (simp add: commit_def write_log_def install_trans_def k2)
  moreover have "dsteps s3 ?s4 []" using 4 by (simp add: dsteps_def)
  note w = dsteps_trans [OF dsteps_trans [OF dsteps_trans [OF dsteps_trans [OF 1(4) [THEN dtrace_steps]
      2(4) [THEN dtrace_steps]] 3(4) [THEN dtrace_steps]] this] 5(3) [THEN dtrace_steps]]
  have "dsteps s t (commit_writes n ?x ?y ?st ?V ?hd ?hz)"
    using w unfolding commit_writes_def by (simp only: append_assoc append_Nil2)
  ultimately show ?thesis using h h0 5(2) k5 by blast
qed

section \<open>Recording a block\<close>

text \<open>The blocks of the current transaction, and the log with one more.\<close>

definition log_list :: "klog \<Rightarrow> u32 list" where
  "log_list l = map (lh_block (l_lh l)) [0..<nat (lh_n (l_lh l))]"

definition log_add :: "u32 \<Rightarrow> klog \<Rightarrow> klog" where
  "log_add n l = l\<lparr>l_lh := (l_lh l)\<lparr>lh_block := (lh_block (l_lh l))(nat (lh_n (l_lh l)) := n), lh_n := lh_n (l_lh l) + 1\<rparr>\<rparr>"

lemma log_list_add: "0 \<le> lh_n (l_lh l) \<Longrightarrow> log_list (log_add n l) = log_list l @ [n]"
  by (simp add: log_list_def log_add_def Suc_nat_eq_nat_zadd1 [symmetric] add.commute)

lemma log_slot_new: "n \<notin> set (log_list l) \<Longrightarrow> log_slot (l_lh l) n = nat (lh_n (l_lh l))"
  by (auto simp: log_slot_def log_list_def find_None_iff split: option.split dest!: find_SomeD)

lemma log_slot_old: "n \<in> set (log_list l) \<Longrightarrow> log_slot (l_lh l) n < nat (lh_n (l_lh l)) \<and> lh_block (l_lh l) (log_slot (l_lh l) n) = n"
  by (auto simp: log_slot_def log_list_def find_None_iff split: option.split dest!: find_SomeD)

lemma log_write_eq:
  assumes "in_proc s" "1 \<le> l_outstanding (klog s)" "0 \<le> lh_n (l_lh (klog s))" "lh_n (l_lh (klog s)) < int LOGSIZE"
    "lh_n (l_lh (klog s)) < l_size (klog s) - 1" "b_blockno (bufs s b) = n"
  shows "log_write b s = Ok (if n \<in> set (log_list (klog s)) then s
    else (set_buf b (\<lambda>q. q\<lparr>b_refcnt := b_refcnt q + 1\<rparr>) s)\<lparr>klog := log_add n (klog s)\<rparr>)"
proof -
  have q: "lks s = (\<lambda>_. False)" using assms(1) by (simp add: in_proc_def quiet_def)
  show ?thesis
  proof (cases "n \<in> set (log_list (klog s))")
    case True
    note o = log_slot_old [OF True]
    then have "(lh_block (l_lh (klog s)))(log_slot (l_lh (klog s)) n := n) = lh_block (l_lh (klog s))"
      by (simp add: fun_upd_idem)
    moreover have "int (log_slot (l_lh (klog s)) n) \<noteq> lh_n (l_lh (klog s))" using o by linarith
    ultimately show ?thesis using True assms q
      by (simp add: log_write_def Let_def acquire_free release_held set_log_def fun_upd_idem)
  next
    case False
    then show ?thesis using assms q log_slot_new [OF False]
      by (simp add: log_write_def Let_def acquire_free release_held set_log_def set_lh_n_def bpin_def set_buf_def log_add_def)
        (rule lst.equality; simp add: fun_upd_idem)
  qed
qed

lemma log_write_ok:
  assumes inv: "bcache_inv s" "in_proc s" and b: "bheld s b n" "brefs (bufs s) n < 4294967295"
    and l: "1 \<le> l_outstanding (klog s)" "0 \<le> lh_n (l_lh (klog s))" "lh_n (l_lh (klog s)) < int LOGSIZE"
    "lh_n (l_lh (klog s)) < l_size (klog s) - 1"
  shows "\<exists>t. log_write b s = Ok t \<and> klog t = (if n \<in> set (log_list (klog s)) then klog s else log_add n (klog s)) \<and>
    brefs (bufs t) = (if n \<in> set (log_list (klog s)) then brefs (bufs s) else (brefs (bufs s))(n := Suc (brefs (bufs s) n))) \<and>
    bcache_inv t \<and> in_proc t \<and> bheld t b n \<and> bview t = bview s \<and> blocked t = blocked s \<and> img t = img s \<and> hist t = hist s \<and>
    bio_frame (s\<lparr>klog := klog t\<rparr>) t"
proof (cases "n \<in> set (log_list (klog s))")
  case True
  have "b_blockno (bufs s b) = n" using b(1) by (simp add: bheld_def)
  then show ?thesis using log_write_eq [OF inv(2) l] inv b True by simp
next
  case False
  let ?r = "b_refcnt (bufs s b) + 1"
  let ?t = "set_buf b (\<lambda>q. q\<lparr>b_refcnt := b_refcnt q + 1\<rparr>) s"
  note sl = bheld_slot [OF inv(1) b(1)]
  have t: "?t = set_buf b (\<lambda>q. q\<lparr>b_refcnt := ?r\<rparr>) s" by (simp add: set_buf_def)
  have r: "unat ?r = Suc (brefs (bufs s) n)" using sl b(2) by (simp add: brefs_def unat_plus1)
  then have "?r \<noteq> 0" by auto
  note p = set_refcnt_ok [OF inv(1) sl this, folded t, unfolded bpin_post_def r]
  have "b_blockno (bufs s b) = n" using b(1) by (simp add: bheld_def)
  note e = log_write_eq [OF inv(2) l this]
  have "bio_frame (s\<lparr>klog := k\<rparr>) (?t\<lparr>klog := k\<rparr>)" for k using p bio_frame_klog by blast
  then show ?thesis using e False p inv(2) b(1) frame_in_proc [of s ?t] by simp
qed

text \<open>
  C24: inside a transaction, \<open>log_write\<close> records the block of a held buffer once: a block already
  recorded is absorbed and nothing changes, otherwise it is appended to the list and its buffer is
  pinned, so that the cache keeps it until it is installed.  Nothing is written to the disk.
\<close>

theorem log_write_records_block:
  assumes inv: "bcache_inv s" "in_proc s" and b: "bheld s b n" "brefs (bufs s) n < 4294967295"
    and l: "1 \<le> l_outstanding (klog s)" "0 \<le> lh_n (l_lh (klog s))" "lh_n (l_lh (klog s)) < int LOGSIZE"
    "lh_n (l_lh (klog s)) < l_size (klog s) - 1"
  shows "\<exists>t. log_write b s = Ok t \<and>
    log_list (klog t) = (if n \<in> set (log_list (klog s)) then log_list (klog s) else log_list (klog s) @ [n]) \<and>
    brefs (bufs t) = (if n \<in> set (log_list (klog s)) then brefs (bufs s) else (brefs (bufs s))(n := Suc (brefs (bufs s) n))) \<and>
    bcache_inv t \<and> in_proc t \<and> bheld t b n \<and> bview t = bview s \<and> img t = img s \<and> hist t = hist s"
  using log_write_ok [OF assms] log_list_add [OF l(2)] by auto


text \<open>The log lies where the superblock says, if that is far enough from the end.\<close>

lemma log_blk_unat: "\<lbrakk>unat (l_start l) + 31 < 2147483648; i < 30\<rbrakk> \<Longrightarrow> unat (log_blk l i) = unat (l_start l) + i + 1"
  by (simp add: log_blk_def unat_word_ariths unat_of_nat)

lemma log_area_unat:
  assumes "unat (l_start l) + 31 < 2147483648" "n \<in> log_area l"
  shows "unat (l_start l) \<le> unat n \<and> unat n \<le> unat (l_start l) + 30"
  using assms log_blk_unat [of l] by (auto simp: log_area_def)

lemma log_placedI:
  assumes "l_dev l = ROOTDEV" "unat (l_start l) + 31 < 2147483648"
  shows "log_placed l"
proof -
  have "inj_on (log_blk l) {..<LOGSIZE}"
    by (rule inj_onI) (metis LOGSIZE_eq add_left_cancel add_right_cancel assms(2) lessThan_iff log_blk_unat)
  moreover have "l_start l \<noteq> log_blk l i" if "i < 30" for i
    using log_blk_unat [OF assms(2) that] by (metis Suc_eq_plus1 less_add_Suc1 less_irrefl)
  moreover have "n < 0x80000000" if "n \<in> log_area l" for n
    using log_area_unat [OF assms(2) that] assms(2) by (simp add: word_less_nat_alt)
  ultimately show ?thesis using assms(1) unfolding log_placed_def by auto
qed

text \<open>The way the file system changes a block: read it, change the buffer, log it, release it.\<close>

lemma log_list_txn: "txn s m \<Longrightarrow> set (log_list (klog s)) = home_blk (klog s) ` {..<m}"
  using txnD(1) [of s m] by (auto simp: log_list_def home_blk_def)

lemma home_add: "home_blk (log_add n l) i = (if i = nat (lh_n (l_lh l)) then n else home_blk l i)"
  by (simp add: home_blk_def log_add_def)

lemma log_add_fields [simp]:
  "l_start (log_add n l) = l_start l" "l_size (log_add n l) = l_size l" "l_dev (log_add n l) = l_dev l"
  "l_outstanding (log_add n l) = l_outstanding l" "lh_n (l_lh (log_add n l)) = lh_n (l_lh l) + 1"
  by (simp_all add: log_add_def)

lemma log_blk_cong: "l_start k = l_start l \<Longrightarrow> log_blk k = log_blk l"
  by (simp add: log_blk_def fun_eq_iff)

lemma log_area_cong: "l_start k = l_start l \<Longrightarrow> log_area k = log_area l"
  by (simp add: log_area_def log_blk_def image_def)

lemma log_placed_cong: "\<lbrakk>log_placed l; l_start k = l_start l; l_dev k = l_dev l\<rbrakk> \<Longrightarrow> log_placed k"
  unfolding log_placed_def by (simp only: log_area_cong [of k l] log_blk_cong [of k l]) blast

lemma home_add_set: "lh_n (l_lh l) = int m \<Longrightarrow> home_blk (log_add n l) ` {..<Suc m} = insert n (home_blk l ` {..<m})"
  by (auto simp: home_add less_Suc_eq image_iff)

lemma txn_add:
  assumes t: "txn s m" and n: "n \<notin> set (log_list (klog s))" "n \<notin> log_area (klog s)" "n < 0x80000000" "m < 29"
    and u: "klog u = log_add n (klog s)" "bcache_inv u" "in_proc u" "\<And>k. \<not> blocked u k"
      "brefs (bufs u) = (brefs (bufs s))(n := 1)"
  shows "txn u (Suc m)"
proof -
  note d = txnD [OF t]
  let ?S = "home_blk (klog s) ` {..<m}"
  have h: "home_blk (klog u) ` {..<Suc m} = insert n ?S" unfolding u(1) by (rule home_add_set [OF d(1)])
  have nS: "n \<notin> ?S" using n(1) log_list_txn [OF t] by simp
  have "log_placed (klog u)" by (rule log_placed_cong [OF d(3)]) (simp_all add: u(1))
  moreover have "calm u (insert n ?S)"
    using u calmD [OF d(4)] by (auto simp: calm_def)
  moreover have "inj_on (home_blk (klog u)) {..<Suc m}"
    unfolding lessThan_Suc u(1) using d(1,5) nS by (auto simp: inj_on_def home_add)
  moreover have "home_ok (klog u) (insert n ?S)"
    using d(6) n(2,3) log_area_cong [of "klog u" "klog s"] by (simp add: home_ok_def u(1))
  moreover have "\<forall>i < Suc m. brefs (bufs u) (home_blk (klog u) i) = 1"
  proof (intro allI impI)
    fix i assume "i < Suc m"
    then have "home_blk (klog u) i \<in> insert n ?S" using h by blast
    then show "brefs (bufs u) (home_blk (klog u) i) = 1" using d(7) by (auto simp: u(5))
  qed
  ultimately show ?thesis unfolding txn_def h using n(4) d(1) by (simp add: u(1))
qed

lemma txn_same:
  assumes "txn s m" "klog u = klog s" "bcache_inv u" "in_proc u" "\<And>k. \<not> blocked u k" "brefs (bufs u) = brefs (bufs s)"
  shows "txn u m"
  using assms by (auto simp: txn_def calm_def)

definition op_open :: "klog \<Rightarrow> bool" where
  "op_open l \<longleftrightarrow> 1 \<le> l_outstanding l \<and> l_size l = 30"

lemma logged_write_ok:
  assumes t: "txn s m" "m < 28" and o: "op_open (klog s)" and n: "n \<notin> log_area (klog s)" "n < 0x80000000" and d: "length d = 1024"
  shows "\<exists>b s1 s2 u. bread ROOTDEV n s = Ok (b, s1) \<and> bread_post n b s s1 \<and> log_write b (put_data b d s1) = Ok s2 \<and>
    brelse b s2 = Ok u \<and> klog u = (if n \<in> set (log_list (klog s)) then klog s else log_add n (klog s)) \<and>
    txn u (if n \<in> set (log_list (klog s)) then m else Suc m) \<and> bview u = (bview s)(n := d) \<and> img u = img s \<and>
    bio_frame (s\<lparr>klog := klog u\<rparr>) u"
proof -
  note td = txnD [OF t(1)] and c = calmD [OF txnD(4) [OF t(1)]]
  let ?S = "home_blk (klog s) ` {..<m}" and ?L = "set (log_list (klog s))"
  have L: "?L = ?S" by (rule log_list_txn [OF t(1)])
  have room: "brefs (bufs s) n \<noteq> 0 \<or> card ?S < 30" using card_image_le [of "{..<m}" "home_blk (klog s)"] t(2) by simp
  obtain b s1 where 1: "bread ROOTDEV n s = Ok (b, s1)" "bread_post n b s s1"
    using bread_within [OF c(1,2) n(2) c(4) _ c(5,6) room] c(7) [of n] by auto
  note p1 = 1(2) [unfolded bread_post_def]
  have k1: "klog s1 = klog s" "in_proc s1" using p1 c(2) frame_klog frame_in_proc by blast+
  have h1: "bcache_inv s1" "bheld s1 b n" using p1 by blast+
  let ?p = "put_data b d s1"
  note p2 = put_data_ok [OF h1 d]
  have k2: "klog ?p = klog s" "in_proc ?p" using p2(2) k1 frame_klog frame_in_proc by metis+
  have refs: "brefs (bufs s) n = (if n \<in> ?L then 1 else 0)"
    using td(7) c(6) [of n] L by auto
  have b2: "brefs (bufs ?p) = (brefs (bufs s))(n := Suc (brefs (bufs s) n))" using p1 p2(5) by simp
  have lw: "brefs (bufs ?p) n < 4294967295" "1 \<le> l_outstanding (klog ?p)" "0 \<le> lh_n (l_lh (klog ?p))"
    "lh_n (l_lh (klog ?p)) < int LOGSIZE" "lh_n (l_lh (klog ?p)) < l_size (klog ?p) - 1"
    using o t(2) td(1) refs by (simp_all add: b2 k2 op_open_def)
  obtain s2 where 2: "log_write b ?p = Ok s2" and k3: "klog s2 = (if n \<in> ?L then klog s else log_add n (klog s))"
    and b3: "brefs (bufs s2) = (if n \<in> ?L then brefs (bufs ?p) else (brefs (bufs ?p))(n := Suc (brefs (bufs ?p) n)))"
    and p3: "bcache_inv s2" "in_proc s2" "bheld s2 b n" "bview s2 = bview ?p" "blocked s2 = blocked ?p" "img s2 = img ?p"
      "bio_frame (?p\<lparr>klog := klog s2\<rparr>) s2"
    using log_write_ok [OF p2(1) k2(2) p2(6) [OF h1(2)] lw] unfolding k2 by blast
  have r3: "brefs (bufs s2) = (brefs (bufs s))(n := 2)" using refs by (simp add: b3 b2 numeral_2_eq_2)
  obtain u where 4: "brelse b s2 = Ok u" "brelse_post n b s2 u" using brelse_ok [OF p3(1-3)] r3 by auto
  note p4 = 4(2) [unfolded brelse_post_def]
  have k4: "klog u = klog s2" "in_proc u" using p4 p3(2) frame_klog frame_in_proc by blast+
  have r4: "brefs (bufs u) = (brefs (bufs s))(n := 1)" using p4 r3 by simp
  have nb: "\<not> blocked u k" for k using p4 p3(5) p2(4) p1 c(4) [of k] by (auto simp: fun_eq_iff)
  have "txn u (if n \<in> ?L then m else Suc m)"
  proof (cases "n \<in> ?L")
    case True
    then have "brefs (bufs u) = brefs (bufs s)" using refs r4 by (simp add: fun_upd_idem)
    then show ?thesis using txn_same [OF t(1), of u] True p4 k4 k3 nb by simp
  next
    case False
    then show ?thesis using txn_add [OF t(1) False n, of u] t(2) p4 k4 k3 nb r4 by simp
  qed
  moreover have "bio_frame (s\<lparr>klog := klog u\<rparr>) u"
  proof -
    have "bio_frame (s\<lparr>klog := k\<rparr>) (?p\<lparr>klog := k\<rparr>)" for k
      using p1 p2(2) bio_frame_trans bio_frame_klog by blast
    then show ?thesis using bio_frame_trans p3(7) p4 k4(1) by metis
  qed
  ultimately show ?thesis using 1 2 4(1) k4(1) k3 p4 p3(4,6) p2(3,7) p1 by auto
qed

section \<open>Recovery after a crash\<close>

text \<open>
  The kernel after a restart with disk \<open>m\<close>: memory is cleared, the driver is initialised, \<open>main\<close> has
  called \<open>binit\<close>, and the first process is about to call \<open>initlog\<close> from \<open>fsinit\<close>.
\<close>

definition reboot :: "image \<Rightarrow> 'a lst_scheme \<Rightarrow> 'a lst_scheme" where
  "reboot m s = binit (s\<lparr>lks := (\<lambda>_. False), slks := (\<lambda>_. \<lparr>sl_locked = False, sl_pid = 0\<rparr>), vdisk := fresh_disk,
     bufs := (\<lambda>_. zero_buf), img := m, hist := [], klog := \<lparr>l_start = 0, l_size = 0, l_outstanding = 0,
       l_committing = False, l_dev = 0, l_lh = \<lparr>lh_n = 0, lh_block = (\<lambda>_. 0)\<rparr>\<rparr>\<rparr>)"

lemma hdr_cong:
  assumes "l_start k = l_start l"
  shows "hdr_n k = hdr_n l" "hdr_blk k = hdr_blk l" "redo k = redo l" "log_area k = log_area l"
proof -
  show h: "hdr_n k = hdr_n l" "hdr_blk k = hdr_blk l" using assms by (simp_all add: hdr_n_def hdr_blk_def fun_eq_iff)
  show "redo k = redo l" by (simp add: redo_def fun_eq_iff h log_blk_cong [OF assms])
  show "log_area k = log_area l" by (simp add: log_area_def assms log_blk_cong [OF assms])
qed

lemma reboot_calm:
  assumes "img_ok m" "virtio_blk_device (blkdev s)" "\<exists>p < NPROC. curproc s = Some p"
  shows "l_dev k = ROOTDEV \<Longrightarrow> calm ((reboot m s)\<lparr>klog := k\<rparr>) {}" "img (reboot m s) = m" "bview (reboot m s) = dview m" "in_proc (reboot m s)"
proof -
  let ?s = "s\<lparr>lks := (\<lambda>_. False), slks := (\<lambda>_. \<lparr>sl_locked = False, sl_pid = 0\<rparr>), vdisk := fresh_disk,
     bufs := (\<lambda>_. zero_buf), img := m, hist := [], klog := \<lparr>l_start = 0, l_size = 0, l_outstanding = 0,
       l_committing = False, l_dev = 0, l_lh = \<lparr>lh_n = 0, lh_block = (\<lambda>_. 0)\<rparr>\<rparr>\<rparr>"
  have b: "zero_bufs ?s" "vd_idle (vdisk ?s)" "virtio_blk_device (blkdev ?s)" "img_ok (img ?s)"
    using assms by (simp_all add: zero_bufs_def zero_buf_def fresh_disk_idle)
  note r = binit_inv [OF b, folded reboot_def]
  show q: "in_proc (reboot m s)"
    unfolding reboot_def by (rule binit_in_proc) (use assms(3) in \<open>auto simp: in_proc_def quiet_def\<close>)
  show "img (reboot m s) = m"
    by (simp add: reboot_def binit_def binit_loop_fields set_buf_def del: upt_rec_numeral NBUF_eq)
  show "bview (reboot m s) = dview m" using r by simp
  show "l_dev k = ROOTDEV \<Longrightarrow> calm ((reboot m s)\<lparr>klog := k\<rparr>) {}" using r q by (simp add: calm_def)
qed

lemma initlog_recovers:
  assumes "img_ok m" "virtio_blk_device (blkdev s)" "\<exists>p < NPROC. curproc s = Some p" and pl: "log_placed l"
    and n: "hdr_n l (dview m) \<le> 30" and home: "home_ok l (hdr_blk l (dview m) ` {..<nat (hdr_n l (dview m))})"
  shows "\<exists>r h. initlog ROOTDEV (l_start l) nlog (reboot m s) = Ok r \<and> get32 h 0 = 0 \<and> calm r {} \<and> lh_n (l_lh (klog r)) = 0 \<and>
    dview (img r) = upds (dview m) (redo l (dview m) @ [(l_start l, h)])"
proof -
  define k where "k = (klog (reboot m s))\<lparr>l_start := l_start l, l_size := sint nlog, l_dev := ROOTDEV\<rparr>"
  have k: "l_start k = l_start l" "l_dev k = ROOTDEV" by (simp_all add: k_def)
  note q = reboot_calm [OF assms(1-3)]
  have "lks (reboot m s) = (\<lambda>_. False)" using q(4) by (simp add: in_proc_def quiet_def)
  then have "(reboot m s)\<lparr>lks := (lks (reboot m s))(LogLock := False)\<rparr> = reboot m s" by (simp add: fun_upd_idem)
  then have i: "initlog ROOTDEV (l_start l) nlog (reboot m s) = recover_from_log ((reboot m s)\<lparr>klog := k\<rparr>)"
    by (simp add: initlog_def set_log_def k_def)
  from recover_ok [OF q(1) [OF k(2)]] show ?thesis
    using pl n home k hdr_cong [OF k(1)] log_blk_cong [OF k(1)] i q(2) by (simp add: log_placed_def home_ok_def) metis
qed

text \<open>Which blocks of a recovered disk are which.\<close>

lemma redo_empty: "hdr_n l D = 0 \<Longrightarrow> redo l D = []"
  by (simp add: redo_def)

lemma recover_crash_old:
  assumes "crash_old n (log_blk l) (l_start l) D0 D" "hdr_n l D0 = 0" "n \<le> 30"
  shows "hdr_n l D = 0" "k \<notin> log_area l \<Longrightarrow> D k = D0 k"
proof -
  have "log_blk l ` {..<n} \<subseteq> log_blk l ` {..<LOGSIZE}" using assms(3) by (intro image_mono) simp
  then show "k \<notin> log_area l \<Longrightarrow> D k = D0 k" using assms(1) unfolding crash_old_def log_area_def by blast
qed (use assms in \<open>simp add: crash_old_def hdr_n_def\<close>)

lemma recover_crash_new:
  assumes "crash_new n (log_blk l) y (l_start l) V h0 D0 D" "get32 h0 0 = 0" "n \<le> 30"
    "\<And>k. k \<notin> y ` {..<n} \<Longrightarrow> V k = D0 k"
  shows "hdr_n l D = 0" "k \<notin> log_area l \<Longrightarrow> D k = V k"
proof -
  have "log_blk l ` {..<n} \<subseteq> log_blk l ` {..<LOGSIZE}" using assms(3) by (intro image_mono) simp
  then show "D k = V k" if "k \<notin> log_area l"
  proof -
    have "D k = (if k \<in> y ` {..<n} then V k else D0 k)"
      using assms(1) that \<open>log_blk l ` {..<n} \<subseteq> _\<close> unfolding crash_new_def log_area_def by blast
    then show ?thesis using assms(4) [of k] by (cases "k \<in> y ` {..<n}") simp_all
  qed
qed (use assms in \<open>simp add: crash_new_def hdr_n_def\<close>)

lemma recover_crash_mid:
  assumes c: "crash_mid n (log_blk l) y (l_start l) V h D0 D" and n: "n \<le> 30"
    and h: "get32 h 0 = of_nat n" "\<forall>i < n. get32 h (4 + 4 * i) = y i" and y: "inj_on y {..<n}"
    and V: "\<And>k. k \<notin> y ` {..<n} \<Longrightarrow> V k = D0 k"
  shows "hdr_n l D = int n" "hdr_blk l D ` {..<n} = y ` {..<n}" "k \<notin> log_area l \<Longrightarrow> upds D (redo l D) k = V k"
proof -
  show hn: "hdr_n l D = int n" using c h(1) n sint_small [of "int n"] by (simp add: crash_mid_def hdr_n_def)
  have hb: "hdr_blk l D i = y i" "D (log_blk l i) = V (y i)" if "i < n" for i
    using c h(2) that by (simp_all add: crash_mid_def hdr_blk_def)
  then show "hdr_blk l D ` {..<n} = y ` {..<n}" by auto
  have rd: "redo l D = map (\<lambda>i. (y i, V (y i))) [0..<n]" unfolding redo_def hn using hb by simp
  have "log_blk l ` {..<n} \<subseteq> log_blk l ` {..<LOGSIZE}" using n by (intro image_mono) simp
  then have out: "D k = D0 k" if "k \<notin> log_area l" "k \<notin> y ` {..<n}" for k
    using c that unfolding crash_mid_def log_area_def by blast
  show "upds D (redo l D) k = V k" if "k \<notin> log_area l"
  proof (cases "k \<in> y ` {..<n}")
    case True
    then obtain i where "i < n" "k = y i" by blast
    then show ?thesis using upds_upt_in [OF y] by (simp add: rd)
  next
    case False
    then show ?thesis using upds_upt_out [OF False] out [OF that False] V [OF False] by (simp add: rd)
  qed
qed

lemma commit_crash_recovers:
  assumes t: "txn s n" "hdr_n (klog s) (dview (img s)) = 0" and m: "img_ok m"
    and w: "dview m = upds (dview (img s)) (take k (commit_writes n (log_blk (klog s)) (home_blk (klog s)) (l_start (klog s)) (bview s) h h0))"
    and h: "get32 h 0 = of_nat n" "\<forall>i < n. get32 h (4 + 4 * i) = home_blk (klog s) i" "get32 h0 0 = 0"
  shows "\<exists>r. initlog ROOTDEV (l_start (klog s)) nlog (reboot m s) = Ok r \<and>
    ((\<forall>b. b \<notin> log_area (klog s) \<longrightarrow> dview (img r) b = dview (img s) b) \<or>
     (\<forall>b. b \<notin> log_area (klog s) \<longrightarrow> dview (img r) b = bview s b))"
proof -
  let ?l = "klog s" and ?D = "dview m" and ?O = "dview (img s)" and ?y = "home_blk (klog s)"
  note d = txnD [OF t(1)]
  have n: "n \<le> 30" using d(2) by simp
  have V: "bview s k = ?O k" if "k \<notin> ?y ` {..<n}" for k
    using bview_clean [OF calmD(1) [OF d(4)]] calmD(6) [OF d(4), of k] that by blast
  have rec: "\<exists>r h. initlog ROOTDEV (l_start ?l) nlog (reboot m s) = Ok r \<and>
      dview (img r) = upds ?D (redo ?l ?D @ [(l_start ?l, h)])"
    if "hdr_n ?l ?D \<le> 30" "home_ok ?l (hdr_blk ?l ?D ` {..<nat (hdr_n ?l ?D)})"
    using initlog_recovers [OF m _ _ d(3) that, of s nlog] bcache_invD(3) [OF calmD(1) [OF d(4)]] calmD(2) [OF d(4)]
    by (auto simp: in_proc_def)
  have st: "l_start ?l \<in> log_area ?l" by (simp add: log_area_def)
  show ?thesis
    using crash_cases [OF d(8) d(5) d(9) d(10) d(11), where ?D0.0 = ?O and k = k and V = "bview s" and h = h and ?h0.0 = h0,
        folded w]
  proof (elim disjE)
    assume "crash_old n (log_blk ?l) (l_start ?l) ?O ?D"
    note c = recover_crash_old [OF this t(2) n]
    show ?thesis using rec c(2) st by (auto simp: c(1) redo_empty home_ok_def)
  next
    assume "crash_mid n (log_blk ?l) ?y (l_start ?l) (bview s) h ?O ?D"
    note c = recover_crash_mid [OF this n h(1,2) d(5) V]
    show ?thesis using rec c(2,3) st d(6) n by (auto simp: c(1))
  next
    assume "crash_new n (log_blk ?l) ?y (l_start ?l) (bview s) h0 ?O ?D"
    note c = recover_crash_new [OF this h(3) n V]
    show ?thesis using rec c(2) st by (auto simp: c(1) redo_empty home_ok_def)
  qed
qed

text \<open>
  C1: a commit is atomic with respect to crashes and durable.  Whatever disk image a crash leaves
  while \<open>commit\<close> runs, \<open>initlog\<close> at the next start succeeds and the disk has, outside the log, either
  the blocks it had before the transaction or those the transaction wrote; the image left when
  \<open>commit\<close> returns always recovers to the latter.
\<close>

theorem commit_crash_atomic:
  assumes "txn s n" "hdr_n (klog s) (dview (img s)) = 0"
  shows "\<exists>t hs. commit s = Ok t \<and> hist t = hs @ hist s \<and>
    (\<forall>m \<in> insert (img s) (set hs). \<exists>r. initlog ROOTDEV (l_start (klog s)) nlog (reboot m s) = Ok r \<and>
       ((\<forall>b. b \<notin> log_area (klog s) \<longrightarrow> dview (img r) b = dview (img s) b) \<or>
        (\<forall>b. b \<notin> log_area (klog s) \<longrightarrow> dview (img r) b = bview s b))) \<and>
    (\<exists>r. initlog ROOTDEV (l_start (klog s)) nlog (reboot (img t) s) = Ok r \<and>
       (\<forall>b. b \<notin> log_area (klog s) \<longrightarrow> dview (img t) b = bview s b \<and> dview (img r) b = bview s b))"
proof -
  let ?l = "klog s" and ?O = "dview (img s)" and ?y = "home_blk (klog s)" and ?x = "log_blk (klog s)"
  note d = txnD [OF assms(1)]
  have inv: "img_ok (img s)" using bcache_invD(4) [OF calmD(1) [OF d(4)]] .
  have V: "bview s k = ?O k" if "k \<notin> ?y ` {..<n}" for k
    using bview_clean [OF calmD(1) [OF d(4)]] calmD(6) [OF d(4), of k] that by blast
  have clean: "\<exists>r. initlog ROOTDEV (l_start ?l) nlog (reboot m s) = Ok r \<and> (\<forall>b. b \<notin> log_area ?l \<longrightarrow> dview (img r) b = dview m b)"
    if "img_ok m" "hdr_n ?l (dview m) = 0" for m
    using initlog_recovers [OF that(1) _ _ d(3), of s nlog] that(2) bcache_invD(3) [OF calmD(1) [OF d(4)]] calmD(2) [OF d(4)]
    by (auto simp: in_proc_def redo_empty home_ok_def log_area_def)
  show ?thesis
  proof (cases "n = 0")
    case True
    then have "commit s = Ok s" using d(1) by (simp add: commit_def)
    then show ?thesis using clean [OF inv assms(2)] V True by auto
  next
    case False
    obtain t h h' where t: "commit s = Ok t" "dsteps s t (commit_writes n ?x ?y (l_start ?l) (bview s) h h')"
      "get32 h 0 = of_nat n" "\<forall>i < n. get32 h (4 + 4 * i) = ?y i" "get32 h' 0 = 0" "calm t {}"
      using commit_ok [OF assms(1)] False by blast
    then obtain hs where hs: "hist t = hs @ hist s"
      "\<And>m. m \<in> set hs \<Longrightarrow> img_ok m \<and> (\<exists>k. dview m = upds ?O (take k (commit_writes n ?x ?y (l_start ?l) (bview s) h h')))"
      and e: "dview (img t) = upds ?O (commit_writes n ?x ?y (l_start ?l) (bview s) h h')"
      unfolding dsteps_def by blast
    note rec = commit_crash_recovers [OF assms _ _ t(3-5)]
    have "crash_new n ?x ?y (l_start ?l) (bview s) h' ?O (dview (img t))" unfolding e by (rule crash_done [OF d(5)])
    note c = recover_crash_new [OF this t(5) _ V]
    have "\<exists>r. initlog ROOTDEV (l_start ?l) nlog (reboot (img t) s) = Ok r \<and>
       (\<forall>b. b \<notin> log_area ?l \<longrightarrow> dview (img t) b = bview s b \<and> dview (img r) b = bview s b)"
      using clean [OF bcache_invD(4) [OF calmD(1) [OF t(6)]] c(1)] c(2) d(2) by auto
    moreover have "\<exists>r. initlog ROOTDEV (l_start ?l) nlog (reboot m s) = Ok r \<and>
       ((\<forall>b. b \<notin> log_area ?l \<longrightarrow> dview (img r) b = ?O b) \<or> (\<forall>b. b \<notin> log_area ?l \<longrightarrow> dview (img r) b = bview s b))"
      if "m \<in> insert (img s) (set hs)" for m
      using rec [of m] rec [of "img s" 0] hs(2) [of m] that inv by fastforce
    ultimately show ?thesis using t(1) hs(1) by blast
  qed
qed

section \<open>A transaction on a blank disk\<close>

text \<open>
  The kernel started on a blank disk with a log of 30 blocks at block 2, an operation open: it
  reads block 50, fills it, logs it and releases it.
\<close>

definition log_state :: lst where
  "log_state = (reboot (flat_image 0) \<lparr>lks = (\<lambda>_. False), slks = (\<lambda>_. \<lparr>sl_locked = False, sl_pid = 0\<rparr>),
     procs = (\<lambda>_. zero_proc), curproc = Some 0, mem = (\<lambda>_. 0), freelist = 0, kend = 0x80021000, kernel_pagetable = 0,
     pipes = (\<lambda>_. \<lparr>pi_data = [], pi_nread = 0, pi_nwrite = 0, pi_readopen = False, pi_writeopen = False\<rparr>),
     vdisk = fresh_disk, bufs = (\<lambda>_. zero_buf), img = flat_image 0, hist = [], blkdev = chain_device,
     klog = \<lparr>l_start = 0, l_size = 0, l_outstanding = 0, l_committing = False, l_dev = 0, l_lh = \<lparr>lh_n = 0, lh_block = (\<lambda>_. 0)\<rparr>\<rparr>\<rparr>)
     \<lparr>klog := \<lparr>l_start = 2, l_size = 30, l_outstanding = 1, l_committing = False, l_dev = ROOTDEV,
       l_lh = \<lparr>lh_n = 0, lh_block = (\<lambda>_. 0)\<rparr>\<rparr>\<rparr>"

lemma log_state:
  "calm log_state {}" "img log_state = flat_image 0" "bview log_state = dview (flat_image 0)"
  "klog log_state = \<lparr>l_start = 2, l_size = 30, l_outstanding = 1, l_committing = False, l_dev = ROOTDEV,
     l_lh = \<lparr>lh_n = 0, lh_block = (\<lambda>_. 0)\<rparr>\<rparr>"
  unfolding log_state_def by (simp_all add: reboot_calm flat_image_ok chain_device)

lemma log_state_placed: "log_placed (klog log_state)" "50 \<notin> log_area (klog log_state)" "op_open (klog log_state)"
proof -
  show "log_placed (klog log_state)" by (rule log_placedI) (simp_all add: log_state)
  show "50 \<notin> log_area (klog log_state)" using log_area_unat [of "klog log_state" 50] by (auto simp: log_state)
qed (simp add: log_state op_open_def)

lemma log_state_txn: "txn log_state 0"
  using log_state(1) log_state_placed(1) by (simp add: txn_def home_ok_def log_state(4))

lemma log_state_run:
  assumes "length d = 1024"
  shows "\<exists>b s t u. bread ROOTDEV 50 log_state = Ok (b, s) \<and> bread_post 50 b log_state s \<and>
    log_write b (put_data b d s) = Ok t \<and> brelse b t = Ok u \<and> txn u 1 \<and> klog u = log_add 50 (klog log_state) \<and>
    bview u = (dview (flat_image 0))(50 := d) \<and> img u = flat_image 0"
  using logged_write_ok [OF log_state_txn _ log_state_placed(3,2) _ assms] log_state by (simp add: log_list_def) blast

lemma get32_zeros: "get32 (replicate 1024 0) 0 = 0"
  by (simp add: get32_def slice_def le_word_def upt_rec)

lemma log_state_blank: "l_start k = 2 \<Longrightarrow> hdr_n k (dview (flat_image 0)) = 0"
  by (simp add: hdr_n_def dview_def flat_image_ok get32_zeros)

theorem commit_crash_atomic_witness:
  "\<exists>b s t u v. bread ROOTDEV 50 log_state = Ok (b, s) \<and> log_write b (put_data b (replicate 1024 9) s) = Ok t \<and>
    brelse b t = Ok u \<and> txn u 1 \<and> commit u = Ok v \<and> dview (img v) 50 = replicate 1024 9"
proof -
  obtain b s t u where r: "bread ROOTDEV 50 log_state = Ok (b, s)" "log_write b (put_data b (replicate 1024 9) s) = Ok t"
    "brelse b t = Ok u" "txn u 1" "klog u = log_add 50 (klog log_state)"
    "bview u = (dview (flat_image 0))(50 := replicate 1024 9)" "img u = flat_image 0"
    using log_state_run [of "replicate 1024 9"] by auto
  have st: "l_start (klog u) = 2" by (simp add: r(5) log_state)
  have "50 \<notin> log_area (klog u)" using log_state_placed(2) log_area_cong [of "klog u" "klog log_state"] by (simp add: r(5))
  then show ?thesis
    using commit_crash_atomic [OF r(4), of undefined] log_state_blank [OF st] r by fastforce
qed

theorem log_write_records_block_witness:
  "\<exists>b s t. bread ROOTDEV 50 log_state = Ok (b, s) \<and> log_write b s = Ok t \<and> log_list (klog t) = [50]"
proof -
  obtain b s where r: "bread ROOTDEV 50 log_state = Ok (b, s)" "bread_post 50 b log_state s"
    using log_state_run [of "replicate 1024 0"] by auto
  note p = r(2) [unfolded bread_post_def]
  have k: "klog s = klog log_state" "in_proc s"
    using p frame_klog frame_in_proc calmD(2) [OF log_state(1)] by blast+
  have "brefs (bufs s) 50 = 1" using p calmD(6) [OF log_state(1), of 50] by auto
  then show ?thesis
    using log_write_records_block [of s b 50] p r(1) k by (auto simp: log_state log_list_def)
qed


end
