(* ===== verification/Kcopy.thy ===== *)
theory Kcopy
  imports Usercopy
begin

text \<open>
  \<open>either_copyin\<close> and \<open>either_copyout\<close> of \<open>kernel/proc.c\<close>, which copy between a kernel object
  and either user or kernel memory.  The kernel object (a disk buffer, a console character, a
  structure) is not in byte memory here: its bytes are a value.  \<open>copyout_obj\<close> and
  \<open>copyin_obj\<close> are the loops of \<open>copyout\<close> and \<open>copyin\<close> (\<open>kernel/vm.c\<close>) for such an object, and
  are shown to do the same as those.
\<close>

section \<open>Operations\<close>

function copyout_obj :: "u64 \<Rightarrow> u64 \<Rightarrow> u8 list \<Rightarrow> 'a kmst_scheme \<Rightarrow> (int \<times> 'a kmst_scheme) res" where
  "copyout_obj pt dstva bs s =
     (if bs \<noteq> [] then
        let va0 = PGROUNDDOWN dstva in
        if MAXVA \<le> va0 then Ok (-1, s)
        else
          andthen (walk pt va0 False s) (\<lambda>(pte, s).
          if pte = 0 \<or> load64 (mem s) pte AND PTE_V = 0 \<or> load64 (mem s) pte AND PTE_U = 0 \<or>
             load64 (mem s) pte AND PTE_W = 0
          then Ok (-1, s)
          else
            let pa0 = PTE2PA (load64 (mem s) pte); n = unat (page_rest dstva) in
            copyout_obj pt (va0 + PGSIZE) (drop n bs)
              (s\<lparr>mem := put_block (mem s) (pa0 + (dstva - va0)) (take n bs)\<rparr>))
      else Ok (0, s))"
  by pat_completeness auto
termination
  by (relation "measure (\<lambda>(pt, dstva, bs, s). length bs)")
    (use page_rest_pos in \<open>auto simp: diff_less\<close>)

function copyin_obj :: "u64 \<Rightarrow> u64 \<Rightarrow> nat \<Rightarrow> 'a kmst_scheme \<Rightarrow> (int \<times> u8 list \<times> 'a kmst_scheme) res" where
  "copyin_obj pt srcva len s =
     (if 0 < len then
        let va0 = PGROUNDDOWN srcva in
        andthen (walkaddr pt va0 s) (\<lambda>(pa0, s).
        if pa0 = 0 then Ok (-1, [], s)
        else
          let n = min (unat (page_rest srcva)) len; bs = bytes_at (mem s) (pa0 + (srcva - va0)) n in
          andthen (copyin_obj pt (va0 + PGSIZE) (len - n) s) (\<lambda>(r, cs, s). Ok (r, bs @ cs, s)))
      else Ok (0, [], s))"
  by pat_completeness auto
termination
  by (relation "measure (\<lambda>(pt, srcva, len, s). len)") (use page_rest_pos in \<open>auto simp: diff_less\<close>)

declare copyout_obj.simps [simp del] copyin_obj.simps [simp del]

text \<open>
  \<open>either_copyout\<close> stores the object's bytes; \<open>either_copyin\<close> returns the bytes that reach the
  object, which are fewer than \<open>len\<close> when it fails.
\<close>

definition either_copyout :: "bool \<Rightarrow> u64 \<Rightarrow> u8 list \<Rightarrow> 'a kmst_scheme \<Rightarrow> (int \<times> 'a kmst_scheme) res" where
  "either_copyout user_dst dst bs s =
     (if user_dst then
        (case myproc s of
           None \<Rightarrow> Fail Undefined
         | Some p \<Rightarrow> copyout_obj (p_pagetable (procs s p)) dst bs s)
      else Ok (0, s\<lparr>mem := put_block (mem s) dst bs\<rparr>))"

definition either_copyin :: "bool \<Rightarrow> u64 \<Rightarrow> nat \<Rightarrow> 'a kmst_scheme \<Rightarrow> (int \<times> u8 list \<times> 'a kmst_scheme) res" where
  "either_copyin user_src src len s =
     (if user_src then
        (case myproc s of
           None \<Rightarrow> Fail Undefined
         | Some p \<Rightarrow> copyin_obj (p_pagetable (procs s p)) src len s)
      else Ok (0, bytes_at (mem s) src len, s))"

section \<open>The loops for an object and for memory\<close>

lemma length_bytes_at [simp]: "length (bytes_at m p n) = n"
  by (simp add: bytes_at_def)

lemma bytes_at_split: "k \<le> n \<Longrightarrow> take k (bytes_at m p n) = bytes_at m p k"
  "k \<le> n \<Longrightarrow> drop k (bytes_at m p n) = bytes_at m (p + of_nat k) (n - k)"
  using bytes_at_append [of m p k "n - k"] by simp_all

text \<open>The test of \<open>copyout\<close> on a page-table entry.\<close>

lemma copyout_pte:
  assumes tree: "ptree (mem s) 2 pt" "0 \<notin> ptset (mem s) 2 pt"
  obtains (bad) "utransw (mem s) pt va = None" "\<And>src len. 0 < len \<Longrightarrow> copyout pt va src len s = Ok (-1, s)"
      "\<And>bs. bs \<noteq> [] \<Longrightarrow> copyout_obj pt va bs s = Ok (-1, s)"
  | (good) pa where "utransw (mem s) pt va = Some pa"
      "\<And>src len. 0 < len \<Longrightarrow> copyout pt va src len s =
        copyout pt (page_of va + PGSIZE) (src + min (page_rest va) len) (len - min (page_rest va) len)
          (s\<lparr>mem := memmove (mem s) pa src (ucast (min (page_rest va) len))\<rparr>)"
      "\<And>bs. bs \<noteq> [] \<Longrightarrow> copyout_obj pt va bs s =
        copyout_obj pt (page_of va + PGSIZE) (drop (unat (page_rest va)) bs)
          (s\<lparr>mem := put_block (mem s) pa (take (unat (page_rest va)) bs)\<rparr>)"
proof -
  let ?m = "mem s" and ?pte = "lookup (mem s) 2 pt (page_of va)"
  have leaf: "leafv ?m 2 pt va = (if ?pte = 0 then 0 else load64 ?m ?pte)"
    using leafv_lookup [OF tree, of "page_of va"] leafv_same_page [of va "page_of va"] by simp
  have pm: "page_of va < MAXVA \<longleftrightarrow> va < MAXVA" by (rule page_MAXVA)
  show ?thesis
  proof (cases "utransw ?m pt va")
    case None
    have "copyout pt va src len s = Ok (-1, s)" if "0 < len" for src len
      using None that leaf pm
      by (subst copyout.simps)
        (auto simp: PGROUNDDOWN_page_of Let_def utransw_def walk_lookup not_le split: if_splits simp del: MAXVA_eq)
    moreover have "copyout_obj pt va bs s = Ok (-1, s)" if "bs \<noteq> []" for bs
      using None that leaf pm
      by (subst copyout_obj.simps)
        (auto simp: PGROUNDDOWN_page_of Let_def utransw_def walk_lookup not_le split: if_splits simp del: MAXVA_eq)
    ultimately show ?thesis using bad None by blast
  next
    case (Some pa)
    have v: "\<not> MAXVA \<le> page_of va" "?pte \<noteq> 0" "load64 ?m ?pte AND 1 \<noteq> 0" "load64 ?m ?pte AND 16 \<noteq> 0"
        "load64 ?m ?pte AND 4 \<noteq> 0" "pa = PTE2PA (load64 ?m ?pte) + (va - page_of va)"
      using Some leaf pm by (auto simp: utransw_def Let_def not_le split: if_splits simp del: MAXVA_eq)
    have w: "walk pt (PGROUNDDOWN va) False s = Ok (?pte, s)"
      using v(1) by (simp add: walk_lookup PGROUNDDOWN_page_of not_le del: MAXVA_eq)
    show ?thesis
    proof (rule good [OF Some])
      fix src len :: u64
      assume "0 < len"
      then show "copyout pt va src len s =
        copyout pt (page_of va + PGSIZE) (src + min (page_rest va) len) (len - min (page_rest va) len)
          (s\<lparr>mem := memmove (mem s) pa src (ucast (min (page_rest va) len))\<rparr>)"
        using v(1-5) v(6) [symmetric] w
        by (subst copyout.simps) (simp add: PGROUNDDOWN_page_of Let_def del: MAXVA_eq)
    next
      fix bs :: "u8 list"
      assume "bs \<noteq> []"
      then show "copyout_obj pt va bs s =
        copyout_obj pt (page_of va + PGSIZE) (drop (unat (page_rest va)) bs)
          (s\<lparr>mem := put_block (mem s) pa (take (unat (page_rest va)) bs)\<rparr>)"
        using v(1-5) v(6) [symmetric] w
        by (subst copyout_obj.simps) (simp add: PGROUNDDOWN_page_of Let_def del: MAXVA_eq)
    qed
  qed
qed

lemma copyout_obj_eq:
  "\<lbrakk>uptw (mem s) pt; ksrc (mem s) pt src (unat len)\<rbrakk> \<Longrightarrow>
   copyout pt dstva src len s = copyout_obj pt dstva (bytes_at (mem s) src (unat len)) s"
proof (induction "unat len" arbitrary: dstva src len s rule: less_induct)
  case less
  let ?m = "mem s"
  have tree: "ptree ?m 2 pt" "0 \<notin> ptset ?m 2 pt" using less.prems(1) by (auto simp: uptw_def)
  show ?case
  proof (cases "len = 0")
    case True
    then show ?thesis by (simp add: copyout.simps copyout_obj.simps bytes_at_def)
  next
    case False
    then have pos: "0 < len" by (simp add: word_neq_0_conv)
    then have ne: "bytes_at ?m src (unat len) \<noteq> []" by (auto simp: bytes_at_def word_less_nat_alt)
    from tree show ?thesis
    proof (cases rule: copyout_pte [of s pt dstva])
      case bad
      then show ?thesis using pos ne by simp
    next
      case (good pa)
      let ?n = "min (page_rest dstva) len"
      let ?k = "unat ?n"
      have k: "?k \<le> unat (page_rest dstva)" "?k \<le> unat len" "?k = min (unat (page_rest dstva)) (unat len)"
        by (auto simp: min_def word_le_nat_alt)
      let ?b = "bytes_at ?m src ?k"
      let ?u = "s\<lparr>mem := put_block ?m pa ?b\<rparr>"
      note rd = copyout_round [OF less.prems(1) good(1) k(1) less.prems(2) k(2)]
      have "length ?b \<le> unat (page_rest dstva)" using k(1) by simp
      note pg = user_write_page [OF less.prems(1) good(1) this]
      have ks: "ksrc (mem ?u) pt (src + ?n) (unat (len - ?n))"
        using ksrc_sub [OF less.prems(2) k(2), of "mem ?u"] pg k(2) by (simp add: unat_sub_if_size)
      have d: "unat (len - ?n) = unat len - ?k" using k(2) by (simp add: unat_sub_if_size)
      have td: "take (unat (page_rest dstva)) (bytes_at ?m src (unat len)) = ?b"
        "drop (unat (page_rest dstva)) (bytes_at ?m src (unat len)) = bytes_at (mem ?u) (src + ?n) (unat (len - ?n))"
        using bytes_at_split [OF k(2), of ?m src] rd(2) d k(3) by (auto simp: min_def split: if_splits)
      have "copyout pt dstva src len s = copyout pt (page_of dstva + PGSIZE) (src + ?n) (len - ?n) ?u"
        using good(2) [OF pos] rd(1) by simp
      also have "\<dots> = copyout_obj pt (page_of dstva + PGSIZE) (bytes_at (mem ?u) (src + ?n) (unat (len - ?n))) ?u"
        using less.hyps [OF copy_round_decreases [OF pos]] pg ks by simp
      also have "\<dots> = copyout_obj pt dstva (bytes_at ?m src (unat len)) s"
        using good(3) [OF ne] td by simp
      finally show ?thesis .
    qed
  qed
qed

lemma copyin_obj_ok:
  "\<lbrakk>ptree (mem s) 2 pt; 0 \<notin> ptset (mem s) 2 pt\<rbrakk> \<Longrightarrow>
   \<exists>r bs. copyin_obj pt srcva len s = Ok (r, bs, s) \<and>
     (case user_read (mem s) pt srcva len of None \<Rightarrow> r = -1 \<and> length bs < len | Some cs \<Rightarrow> r = 0 \<and> bs = cs)"
proof (induction len arbitrary: srcva rule: less_induct)
  case (less len)
  note w = walkaddr_utrans [OF less.prems, of srcva]
  show ?case
  proof (cases "len = 0")
    case True
    then show ?thesis by (subst copyin_obj.simps) simp
  next
    case False
    show ?thesis
    proof (cases "utrans (mem s) pt srcva")
      case None
      then have "copyin_obj pt srcva len s = Ok (-1, [], s)"
        using False w by (subst copyin_obj.simps) (simp add: PGROUNDDOWN_page_of Let_def)
      then show ?thesis using user_read_None [OF None, of len] False by simp
    next
      case (Some pa)
      let ?n = "min (unat (page_rest srcva)) len"
      have n: "?n \<le> unat (page_rest srcva)" "?n \<le> len" "len - ?n < len" using False page_rest_pos [of srcva] by auto
      have base: "pa - (srcva - page_of srcva) \<noteq> 0" by (rule utrans_base_nonzero [OF Some])
      have w': "walkaddr pt (PGROUNDDOWN srcva) s = Ok (pa - (srcva - page_of srcva), s)"
        using w Some by (simp add: PGROUNDDOWN_page_of)
      obtain r bs where IH: "copyin_obj pt (page_of srcva + PGSIZE) (len - ?n) s = Ok (r, bs, s)"
        "case user_read (mem s) pt (page_of srcva + PGSIZE) (len - ?n) of
           None \<Rightarrow> r = -1 \<and> length bs < len - ?n | Some cs \<Rightarrow> r = 0 \<and> bs = cs"
        using less.IH [OF n(3) less.prems] by blast
      have run: "copyin_obj pt srcva len s = Ok (r, bytes_at (mem s) pa ?n @ bs, s)"
        using False w' base IH(1) by (subst copyin_obj.simps) (simp add: PGROUNDDOWN_page_of Let_def)
      have "user_read (mem s) pt (srcva + of_nat ?n) (len - ?n) = user_read (mem s) pt (page_of srcva + PGSIZE) (len - ?n)"
        by (cases "unat (page_rest srcva) \<le> len") (simp_all add: min_def page_rest_def PGROUNDDOWN_page_of add.commute)
      moreover have "len = ?n + (len - ?n)" using n(2) by simp
      ultimately have "user_read (mem s) pt srcva len =
          map_option (\<lambda>ys. bytes_at (mem s) pa ?n @ ys) (user_read (mem s) pt (page_of srcva + PGSIZE) (len - ?n))"
        using user_read_append [of "mem s" pt srcva ?n "len - ?n"] user_read_page [OF Some n(1)] by simp
      then show ?thesis using run IH(2) n(2) by (auto split: option.splits)
    qed
  qed
qed

lemma copyout_obj_ok:
  "uptw (mem s) pt \<Longrightarrow>
   \<exists>r t. copyout_obj pt dstva bs s = Ok (r, t) \<and> mem_only s t \<and>
     (case user_write (mem s) pt dstva bs of None \<Rightarrow> r = -1 | Some m \<Rightarrow> r = 0 \<and> mem t = m)"
proof (induction "length bs" arbitrary: dstva bs s rule: less_induct)
  case less
  have tree: "ptree (mem s) 2 pt" "0 \<notin> ptset (mem s) 2 pt" using less.prems by (auto simp: uptw_def)
  show ?case
  proof (cases "bs = []")
    case True
    then show ?thesis by (simp add: copyout_obj.simps)
  next
    case False
    from tree show ?thesis
    proof (cases rule: copyout_pte [of s pt dstva])
      case bad
      then show ?thesis using False by (cases bs) auto
    next
      case (good pa)
      let ?n = "unat (page_rest dstva)"
      let ?u = "s\<lparr>mem := put_block (mem s) pa (take ?n bs)\<rparr>"
      have "length (take ?n bs) \<le> ?n" by simp
      note pg = user_write_page [OF less.prems good(1) this]
      have "length (drop ?n bs) < length bs" using False page_rest_pos [of dstva] by simp
      then obtain r t where IH: "copyout_obj pt (page_of dstva + PGSIZE) (drop ?n bs) ?u = Ok (r, t)" "mem_only ?u t"
        "case user_write (mem ?u) pt (page_of dstva + PGSIZE) (drop ?n bs) of None \<Rightarrow> r = -1 | Some m \<Rightarrow> r = 0 \<and> mem t = m"
        using less.hyps [of "drop ?n bs" ?u "page_of dstva + PGSIZE"] pg by auto
      have "user_write (mem ?u) pt (dstva + of_nat (length (take ?n bs))) (drop ?n bs) =
          user_write (mem ?u) pt (page_of dstva + PGSIZE) (drop ?n bs)"
        by (cases "?n \<le> length bs") (simp_all add: min_def page_rest_def PGROUNDDOWN_page_of add.commute)
      then have "user_write (mem s) pt dstva bs = user_write (mem ?u) pt (page_of dstva + PGSIZE) (drop ?n bs)"
        using user_write_append [of "mem s" pt dstva "take ?n bs" "drop ?n bs"] pg by simp
      moreover have "mem_only s t" by (rule mem_only_trans [OF _ IH(2)]) simp
      ultimately show ?thesis using good(3) [OF False] IH by simp
    qed
  qed
qed

section \<open>Properties\<close>

text \<open>
  Copying an object and copying its bytes from memory are the same: \<open>copyout\<close> from a kernel
  buffer has the result and the effect of \<open>copyout_obj\<close> on the bytes in the buffer, the failing
  cases with their partial copies included, unless user memory overlaps the buffer.
\<close>

lemma copyout_obj_agrees:
  assumes "uptw (mem s) pt" "ksrc (mem s) pt src (unat len)"
  shows "copyout pt dstva src len s = copyout_obj pt dstva (bytes_at (mem s) src (unat len)) s"
  by (rule copyout_obj_eq [OF assms])

lemma copyout_obj_agrees_example:
  "\<exists>s :: kmst. uptw (mem s) 0x80100000 \<and>
    copyout 0x80100000 0x3ffe 0x80300000 4 s = copyout_obj 0x80100000 0x3ffe (bytes_at (mem s) 0x80300000 4) s"
proof -
  obtain s :: kmst where s: "upt (mem s) 0x80100000" "uptw (mem s) 0x80100000"
    "\<forall>va. 0x3000 \<le> va \<and> va < 0x4000 \<longrightarrow> utrans (mem s) 0x80100000 va = Some (0x80200000 + (va - 0x3000)) \<and>
      utransw (mem s) 0x80100000 va = Some (0x80200000 + (va - 0x3000))"
    "kbuf (mem s) 0x80100000 0x80300000 4" "ksrc (mem s) 0x80100000 0x80300000 4"
    by (rule one_user_page_trans)
  then show ?thesis
    using copyout_obj_agrees [OF s(2), where src = "0x80300000" and len = 4 and dstva = "0x3ffe"] by (intro exI [of _ s]) simp
qed

end
