(* ===== verification/Inode.thy ===== *)
theory Inode
  imports Log Kcopy
begin

text \<open>
  Blocks and inodes of \<open>kernel/fs.c\<close>, with the on-disk structures of \<open>kernel/fs.h\<close> and the
  in-memory inode of \<open>kernel/file.h\<close>: the superblock, the free-block bitmap, the inode table,
  the block map of a file with its indirect block, reading and writing file contents.

  A pointer to an in-memory inode is its index in \<open>itable\<close>; a null result is \<open>None\<close>.  Loops
  whose bound is a field of the superblock run over the value it has when they start, which no
  call in their bodies changes.  Messages printed on the console are not part of the state.
\<close>

section \<open>Structures\<close>

record superblock =
  sb_magic :: u32
  sb_size :: u32
  sb_nblocks :: u32
  sb_ninodes :: u32
  sb_nlog :: u32
  sb_logstart :: u32
  sb_inodestart :: u32
  sb_bmapstart :: u32

record dinode =
  di_type :: u16
  di_major :: u16
  di_minor :: u16
  di_nlink :: u16
  di_size :: u32
  di_addrs :: "u32 list"

record inode =
  i_dev :: u32
  i_inum :: u32
  i_ref :: int
  i_valid :: bool
  i_type :: u16
  i_major :: u16
  i_minor :: u16
  i_nlink :: u16
  i_size :: u32
  i_addrs :: "u32 list"

record stat =
  st_dev :: u32
  st_ino :: u32
  st_type :: u16
  st_nlink :: u16
  st_size :: u64

definition T_DIR :: u16 where [simp]: "T_DIR = 1"
definition T_FILE :: u16 where [simp]: "T_FILE = 2"
definition T_DEVICE :: u16 where [simp]: "T_DEVICE = 3"

record ist = lst +
  itable :: "nat \<Rightarrow> inode"
  sb :: superblock

definition set_inode :: "nat \<Rightarrow> (inode \<Rightarrow> inode) \<Rightarrow> 'a ist_scheme \<Rightarrow> 'a ist_scheme" where
  "set_inode ip f s = s\<lparr>itable := (itable s)(ip := f (itable s ip))\<rparr>"

text \<open>The layout of the structures in a block: little-endian fields at the offsets C gives them.\<close>

definition get_sb :: "u8 list \<Rightarrow> superblock" where
  "get_sb d = \<lparr>sb_magic = get32 d 0, sb_size = get32 d 4, sb_nblocks = get32 d 8, sb_ninodes = get32 d 12,
     sb_nlog = get32 d 16, sb_logstart = get32 d 20, sb_inodestart = get32 d 24, sb_bmapstart = get32 d 28\<rparr>"

definition get_dinode :: "u8 list \<Rightarrow> nat \<Rightarrow> dinode" where
  "get_dinode d off = \<lparr>di_type = get16 d off, di_major = get16 d (off + 2), di_minor = get16 d (off + 4),
     di_nlink = get16 d (off + 6), di_size = get32 d (off + 8),
     di_addrs = map (\<lambda>i. get32 d (off + 12 + 4 * i)) [0..<Suc NDIRECT]\<rparr>"

definition put_dinode :: "u8 list \<Rightarrow> nat \<Rightarrow> dinode \<Rightarrow> u8 list" where
  "put_dinode d off di =
     fold (\<lambda>i d. put32 d (off + 12 + 4 * i) (di_addrs di ! i)) [0..<Suc NDIRECT]
       (put32 (put16 (put16 (put16 (put16 d off (di_type di)) (off + 2) (di_major di))
          (off + 4) (di_minor di)) (off + 6) (di_nlink di)) (off + 8) (di_size di))"

definition IBLOCK :: "u32 \<Rightarrow> superblock \<Rightarrow> u32" where
  "IBLOCK i b = i div of_nat IPB + sb_inodestart b"

definition BBLOCK :: "u32 \<Rightarrow> superblock \<Rightarrow> u32" where
  "BBLOCK i b = i div of_nat BPB + sb_bmapstart b"

definition dinode_off :: "u32 \<Rightarrow> nat" where
  "dinode_off inum = 64 * (unat inum mod IPB)"

section \<open>Superblock\<close>

definition readsb :: "u32 \<Rightarrow> 'a ist_scheme \<Rightarrow> 'a ist_scheme res" where
  "readsb dev s =
     andthen (bread dev 1 s) (\<lambda>(bp, s).
     brelse bp (s\<lparr>sb := get_sb (b_data (bufs s bp))\<rparr>))"

definition fsinit :: "u32 \<Rightarrow> 'a ist_scheme \<Rightarrow> 'a ist_scheme res" where
  "fsinit dev s =
     andthen (readsb dev s) (\<lambda>s.
     if sb_magic (sb s) \<noteq> FSMAGIC then Fail (Panic ''invalid file system'')
     else initlog dev (sb_logstart (sb s)) (sb_nlog (sb s)) s)"

section \<open>Blocks\<close>

definition bzero :: "u32 \<Rightarrow> u32 \<Rightarrow> 'a ist_scheme \<Rightarrow> 'a ist_scheme res" where
  "bzero dev bno s =
     andthen (bread dev bno s) (\<lambda>(bp, s).
     andthen (log_write bp (put_data bp (replicate BSIZE 0) s)) (\<lambda>s.
     brelse bp s))"

text \<open>The bit of a block in a bitmap block, setting and clearing it.\<close>

definition bmbit :: "u8 list \<Rightarrow> nat \<Rightarrow> bool" where
  "bmbit d bi \<longleftrightarrow> d ! (bi div 8) AND push_bit (bi mod 8) 1 \<noteq> 0"

definition bmset :: "u8 list \<Rightarrow> nat \<Rightarrow> u8 list" where
  "bmset d bi = d[bi div 8 := d ! (bi div 8) OR push_bit (bi mod 8) 1]"

definition bmclear :: "u8 list \<Rightarrow> nat \<Rightarrow> u8 list" where
  "bmclear d bi = d[bi div 8 := d ! (bi div 8) AND NOT (push_bit (bi mod 8) 1)]"

text \<open>The loop counter of \<open>balloc\<close> is an \<open>int\<close>: going beyond its range is undefined.\<close>

fun balloc_loop :: "u32 \<Rightarrow> nat list \<Rightarrow> 'a ist_scheme \<Rightarrow> (u32 \<times> 'a ist_scheme) res" where
  "balloc_loop dev [] s = Ok (0, s)"
| "balloc_loop dev (b # bs) s =
     (if 2 ^ 31 \<le> b then Fail Undefined
      else
        andthen (bread dev (BBLOCK (of_nat b) (sb s)) s) (\<lambda>(bp, s).
        case find (\<lambda>bi. b + bi < unat (sb_size (sb s)) \<and> \<not> bmbit (b_data (bufs s bp)) bi) [0..<BPB] of
          Some bi \<Rightarrow>
            andthen (log_write bp (put_data bp (bmset (b_data (bufs s bp)) bi) s)) (\<lambda>s.
            andthen (brelse bp s) (\<lambda>s.
            andthen (bzero dev (of_nat (b + bi)) s) (\<lambda>s.
            Ok (of_nat (b + bi), s))))
        | None \<Rightarrow>
            andthen (brelse bp s) (\<lambda>s.
            balloc_loop dev bs s)))"

definition balloc :: "u32 \<Rightarrow> 'a ist_scheme \<Rightarrow> (u32 \<times> 'a ist_scheme) res" where
  "balloc dev s = balloc_loop dev (map (\<lambda>k. k * BPB) [0..<(unat (sb_size (sb s)) + BPB - 1) div BPB]) s"

definition bfree :: "u32 \<Rightarrow> u32 \<Rightarrow> 'a ist_scheme \<Rightarrow> 'a ist_scheme res" where
  "bfree dev b s =
     andthen (bread dev (BBLOCK b (sb s)) s) (\<lambda>(bp, s).
     let bi = unat b mod BPB in
     if \<not> bmbit (b_data (bufs s bp)) bi then Fail (Panic ''freeing free block'')
     else
       andthen (log_write bp (put_data bp (bmclear (b_data (bufs s bp)) bi) s)) (\<lambda>s.
       brelse bp s))"

section \<open>Inodes\<close>

definition iinit :: "'a ist_scheme \<Rightarrow> 'a ist_scheme" where
  "iinit s = fold (\<lambda>i s. initsleeplock (InodeSL i) s) [0..<NINODE] (s\<lparr>lks := (lks s)(ItableLock := False)\<rparr>)"

definition iget :: "u32 \<Rightarrow> u32 \<Rightarrow> 'a ist_scheme \<Rightarrow> (nat \<times> 'a ist_scheme) res" where
  "iget dev inum s =
     andthen (acquire ItableLock s) (\<lambda>s.
     case find (\<lambda>i. i_ref (itable s i) > 0 \<and> i_dev (itable s i) = dev \<and> i_inum (itable s i) = inum) [0..<NINODE] of
       Some ip \<Rightarrow>
         andthen (release ItableLock (set_inode ip (\<lambda>q. q\<lparr>i_ref := i_ref q + 1\<rparr>) s)) (\<lambda>s. Ok (ip, s))
     | None \<Rightarrow>
         (case find (\<lambda>i. i_ref (itable s i) = 0) [0..<NINODE] of
            None \<Rightarrow> Fail (Panic ''iget: no inodes'')
          | Some ip \<Rightarrow>
              andthen (release ItableLock (set_inode ip
                (\<lambda>q. q\<lparr>i_dev := dev, i_inum := inum, i_ref := 1, i_valid := False\<rparr>) s)) (\<lambda>s. Ok (ip, s))))"

fun ialloc_loop :: "u32 \<Rightarrow> u16 \<Rightarrow> nat list \<Rightarrow> 'a ist_scheme \<Rightarrow> (nat option \<times> 'a ist_scheme) res" where
  "ialloc_loop dev type [] s = Ok (None, s)"
| "ialloc_loop dev type (inum # is) s =
     andthen (bread dev (IBLOCK (of_nat inum) (sb s)) s) (\<lambda>(bp, s).
     let off = dinode_off (of_nat inum); d = b_data (bufs s bp) in
     if di_type (get_dinode d off) = 0 then
       andthen (log_write bp (put_data bp (put16 (splice d off (replicate 64 0)) off type) s)) (\<lambda>s.
       andthen (brelse bp s) (\<lambda>s.
       andthen (iget dev (of_nat inum) s) (\<lambda>(ip, s). Ok (Some ip, s))))
     else
       andthen (brelse bp s) (\<lambda>s.
       ialloc_loop dev type is s))"

definition ialloc :: "u32 \<Rightarrow> u16 \<Rightarrow> 'a ist_scheme \<Rightarrow> (nat option \<times> 'a ist_scheme) res" where
  "ialloc dev type s = ialloc_loop dev type [1..<unat (sb_ninodes (sb s))] s"

definition inode_dinode :: "inode \<Rightarrow> dinode" where
  "inode_dinode q = \<lparr>di_type = i_type q, di_major = i_major q, di_minor = i_minor q, di_nlink = i_nlink q,
     di_size = i_size q, di_addrs = i_addrs q\<rparr>"

definition iupdate :: "nat \<Rightarrow> 'a ist_scheme \<Rightarrow> 'a ist_scheme res" where
  "iupdate ip s =
     (let q = itable s ip in
      andthen (bread (i_dev q) (IBLOCK (i_inum q) (sb s)) s) (\<lambda>(bp, s).
      andthen (log_write bp (put_data bp
        (put_dinode (b_data (bufs s bp)) (dinode_off (i_inum q)) (inode_dinode q)) s)) (\<lambda>s.
      brelse bp s)))"

definition idup :: "nat \<Rightarrow> 'a ist_scheme \<Rightarrow> (nat \<times> 'a ist_scheme) res" where
  "idup ip s =
     andthen (acquire ItableLock s) (\<lambda>s.
     andthen (release ItableLock (set_inode ip (\<lambda>q. q\<lparr>i_ref := i_ref q + 1\<rparr>) s)) (\<lambda>s.
     Ok (ip, s)))"

definition load_dinode :: "dinode \<Rightarrow> inode \<Rightarrow> inode" where
  "load_dinode di q = q\<lparr>i_type := di_type di, i_major := di_major di, i_minor := di_minor di, i_nlink := di_nlink di,
     i_size := di_size di, i_addrs := di_addrs di\<rparr>"

definition ilock :: "nat \<Rightarrow> 'a ist_scheme \<Rightarrow> 'a ist_scheme res" where
  "ilock ip s =
     (if i_ref (itable s ip) < 1 then Fail (Panic ''ilock'')
      else
        andthen (acquiresleep (InodeSL ip) s) (\<lambda>s.
        if \<not> i_valid (itable s ip) then
          andthen (bread (i_dev (itable s ip)) (IBLOCK (i_inum (itable s ip)) (sb s)) s) (\<lambda>(bp, s).
          let di = get_dinode (b_data (bufs s bp)) (dinode_off (i_inum (itable s ip))) in
          andthen (brelse bp (set_inode ip (load_dinode di) s)) (\<lambda>s.
          let s = set_inode ip (\<lambda>q. q\<lparr>i_valid := True\<rparr>) s in
          if i_type (itable s ip) = 0 then Fail (Panic ''ilock: no type'') else Ok s))
        else Ok s))"

definition iunlock :: "nat \<Rightarrow> 'a ist_scheme \<Rightarrow> 'a ist_scheme res" where
  "iunlock ip s =
     andthen (holdingsleep (InodeSL ip) s) (\<lambda>(h, s).
     if \<not> h \<or> i_ref (itable s ip) < 1 then Fail (Panic ''iunlock'')
     else releasesleep (InodeSL ip) s)"

section \<open>Inode content\<close>

definition set_addr :: "nat \<Rightarrow> nat \<Rightarrow> u32 \<Rightarrow> 'a ist_scheme \<Rightarrow> 'a ist_scheme" where
  "set_addr ip i a s = set_inode ip (\<lambda>q. q\<lparr>i_addrs := (i_addrs q)[i := a]\<rparr>) s"

definition bmap :: "nat \<Rightarrow> u32 \<Rightarrow> 'a ist_scheme \<Rightarrow> (u32 \<times> 'a ist_scheme) res" where
  "bmap ip bn s =
     (if bn < of_nat NDIRECT then
        let addr = i_addrs (itable s ip) ! unat bn in
        if addr = 0 then
          andthen (balloc (i_dev (itable s ip)) s) (\<lambda>(addr, s).
          if addr = 0 then Ok (0, s) else Ok (addr, set_addr ip (unat bn) addr s))
        else Ok (addr, s)
      else
        let bn = bn - of_nat NDIRECT in
        if bn < of_nat NINDIRECT then
          let addr = i_addrs (itable s ip) ! NDIRECT in
          andthen (if addr = 0 then
              andthen (balloc (i_dev (itable s ip)) s) (\<lambda>(addr, s).
              if addr = 0 then Ok (0, s) else Ok (addr, set_addr ip NDIRECT addr s))
            else Ok (addr, s)) (\<lambda>(addr, s).
          if addr = 0 then Ok (0, s)
          else
            andthen (bread (i_dev (itable s ip)) addr s) (\<lambda>(bp, s).
            let addr = get32 (b_data (bufs s bp)) (4 * unat bn) in
            andthen (if addr = 0 then
                andthen (balloc (i_dev (itable s ip)) s) (\<lambda>(addr, s).
                if addr \<noteq> 0 then
                  andthen (log_write bp (put_data bp (put32 (b_data (bufs s bp)) (4 * unat bn) addr) s)) (\<lambda>s. Ok (addr, s))
                else Ok (addr, s))
              else Ok (addr, s)) (\<lambda>(addr, s).
            andthen (brelse bp s) (\<lambda>s. Ok (addr, s)))))
        else Fail (Panic ''bmap: out of range''))"

fun itrunc_direct :: "nat \<Rightarrow> nat list \<Rightarrow> 'a ist_scheme \<Rightarrow> 'a ist_scheme res" where
  "itrunc_direct ip [] s = Ok s"
| "itrunc_direct ip (i # is) s =
     (if i_addrs (itable s ip) ! i \<noteq> 0 then
        andthen (bfree (i_dev (itable s ip)) (i_addrs (itable s ip) ! i) s) (\<lambda>s.
        itrunc_direct ip is (set_addr ip i 0 s))
      else itrunc_direct ip is s)"

fun itrunc_indirect :: "nat \<Rightarrow> nat \<Rightarrow> nat list \<Rightarrow> 'a ist_scheme \<Rightarrow> 'a ist_scheme res" where
  "itrunc_indirect ip bp [] s = Ok s"
| "itrunc_indirect ip bp (j # js) s =
     (let a = get32 (b_data (bufs s bp)) (4 * j) in
      if a \<noteq> 0 then andthen (bfree (i_dev (itable s ip)) a s) (\<lambda>s. itrunc_indirect ip bp js s)
      else itrunc_indirect ip bp js s)"

definition itrunc :: "nat \<Rightarrow> 'a ist_scheme \<Rightarrow> 'a ist_scheme res" where
  "itrunc ip s =
     andthen (itrunc_direct ip [0..<NDIRECT] s) (\<lambda>s.
     andthen (if i_addrs (itable s ip) ! NDIRECT \<noteq> 0 then
         andthen (bread (i_dev (itable s ip)) (i_addrs (itable s ip) ! NDIRECT) s) (\<lambda>(bp, s).
         andthen (itrunc_indirect ip bp [0..<NINDIRECT] s) (\<lambda>s.
         andthen (brelse bp s) (\<lambda>s.
         andthen (bfree (i_dev (itable s ip)) (i_addrs (itable s ip) ! NDIRECT) s) (\<lambda>s.
         Ok (set_addr ip NDIRECT 0 s)))))
       else Ok s) (\<lambda>s.
     iupdate ip (set_inode ip (\<lambda>q. q\<lparr>i_size := 0\<rparr>) s)))"

definition iput :: "nat \<Rightarrow> 'a ist_scheme \<Rightarrow> 'a ist_scheme res" where
  "iput ip s =
     andthen (acquire ItableLock s) (\<lambda>s.
     andthen (if i_ref (itable s ip) = 1 \<and> i_valid (itable s ip) \<and> i_nlink (itable s ip) = 0 then
         andthen (acquiresleep (InodeSL ip) s) (\<lambda>s.
         andthen (release ItableLock s) (\<lambda>s.
         andthen (itrunc ip s) (\<lambda>s.
         andthen (iupdate ip (set_inode ip (\<lambda>q. q\<lparr>i_type := 0\<rparr>) s)) (\<lambda>s.
         andthen (releasesleep (InodeSL ip) (set_inode ip (\<lambda>q. q\<lparr>i_valid := False\<rparr>) s)) (\<lambda>s.
         acquire ItableLock s)))))
       else Ok s) (\<lambda>s.
     release ItableLock (set_inode ip (\<lambda>q. q\<lparr>i_ref := i_ref q - 1\<rparr>) s)))"

definition iunlockput :: "nat \<Rightarrow> 'a ist_scheme \<Rightarrow> 'a ist_scheme res" where
  "iunlockput ip s = andthen (iunlock ip s) (\<lambda>s. iput ip s)"

definition stati :: "nat \<Rightarrow> 'a ist_scheme \<Rightarrow> stat" where
  "stati ip s = (let q = itable s ip in
     \<lparr>st_dev = i_dev q, st_ino = i_inum q, st_type = i_type q, st_nlink = i_nlink q, st_size = ucast (i_size q)\<rparr>)"

text \<open>
  The loops of \<open>readi\<close> and \<open>writei\<close>.  Each round copies at least one byte, up to the end of the
  block.  \<open>readi\<close> turns a failing copy into \<open>-1\<close>; \<open>writei\<close> stops, and what it returns with the
  count is the offset it has reached.
\<close>

definition chunk :: "u32 \<Rightarrow> u32 \<Rightarrow> u32 \<Rightarrow> u32" where
  "chunk off n tot = min (n - tot) (of_nat BSIZE - off mod of_nat BSIZE)"

lemma chunk_decreases: "tot < n \<Longrightarrow> unat (n - (tot + chunk off n tot)) < unat (n - tot)"
proof -
  assume "tot < n"
  then have "0 < unat (n - tot)" by (simp add: unat_sub_if_size word_less_nat_alt)
  have "unat (off mod 1024) < 1024" by (simp add: unat_mod)
  then have "0 < unat (1024 - off mod 1024)" by (simp add: unat_sub_if_size)
  then have c: "0 < unat (chunk off n tot)" "unat (chunk off n tot) \<le> unat (n - tot)"
    using \<open>0 < unat (n - tot)\<close> by (auto simp: chunk_def min_def word_le_nat_alt)
  have "n - (tot + chunk off n tot) = (n - tot) - chunk off n tot" by (rule diff_diff_eq [symmetric])
  moreover have "unat ((n - tot) - chunk off n tot) = unat (n - tot) - unat (chunk off n tot)"
    by (rule unat_sub) (use c in \<open>simp add: word_le_nat_alt\<close>)
  ultimately show ?thesis using c by (simp only:)
qed

function readi_loop :: "nat \<Rightarrow> bool \<Rightarrow> u64 \<Rightarrow> u32 \<Rightarrow> u32 \<Rightarrow> u32 \<Rightarrow> 'a ist_scheme \<Rightarrow> (u32 \<times> 'a ist_scheme) res" where
  "readi_loop ip user_dst dst off n tot s =
     (if tot < n then
        andthen (bmap ip (off div of_nat BSIZE) s) (\<lambda>(addr, s).
        if addr = 0 then Ok (tot, s)
        else
          andthen (bread (i_dev (itable s ip)) addr s) (\<lambda>(bp, s).
          let m = chunk off n tot in
          andthen (either_copyout user_dst dst (slice (b_data (bufs s bp)) (unat (off mod of_nat BSIZE)) (unat m)) s) (\<lambda>(r, s).
          if r = -1 then andthen (brelse bp s) (\<lambda>s. Ok (-1, s))
          else
            andthen (brelse bp s) (\<lambda>s.
            readi_loop ip user_dst (dst + ucast m) (off + m) n (tot + m) s))))
      else Ok (tot, s))"
  by pat_completeness auto
termination
  by (relation "measure (\<lambda>(ip, user, dst, off, n, tot, s). unat (n - tot))") (auto intro: chunk_decreases)

definition readi :: "nat \<Rightarrow> bool \<Rightarrow> u64 \<Rightarrow> u32 \<Rightarrow> u32 \<Rightarrow> 'a ist_scheme \<Rightarrow> (int \<times> 'a ist_scheme) res" where
  "readi ip user_dst dst off n s =
     (if off > i_size (itable s ip) \<or> off + n < off then Ok (0, s)
      else
        let n = (if off + n > i_size (itable s ip) then i_size (itable s ip) - off else n) in
        andthen (readi_loop ip user_dst dst off n 0 s) (\<lambda>(tot, s). Ok (sint tot, s)))"

function writei_loop :: "nat \<Rightarrow> bool \<Rightarrow> u64 \<Rightarrow> u32 \<Rightarrow> u32 \<Rightarrow> u32 \<Rightarrow> 'a ist_scheme \<Rightarrow> (u32 \<times> u32 \<times> 'a ist_scheme) res" where
  "writei_loop ip user_src src off n tot s =
     (if tot < n then
        andthen (bmap ip (off div of_nat BSIZE) s) (\<lambda>(addr, s).
        if addr = 0 then Ok (tot, off, s)
        else
          andthen (bread (i_dev (itable s ip)) addr s) (\<lambda>(bp, s).
          let m = chunk off n tot in
          andthen (either_copyin user_src src (unat m) s) (\<lambda>(r, bs, s).
          let s = put_data bp (splice (b_data (bufs s bp)) (unat (off mod of_nat BSIZE)) bs) s in
          if r = -1 then andthen (brelse bp s) (\<lambda>s. Ok (tot, off, s))
          else
            andthen (log_write bp s) (\<lambda>s.
            andthen (brelse bp s) (\<lambda>s.
            writei_loop ip user_src (src + ucast m) (off + m) n (tot + m) s)))))
      else Ok (tot, off, s))"
  by pat_completeness auto
termination
  by (relation "measure (\<lambda>(ip, user, src, off, n, tot, s). unat (n - tot))") (auto intro: chunk_decreases)

declare readi_loop.simps [simp del] writei_loop.simps [simp del]

definition writei :: "nat \<Rightarrow> bool \<Rightarrow> u64 \<Rightarrow> u32 \<Rightarrow> u32 \<Rightarrow> 'a ist_scheme \<Rightarrow> (int \<times> 'a ist_scheme) res" where
  "writei ip user_src src off n s =
     (if off > i_size (itable s ip) \<or> off + n < off then Ok (-1, s)
      else if unat (off + n) > MAXFILE * BSIZE then Ok (-1, s)
      else
        andthen (writei_loop ip user_src src off n 0 s) (\<lambda>(tot, off, s).
        let s = (if off > i_size (itable s ip) then set_inode ip (\<lambda>q. q\<lparr>i_size := off\<rparr>) s else s) in
        andthen (iupdate ip s) (\<lambda>s. Ok (sint tot, s))))"

text \<open>A state with an empty inode table.\<close>

definition zero_inode :: inode where
  "zero_inode = \<lparr>i_dev = 0, i_inum = 0, i_ref = 0, i_valid = False, i_type = 0, i_major = 0, i_minor = 0,
     i_nlink = 0, i_size = 0, i_addrs = replicate 13 0\<rparr>"

definition fs_state :: "image \<Rightarrow> bytemem \<Rightarrow> ist" where
  "fs_state d m = \<lparr>lks = (\<lambda>_. False), slks = (\<lambda>_. \<lparr>sl_locked = False, sl_pid = 0\<rparr>),
     procs = (\<lambda>_. zero_proc), curproc = Some 0, mem = m, freelist = 0, kend = 0x80021000, kernel_pagetable = 0,
     pipes = (\<lambda>_. \<lparr>pi_data = [], pi_nread = 0, pi_nwrite = 0, pi_readopen = False, pi_writeopen = False\<rparr>),
     vdisk = fresh_disk, bufs = (\<lambda>_. zero_buf), img = d, hist = [], blkdev = chain_device,
     klog = \<lparr>l_start = 2, l_size = 30, l_outstanding = 1, l_committing = False, l_dev = ROOTDEV, l_lh = \<lparr>lh_n = 0, lh_block = (\<lambda>_. 0)\<rparr>\<rparr>,
     itable = (\<lambda>_. zero_inode),
     sb = \<lparr>sb_magic = FSMAGIC, sb_size = 2000, sb_nblocks = 1954, sb_ninodes = 200, sb_nlog = 30, sb_logstart = 2,
       sb_inodestart = 32, sb_bmapstart = 45\<rparr>\<rparr>"

end
