(* ===== verification/Dir.thy ===== *)
theory Dir
  imports Inode
begin

text \<open>
  Directories and path names of \<open>kernel/fs.c\<close>.  A path is a nul-terminated string in kernel
  memory.  The local variable \<open>de\<close> of \<open>dirlookup\<close> and \<open>dirlink\<close> is on the kernel stack: its
  address is a parameter, and reading an entry stores its 16 bytes there.  The loops over the
  characters of a path end when memory has a nul byte after it; a path without one would make
  the code run on, and the functions are partial there.
\<close>

section \<open>Directories\<close>

definition namecmp :: "bytemem \<Rightarrow> u64 \<Rightarrow> u64 \<Rightarrow> int" where
  "namecmp m p q = strncmp (at m p) (at m q) (of_nat DIRSIZ)"

definition de_inum :: "bytemem \<Rightarrow> u64 \<Rightarrow> u16" where
  "de_inum m de = le_word (bytes_at m de 2)"

definition dir_offs :: "u32 \<Rightarrow> u32 list" where
  "dir_offs sz = map (\<lambda>k. of_nat (16 * k)) [0..<(unat sz + 15) div 16]"

fun dirlookup_loop :: "nat \<Rightarrow> u64 \<Rightarrow> u64 \<Rightarrow> u32 list \<Rightarrow> 'a ist_scheme \<Rightarrow> ((nat \<times> u32) option \<times> 'a ist_scheme) res" where
  "dirlookup_loop dp name de [] s = Ok (None, s)"
| "dirlookup_loop dp name de (off # offs) s =
     andthen (readi dp False de off 16 s) (\<lambda>(r, s).
     if r \<noteq> 16 then Fail (Panic ''dirlookup read'')
     else if de_inum (mem s) de = 0 then dirlookup_loop dp name de offs s
     else if namecmp (mem s) name (de + 2) = 0 then
       andthen (iget (i_dev (itable s dp)) (ucast (de_inum (mem s) de)) s) (\<lambda>(ip, s). Ok (Some (ip, off), s))
     else dirlookup_loop dp name de offs s)"

text \<open>The entry found comes with its offset, which the code stores through \<open>poff\<close> if that is not null.\<close>

definition dirlookup :: "nat \<Rightarrow> u64 \<Rightarrow> u64 \<Rightarrow> 'a ist_scheme \<Rightarrow> ((nat \<times> u32) option \<times> 'a ist_scheme) res" where
  "dirlookup dp name de s =
     (if i_type (itable s dp) \<noteq> T_DIR then Fail (Panic ''dirlookup not DIR'')
      else dirlookup_loop dp name de (dir_offs (i_size (itable s dp))) s)"

text \<open>The search for an empty entry: the offset where it stops.\<close>

fun dirlink_loop :: "nat \<Rightarrow> u64 \<Rightarrow> u32 list \<Rightarrow> u32 \<Rightarrow> 'a ist_scheme \<Rightarrow> (u32 \<times> 'a ist_scheme) res" where
  "dirlink_loop dp de [] e s = Ok (e, s)"
| "dirlink_loop dp de (off # offs) e s =
     andthen (readi dp False de off 16 s) (\<lambda>(r, s).
     if r \<noteq> 16 then Fail (Panic ''dirlink read'')
     else if de_inum (mem s) de = 0 then Ok (off, s)
     else dirlink_loop dp de offs e s)"

definition dirlink :: "nat \<Rightarrow> u64 \<Rightarrow> u32 \<Rightarrow> u64 \<Rightarrow> 'a ist_scheme \<Rightarrow> (int \<times> 'a ist_scheme) res" where
  "dirlink dp name inum de s =
     andthen (dirlookup dp name de s) (\<lambda>(found, s).
     case found of
       Some (ip, _) \<Rightarrow> andthen (iput ip s) (\<lambda>s. Ok (-1, s))
     | None \<Rightarrow>
         let offs = dir_offs (i_size (itable s dp)) in
         andthen (dirlink_loop dp de offs (of_nat (16 * length offs)) s) (\<lambda>(off, s).
         let m = strncpy (mem s) (de + 2) name (of_nat DIRSIZ);
             s = s\<lparr>mem := put_block m de (le_bytes 2 (ucast inum :: u16))\<rparr> in
         andthen (writei dp False de off 16 s) (\<lambda>(r, s).
         if r \<noteq> 16 then Ok (-1, s) else Ok (0, s))))"

section \<open>Paths\<close>

partial_function (option) skip_slash :: "bytemem \<Rightarrow> u64 \<Rightarrow> u64 option" where
  "skip_slash m p = (if m p = 47 then skip_slash m (p + 1) else Some p)"

partial_function (option) skip_name :: "bytemem \<Rightarrow> u64 \<Rightarrow> u64 option" where
  "skip_name m p = (if m p \<noteq> 47 \<and> m p \<noteq> 0 then skip_name m (p + 1) else Some p)"

text \<open>The result 0 is the null pointer.\<close>

definition skipelem :: "u64 \<Rightarrow> u64 \<Rightarrow> 'a kmst_scheme \<Rightarrow> (u64 \<times> 'a kmst_scheme) res" where
  "skipelem path name s =
     (case skip_slash (mem s) path of
        None \<Rightarrow> Fail Undefined
      | Some st \<Rightarrow>
          if mem s st = 0 then Ok (0, s)
          else
            (case skip_name (mem s) st of
               None \<Rightarrow> Fail Undefined
             | Some path \<Rightarrow>
                 let len = (ucast (path - st) :: u32);
                     m = (if sint len \<ge> int DIRSIZ then memmove (mem s) name st (of_nat DIRSIZ)
                          else (memmove (mem s) name st len)(name + scast len := 0)) in
                 (case skip_slash m path of
                    None \<Rightarrow> Fail Undefined
                  | Some path \<Rightarrow> Ok (path, s\<lparr>mem := m\<rparr>))))"

text \<open>One round of \<open>namex\<close> for the element in \<open>name\<close>: return a result, or go on with the next inode.\<close>

definition namex_step :: "bool \<Rightarrow> u64 \<Rightarrow> u64 \<Rightarrow> u64 \<Rightarrow> nat \<Rightarrow> 'a ist_scheme \<Rightarrow> ((nat option + nat) \<times> 'a ist_scheme) res" where
  "namex_step parent path name de ip s =
     andthen (ilock ip s) (\<lambda>s.
     if i_type (itable s ip) \<noteq> T_DIR then andthen (iunlockput ip s) (\<lambda>s. Ok (Inl None, s))
     else if parent \<and> mem s path = 0 then andthen (iunlock ip s) (\<lambda>s. Ok (Inl (Some ip), s))
     else
       andthen (dirlookup ip name de s) (\<lambda>(found, s).
       andthen (iunlockput ip s) (\<lambda>s.
       case found of None \<Rightarrow> Ok (Inl None, s) | Some (next, _) \<Rightarrow> Ok (Inr next, s))))"

partial_function (option) namex_loop :: "bool \<Rightarrow> u64 \<Rightarrow> u64 \<Rightarrow> u64 \<Rightarrow> nat \<Rightarrow> 'a ist_scheme \<Rightarrow> (nat option \<times> 'a ist_scheme) res option" where
  "namex_loop parent path name de ip s =
     (case skipelem path name s of
        Fail e \<Rightarrow> Some (Fail e)
      | Ok (path, s) \<Rightarrow>
          if path = 0 then
            Some (if parent then andthen (iput ip s) (\<lambda>s. Ok (None, s)) else Ok (Some ip, s))
          else
            (case namex_step parent path name de ip s of
               Fail e \<Rightarrow> Some (Fail e)
             | Ok (r, s) \<Rightarrow>
                 (case r of Inl ip \<Rightarrow> Some (Ok (ip, s)) | Inr next \<Rightarrow> namex_loop parent path name de next s)))"

definition namex :: "bool \<Rightarrow> u64 \<Rightarrow> u64 \<Rightarrow> u64 \<Rightarrow> 'a ist_scheme \<Rightarrow> (nat option \<times> 'a ist_scheme) res" where
  "namex parent path name de s =
     andthen (if mem s path = 47 then iget ROOTDEV ROOTINO s
       else (case myproc s of
           None \<Rightarrow> Fail Undefined
         | Some p \<Rightarrow> (case p_cwd (procs s p) of None \<Rightarrow> Fail Undefined | Some ip \<Rightarrow> idup ip s))) (\<lambda>(ip, s).
     case namex_loop parent path name de ip s of None \<Rightarrow> Fail Undefined | Some r \<Rightarrow> r)"

definition namei :: "u64 \<Rightarrow> u64 \<Rightarrow> u64 \<Rightarrow> 'a ist_scheme \<Rightarrow> (nat option \<times> 'a ist_scheme) res" where
  "namei path name de s = namex False path name de s"

definition nameiparent :: "u64 \<Rightarrow> u64 \<Rightarrow> u64 \<Rightarrow> 'a ist_scheme \<Rightarrow> (nat option \<times> 'a ist_scheme) res" where
  "nameiparent path name de s = namex True path name de s"

end
