(* ===== verification/Frame.thy ===== *)
theory Frame
  imports Dir
begin

text \<open>
  What an operation leaves alone, proved once for every view of the state.  The locale takes a view
  \<open>V\<close> of the state that does not depend on the fields the file system, the disk driver and the locks
  work on, and shows that every operation of theirs that returns leaves the view as it was.  It is
  interpreted on byte memory (theory Fsframe) and on the parts of the kernel state above the file
  system (theory Kview).
\<close>

named_theorems mk "an operation keeps the view"

lemma wakeup_loop_same: "wakeup_loop c ps s = Ok t \<Longrightarrow> \<exists>P. same_procs (procs s) P \<and> t = s\<lparr>procs := P\<rparr>"
proof (induction ps arbitrary: s)
  case Nil
  then have "t = s\<lparr>procs := procs s\<rparr>" by simp
  then show ?case using same_procs_refl by blast
next
  case (Cons p ps)
  show ?case
  proof (cases "Some p \<noteq> myproc s")
    case True
    then have free: "\<not> lks s (ProcLock p)" using Cons.prems by (auto simp: acquire_def)
    let ?P = "if p_state (procs s p) = SLEEPING \<and> p_chan (procs s p) = c
      then (procs s)(p := (procs s p)\<lparr>p_state := RUNNABLE\<rparr>) else procs s"
    have "wakeup_loop c ps (s\<lparr>procs := ?P\<rparr>) = Ok t"
      using Cons.prems True free by (auto simp: res_simps set_proc_def split: if_splits)
    from Cons.IH [OF this] obtain Q where "same_procs ?P Q" "t = s\<lparr>procs := Q\<rparr>" by auto
    moreover have "same_procs (procs s) ?P" by (rule same_procsI) auto
    ultimately show ?thesis using same_procs_trans by blast
  next
    case False
    then show ?thesis using Cons.IH Cons.prems by auto
  qed
qed

lemma wakeup_same: "wakeup c s = Ok t \<Longrightarrow> \<exists>P. same_procs (procs s) P \<and> t = s\<lparr>procs := P\<rparr>"
  unfolding wakeup_def by (rule wakeup_loop_same)

locale fs_frame =
  fixes V :: "'a ist_scheme \<Rightarrow> 'v"
  assumes V_lks: "V (s\<lparr>lks := l\<rparr>) = V s"
    and V_slks: "V (s\<lparr>slks := sl\<rparr>) = V s"
    and V_procs: "same_procs (procs s) P \<Longrightarrow> V (s\<lparr>procs := P\<rparr>) = V s"
    and V_curproc: "V (s\<lparr>curproc := c\<rparr>) = V s"
    and V_vdisk: "V (s\<lparr>vdisk := d\<rparr>) = V s"
    and V_bufs: "V (s\<lparr>bufs := b\<rparr>) = V s"
    and V_img: "V (s\<lparr>img := i\<rparr>) = V s"
    and V_hist: "V (s\<lparr>hist := h\<rparr>) = V s"
    and V_klog: "V (s\<lparr>klog := k\<rparr>) = V s"
    and V_itable: "V (s\<lparr>itable := it\<rparr>) = V s"
begin

lemmas V_simps [simp] = V_lks V_slks V_curproc V_vdisk V_bufs V_img V_hist V_klog V_itable

lemmas keep_bind = okp_bind1 [where J = "\<lambda>t. V t = m" for m] okp_bind2 [where J = "\<lambda>t. V t = m" for m]

lemma V_run_state: "V (s\<lparr>procs := (procs s)(p := (procs s p)\<lparr>p_state := st\<rparr>)\<rparr>) = V s"
  by (rule V_procs) (rule same_procsI, simp)

lemma V_run_chan: "V (s\<lparr>procs := (procs s)(p := (procs s p)\<lparr>p_chan := ch\<rparr>)\<rparr>) = V s"
  by (rule V_procs) (rule same_procsI, simp)

lemma V_run_sleep: "V (s\<lparr>procs := (procs s)(p := (procs s p)\<lparr>p_chan := ch, p_state := st\<rparr>)\<rparr>) = V s"
  by (rule V_procs) (rule same_procsI, simp)

lemmas V_run [simp] = V_run_state V_run_chan V_run_sleep

section \<open>Locks and the disk\<close>

lemma mk_acquire [mk]: "V s = m \<Longrightarrow> okp (\<lambda>t. V t = m) (acquire l s)"
  by (simp add: acquire_def)

lemma mk_release [mk]: "V s = m \<Longrightarrow> okp (\<lambda>t. V t = m) (release l s)"
  by (simp add: release_def)

lemma mk_wakeup [mk]: "V s = m \<Longrightarrow> okp (\<lambda>t. V t = m) (wakeup c s)"
  by (rule okpI) (use wakeup_same V_procs in fastforce)

lemma mk_acquiresleep [mk]: "V s = m \<Longrightarrow> okp (\<lambda>t. V t = m) (acquiresleep l s)"
  unfolding acquiresleep_def by (rule keep_bind(1) [of m] okp_struct okp_res | simp add: mk)+

lemma mk_releasesleep [mk]: "V s = m \<Longrightarrow> okp (\<lambda>t. V t = m) (releasesleep l s)"
  unfolding releasesleep_def by (rule keep_bind(1) [of m] | simp add: mk)+

lemma mk_holdingsleep [mk]: "V s = m \<Longrightarrow> okp (\<lambda>(x, t). V t = m) (holdingsleep l s)"
  unfolding holdingsleep_def by (rule keep_bind(1) [of m] okp_res | simp add: mk)+

lemma mk_free_desc [mk]: "V s = m \<Longrightarrow> okp (\<lambda>t. V t = m) (free_desc i s)"
  by (simp add: free_desc_def set_vdisk_def mk)

lemma mk_free_chain [mk]: "V s = m \<Longrightarrow> okp (\<lambda>t. V t = m) (free_chain i s)"
proof (induction i s rule: free_chain.induct)
  case (1 i s)
  show ?case
  proof (cases "free_desc i s")
    case (Ok u)
    then have "V u = m" using okpD [OF mk_free_desc [OF "1.prems"]] by blast
    then show ?thesis using "1.IH" [OF refl refl Ok] Ok by (subst free_chain.simps) (simp add: Let_def)
  qed (simp add: free_chain.simps [of i])
qed

lemma mk_intr_loop [mk]: "V s = m \<Longrightarrow> okp (\<lambda>t. V t = m) (virtio_disk_intr_loop s)"
proof (induction s rule: virtio_disk_intr_loop.induct)
  case (1 s)
  let ?i = "unat (us_ring (used (vdisk s)) (unat (used_idx (vdisk s) mod 8)))"
  show ?case
  proof (cases "used_idx (vdisk s) \<noteq> us_idx (used (vdisk s)) \<and> \<not> NUM \<le> ?i \<and> \<not> in_status (info (vdisk s) ?i) \<noteq> 0")
    case True
    have "okp (\<lambda>t. V t = m) (virtio_disk_intr_loop (set_vdisk (\<lambda>d. d\<lparr>used_idx := used_idx d + 1\<rparr>) u))"
      if "in_b (info (vdisk s) ?i) = Some b" "wakeup (ChBuf b) (set_buf b (b_disk_update (\<lambda>_. False)) s) = Ok u" for b u
    proof -
      have "V u = m" using okpD [OF mk_wakeup that(2)] "1.prems" by (simp add: set_buf_def)
      then show ?thesis using "1.IH" [OF _ refl _ _ that] True by (simp add: set_vdisk_def)
    qed
    then show ?thesis using True
      by (subst virtio_disk_intr_loop.simps) (auto simp: Let_def split: option.split intro!: okp_res)
  next
    case False
    then show ?thesis using "1.prems" by (subst virtio_disk_intr_loop.simps) (auto simp: Let_def)
  qed
qed

lemma mk_sleep_enter [mk]: "V s = m \<Longrightarrow> okp (\<lambda>t. V t = m) (sleep_enter c l s)"
  unfolding sleep_enter_def by (rule keep_bind(1) [of m] okp_struct | simp add: mk set_proc_def)+

lemma mk_sleep_exit [mk]: "V s = m \<Longrightarrow> okp (\<lambda>t. V t = m) (sleep_exit p l s)"
  unfolding sleep_exit_def by (rule keep_bind(1) [of m] okp_struct | simp add: mk set_proc_def)+

lemma mk_disk_intr [mk]: "V s = m \<Longrightarrow> okp (\<lambda>t. V t = m) (virtio_disk_intr s)"
  unfolding virtio_disk_intr_def by (rule keep_bind(1) [of m] | simp add: mk)+

lemma V_run_device [simp]: "V (run_device s) = V s"
  by (simp add: run_device_def split: prod.split)

lemma mk_disk_wait [mk]: "V s = m \<Longrightarrow> okp (\<lambda>t. V t = m) (virtio_disk_wait p b s)"
  unfolding virtio_disk_wait_def by (rule keep_bind(1) [of m] okp_struct | simp add: mk)+

lemma mk_alloc3 [mk]: "V s = m \<Longrightarrow> okp (\<lambda>(x, t). V t = m) (alloc3_desc s)"
  unfolding alloc3_desc_def by (rule keep_bind(1) [of m] okp_struct | simp add: mk)+

lemma mk_disk_rw [mk]: "V s = m \<Longrightarrow> okp (\<lambda>t. V t = m) (virtio_disk_rw b wr s)"
  unfolding virtio_disk_rw_def
  by (rule keep_bind [of m] okp_struct | simp add: mk set_vdisk_def set_buf_def)+

section \<open>Blocks and inodes\<close>

lemma mk_bget [mk]: "V s = m \<Longrightarrow> okp (\<lambda>(x, t). V t = m) (bget dev n s)"
  unfolding bget_def by (rule keep_bind [of m] okp_struct okp_res | simp add: mk set_buf_def)+

lemma mk_bread [mk]: "V s = m \<Longrightarrow> okp (\<lambda>(x, t). V t = m) (bread dev n s)"
  unfolding bread_def by (rule keep_bind [of m] okp_struct | simp add: mk set_buf_def)+

lemma mk_brelse [mk]: "V s = m \<Longrightarrow> okp (\<lambda>t. V t = m) (brelse b s)"
  unfolding brelse_def
  by (rule keep_bind [of m] okp_struct | simp add: mk Let_def bpush_front_def bunlink_def set_buf_def)+

lemma mk_log_write [mk]: "V s = m \<Longrightarrow> okp (\<lambda>t. V t = m) (log_write b s)"
  unfolding log_write_def bpin_def
  by (rule keep_bind [of m] okp_struct | simp add: mk set_log_def set_lh_n_def set_buf_def)+

lemma V_upd [simp]:
  "V (put_data b d s) = V s" "V (set_inode ip f s) = V s" "V (set_addr ip i a s) = V s"
  by (simp_all add: put_data_def set_buf_def set_inode_def set_addr_def)

lemma mk_bzero [mk]: "V s = m \<Longrightarrow> okp (\<lambda>t. V t = m) (bzero dev n s)"
  unfolding bzero_def by (rule keep_bind [of m] okp_struct | simp add: mk)+

lemma mk_balloc_loop: "V s = m \<Longrightarrow> okp (\<lambda>(x, t). V t = m) (balloc_loop dev bs s)"
proof (induction bs arbitrary: s)
  case (Cons b bs)
  show ?case unfolding balloc_loop.simps by (rule keep_bind [of m] okp_struct | simp add: mk Cons)+
qed simp

lemma mk_balloc [mk]: "V s = m \<Longrightarrow> okp (\<lambda>(x, t). V t = m) (balloc dev s)"
  unfolding balloc_def by (rule mk_balloc_loop)

lemma mk_bfree [mk]: "V s = m \<Longrightarrow> okp (\<lambda>t. V t = m) (bfree dev b s)"
  unfolding bfree_def by (rule keep_bind [of m] okp_struct | simp add: mk)+

lemma mk_bmap [mk]: "V s = m \<Longrightarrow> okp (\<lambda>(x, t). V t = m) (bmap ip bn s)"
  unfolding bmap_def by (rule keep_bind [of m] okp_struct | simp add: mk)+

lemma mk_iget [mk]: "V s = m \<Longrightarrow> okp (\<lambda>(x, t). V t = m) (iget dev n s)"
  unfolding iget_def by (rule keep_bind [of m] okp_struct | simp add: mk)+

lemma mk_iupdate [mk]: "V s = m \<Longrightarrow> okp (\<lambda>t. V t = m) (iupdate ip s)"
  unfolding iupdate_def by (rule keep_bind [of m] okp_struct | simp add: mk)+

lemma mk_itrunc_direct [mk]: "V s = m \<Longrightarrow> okp (\<lambda>t. V t = m) (itrunc_direct ip is s)"
proof (induction "is" arbitrary: s)
  case (Cons i "is")
  show ?case unfolding itrunc_direct.simps by (rule keep_bind [of m] okp_struct | simp add: mk Cons)+
qed simp

lemma mk_itrunc_indirect [mk]: "V s = m \<Longrightarrow> okp (\<lambda>t. V t = m) (itrunc_indirect ip bp js s)"
proof (induction js arbitrary: s)
  case (Cons j js)
  show ?case unfolding itrunc_indirect.simps by (rule keep_bind [of m] okp_struct | simp add: mk Cons)+
qed simp

lemma mk_itrunc [mk]: "V s = m \<Longrightarrow> okp (\<lambda>t. V t = m) (itrunc ip s)"
  unfolding itrunc_def by (rule keep_bind [of m] okp_struct | simp add: mk)+

lemma mk_iput [mk]: "V s = m \<Longrightarrow> okp (\<lambda>t. V t = m) (iput ip s)"
  unfolding iput_def by (rule keep_bind [of m] okp_struct | simp add: mk)+

lemma mk_iunlock [mk]: "V s = m \<Longrightarrow> okp (\<lambda>t. V t = m) (iunlock ip s)"
  unfolding iunlock_def by (rule keep_bind [of m] okp_struct | simp add: mk)+

lemma mk_iunlockput [mk]: "V s = m \<Longrightarrow> okp (\<lambda>t. V t = m) (iunlockput ip s)"
  unfolding iunlockput_def by (rule keep_bind [of m] okp_struct | simp add: mk)+

lemma mk_ilock [mk]: "V s = m \<Longrightarrow> okp (\<lambda>t. V t = m) (ilock ip s)"
  unfolding ilock_def by (rule keep_bind [of m] okp_struct | simp add: mk)+

section \<open>The log\<close>

lemma mk_bwrite [mk]: "V s = m \<Longrightarrow> okp (\<lambda>t. V t = m) (bwrite b s)"
  unfolding bwrite_def by (rule keep_bind [of m] okp_struct | simp add: mk)+

lemma mk_bunpin [mk]: "V s = m \<Longrightarrow> okp (\<lambda>t. V t = m) (bunpin b s)"
  unfolding bunpin_def by (rule keep_bind [of m] okp_struct | simp add: mk set_buf_def)+

lemma mk_write_log_loop [mk]: "V s = m \<Longrightarrow> okp (\<lambda>t. V t = m) (write_log_loop ts s)"
proof (induction ts arbitrary: s)
  case (Cons i ts)
  show ?case unfolding write_log_loop.simps by (rule keep_bind [of m] okp_struct | simp add: mk Cons)+
qed simp

lemma mk_install_trans_loop [mk]: "V s = m \<Longrightarrow> okp (\<lambda>t. V t = m) (install_trans_loop r ts s)"
proof (induction ts arbitrary: s)
  case (Cons i ts)
  show ?case unfolding install_trans_loop.simps by (rule keep_bind [of m] okp_struct | simp add: mk Cons)+
qed simp

lemma mk_write_head [mk]: "V s = m \<Longrightarrow> okp (\<lambda>t. V t = m) (write_head s)"
  unfolding write_head_def by (rule keep_bind [of m] okp_struct | simp add: mk)+

lemma mk_commit [mk]: "V s = m \<Longrightarrow> okp (\<lambda>t. V t = m) (commit s)"
  unfolding commit_def write_log_def install_trans_def
  by (rule keep_bind [of m] okp_struct | simp add: mk set_lh_n_def set_log_def)+

lemma mk_begin_op [mk]: "V s = m \<Longrightarrow> okp (\<lambda>t. V t = m) (begin_op s)"
  unfolding begin_op_def begin_op_call_def begin_op_turn_def
  by (rule keep_bind [of m] okp_struct | simp add: mk set_log_def)+

lemma mk_end_op [mk]: "V s = m \<Longrightarrow> okp (\<lambda>t. V t = m) (end_op s)"
  unfolding end_op_def by (rule keep_bind [of m] okp_struct | simp add: mk set_log_def)+

lemma mk_idup [mk]: "V s = m \<Longrightarrow> okp (\<lambda>(x, t). V t = m) (idup ip s)"
  unfolding idup_def by (rule keep_bind [of m] okp_struct | simp add: mk)+

lemma mk_ialloc_loop [mk]: "V s = m \<Longrightarrow> okp (\<lambda>(x, t). V t = m) (ialloc_loop dev ty is s)"
proof (induction "is" arbitrary: s)
  case (Cons i "is")
  show ?case unfolding ialloc_loop.simps Let_def by (rule keep_bind [of m] okp_struct | simp add: mk Cons)+
qed simp

lemma mk_ialloc [mk]: "V s = m \<Longrightarrow> okp (\<lambda>(x, t). V t = m) (ialloc dev ty s)"
  unfolding ialloc_def by (rule mk_ialloc_loop)

end

end
