(* ===== verification/Vmframe.thy ===== *)
theory Vmframe
  imports Kcopy
begin

text \<open>
  What the memory allocator, the page-table operations and the copies to and from user memory leave
  alone: everything but byte memory and the free list (\<open>mem_only\<close>), locks included.
\<close>

named_theorems vk "an operation changes memory and the free list only"

lemmas vm_bind = okp_bind1 [where J = "mem_only s0" for s0] okp_bind2 [where J = "mem_only s0" for s0]
  okp_bind3 [where J = "mem_only s0" for s0]

lemma mem_only_mem [simp]: "mem_only s0 (s\<lparr>mem := m\<rparr>) = mem_only s0 s"
  by (cases s0; cases s) (simp add: mem_only_def)

lemma mem_only_freelist [simp]: "mem_only s0 (s\<lparr>freelist := f\<rparr>) = mem_only s0 s"
  by (cases s0; cases s) (simp add: mem_only_def)

lemma mem_only_relock: "\<not> lks s l \<Longrightarrow> mem_only s0 (s\<lparr>lks := (lks s)(l := False)\<rparr>) = mem_only s0 s"
  by simp

lemma vk_kalloc [vk]: "mem_only s0 s \<Longrightarrow> okp (\<lambda>(x, t). mem_only s0 t) (kalloc s)"
  by (auto simp: kalloc_def acquire_def release_def Let_def)

lemma vk_kfree [vk]: "mem_only s0 s \<Longrightarrow> okp (\<lambda>t. mem_only s0 t) (kfree pa s)"
  by (auto simp: kfree_def acquire_def release_def Let_def)

lemma vk_walk_loop [vk]: "mem_only s0 s \<Longrightarrow> okp (\<lambda>(x, t). mem_only s0 t) (walk_loop l pt va al s)"
proof (induction l arbitrary: pt al s)
  case (Suc l)
  show ?case unfolding walk_loop.simps
    by (rule vm_bind(2) [of s0] okp_struct | simp add: vk Suc)+
qed simp

lemma vk_walk [vk]: "mem_only s0 s \<Longrightarrow> okp (\<lambda>(x, t). mem_only s0 t) (walk pt va al s)"
  by (simp add: walk_def vk)

lemma vk_walkaddr [vk]: "mem_only s0 s \<Longrightarrow> okp (\<lambda>(x, t). mem_only s0 t) (walkaddr pt va s)"
  unfolding walkaddr_def by (rule vm_bind(2) [of s0] okp_struct | simp add: vk)+

lemma vk_mappages_loop [vk]: "mem_only s0 s \<Longrightarrow> okp (\<lambda>(x, t). mem_only s0 t) (mappages_loop pt a lst pa perm s)"
proof (induction pt a lst pa perm s rule: mappages_loop.induct)
  case (1 pt a lst pa perm s)
  show ?case
  proof (subst mappages_loop.simps, rule okp_res, clarify)
    fix pte t assume w: "walk pt a True s = Ok (pte, t)"
    have t: "mem_only s0 t" using okpD [OF vk_walk [OF "1.prems"] w] by simp
    show "okp (\<lambda>(x, t). mem_only s0 t) (if pte = 0 then Ok (-1, t)
        else if load64 (mem t) pte AND PTE_V \<noteq> 0 then Fail (Panic ''mappages: remap'')
        else let s = t\<lparr>mem := store64 (mem t) pte (PA2PTE pa OR perm OR PTE_V)\<rparr> in
          if a = lst then Ok (0, s) else mappages_loop pt (a + PGSIZE) lst (pa + PGSIZE) perm s)"
      using t "1.IH" [OF w refl] by (simp add: Let_def)
  qed
qed

lemma vk_mappages [vk]: "mem_only s0 s \<Longrightarrow> okp (\<lambda>(x, t). mem_only s0 t) (mappages pt va sz pa perm s)"
  by (simp add: mappages_def vk)

lemma vk_uvmunmap_loop [vk]: "mem_only s0 s \<Longrightarrow> okp (\<lambda>t. mem_only s0 t) (uvmunmap_loop pt a lim f s)"
proof (induction pt a lim f s rule: uvmunmap_loop.induct)
  case (1 pt a lim f s)
  show ?case
  proof (cases "a < lim")
    case True
    show ?thesis
    proof (subst uvmunmap_loop.simps, simp only: True if_True, rule okp_res, clarify)
      fix pte t assume w: "walk pt a False s = Ok (pte, t)"
      have t: "mem_only s0 t" using okpD [OF vk_walk [OF "1.prems"] w] by simp
      have "okp (\<lambda>t. mem_only s0 t) (andthen (if f then kfree (PTE2PA (load64 (mem t) pte)) t else Ok t)
          (\<lambda>s. uvmunmap_loop pt (a + PGSIZE) lim f (s\<lparr>mem := store64 (mem s) pte 0\<rparr>)))"
        if c: "pte \<noteq> 0" "\<not> load64 (mem t) pte AND PTE_V = 0" "PTE_FLAGS (load64 (mem t) pte) \<noteq> PTE_V"
      proof (rule okp_res)
        fix u assume u: "(if f then kfree (PTE2PA (load64 (mem t) pte)) t else Ok t) = Ok u"
        have "okp (\<lambda>t. mem_only s0 t) (if f then kfree (PTE2PA (load64 (mem t) pte)) t else Ok t)" using t by (simp add: vk)
        then have "mem_only s0 u" using u by (simp add: okp_def)
        then show "okp (\<lambda>t. mem_only s0 t) (uvmunmap_loop pt (a + PGSIZE) lim f (u\<lparr>mem := store64 (mem u) pte 0\<rparr>))"
          using "1.IH" [OF True w refl c u] by simp
      qed
      then show "okp (\<lambda>t. mem_only s0 t) (if pte = 0 then Fail (Panic ''uvmunmap: walk'')
          else if load64 (mem t) pte AND PTE_V = 0 then Fail (Panic ''uvmunmap: not mapped'')
          else if PTE_FLAGS (load64 (mem t) pte) = PTE_V then Fail (Panic ''uvmunmap: not a leaf'')
          else andthen (if f then kfree (PTE2PA (load64 (mem t) pte)) t else Ok t)
            (\<lambda>s. uvmunmap_loop pt (a + PGSIZE) lim f (s\<lparr>mem := store64 (mem s) pte 0\<rparr>)))"
        by (intro okp_if) simp_all
    qed
  next
    case False
    then show ?thesis using "1.prems" by (subst uvmunmap_loop.simps) simp
  qed
qed

lemma vk_uvmunmap [vk]: "mem_only s0 s \<Longrightarrow> okp (\<lambda>t. mem_only s0 t) (uvmunmap pt va n f s)"
  by (simp add: uvmunmap_def vk)

lemma vk_uvmcreate [vk]: "mem_only s0 s \<Longrightarrow> okp (\<lambda>(x, t). mem_only s0 t) (uvmcreate s)"
  unfolding uvmcreate_def by (rule vm_bind(2) [of s0] okp_struct | simp add: vk)+

lemma vk_freewalk [vk]:
  "mem_only s0 s \<Longrightarrow> okp (\<lambda>t. mem_only s0 t) (freewalk d pt s)"
  "mem_only s0 s \<Longrightarrow> okp (\<lambda>t. mem_only s0 t) (freewalk_entries d pt is s)"
proof (induction d pt s and d pt "is" s rule: freewalk_freewalk_entries.induct)
  case (2 d pt s)
  show ?case unfolding freewalk.simps by (rule okp_bind1 [where J = "mem_only s0"]) (simp_all add: 2 vk)
next
  case (4 d pt i "is" s)
  let ?v = "load64 (mem s) (slot pt i)"
  show ?case
  proof (cases "?v AND PTE_V \<noteq> 0 \<and> ?v AND (PTE_R OR PTE_W OR PTE_X) = 0")
    case True
    have "okp (\<lambda>t. mem_only s0 t) (andthen (freewalk d (PTE2PA ?v) s)
        (\<lambda>s. freewalk_entries d pt is (s\<lparr>mem := store64 (mem s) (slot pt i) 0\<rparr>)))"
    proof (rule okp_res)
      fix u assume u: "freewalk d (PTE2PA ?v) s = Ok u"
      then have "mem_only s0 u" using "4.IH"(1) [OF refl True "4.prems"] by (simp add: okp_def)
      then show "okp (\<lambda>t. mem_only s0 t) (freewalk_entries d pt is (u\<lparr>mem := store64 (mem u) (slot pt i) 0\<rparr>))"
        using "4.IH"(2) [OF refl True u] by simp
    qed
    then show ?thesis using True by (simp add: Let_def)
  next
    case False
    then show ?thesis using "4.IH"(3) [OF refl False _ "4.prems"] by (auto simp: Let_def)
  qed
qed simp_all

lemma vk_uvmfree [vk]: "mem_only s0 s \<Longrightarrow> okp (\<lambda>t. mem_only s0 t) (uvmfree pt sz s)"
  unfolding uvmfree_def by (rule vm_bind(1) [of s0] okp_struct | simp add: vk)+

lemma vk_uvmcopy_loop [vk]: "mem_only s0 s \<Longrightarrow> okp (\<lambda>(x, t). mem_only s0 t) (uvmcopy_loop old new sz i s)"
proof (induction "0x4000002000 - unat i" arbitrary: i s rule: less_induct)
  case less
  have step: "okp (\<lambda>(x, t). mem_only s0 t) (uvmcopy_loop old new sz (i + PGSIZE) u)" if "mem_only s0 u" "unat i < 0x4000000000" for u
    using less.hyps [of "i + PGSIZE" u] that page_step_decreases [of i] by simp
  show ?case
  proof (cases "i < sz")
    case True
    show ?thesis
    proof (subst uvmcopy_loop.simps, simp only: True if_True, rule okp_res, clarify)
      fix pte t assume w: "walk old i False s = Ok (pte, t)"
      have b: "unat i < 0x4000000000" using walk_Ok_bound [OF w] .
      have t: "mem_only s0 t" using okpD [OF vk_walk [OF less.prems] w] by simp
      show "okp (\<lambda>(x, t). mem_only s0 t) (if pte = 0 then Fail (Panic ''uvmcopy: pte should exist'')
        else if load64 (mem t) pte AND PTE_V = 0 then Fail (Panic ''uvmcopy: page not present'')
        else let pa = PTE2PA (load64 (mem t) pte); flags = PTE_FLAGS (load64 (mem t) pte) in
          andthen (kalloc t) (\<lambda>(p, s).
          if p = 0 then andthen (uvmunmap new 0 (i div PGSIZE) True s) (\<lambda>s. Ok (-1, s))
          else let s = s\<lparr>mem := memmove (mem s) p pa 4096\<rparr> in
            andthen (mappages new i PGSIZE p flags s) (\<lambda>(r, s).
            if r \<noteq> 0 then andthen (kfree p s) (\<lambda>s. andthen (uvmunmap new 0 (i div PGSIZE) True s) (\<lambda>s. Ok (-1, s)))
            else uvmcopy_loop old new sz (i + PGSIZE) s)))"
        using t b by - (rule vm_bind [of s0] okp_struct | simp add: vk step del: PGSIZE_def)+
    qed
  qed (subst uvmcopy_loop.simps, simp add: less.prems)
qed

lemma vk_uvmcopy [vk]: "mem_only s0 s \<Longrightarrow> okp (\<lambda>(x, t). mem_only s0 t) (uvmcopy old new sz s)"
  unfolding uvmcopy_def by (rule vk_uvmcopy_loop)

lemma vk_copyout_obj [vk]: "mem_only s0 s \<Longrightarrow> okp (\<lambda>(x, t). mem_only s0 t) (copyout_obj pt va bs s)"
proof (induction "length bs" arbitrary: va bs s rule: less_induct)
  case less
  have step: "okp (\<lambda>(x, t). mem_only s0 t) (copyout_obj pt a (drop (unat (page_rest va)) bs) u)"
    if "mem_only s0 u" "bs \<noteq> []" for a u
    using less.hyps [of "drop (unat (page_rest va)) bs" u a] that page_rest_pos [of va] by (cases bs) simp_all
  show ?case
  proof (cases "bs = []")
    case False
    show ?thesis
      unfolding copyout_obj.simps [of pt va bs s] Let_def
      using less.prems by - (rule vm_bind(2) [of s0] okp_struct | simp add: vk step False del: PGSIZE_def)+
  qed (subst copyout_obj.simps, simp add: less.prems)
qed

end
