(* ===== verification/Kview.thy ===== *)
theory Kview
  imports Frame Vmframe
begin

text \<open>
  Views of the state that do not depend on memory either: every operation of the file system on
  files, directories and paths, every operation on page tables and user memory, and the closing of a
  pipe leave such a view as it was.
\<close>

locale mem_frame = fs_frame V for V :: "'a ist_scheme \<Rightarrow> 'v" +
  assumes V_mem: "V (s\<lparr>mem := m\<rparr>) = V s"
    and V_freelist: "V (s\<lparr>freelist := f\<rparr>) = V s"
    and V_pipes: "V (s\<lparr>pipes := ps\<rparr>) = V s"
begin

lemmas V_mem_simps [simp] = V_mem V_freelist V_pipes

lemmas keep_bind3 = okp_bind3 [where J = "\<lambda>t. V t = m" for m]

lemma V_mem_only: "mem_only s t \<Longrightarrow> V t = V s"
  unfolding mem_only_def by (erule ssubst) simp

lemma V_vm:
  "(\<And>s0. mem_only s0 s \<Longrightarrow> okp (\<lambda>t. mem_only s0 t) r) \<Longrightarrow> V s = m \<Longrightarrow> okp (\<lambda>t. V t = m) r"
  by (rule okp_mono [of "mem_only s"]) (use V_mem_only in auto)

lemma V_vm2:
  "(\<And>s0. mem_only s0 s \<Longrightarrow> okp (\<lambda>(x, t). mem_only s0 t) r) \<Longrightarrow> V s = m \<Longrightarrow> okp (\<lambda>(x, t). V t = m) r"
  by (rule okp_mono [of "\<lambda>(x, t). mem_only s t"]) (use V_mem_only in auto)

lemmas mk_vm [mk] = V_vm [OF vk_kfree] V_vm2 [OF vk_kalloc] V_vm2 [OF vk_mappages] V_vm [OF vk_uvmunmap] V_vm2 [OF vk_uvmcreate]
  V_vm2 [OF vk_walkaddr] V_vm [OF vk_uvmfree] V_vm2 [OF vk_uvmcopy] V_vm2 [OF vk_copyout_obj]

lemma mk_either_copyout [mk]: "V s = m \<Longrightarrow> okp (\<lambda>(x, t). V t = m) (either_copyout u dst bs s)"
  unfolding either_copyout_def by (rule okp_struct | simp add: mk)+

lemma mk_copyin_obj [mk]: "V s = m \<Longrightarrow> okp (\<lambda>(x, y, t). V t = m) (copyin_obj pt va n s)"
proof (induction n arbitrary: va s rule: less_induct)
  case (less n)
  show ?case
  proof (cases "0 < n")
    case True
    have step: "okp (\<lambda>(x, y, t). V t = m) (copyin_obj pt a (n - min (unat (page_rest va)) n) u)" if "V u = m" for a u
      using less.IH [of "n - min (unat (page_rest va)) n" u a] that True page_rest_pos [of va] by simp
    show ?thesis
      unfolding copyin_obj.simps [of pt va n s] if_P [OF True] Let_def
      by (rule keep_bind [of m] keep_bind3 [of m] okp_struct | simp add: mk step less.prems del: PGSIZE_def)+
  qed (subst copyin_obj.simps, simp add: less.prems)
qed

lemma mk_either_copyin [mk]: "V s = m \<Longrightarrow> okp (\<lambda>(x, y, t). V t = m) (either_copyin u src n s)"
  unfolding either_copyin_def by (rule okp_struct | simp add: mk)+

section \<open>Files and directories\<close>

lemma mk_readi_loop [mk]: "V s = m \<Longrightarrow> okp (\<lambda>(x, t). V t = m) (readi_loop ip u dst off n tot s)"
proof (induction "unat (n - tot)" arbitrary: dst off tot s rule: less_induct)
  case less
  show ?case
  proof (cases "tot < n")
    case True
    have step: "okp (\<lambda>(x, t). V t = m) (readi_loop ip u d (off + chunk off n tot) n (tot + chunk off n tot) t)" if "V t = m" for d t
      using less.hyps chunk_decreases [OF True] that by blast
    show ?thesis unfolding readi_loop.simps [of ip u dst off n tot s] if_P [OF True] Let_def
      by (rule keep_bind [of m] okp_struct | simp add: mk step less.prems)+
  qed (subst readi_loop.simps, simp add: less.prems)
qed

lemma mk_readi [mk]: "V s = m \<Longrightarrow> okp (\<lambda>(x, t). V t = m) (readi ip u dst off n s)"
  unfolding readi_def by (rule keep_bind [of m] okp_struct | simp add: mk)+

lemma mk_writei_loop [mk]: "V s = m \<Longrightarrow> okp (\<lambda>(x, y, t). V t = m) (writei_loop ip u src off n tot s)"
proof (induction "unat (n - tot)" arbitrary: src off tot s rule: less_induct)
  case less
  show ?case
  proof (cases "tot < n")
    case True
    have step: "okp (\<lambda>(x, y, t). V t = m) (writei_loop ip u d (off + chunk off n tot) n (tot + chunk off n tot) t)" if "V t = m" for d t
      using less.hyps chunk_decreases [OF True] that by blast
    show ?thesis unfolding writei_loop.simps [of ip u src off n tot s] if_P [OF True] Let_def
      by (rule keep_bind [of m] keep_bind3 [of m] okp_struct | simp add: mk step less.prems)+
  qed (subst writei_loop.simps, simp add: less.prems)
qed

lemma mk_writei [mk]: "V s = m \<Longrightarrow> okp (\<lambda>(x, t). V t = m) (writei ip u src off n s)"
  unfolding writei_def by (rule keep_bind [of m] keep_bind3 [of m] okp_struct | simp add: mk)+

lemma mk_dirlookup_loop [mk]: "V s = m \<Longrightarrow> okp (\<lambda>(x, t). V t = m) (dirlookup_loop dp name de offs s)"
proof (induction offs arbitrary: s)
  case (Cons off offs)
  show ?case unfolding dirlookup_loop.simps by (rule keep_bind [of m] okp_struct | simp add: mk Cons)+
qed simp

lemma mk_dirlookup [mk]: "V s = m \<Longrightarrow> okp (\<lambda>(x, t). V t = m) (dirlookup dp name de s)"
  by (simp add: dirlookup_def mk)

lemma mk_dirlink_loop [mk]: "V s = m \<Longrightarrow> okp (\<lambda>(x, t). V t = m) (dirlink_loop dp de offs off s)"
proof (induction offs arbitrary: s off)
  case (Cons o' offs)
  show ?case unfolding dirlink_loop.simps by (rule keep_bind [of m] okp_struct | simp add: mk Cons)+
qed simp

lemma mk_dirlink [mk]: "V s = m \<Longrightarrow> okp (\<lambda>(x, t). V t = m) (dirlink dp name inum de s)"
  unfolding dirlink_def by (rule keep_bind [of m] okp_struct | simp add: mk)+

section \<open>Paths\<close>

lemma mk_skipelem [mk]: "V s = m \<Longrightarrow> okp (\<lambda>(x, t). V t = m) (skipelem path name s)"
  unfolding skipelem_def Let_def by (rule okp_struct | simp)+

lemma mk_namex_step [mk]: "V s = m \<Longrightarrow> okp (\<lambda>(x, t). V t = m) (namex_step parent path name de ip s)"
  unfolding namex_step_def by (rule keep_bind [of m] okp_struct | simp add: mk)+

lemma mk_namex_loop: "\<lbrakk>namex_loop parent path name de ip s = Some r; V s = m\<rbrakk> \<Longrightarrow> okp (\<lambda>(x, t). V t = m) r"
proof (induction rule: namex_loop.raw_induct [rotated 1, consumes 1, case_names step])
  case (step loop parent path name de ip s r)
  note sk = mk_skipelem [OF step(3), of path name]
  show ?case
  proof (cases "skipelem path name s")
    case (Ok q)
    obtain path' u where q: "q = (path', u)" by (cases q)
    have u: "V u = m" using okpD [OF sk Ok] q by simp
    note ns = mk_namex_step [OF u, of parent path' name de ip]
    show ?thesis
      using step(2) Ok q okpD [OF ns] step(1) u
      by (auto split: if_splits res.splits sum.splits intro!: okp_bind1 [where J = "\<lambda>t. V t = m"] simp: mk)
  qed (use step(2) in auto)
qed

lemma mk_namex [mk]: "V s = m \<Longrightarrow> okp (\<lambda>(x, t). V t = m) (namex parent path name de s)"
  unfolding namex_def
  by (rule keep_bind [of m] okp_struct | simp add: mk | rule mk_namex_loop, assumption+)+

lemma mk_namei [mk]: "V s = m \<Longrightarrow> okp (\<lambda>(x, t). V t = m) (namei path name de s)"
  "V s = m \<Longrightarrow> okp (\<lambda>(x, t). V t = m) (nameiparent path name de s)"
  by (simp_all add: namei_def nameiparent_def mk)

section \<open>Pipes and strings\<close>

lemma mk_pipeclose [mk]: "V s = m \<Longrightarrow> okp (\<lambda>t. V t = m) (pipeclose pi w s)"
  unfolding pipeclose_def by (rule keep_bind [of m] okp_struct | simp add: mk set_pipe_def)+

lemma mk_copyinstr [mk]: "V s = m \<Longrightarrow> okp (\<lambda>(x, t). V t = m) (copyinstr pt dst va mx s)"
proof (induction "unat mx" arbitrary: dst va mx s rule: less_induct)
  case less
  show ?case
  proof (cases "0 < mx")
    case True
    have step: "okp (\<lambda>(x, t). V t = m) (copyinstr pt d (va0 + 4096) k u)"
      if "copystr_loop (unat (min (page_rest va) mx)) p dst mx n = (False, d, k, n')" "V u = m" for p n d k n' u va0
      using less.hyps [of k u] that copystr_loop_False [OF that(1)] copy_round_decreases [OF True, of va] by simp
    show ?thesis
      unfolding copyinstr.simps [of pt dst va mx s] if_P [OF True] Let_def PGSIZE_def
      by (rule keep_bind [of m] okp_struct | simp add: mk step less.prems)+
  qed (subst copyinstr.simps, simp add: less.prems)
qed

end

end
