(* ===== verification/Ring.thy ===== *)
theory Ring
  imports Prelude
begin

text \<open>
  Ring buffers indexed by wrapping counters: a buffer of \<open>N\<close> bytes, a read and a write counter
  that only go up and wrap around at the word size, byte \<open>i\<close> of the stream at index \<open>i mod N\<close>.
  The console input buffer (32-bit counters, 128 bytes) and the UART transmit buffer (64-bit
  counters, 32 bytes) are of this form; the locale gives the queue laws both rely on.
\<close>

definition ring :: "nat \<Rightarrow> u8 list \<Rightarrow> 'w :: len word \<Rightarrow> 'w word \<Rightarrow> u8 list" where
  "ring N b r w = map (\<lambda>k. b ! ((unat r + k) mod N)) [0..<unat (w - r)]"

lemma length_ring [simp]: "length (ring N b r w) = unat (w - r)"
  by (simp add: ring_def)

lemma ring_empty [simp]: "ring N b r r = []"
  by (simp add: ring_def)

lemma ring_eq_Nil: "ring N b r w = [] \<longleftrightarrow> r = w"
  by (auto simp: ring_def unat_eq_zero)

lemma unat_eq_sum: "unat (a :: 'w :: len word) = (unat b + unat (a - b)) mod 2 ^ LENGTH('w)"
proof -
  have "unat a = unat (b + (a - b))" by simp
  also have "\<dots> = (unat b + unat (a - b)) mod 2 ^ LENGTH('w)" by (simp only: unat_word_ariths)
  finally show ?thesis .
qed

lemma unat_diff_up:
  "unat (a - b :: 'w :: len word) + 1 < 2 ^ LENGTH('w) \<Longrightarrow> unat (a + 1 - b) = unat (a - b) + 1"
proof -
  assume *: "unat (a - b) + 1 < 2 ^ LENGTH('w)"
  have "a + 1 - b = (a - b) + 1" by simp
  moreover have "unat ((a - b) + 1) = (unat (a - b) + unat (1 :: 'w word)) mod 2 ^ LENGTH('w)"
    by (simp only: unat_word_ariths)
  ultimately show ?thesis using * by (simp only: unat_1) simp
qed

lemma unat_pred: "x \<noteq> 0 \<Longrightarrow> unat (x - 1 :: 'w :: len word) = unat x - 1"
  by (subst unat_sub) (auto simp: word_le_nat_alt unat_gt_0 Suc_le_eq)

lemma unat_diff_down: "a \<noteq> b \<Longrightarrow> unat (a - (b + 1) :: 'w :: len word) = unat (a - b) - 1"
proof -
  assume "a \<noteq> b"
  then have "unat ((a - b) - 1) = unat (a - b) - 1" by (intro unat_pred) simp
  moreover have "a - (b + 1) = (a - b) - 1" by simp
  ultimately show ?thesis by (simp only:)
qed

lemma unat_diff_pred: "b \<noteq> a \<Longrightarrow> unat (a - 1 - b :: 'w :: len word) = unat (a - b) - 1"
  using unat_diff_down [of a b] by (simp add: algebra_simps)

locale word_ring =
  fixes N :: nat and wt :: "'w :: len itself"
  assumes pos: "0 < N" and fits: "N dvd 2 ^ LENGTH('w)" and room: "N < 2 ^ LENGTH('w)"
begin

lemma index_sum: "unat (a :: 'w word) mod N = (unat b + unat (a - b)) mod N"
  by (subst unat_eq_sum [of a b]) (simp add: fits mod_mod_cancel)

lemma index_next: "(unat (r + 1 :: 'w word) + k) mod N = (unat r + Suc k) mod N"
proof -
  have "unat (r + 1) mod N = (unat r + 1) mod N"
    using fits by (simp add: unat_word_ariths mod_mod_cancel)
  then have "(unat (r + 1) mod N + k) mod N = ((unat r + 1) mod N + k) mod N" by simp
  then show ?thesis by (simp add: mod_simps)
qed

lemma index_fresh:
  assumes "k < d" "d < N"
  shows "(n + k) mod N \<noteq> (n + d) mod N"
proof
  assume "(n + k) mod N = (n + d) mod N"
  then have "N dvd (n + d) - (n + k)" using assms(1) by (metis mod_eq_dvd_iff_nat nat_add_left_cancel_le less_imp_le)
  then show False using assms by (auto dest: dvd_imp_le)
qed

lemma put:
  assumes "length b = N" "unat (w - r :: 'w word) < N"
  shows "ring N (b[unat w mod N := c]) r (w + 1) = ring N b r w @ [c]"
proof -
  have up: "unat (w + 1 - r) = Suc (unat (w - r))" using assms(2) room by (simp add: unat_diff_up)
  have ix: "unat w mod N = (unat r + unat (w - r)) mod N" by (rule index_sum)
  have "(unat r + k) mod N \<noteq> unat w mod N" if "k < unat (w - r)" for k
    using index_fresh [OF that assms(2)] ix by simp
  then have "b[unat w mod N := c] ! ((unat r + k) mod N) = b ! ((unat r + k) mod N)" if "k < unat (w - r)" for k
    using that by (metis nth_list_update_neq)
  then show ?thesis using assms(1) pos by (simp add: ring_def up ix [symmetric])
qed

lemma get: "(r :: 'w word) \<noteq> w \<Longrightarrow> ring N b r w = b ! (unat r mod N) # ring N b (r + 1) w"
proof -
  assume ne: "r \<noteq> w"
  then obtain d where d: "unat (w - r) = Suc d" by (metis diff_eq_diff_eq diff_self not0_implies_Suc unat_eq_zero)
  then have "unat (w - (r + 1)) = d" using ne by (simp add: unat_diff_down)
  then show ?thesis by (simp add: ring_def d upt_conv_Cons map_Suc_upt [symmetric] index_next del: upt_Suc)
qed

lemma unput: "(r :: 'w word) \<noteq> w \<Longrightarrow> ring N b r (w - 1) = butlast (ring N b r w)"
proof -
  assume ne: "r \<noteq> w"
  have "unat (w - 1 - r) = unat (w - r) - 1" using ne by (simp add: unat_diff_pred)
  then show ?thesis by (simp add: ring_def map_butlast butlast_conv_take take_map)
qed

lemma last_index: "(r :: 'w word) \<noteq> w \<Longrightarrow> last (ring N b r w) = b ! (unat (w - 1) mod N)"
proof -
  assume ne: "r \<noteq> w"
  have d: "unat (w - 1 - r) = unat (w - r) - 1" using ne by (simp add: unat_diff_pred)
  have "0 < unat (w - r)" using ne by (simp add: unat_gt_0)
  then have "last (ring N b r w) = b ! ((unat r + (unat (w - r) - 1)) mod N)"
    by (simp add: ring_def last_map)
  then show ?thesis by (simp add: index_sum [of "w - 1" r] d)
qed

lemma join:
  assumes "unat (w - r :: 'w word) \<le> unat (e - r)"
  shows "ring N b r e = ring N b r w @ ring N b w e"
proof -
  have "unat ((e - r) - (w - r)) = unat (e - r) - unat (w - r)"
    using assms by (intro unat_sub) (simp add: word_le_nat_alt)
  moreover have "(e - r) - (w - r) = e - w" by simp
  ultimately have d: "unat (e - w) = unat (e - r) - unat (w - r)" by (simp only:)
  have ix: "(unat w + k) mod N = (unat r + (unat (w - r) + k)) mod N" for k
    using index_sum [of w r] by (metis add.assoc mod_add_left_eq)
  have "[0..<unat (e - r)] = [0..<unat (w - r)] @ map (\<lambda>k. unat (w - r) + k) [0..<unat (e - w)]"
    using assms d upt_add_eq_append [of 0 "unat (w - r)" "unat (e - w)"]
    by (simp add: map_add_upt add.commute)
  then show ?thesis by (simp add: ring_def ix)
qed

end

end
