(* ===== verification/Uart.thy ===== *)
theory Uart
  imports Inode Ring
begin

text \<open>
  The 16550 UART driver, \<open>kernel/uart.c\<close> (its interrupt routine is in theory Console, which it
  calls), and the state of the console on top of it (\<open>kernel/console.c\<close>, \<open>kernel/printf.c\<close>).

  The device is behind memory-mapped registers and is arbitrary: the value of the \<open>k\<close>-th register
  read is \<open>ut_dev k reg\<close>, and every register write is recorded in order in \<open>ut_wr\<close>.  What the
  device transmits is the sequence of bytes written to its transmit holding register.  The nesting
  of \<open>push_off\<close> and \<open>pop_off\<close> is the subject of theory Spinlock and leaves this state as it is.
\<close>

section \<open>Registers\<close>

definition RHR :: nat where [simp]: "RHR = 0"
definition THR :: nat where [simp]: "THR = 0"
definition IER :: nat where [simp]: "IER = 1"
definition IER_RX_ENABLE :: u8 where [simp]: "IER_RX_ENABLE = 1"
definition IER_TX_ENABLE :: u8 where [simp]: "IER_TX_ENABLE = 2"
definition FCR :: nat where [simp]: "FCR = 2"
definition FCR_FIFO_ENABLE :: u8 where [simp]: "FCR_FIFO_ENABLE = 1"
definition FCR_FIFO_CLEAR :: u8 where [simp]: "FCR_FIFO_CLEAR = 6"
definition ISR :: nat where [simp]: "ISR = 2"
definition LCR :: nat where [simp]: "LCR = 3"
definition LCR_EIGHT_BITS :: u8 where [simp]: "LCR_EIGHT_BITS = 3"
definition LCR_BAUD_LATCH :: u8 where [simp]: "LCR_BAUD_LATCH = 0x80"
definition LSR :: nat where [simp]: "LSR = 5"
definition LSR_RX_READY :: u8 where [simp]: "LSR_RX_READY = 1"
definition LSR_TX_IDLE :: u8 where [simp]: "LSR_TX_IDLE = 0x20"
definition UART_TX_BUF_SIZE :: u64 where [simp]: "UART_TX_BUF_SIZE = 32"

record uart =
  ut_buf :: "u8 list"
  ut_w :: u64
  ut_r :: u64
  ut_dev :: "nat \<Rightarrow> nat \<Rightarrow> u8"
  ut_reads :: nat
  ut_wr :: "(nat \<times> u8) list"

text \<open>The console's input buffer (\<open>cons\<close>).\<close>

record console =
  cn_buf :: "u8 list"
  cn_r :: u32
  cn_w :: u32
  cn_e :: u32

text \<open>The device switch: function pointers are the names of the functions, null is \<open>None\<close>.\<close>

datatype devfn = Consoleread | Consolewrite

record devsw =
  dv_read :: "devfn option"
  dv_write :: "devfn option"

record cst = ist +
  uart :: uart
  cons :: console
  panicked :: bool
  pr_locking :: bool
  devsw :: "nat \<Rightarrow> devsw"

definition ReadReg :: "nat \<Rightarrow> 'a cst_scheme \<Rightarrow> u8 \<times> 'a cst_scheme" where
  "ReadReg reg s = (ut_dev (uart s) (ut_reads (uart s)) reg,
     s\<lparr>uart := (uart s)\<lparr>ut_reads := ut_reads (uart s) + 1\<rparr>\<rparr>)"

definition WriteReg :: "nat \<Rightarrow> u8 \<Rightarrow> 'a cst_scheme \<Rightarrow> 'a cst_scheme" where
  "WriteReg reg v s = s\<lparr>uart := (uart s)\<lparr>ut_wr := ut_wr (uart s) @ [(reg, v)]\<rparr>\<rparr>"

definition uartinit :: "'a cst_scheme \<Rightarrow> 'a cst_scheme" where
  "uartinit s =
     (let s = WriteReg IER 0 s;
          s = WriteReg LCR LCR_BAUD_LATCH s;
          s = WriteReg 0 3 s;
          s = WriteReg 1 0 s;
          s = WriteReg LCR LCR_EIGHT_BITS s;
          s = WriteReg FCR (FCR_FIFO_ENABLE OR FCR_FIFO_CLEAR) s;
          s = WriteReg IER (IER_TX_ENABLE OR IER_RX_ENABLE) s
      in s\<lparr>lks := (lks s)(UartTxLock := False)\<rparr>)"

section \<open>Output\<close>

definition tx_pop :: "'a cst_scheme \<Rightarrow> 'a cst_scheme" where
  "tx_pop s = s\<lparr>uart := (uart s)\<lparr>ut_r := ut_r (uart s) + 1\<rparr>\<rparr>"

definition tx_next :: "'a cst_scheme \<Rightarrow> u8" where
  "tx_next s = ut_buf (uart s) ! unat (ut_r (uart s) mod UART_TX_BUF_SIZE)"

text \<open>One round of the loop of \<open>uartstart\<close>; the flag says whether the loop goes on.\<close>

definition uartstart_step :: "'a cst_scheme \<Rightarrow> (bool \<times> 'a cst_scheme) res" where
  "uartstart_step s =
     (if ut_w (uart s) = ut_r (uart s) then Ok (False, snd (ReadReg ISR s))
      else
        (case ReadReg LSR s of (v, s) \<Rightarrow>
         if v AND LSR_TX_IDLE = 0 then Ok (False, s)
         else
           let c = tx_next s in
           andthen (wakeup ChUartTx (tx_pop s)) (\<lambda>s. Ok (True, WriteReg THR c s))))"

lemma uartstart_step_Ok:
  assumes "uartstart_step s = Ok (b, t)"
  shows "if b then ut_w (uart s) \<noteq> ut_r (uart s) \<and> (\<exists>n P. t = s\<lparr>procs := P,
           uart := (uart s)\<lparr>ut_reads := n, ut_r := ut_r (uart s) + 1, ut_wr := ut_wr (uart s) @ [(THR, tx_next s)]\<rparr>\<rparr>)
         else \<exists>n. t = s\<lparr>uart := (uart s)\<lparr>ut_reads := n\<rparr>\<rparr>"
  using assms
  by (auto simp: uartstart_step_def ReadReg_def WriteReg_def tx_pop_def tx_next_def Let_def andthen_eq_Ok
      dest!: wakeup_Ok split: if_splits) blast

function uartstart :: "'a cst_scheme \<Rightarrow> 'a cst_scheme res" where
  "uartstart s = andthen (uartstart_step s) (\<lambda>(b, s). if b then uartstart s else Ok s)"
  by pat_completeness auto
termination
proof (relation "measure (\<lambda>s. unat (ut_w (uart s) - ut_r (uart s)))")
  fix s :: "'a cst_scheme" and v b t
  assume "uartstart_step s = Ok v" "(b, t) = v" "b"
  from uartstart_step_Ok [of s b t] this
  have "ut_w (uart s) \<noteq> ut_r (uart s)" "ut_w (uart t) = ut_w (uart s)" "ut_r (uart t) = ut_r (uart s) + 1" by auto
  moreover from this have "0 < unat (ut_w (uart s) - ut_r (uart s))" by (simp add: unat_gt_0)
  ultimately show "(t, s) \<in> measure (\<lambda>s. unat (ut_w (uart s) - ut_r (uart s)))"
    by (simp add: unat_diff_down)
qed simp

declare uartstart.simps [simp del]

text \<open>
  \<open>uartputc\<close> ends with the character accepted (\<open>True\<close>), or asleep on a full buffer (\<open>False\<close>), to
  go on with \<open>uartputc_resume\<close>.
\<close>

definition tx_push :: "u8 \<Rightarrow> 'a cst_scheme \<Rightarrow> 'a cst_scheme" where
  "tx_push c s = s\<lparr>uart := (uart s)
     \<lparr>ut_buf := (ut_buf (uart s))[unat (ut_w (uart s) mod UART_TX_BUF_SIZE) := c], ut_w := ut_w (uart s) + 1\<rparr>\<rparr>"

definition uartputc_wait :: "u8 \<Rightarrow> 'a cst_scheme \<Rightarrow> (bool \<times> 'a cst_scheme) res" where
  "uartputc_wait c s =
     (if ut_w (uart s) = ut_r (uart s) + UART_TX_BUF_SIZE then
        andthen (sleep_enter ChUartTx UartTxLock s) (\<lambda>s. Ok (False, s))
      else
        andthen (uartstart (tx_push c s)) (\<lambda>s.
        andthen (release UartTxLock s) (\<lambda>s. Ok (True, s))))"

definition uartputc :: "u8 \<Rightarrow> 'a cst_scheme \<Rightarrow> (bool \<times> 'a cst_scheme) res" where
  "uartputc c s =
     andthen (acquire UartTxLock s) (\<lambda>s.
     if panicked s then Fail Looping else uartputc_wait c s)"

definition uartputc_resume :: "nat \<Rightarrow> u8 \<Rightarrow> 'a cst_scheme \<Rightarrow> (bool \<times> 'a cst_scheme) res" where
  "uartputc_resume p c s = andthen (sleep_exit p UartTxLock s) (\<lambda>s. uartputc_wait c s)"

text \<open>The busy wait for an idle transmitter does not return (\<open>None\<close>) if the device never is.\<close>

partial_function (option) uart_spin :: "'a cst_scheme \<Rightarrow> 'a cst_scheme option" where
  "uart_spin s = (case ReadReg LSR s of (v, s) \<Rightarrow> if v AND LSR_TX_IDLE = 0 then uart_spin s else Some s)"

definition uartputc_sync :: "u8 \<Rightarrow> 'a cst_scheme \<Rightarrow> 'a cst_scheme res" where
  "uartputc_sync c s =
     (if panicked s then Fail Looping
      else (case uart_spin s of None \<Rightarrow> Fail Looping | Some s \<Rightarrow> Ok (WriteReg THR c s)))"

section \<open>Input\<close>

definition uartgetc :: "'a cst_scheme \<Rightarrow> int \<times> 'a cst_scheme" where
  "uartgetc s =
     (case ReadReg LSR s of (v, s) \<Rightarrow>
      if v AND 1 \<noteq> 0 then (case ReadReg RHR s of (c, s) \<Rightarrow> (uint c, s)) else (-1, s))"

section \<open>The transmit buffer is a bounded queue in front of the device\<close>

interpretation utx: word_ring 32 "TYPE(64)"
  by unfold_locales simp_all

definition uart_ok :: "uart \<Rightarrow> bool" where
  "uart_ok u \<longleftrightarrow> length (ut_buf u) = 32 \<and> unat (ut_w u - ut_r u) \<le> 32"

definition pending :: "uart \<Rightarrow> u8 list" where
  "pending u = ring 32 (ut_buf u) (ut_r u) (ut_w u)"

definition sent :: "uart \<Rightarrow> u8 list" where
  "sent u = map snd (filter (\<lambda>(reg, v). reg = THR) (ut_wr u))"

lemma unat_mod_32: "unat (x mod 32 :: u64) = unat x mod 32"
  by (simp add: unat_mod)

lemma tx_push_pending:
  assumes "uart_ok (uart s)" "ut_w (uart s) \<noteq> ut_r (uart s) + 32"
  shows "pending (uart (tx_push c s)) = pending (uart s) @ [c]" "uart_ok (uart (tx_push c s))"
    "sent (uart (tx_push c s)) = sent (uart s)"
proof -
  let ?u = "uart s"
  have "ut_w ?u - ut_r ?u \<noteq> 32" using assms(2) by (auto simp: algebra_simps)
  then have "unat (ut_w ?u - ut_r ?u) \<noteq> 32" by (simp add: word_unat_eq_iff)
  then have d: "unat (ut_w ?u - ut_r ?u) < 32" using assms(1) by (simp add: uart_ok_def)
  then have "unat (ut_w ?u + 1 - ut_r ?u) = unat (ut_w ?u - ut_r ?u) + 1" by (intro unat_diff_up) simp
  then show "uart_ok (uart (tx_push c s))" using assms(1) d by (simp add: tx_push_def uart_ok_def)
  show "pending (uart (tx_push c s)) = pending ?u @ [c]"
    using assms(1) d utx.put [of "ut_buf ?u" "ut_w ?u" "ut_r ?u" c]
    by (simp add: tx_push_def pending_def uart_ok_def unat_mod_32)
  show "sent (uart (tx_push c s)) = sent ?u" by (simp add: tx_push_def sent_def)
qed

lemma uartstart_step_effect:
  assumes "uartstart_step s = Ok (b, t)" "uart_ok (uart s)"
  shows "uart_ok (uart t) \<and> sent (uart t) @ pending (uart t) = sent (uart s) @ pending (uart s) \<and>
    (\<exists>u P. t = s\<lparr>procs := P, uart := u\<rparr>)"
proof (cases b)
  case True
  then obtain n P where ne: "ut_w (uart s) \<noteq> ut_r (uart s)" and t: "t = s\<lparr>procs := P,
      uart := (uart s)\<lparr>ut_reads := n, ut_r := ut_r (uart s) + 1, ut_wr := ut_wr (uart s) @ [(THR, tx_next s)]\<rparr>\<rparr>"
    using uartstart_step_Ok [OF assms(1)] by auto
  have "pending (uart s) = tx_next s # pending (uart t)"
    using ne utx.get [of "ut_r (uart s)" "ut_w (uart s)" "ut_buf (uart s)"]
    by (simp add: t pending_def tx_next_def unat_mod_32)
  moreover have "sent (uart t) = sent (uart s) @ [tx_next s]" by (simp add: t sent_def)
  moreover have "uart_ok (uart t)" using assms(2) ne by (auto simp: t uart_ok_def unat_diff_down)
  ultimately show ?thesis using t by auto
next
  case False
  then obtain n where t: "t = s\<lparr>uart := (uart s)\<lparr>ut_reads := n\<rparr>\<rparr>" using uartstart_step_Ok [OF assms(1)] by auto
  then have "t = s\<lparr>procs := procs s, uart := (uart s)\<lparr>ut_reads := n\<rparr>\<rparr>" by simp
  then have "\<exists>u P. t = s\<lparr>procs := P, uart := u\<rparr>" by blast
  then show ?thesis using assms(2) t by (simp add: uart_ok_def sent_def pending_def)
qed

lemma uartstart_effect:
  "\<lbrakk>uartstart s = Ok t; uart_ok (uart s)\<rbrakk> \<Longrightarrow>
   uart_ok (uart t) \<and> sent (uart t) @ pending (uart t) = sent (uart s) @ pending (uart s) \<and>
   (\<exists>u P. t = s\<lparr>procs := P, uart := u\<rparr>)"
proof (induction s rule: uartstart.induct)
  case (1 s)
  obtain b s1 where st: "uartstart_step s = Ok (b, s1)" and rest: "(if b then uartstart s1 else Ok s1) = Ok t"
    using "1.prems"(1) by (subst (asm) uartstart.simps) (auto simp: andthen_eq_Ok)
  note e = uartstart_step_effect [OF st "1.prems"(2)]
  show ?case
  proof (cases b)
    case True
    then have "uartstart s1 = Ok t" using rest by simp
    note f = "1.IH" [OF st refl True this conjunct1 [OF e]]
    obtain u P u' P' where "s1 = s\<lparr>procs := P, uart := u\<rparr>" "t = s1\<lparr>procs := P', uart := u'\<rparr>" using e f by blast
    then have "t = s\<lparr>procs := P', uart := u'\<rparr>" by simp
    then have "\<exists>u P. t = s\<lparr>procs := P, uart := u\<rparr>" by blast
    then show ?thesis using e f by simp
  next
    case False
    then show ?thesis using rest e by simp
  qed
qed

lemma uartstart_returns: "\<forall>p < 64. \<not> lks s (ProcLock p) \<Longrightarrow> \<exists>t. uartstart s = Ok t"
proof (induction s rule: uartstart.induct)
  case (1 s)
  have "\<exists>b s1. uartstart_step s = Ok (b, s1)"
    using 1(2) by (auto simp: uartstart_step_def ReadReg_def tx_pop_def res_simps Let_def)
  then obtain b s1 where st: "uartstart_step s = Ok (b, s1)" by blast
  have "lks s1 = lks s" using uartstart_step_Ok [OF st] by (auto split: if_splits)
  then have "b \<Longrightarrow> \<exists>t. uartstart s1 = Ok t" using 1(1) [OF st refl] 1(2) by auto
  then show ?case using st by (subst uartstart.simps) (cases b; simp)
qed

text \<open>
  C30: with no lock held and the kernel not panicked, \<open>uartputc\<close> called by a process always comes to an end
  (its transmit loop terminates whatever the device answers).  Either it has accepted the character,
  and what was sent to the device followed by what is still buffered is extended by exactly that
  character, in order; or the buffer was full, nothing was sent or lost, and the caller sleeps until
  space opens up.  The buffer's counters stay within the buffer size, also across their wrap-around.
\<close>

theorem uartputc_in_order:
  assumes "uart_ok (uart s)" "quiet s" "\<not> panicked s" "curproc s = Some p"
  shows "\<exists>b t. uartputc c s = Ok (b, t) \<and> uart_ok (uart t) \<and>
    sent (uart t) @ pending (uart t) = sent (uart s) @ pending (uart s) @ (if b then [c] else []) \<and>
    (\<not> b \<longrightarrow> length (pending (uart s)) = 32 \<and> p_state (procs t p) = SLEEPING \<and> p_chan (procs t p) = ChUartTx)"
proof -
  let ?s = "s\<lparr>lks := (lks s)(UartTxLock := True)\<rparr>"
  have run: "uartputc c s = uartputc_wait c ?s" using assms(2,3) by (simp add: uartputc_def res_simps)
  show ?thesis
  proof (cases "ut_w (uart s) = ut_r (uart s) + 32")
    case True
    then have "length (pending (uart s)) = 32" by (simp add: pending_def)
    moreover have "uartputc c s = Ok (False, s\<lparr>procs := (procs s)(p := (procs s p)\<lparr>p_chan := ChUartTx, p_state := SLEEPING\<rparr>),
        curproc := None\<rparr>)"
      using True assms(2,4) unfolding run
      by (simp add: uartputc_wait_def sleep_enter_def myproc_def res_simps set_proc_def fun_upd_twist)
    ultimately show ?thesis using assms(1) by auto
  next
    case False
    let ?u = "tx_push c ?s"
    have u: "uart_ok (uart ?u)" "sent (uart ?u) @ pending (uart ?u) = sent (uart s) @ pending (uart s) @ [c]"
      using tx_push_pending [of ?s c] assms(1) False by simp_all
    have "\<forall>p < 64. \<not> lks ?u (ProcLock p)" using assms(2) by (simp add: tx_push_def)
    then obtain v where v: "uartstart ?u = Ok v" using uartstart_returns by blast
    note e = uartstart_effect [OF v u(1)]
    then have "lks v UartTxLock" by (auto simp: tx_push_def)
    then have "uartputc c s = Ok (True, v\<lparr>lks := (lks v)(UartTxLock := False)\<rparr>)"
      using False v unfolding run by (simp add: uartputc_wait_def res_simps)
    then show ?thesis using e u(2) by auto
  qed
qed

text \<open>A process running with an empty console, and a UART that answers every read with \<open>v\<close>.\<close>

definition con_state :: "u8 \<Rightarrow> image \<Rightarrow> bytemem \<Rightarrow> cst" where
  "con_state v d m = ist.extend (fs_state d m) (cst.fields
     \<lparr>ut_buf = replicate 32 0, ut_w = 0, ut_r = 0, ut_dev = (\<lambda>_ _. v), ut_reads = 0, ut_wr = []\<rparr>
     \<lparr>cn_buf = replicate 128 0, cn_r = 0, cn_w = 0, cn_e = 0\<rparr> False True
     (\<lambda>_. \<lparr>dv_read = None, dv_write = None\<rparr>))"

lemmas con_state = con_state_def fs_state_def ist.extend_def cst.fields_def

theorem uartputc_in_order_witness:
  "\<exists>t. uartputc 65 (con_state 0x20 (\<lambda>_. []) (\<lambda>_. 0)) = Ok (True, t) \<and>
     sent (uart t) @ pending (uart t) = [65]"
proof -
  let ?s = "con_state 0x20 (\<lambda>_. []) (\<lambda>_. 0)"
  have h: "uart_ok (uart ?s)" "quiet ?s" "\<not> panicked ?s" "curproc ?s = Some 0"
    "pending (uart ?s) = []" "sent (uart ?s) = []"
    by (simp_all add: con_state uart_ok_def quiet_def pending_def sent_def)
  obtain b t where "uartputc 65 ?s = Ok (b, t)"
    "sent (uart t) @ pending (uart t) = sent (uart ?s) @ pending (uart ?s) @ (if b then [65] else [])"
    "\<not> b \<longrightarrow> length (pending (uart ?s)) = 32"
    using uartputc_in_order [OF h(1-4), of 65] by blast
  then show ?thesis using h(5,6) by (cases b) auto
qed

end
