(* ===== verification/Printf.thy ===== *)
theory Printf
  imports Uart
begin

text \<open>
  Formatted console output: \<open>consputc\<close> of \<open>kernel/console.c\<close>, \<open>kernel/printf.c\<close> and
  \<open>procdump\<close> of \<open>kernel/proc.c\<close>.  A string is the list of its bytes before the nul; the variable
  arguments of \<open>printf\<close> are a list, and taking an argument that is missing or has another type is
  undefined.  Numbers that the code prints are shown to read back as themselves.
\<close>

definition BACKSPACE :: int where [simp]: "BACKSPACE = 0x100"

definition consputc :: "int \<Rightarrow> 'a cst_scheme \<Rightarrow> 'a cst_scheme res" where
  "consputc c s =
     (if c = BACKSPACE then
        andthen (uartputc_sync 8 s) (\<lambda>s.
        andthen (uartputc_sync 32 s) (\<lambda>s.
        uartputc_sync 8 s))
      else uartputc_sync (of_int c) s)"

fun consputs :: "u8 list \<Rightarrow> 'a cst_scheme \<Rightarrow> 'a cst_scheme res" where
  "consputs [] s = Ok s"
| "consputs (c # cs) s = andthen (consputc (uint c) s) (\<lambda>s. consputs cs s)"

section \<open>Numbers\<close>

definition digit :: "nat \<Rightarrow> u8" where
  "digit d = map of_char ''0123456789abcdef'' ! d"

text \<open>The digits least significant first; the code calls it with base 10 or 16.\<close>

function digits_of :: "nat \<Rightarrow> nat \<Rightarrow> u8 list" where
  "digits_of base x = digit (x mod base) # (if base < 2 \<or> x div base = 0 then [] else digits_of base (x div base))"
  by pat_completeness auto
termination
  by (relation "measure snd") (auto simp: div_greater_zero_iff)

declare digits_of.simps [simp del]

text \<open>
  \<open>buf\<close> has room for 16 characters: writing further is undefined.  So is negating the smallest
  \<open>long long\<close>.
\<close>

definition printint_buf :: "u64 \<Rightarrow> nat \<Rightarrow> bool \<Rightarrow> u8 list" where
  "printint_buf xx base sign =
     (let neg = (sign \<and> sint xx < 0); x = (if neg then - xx else xx) in
      digits_of base (unat x) @ (if neg then [45] else []))"

definition printint :: "u64 \<Rightarrow> nat \<Rightarrow> bool \<Rightarrow> 'a cst_scheme \<Rightarrow> 'a cst_scheme res" where
  "printint xx base sign s =
     (if sign \<and> sint xx = - (2 ^ 63) then Fail Undefined
      else
        let b = printint_buf xx base sign in
        if 16 < length b then Fail Undefined else consputs (rev b) s)"

fun printptr_loop :: "nat \<Rightarrow> u64 \<Rightarrow> 'a cst_scheme \<Rightarrow> 'a cst_scheme res" where
  "printptr_loop 0 x s = Ok s"
| "printptr_loop (Suc n) x s =
     andthen (consputc (uint (digit (unat (drop_bit (64 - 4) x)))) s) (\<lambda>s.
     printptr_loop n (push_bit 4 x) s)"

definition printptr :: "u64 \<Rightarrow> 'a cst_scheme \<Rightarrow> 'a cst_scheme res" where
  "printptr x s =
     andthen (consputc 48 s) (\<lambda>s.
     andthen (consputc 120 s) (\<lambda>s.
     printptr_loop (8 * 2) x s))"

section \<open>printf\<close>

text \<open>The arguments: an \<open>int\<close>, a 64-bit integer or pointer, a string (null is \<open>None\<close>).\<close>

datatype parg = PInt u32 | PLong u64 | PStr "u8 list option"

definition cstr_of :: "string \<Rightarrow> u8 list" where
  "cstr_of = map of_char"

definition print_arg_int :: "nat \<Rightarrow> bool \<Rightarrow> parg list \<Rightarrow> 'a cst_scheme \<Rightarrow> (parg list \<times> 'a cst_scheme) res" where
  "print_arg_int base sign args s =
     (case args of
        PInt v # args \<Rightarrow> andthen (printint (scast v) base sign s) (\<lambda>s. Ok (args, s))
      | _ \<Rightarrow> Fail Undefined)"

definition print_arg_long :: "nat \<Rightarrow> bool \<Rightarrow> parg list \<Rightarrow> 'a cst_scheme \<Rightarrow> (parg list \<times> 'a cst_scheme) res" where
  "print_arg_long base sign args s =
     (case args of
        PLong v # args \<Rightarrow> andthen (printint v base sign s) (\<lambda>s. Ok (args, s))
      | _ \<Rightarrow> Fail Undefined)"

definition print_arg_ptr :: "parg list \<Rightarrow> 'a cst_scheme \<Rightarrow> (parg list \<times> 'a cst_scheme) res" where
  "print_arg_ptr args s =
     (case args of
        PLong v # args \<Rightarrow> andthen (printptr v s) (\<lambda>s. Ok (args, s))
      | _ \<Rightarrow> Fail Undefined)"

definition print_arg_str :: "parg list \<Rightarrow> 'a cst_scheme \<Rightarrow> (parg list \<times> 'a cst_scheme) res" where
  "print_arg_str args s =
     (case args of
        PStr v # args \<Rightarrow>
          andthen (consputs (case v of None \<Rightarrow> cstr_of ''(null)'' | Some cs \<Rightarrow> cs) s) (\<lambda>s. Ok (args, s))
      | _ \<Rightarrow> Fail Undefined)"

text \<open>Character \<open>i\<close> of the rest of the format, 0 at its end.\<close>

definition fmt_at :: "u8 list \<Rightarrow> nat \<Rightarrow> u8" where
  "fmt_at cs i = (if i < length cs then cs ! i else 0)"

text \<open>
  One conversion: the characters after the percent sign it uses up, if it does not end the loop.
  The characters compared with are \<open>d\<close> 100, \<open>l\<close> 108, \<open>u\<close> 117, \<open>x\<close> 120, \<open>p\<close> 112,
  \<open>s\<close> 115 and the percent sign 37.
\<close>

definition printf_conv :: "u8 list \<Rightarrow> parg list \<Rightarrow> 'a cst_scheme \<Rightarrow> (nat option \<times> parg list \<times> 'a cst_scheme) res" where
  "printf_conv cs args s =
     (let c0 = fmt_at cs 0;
          c1 = (if c0 \<noteq> 0 then fmt_at cs 1 else 0);
          c2 = (if c1 \<noteq> 0 then fmt_at cs 2 else 0) in
      if c0 = 100 then andthen (print_arg_int 10 True args s) (\<lambda>r. Ok (Some 1, r))
      else if c0 = 108 \<and> c1 = 100 then andthen (print_arg_long 10 True args s) (\<lambda>r. Ok (Some 2, r))
      else if c0 = 108 \<and> c1 = 108 \<and> c2 = 100 then andthen (print_arg_long 10 True args s) (\<lambda>r. Ok (Some 3, r))
      else if c0 = 117 then andthen (print_arg_int 10 False args s) (\<lambda>r. Ok (Some 1, r))
      else if c0 = 108 \<and> c1 = 117 then andthen (print_arg_long 10 False args s) (\<lambda>r. Ok (Some 2, r))
      else if c0 = 108 \<and> c1 = 108 \<and> c2 = 117 then andthen (print_arg_long 10 False args s) (\<lambda>r. Ok (Some 3, r))
      else if c0 = 120 then andthen (print_arg_int 16 False args s) (\<lambda>r. Ok (Some 1, r))
      else if c0 = 108 \<and> c1 = 120 then andthen (print_arg_long 16 False args s) (\<lambda>r. Ok (Some 2, r))
      else if c0 = 108 \<and> c1 = 108 \<and> c2 = 120 then andthen (print_arg_long 16 False args s) (\<lambda>r. Ok (Some 3, r))
      else if c0 = 112 then andthen (print_arg_ptr args s) (\<lambda>r. Ok (Some 1, r))
      else if c0 = 115 then andthen (print_arg_str args s) (\<lambda>r. Ok (Some 1, r))
      else if c0 = 37 then andthen (consputc 37 s) (\<lambda>s. Ok (Some 1, args, s))
      else if c0 = 0 then Ok (None, args, s)
      else
        andthen (consputc 37 s) (\<lambda>s.
        andthen (consputc (uint c0) s) (\<lambda>s. Ok (Some 1, args, s))))"

function printf_loop :: "u8 list \<Rightarrow> parg list \<Rightarrow> 'a cst_scheme \<Rightarrow> 'a cst_scheme res" where
  "printf_loop [] args s = Ok s"
| "printf_loop (cx # cs) args s =
     (if cx = 0 then Ok s
      else if cx \<noteq> 37 then andthen (consputc (uint cx) s) (\<lambda>s. printf_loop cs args s)
      else
        andthen (printf_conv cs args s) (\<lambda>(used, args, s).
        case used of None \<Rightarrow> Ok s | Some n \<Rightarrow> printf_loop (drop n cs) args s))"
  by pat_completeness auto
termination
  by (relation "measure (\<lambda>(cs, args, s). length cs)") auto

definition printf :: "string \<Rightarrow> parg list \<Rightarrow> 'a cst_scheme \<Rightarrow> 'a cst_scheme res" where
  "printf fmt args s =
     (let locking = pr_locking s in
      andthen (if locking then acquire PrLock s else Ok s) (\<lambda>s.
      andthen (printf_loop (cstr_of fmt) args s) (\<lambda>s.
      if locking then release PrLock s else Ok s)))"

text \<open>\<open>panic\<close> up to the loop it ends in, with the state it leaves for the other harts.\<close>

definition panic :: "u8 list \<Rightarrow> 'a cst_scheme \<Rightarrow> 'a cst_scheme res" where
  "panic msg s =
     andthen (printf ''panic: '' [] (s\<lparr>pr_locking := False\<rparr>)) (\<lambda>s.
     andthen (printf (''%s'' @ [CHR 10]) [PStr (Some msg)] s) (\<lambda>s.
     Ok (s\<lparr>panicked := True\<rparr>)))"

definition printfinit :: "'a cst_scheme \<Rightarrow> 'a cst_scheme" where
  "printfinit s = s\<lparr>lks := (lks s)(PrLock := False), pr_locking := True\<rparr>"

section \<open>procdump\<close>

definition statename :: "procstate \<Rightarrow> string" where
  "statename st = (case st of UNUSED \<Rightarrow> ''unused'' | USED \<Rightarrow> ''used'' | SLEEPING \<Rightarrow> ''sleep ''
     | RUNNABLE \<Rightarrow> ''runble'' | RUNNING \<Rightarrow> ''run   '' | ZOMBIE \<Rightarrow> ''zombie'')"

fun procdump_loop :: "nat list \<Rightarrow> 'a cst_scheme \<Rightarrow> 'a cst_scheme res" where
  "procdump_loop [] s = Ok s"
| "procdump_loop (p # ps) s =
     (let q = procs s p in
      if p_state q = UNUSED then procdump_loop ps s
      else
        andthen (printf ''%d %s %s'' [PInt (of_int (p_pid q)), PStr (Some (cstr_of (statename (p_state q)))),
          PStr (Some (takeWhile (\<lambda>c. c \<noteq> 0) (p_name q)))] s) (\<lambda>s.
        andthen (printf [CHR 10] [] s) (\<lambda>s.
        procdump_loop ps s)))"

definition procdump :: "'a cst_scheme \<Rightarrow> 'a cst_scheme res" where
  "procdump s = andthen (printf [CHR 10] [] s) (\<lambda>s. procdump_loop [0..<NPROC] s)"

section \<open>What reaches the device\<close>

text \<open>The documented behaviour of the transmitter: after every read of its status it is idle again later.\<close>

definition tx_recovers :: "uart \<Rightarrow> bool" where
  "tx_recovers u \<longleftrightarrow> (\<forall>k. \<exists>j \<ge> k. ut_dev u j LSR AND LSR_TX_IDLE \<noteq> 0)"

text \<open>\<open>t\<close> is \<open>s\<close> after the bytes \<open>cs\<close> went straight to the device.\<close>

definition emitted :: "u8 list \<Rightarrow> 'a cst_scheme \<Rightarrow> 'a cst_scheme \<Rightarrow> bool" where
  "emitted cs s t \<longleftrightarrow> (\<exists>n. t = s\<lparr>uart := (uart s)\<lparr>ut_reads := n, ut_wr := ut_wr (uart s) @ map (Pair THR) cs\<rparr>\<rparr>)"

lemma emitted_Nil: "emitted [] s s"
  unfolding emitted_def by (rule exI [of _ "ut_reads (uart s)"]) simp

lemma emitted_trans: "\<lbrakk>emitted cs s t; emitted ds t u\<rbrakk> \<Longrightarrow> emitted (cs @ ds) s u"
proof -
  assume "emitted cs s t" "emitted ds t u"
  then obtain n m where "t = s\<lparr>uart := (uart s)\<lparr>ut_reads := n, ut_wr := ut_wr (uart s) @ map (Pair THR) cs\<rparr>\<rparr>"
    "u = t\<lparr>uart := (uart t)\<lparr>ut_reads := m, ut_wr := ut_wr (uart t) @ map (Pair THR) ds\<rparr>\<rparr>"
    unfolding emitted_def by blast
  then have "u = s\<lparr>uart := (uart s)\<lparr>ut_reads := m, ut_wr := ut_wr (uart s) @ map (Pair THR) (cs @ ds)\<rparr>\<rparr>" by simp
  then show ?thesis unfolding emitted_def by blast
qed

lemma emitted_fields:
  assumes "emitted cs s t"
  shows "panicked t = panicked s" "lks t = lks s" "pr_locking t = pr_locking s" "procs t = procs s"
    "curproc t = curproc s" "cons t = cons s" "tx_recovers (uart t) = tx_recovers (uart s)"
    "sent (uart t) = sent (uart s) @ cs" "pending (uart t) = pending (uart s)" "uart_ok (uart t) = uart_ok (uart s)"
proof -
  obtain n where t: "t = s\<lparr>uart := (uart s)\<lparr>ut_reads := n, ut_wr := ut_wr (uart s) @ map (Pair THR) cs\<rparr>\<rparr>"
    using assms unfolding emitted_def by blast
  have "map snd (filter (\<lambda>(reg, v). reg = THR) (map (Pair THR) cs)) = cs" by (induction cs) simp_all
  then show "sent (uart t) = sent (uart s) @ cs" by (simp add: t sent_def)
  show "panicked t = panicked s" "lks t = lks s" "pr_locking t = pr_locking s" "procs t = procs s"
    "curproc t = curproc s" "cons t = cons s" "tx_recovers (uart t) = tx_recovers (uart s)"
    "pending (uart t) = pending (uart s)" "uart_ok (uart t) = uart_ok (uart s)"
    by (simp_all add: t tx_recovers_def pending_def uart_ok_def)
qed

lemma uart_spin_returns:
  "\<lbrakk>ut_reads (uart s) \<le> j; ut_dev (uart s) j LSR AND LSR_TX_IDLE \<noteq> 0\<rbrakk> \<Longrightarrow>
   \<exists>n. uart_spin s = Some (s\<lparr>uart := (uart s)\<lparr>ut_reads := n\<rparr>\<rparr>)"
proof (induction "j - ut_reads (uart s)" arbitrary: s rule: less_induct)
  case less
  let ?s = "s\<lparr>uart := (uart s)\<lparr>ut_reads := ut_reads (uart s) + 1\<rparr>\<rparr>"
  show ?case
  proof (cases "ut_dev (uart s) (ut_reads (uart s)) LSR AND LSR_TX_IDLE = 0")
    case True
    then have "ut_reads (uart s) \<noteq> j" using less.prems by auto
    then have "\<exists>n. uart_spin ?s = Some (?s\<lparr>uart := (uart ?s)\<lparr>ut_reads := n\<rparr>\<rparr>)"
      using less.prems by (intro less.hyps) auto
    moreover have "uart_spin s = uart_spin ?s" using True by (subst uart_spin.simps) (simp add: ReadReg_def)
    ultimately show ?thesis by simp
  next
    case False
    then have "uart_spin s = Some ?s" by (subst uart_spin.simps) (simp add: ReadReg_def)
    then show ?thesis by blast
  qed
qed

lemma uartputc_sync_emits:
  assumes "\<not> panicked s" "tx_recovers (uart s)"
  shows "\<exists>t. uartputc_sync c s = Ok t \<and> emitted [c] s t"
proof -
  obtain j where "ut_reads (uart s) \<le> j" "ut_dev (uart s) j LSR AND LSR_TX_IDLE \<noteq> 0"
    using assms(2) unfolding tx_recovers_def by blast
  from uart_spin_returns [OF this] obtain n where "uart_spin s = Some (s\<lparr>uart := (uart s)\<lparr>ut_reads := n\<rparr>\<rparr>)" by blast
  then have "uartputc_sync c s = Ok (s\<lparr>uart := (uart s)\<lparr>ut_reads := n, ut_wr := ut_wr (uart s) @ [(THR, c)]\<rparr>\<rparr>)"
    using assms(1) by (simp add: uartputc_sync_def WriteReg_def)
  then show ?thesis unfolding emitted_def by auto
qed

lemma consputc_emits:
  assumes "\<not> panicked s" "tx_recovers (uart s)"
  shows "\<exists>t. consputc (uint c) s = Ok t \<and> emitted [c] s t" "\<exists>t. consputc BACKSPACE s = Ok t \<and> emitted [8, 32, 8] s t"
proof -
  have "uint c < 256" using uint_bounded [of c] by simp
  then have "uint c \<noteq> BACKSPACE" by simp
  then show "\<exists>t. consputc (uint c) s = Ok t \<and> emitted [c] s t"
    using uartputc_sync_emits [OF assms, of c] by (simp add: consputc_def)
  obtain t where t: "uartputc_sync 8 s = Ok t" "emitted [8] s t" using uartputc_sync_emits [OF assms] by blast
  obtain u where u: "uartputc_sync 32 t = Ok u" "emitted [32] t u"
    using uartputc_sync_emits [of t 32] emitted_fields [OF t(2)] assms by auto
  obtain v where v: "uartputc_sync 8 u = Ok v" "emitted [8] u v"
    using uartputc_sync_emits [of u 8] emitted_fields [OF t(2)] emitted_fields [OF u(2)] assms by auto
  show "\<exists>t. consputc BACKSPACE s = Ok t \<and> emitted [8, 32, 8] s t"
    using t u v emitted_trans [OF emitted_trans [OF t(2) u(2)] v(2)] by (simp add: consputc_def)
qed

lemma consputs_emits: "\<lbrakk>\<not> panicked s; tx_recovers (uart s)\<rbrakk> \<Longrightarrow> \<exists>t. consputs cs s = Ok t \<and> emitted cs s t"
proof (induction cs arbitrary: s)
  case Nil
  then show ?case by (simp add: emitted_Nil)
next
  case (Cons c cs)
  obtain t where t: "consputc (uint c) s = Ok t" "emitted [c] s t" using consputc_emits(1) [OF Cons.prems] by blast
  obtain u where "consputs cs t = Ok u" "emitted cs t u"
    using Cons.IH [of t] Cons.prems emitted_fields [OF t(2)] by auto
  then show ?case using t emitted_trans [of "[c]" s t cs u] by auto
qed

section \<open>Printed numbers read back\<close>

definition num_of :: "u8 list \<Rightarrow> nat" where
  "num_of cs = foldl (\<lambda>a c. 10 * a + (unat c - 48)) 0 cs"

text \<open>The value of a decimal numeral with an optional minus sign, and that it is one.\<close>

fun decimal :: "u8 list \<Rightarrow> int" where
  "decimal [] = 0"
| "decimal (c # cs) = (if c = 45 then - int (num_of cs) else int (num_of (c # cs)))"

definition is_digits :: "u8 list \<Rightarrow> bool" where
  "is_digits cs \<longleftrightarrow> cs \<noteq> [] \<and> (\<forall>c \<in> set cs. 48 \<le> c \<and> c \<le> 57)"

definition is_decimal :: "u8 list \<Rightarrow> bool" where
  "is_decimal cs \<longleftrightarrow> is_digits (if hd cs = 45 then tl cs else cs)"

lemma digit_decimal: "d < 10 \<Longrightarrow> 48 \<le> digit d \<and> digit d \<le> 57 \<and> unat (digit d) - 48 = d"
proof -
  assume "d < 10"
  then have "d \<in> {0,1,2,3,4,5,6,7,8,9}" by auto
  then show ?thesis by (auto simp: digit_def)
qed

lemma digits_of_10:
  "num_of (rev (digits_of 10 x)) = x \<and> is_digits (digits_of 10 x) \<and>
   (\<forall>k. length (digits_of 10 x) \<le> Suc k \<longleftrightarrow> x < 10 ^ Suc k)"
proof (induction x rule: less_induct)
  case (less x)
  let ?d = "digit (x mod 10)"
  have d: "48 \<le> ?d" "?d \<le> 57" "unat ?d - 48 = x mod 10" using digit_decimal [of "x mod 10"] by auto
  show ?case
  proof (cases "x div 10 = 0")
    case True
    then have "x < 10" by (simp add: div_eq_0_iff)
    moreover have "(10 :: nat) \<le> 10 ^ Suc k" for k by simp
    ultimately have "x < 10 ^ Suc k" for k by (meson less_le_trans)
    moreover have "digits_of 10 x = [?d]" using True by (subst digits_of.simps) simp
    ultimately show ?thesis using d \<open>x < 10\<close> by (simp add: num_of_def is_digits_def)
  next
    case False
    then have e: "digits_of 10 x = ?d # digits_of 10 (x div 10)" by (subst digits_of.simps) simp
    note IH = less.IH [of "x div 10"]
    have lt: "x div 10 < x" using False by simp
    have len: "length (digits_of 10 x) \<le> Suc k \<longleftrightarrow> x < 10 ^ Suc k" for k
    proof (cases k)
      case 0
      have "digits_of 10 (x div 10) \<noteq> []" using IH [OF lt] by (simp add: is_digits_def)
      then show ?thesis using False 0 by (simp add: e)
    next
      case (Suc j)
      have "x < 10 ^ Suc (Suc j) \<longleftrightarrow> x div 10 < 10 ^ Suc j" by (simp add: less_mult_imp_div_less div_less_iff_less_mult)
      then show ?thesis using IH [OF lt] by (simp add: e Suc)
    qed
    have "num_of (rev (digits_of 10 x)) = 10 * num_of (rev (digits_of 10 (x div 10))) + x mod 10"
      by (simp add: e num_of_def d(3))
    then show ?thesis using IH [OF lt] d len by (simp add: e is_digits_def)
  qed
qed

lemma decimal_digits:
  assumes "is_digits cs"
  shows "decimal cs = int (num_of cs)" "decimal (45 # cs) = - int (num_of cs)" "is_decimal cs" "is_decimal (45 # cs)"
proof -
  obtain c ds where c: "cs = c # ds" "48 \<le> c" using assms by (cases cs) (auto simp: is_digits_def)
  then have "c \<noteq> 45" by auto
  then show "decimal cs = int (num_of cs)" "decimal (45 # cs) = - int (num_of cs)" "is_decimal cs" "is_decimal (45 # cs)"
    using assms by (simp_all add: c(1) is_decimal_def)
qed

lemma is_digits_rev [simp]: "is_digits (rev cs) = is_digits cs"
  by (simp add: is_digits_def)

lemma unat_of_int_u64: "\<lbrakk>0 \<le> k; k < 2 ^ 64\<rbrakk> \<Longrightarrow> unat (of_int k :: u64) = nat k"
  by (simp add: unsigned_of_int take_bit_int_eq_self)

lemma sint_of_int_u64: "\<lbrakk>- (2 ^ 63) \<le> k; k < 2 ^ 63\<rbrakk> \<Longrightarrow> sint (of_int k :: u64) = k"
  by (simp add: signed_of_int signed_take_bit_int_eq_self)

lemma scast_int: "(scast (v :: u32) :: u64) = of_int (sint v)"
  by (rule scast_eq)

lemma sint_u32_bounds: "- (2 ^ 31) \<le> sint (v :: u32)" "sint (v :: u32) < 2 ^ 31"
  using sint_ge [of v] sint_less [of v] by simp_all

lemma printint_buf_int:
  "is_decimal (rev (printint_buf (scast (v :: u32)) 10 True)) \<and>
   decimal (rev (printint_buf (scast v) 10 True)) = sint v \<and> length (printint_buf (scast v) 10 True) \<le> 11"
proof -
  define x :: u64 where "x = scast v"
  have sx: "sint x = sint v" using sint_u32_bounds [of v] unfolding x_def scast_int by (intro sint_of_int_u64) simp_all
  define a where "a = nat \<bar>sint v\<bar>"
  have "length (digits_of 10 a) \<le> Suc 9 \<longleftrightarrow> a < 10 ^ Suc 9" using digits_of_10 by blast
  then have len: "length (digits_of 10 a) \<le> 10" using sint_u32_bounds [of v] by (simp add: a_def)
  have dg: "is_digits (rev (digits_of 10 a))" "num_of (rev (digits_of 10 a)) = a" using digits_of_10 [of a] by simp_all
  show ?thesis
  proof (cases "sint v < 0")
    case True
    have "- x = of_int (- sint v)" unfolding x_def scast_int by simp
    then have "unat (- x) = a" using True sint_u32_bounds [of v] unat_of_int_u64 [of "- sint v"] by (simp add: a_def)
    then have "printint_buf x 10 True = digits_of 10 a @ [45]" using True sx by (simp add: printint_buf_def)
    then show ?thesis using decimal_digits [OF dg(1)] dg(2) len True unfolding x_def by (simp add: a_def)
  next
    case False
    then have "unat x = a" using sint_u32_bounds [of v] unat_of_int_u64 [of "sint v"]
      unfolding x_def scast_int by (simp add: a_def)
    then have "printint_buf x 10 True = digits_of 10 a" using False sx by (simp add: printint_buf_def)
    then show ?thesis using decimal_digits [OF dg(1)] dg(2) len False unfolding x_def by (simp add: a_def)
  qed
qed

lemma printint_emits:
  assumes "\<not> panicked s" "tx_recovers (uart s)"
  shows "\<exists>t. printint (scast (v :: u32)) 10 True s = Ok t \<and> emitted (rev (printint_buf (scast v) 10 True)) s t"
proof -
  have "sint (scast v :: u64) = sint v"
    using sint_u32_bounds [of v] unfolding scast_int by (intro sint_of_int_u64) simp_all
  then have "sint (scast v :: u64) \<noteq> - (2 ^ 63)" using sint_u32_bounds [of v] by simp
  then show ?thesis
    using consputs_emits [OF assms, of "rev (printint_buf (scast v) 10 True)"] printint_buf_int [of v]
    by (simp add: printint_def Let_def)
qed

text \<open>
  C31: printing an \<open>int\<close> with \<open>%d\<close> sends to the device exactly one decimal numeral, which reads back
  as that number, for every 32-bit value; the call returns, with its lock released, whenever the
  transmitter keeps becoming idle.
\<close>

theorem printf_d_reads_back:
  assumes "\<not> panicked s" "tx_recovers (uart s)" "\<not> lks s PrLock"
  shows "\<exists>t out. printf ''%d'' [PInt v] s = Ok t \<and> lks t = lks s \<and>
    sent (uart t) = sent (uart s) @ out \<and> is_decimal out \<and> decimal out = sint v"
proof -
  let ?s = "if pr_locking s then s\<lparr>lks := (lks s)(PrLock := True)\<rparr> else s"
  have "\<not> panicked ?s" "tx_recovers (uart ?s)" using assms by simp_all
  from printint_emits [OF this, of v] obtain t where
    t: "printint (scast v) 10 True ?s = Ok t" "emitted (rev (printint_buf (scast v) 10 True)) ?s t" by blast
  have loop: "printf_loop (cstr_of ''%d'') [PInt v] ?s = Ok t"
    using t(1) by (simp add: cstr_of_def printf_conv_def fmt_at_def print_arg_int_def)
  note f = emitted_fields [OF t(2)]
  let ?t = "if pr_locking s then t\<lparr>lks := (lks t)(PrLock := False)\<rparr> else t"
  have "printf ''%d'' [PInt v] s = Ok ?t"
    using assms(3) loop f(2) by (auto simp: printf_def Let_def acquire_def release_def)
  moreover have "lks ?t = lks s" using f(2) assms(3) by auto
  moreover have "sent (uart ?t) = sent (uart s) @ rev (printint_buf (scast v) 10 True)" using f(8) by auto
  ultimately show ?thesis using printint_buf_int [of v] by blast
qed

theorem printf_d_reads_back_witness:
  "\<exists>t out. printf ''%d'' [PInt (-42)] (con_state 0x20 (\<lambda>_. []) (\<lambda>_. 0)) = Ok t \<and>
     sent (uart t) = out \<and> is_decimal out \<and> decimal out = -42"
proof -
  let ?s = "con_state 0x20 (\<lambda>_. []) (\<lambda>_. 0)"
  have h: "\<not> panicked ?s" "tx_recovers (uart ?s)" "\<not> lks ?s PrLock" "sent (uart ?s) = []"
    by (auto simp: con_state tx_recovers_def sent_def)
  have "sint (-42 :: u32) = -42" by simp
  then show ?thesis using printf_d_reads_back [OF h(1-3), of "-42"] h(4) by auto
qed

text \<open>
  C32: the 16-byte buffer of \<open>printint\<close> is too small for 64-bit numbers: printing a value of at least
  \<open>10 ^ 16\<close> in decimal, as \<open>%lu\<close> does, writes beyond its end.
\<close>

theorem printint_buffer_overflow:
  assumes "10 ^ 16 \<le> unat x"
  shows "printint x 10 False s = Fail Undefined"
proof -
  have "length (digits_of 10 (unat x)) \<le> Suc 15 \<longleftrightarrow> unat x < 10 ^ Suc 15" using digits_of_10 by blast
  then have "\<not> length (digits_of 10 (unat x)) \<le> 16" using assms by simp
  then show ?thesis by (simp add: printint_def printint_buf_def)
qed

theorem printint_buffer_overflow_witness:
  "printint 0xFFFFFFFFFFFFFFFF 10 False (con_state 0x20 (\<lambda>_. []) (\<lambda>_. 0)) = Fail Undefined"
  by (rule printint_buffer_overflow) simp

end
