(* ===== verification/Console.thy ===== *)
theory Console
  imports Printf
begin

text \<open>
  The console, \<open>kernel/console.c\<close>, with the interrupt routine of \<open>kernel/uart.c\<close> that feeds it.
  A read or write runs until it returns or sleeps (\<open>prun\<close>), and a sleeping call continues with its
  \<open>resume\<close> function, which takes the values of its local variables.  The input buffer with its three
  wrapping 32-bit indices is shown to implement a line discipline on two byte sequences: the input
  that is ready to be read and the line that is still being edited.
\<close>

definition INPUT_BUF_SIZE :: u32 where [simp]: "INPUT_BUF_SIZE = 128"
definition CONSOLE :: nat where [simp]: "CONSOLE = 1"

definition C_ctl :: "char \<Rightarrow> int" where
  "C_ctl x = of_char x - of_char (CHR ''@'')"

lemma C_ctl_simps [simp]: "C_ctl CHR ''P'' = 16" "C_ctl CHR ''U'' = 21" "C_ctl CHR ''H'' = 8" "C_ctl CHR ''D'' = 4"
  by (simp_all add: C_ctl_def)

section \<open>Writing\<close>

function consolewrite_loop :: "bool \<Rightarrow> u64 \<Rightarrow> int \<Rightarrow> int \<Rightarrow> 'a cst_scheme \<Rightarrow> (prun \<times> 'a cst_scheme) res" where
  "consolewrite_loop user_src src n i s =
     (if i < n then
        andthen (either_copyin user_src (src + of_int i) 1 s) (\<lambda>(r, cs, s).
        if r = -1 then Ok (Returns i, s)
        else
          andthen (uartputc (hd cs) s) (\<lambda>(done, s).
          if done then consolewrite_loop user_src src n (i + 1) s else Ok (Sleeps i, s)))
      else Ok (Returns i, s))"
  by pat_completeness auto
termination
  by (relation "measure (\<lambda>(u, src, n, i, s). nat (n - i))") auto

declare consolewrite_loop.simps [simp del]

definition consolewrite :: "bool \<Rightarrow> u64 \<Rightarrow> int \<Rightarrow> 'a cst_scheme \<Rightarrow> (prun \<times> 'a cst_scheme) res" where
  "consolewrite user_src src n s = consolewrite_loop user_src src n 0 s"

definition consolewrite_resume :: "nat \<Rightarrow> u8 \<Rightarrow> bool \<Rightarrow> u64 \<Rightarrow> int \<Rightarrow> int \<Rightarrow> 'a cst_scheme \<Rightarrow> (prun \<times> 'a cst_scheme) res" where
  "consolewrite_resume p c user_src src n i s =
     andthen (uartputc_resume p c s) (\<lambda>(done, s).
     if done then consolewrite_loop user_src src n (i + 1) s else Ok (Sleeps i, s))"

section \<open>Reading\<close>

definition set_cons :: "(console \<Rightarrow> console) \<Rightarrow> 'a cst_scheme \<Rightarrow> 'a cst_scheme" where
  "set_cons f s = s\<lparr>cons := f (cons s)\<rparr>"

definition consoleread_end :: "u32 \<Rightarrow> int \<Rightarrow> 'a cst_scheme \<Rightarrow> (prun \<times> 'a cst_scheme) res" where
  "consoleread_end target n s =
     andthen (release ConsLock s) (\<lambda>s. Ok (Returns (sint (target - of_int n)), s))"

text \<open>
  The loop with \<open>cons.lock\<close> held.  The test of the inner loop is made on entering a round and again
  after waking up, so that a sleeping call continues with the same loop.
\<close>

function consoleread_loop :: "bool \<Rightarrow> u32 \<Rightarrow> u64 \<Rightarrow> int \<Rightarrow> 'a cst_scheme \<Rightarrow> (prun \<times> 'a cst_scheme) res" where
  "consoleread_loop user_dst target dst n s =
     (if n > 0 then
        if cn_r (cons s) = cn_w (cons s) then
          (case myproc s of
             None \<Rightarrow> Fail Undefined
           | Some p \<Rightarrow>
               andthen (killed p s) (\<lambda>(k, s).
               if k \<noteq> 0 then andthen (release ConsLock s) (\<lambda>s. Ok (Returns (-1), s))
               else andthen (sleep_enter ChCons ConsLock s) (\<lambda>s. Ok (Sleeps n, s))))
        else
          let c = cn_buf (cons s) ! unat (cn_r (cons s) mod INPUT_BUF_SIZE);
              s = set_cons (\<lambda>q. q\<lparr>cn_r := cn_r q + 1\<rparr>) s in
          if uint c = C_ctl CHR ''D'' then
            consoleread_end target n (if of_int n < target then set_cons (\<lambda>q. q\<lparr>cn_r := cn_r q - 1\<rparr>) s else s)
          else
            andthen (either_copyout user_dst dst [c] s) (\<lambda>(r, s).
            if r = -1 then consoleread_end target n s
            else if c = 10 then consoleread_end target (n - 1) s
            else consoleread_loop user_dst target (dst + 1) (n - 1) s)
      else consoleread_end target n s)"
  by pat_completeness auto
termination
  by (relation "measure (\<lambda>(u, target, dst, n, s). nat n)") auto

declare consoleread_loop.simps [simp del]

definition consoleread :: "bool \<Rightarrow> u64 \<Rightarrow> int \<Rightarrow> 'a cst_scheme \<Rightarrow> (prun \<times> 'a cst_scheme) res" where
  "consoleread user_dst dst n s =
     andthen (acquire ConsLock s) (\<lambda>s. consoleread_loop user_dst (of_int n) dst n s)"

definition consoleread_resume :: "nat \<Rightarrow> bool \<Rightarrow> u32 \<Rightarrow> u64 \<Rightarrow> int \<Rightarrow> 'a cst_scheme \<Rightarrow> (prun \<times> 'a cst_scheme) res" where
  "consoleread_resume p user_dst target dst n s =
     andthen (sleep_exit p ConsLock s) (\<lambda>s. consoleread_loop user_dst target dst n s)"

section \<open>Input\<close>

lemma uart_spin_Some: "uart_spin s = Some t \<Longrightarrow> \<exists>n. t = s\<lparr>uart := (uart s)\<lparr>ut_reads := n\<rparr>\<rparr>"
proof (rule uart_spin.raw_induct [where P = "\<lambda>s t. \<exists>n. t = s\<lparr>uart := (uart s)\<lparr>ut_reads := n\<rparr>\<rparr>"])
  fix f :: "'a cst_scheme \<Rightarrow> 'a cst_scheme option" and s t :: "'a cst_scheme"
  let ?s = "s\<lparr>uart := (uart s)\<lparr>ut_reads := ut_reads (uart s) + 1\<rparr>\<rparr>"
  assume IH: "\<And>s t. f s = Some t \<Longrightarrow> \<exists>n. t = s\<lparr>uart := (uart s)\<lparr>ut_reads := n\<rparr>\<rparr>"
  assume "(case ReadReg LSR s of (v, s) \<Rightarrow> if v AND LSR_TX_IDLE = 0 then f s else Some s) = Some t"
  then have "(if ut_dev (uart s) (ut_reads (uart s)) LSR AND LSR_TX_IDLE = 0 then f ?s else Some ?s) = Some t"
    by (simp only: ReadReg_def prod.case)
  then consider "f ?s = Some t" | "t = ?s" by (metis option.inject)
  then show "\<exists>n. t = s\<lparr>uart := (uart s)\<lparr>ut_reads := n\<rparr>\<rparr>"
  proof cases
    case 1
    from IH [OF this] show ?thesis by simp
  qed blast
qed

lemma uartputc_sync_cons: "uartputc_sync c s = Ok t \<Longrightarrow> cons t = cons s"
  by (auto simp: uartputc_sync_def WriteReg_def dest!: uart_spin_Some split: if_splits option.splits)

lemma consputc_cons: "consputc c s = Ok t \<Longrightarrow> cons t = cons s"
  by (auto simp: consputc_def andthen_eq_Ok dest!: uartputc_sync_cons split: if_splits)

text \<open>The loop of the kill-line character.\<close>

function kill_line :: "'a cst_scheme \<Rightarrow> 'a cst_scheme res" where
  "kill_line s =
     (if cn_e (cons s) \<noteq> cn_w (cons s) \<and>
         cn_buf (cons s) ! unat ((cn_e (cons s) - 1) mod INPUT_BUF_SIZE) \<noteq> 10 then
        andthen (consputc BACKSPACE (set_cons (\<lambda>q. q\<lparr>cn_e := cn_e q - 1\<rparr>) s)) (\<lambda>s. kill_line s)
      else Ok s)"
  by pat_completeness auto
termination
proof (relation "measure (\<lambda>s. unat (cn_e (cons s) - cn_w (cons s)))")
  fix s t :: "'a cst_scheme"
  assume g: "cn_e (cons s) \<noteq> cn_w (cons s) \<and>
    cn_buf (cons s) ! unat ((cn_e (cons s) - 1) mod INPUT_BUF_SIZE) \<noteq> 10"
  assume "consputc BACKSPACE (set_cons (\<lambda>q. q\<lparr>cn_e := cn_e q - 1\<rparr>) s) = Ok t"
  then have "cons t = (cons s)\<lparr>cn_e := cn_e (cons s) - 1\<rparr>" using consputc_cons by (fastforce simp: set_cons_def)
  moreover have "0 < unat (cn_e (cons s) - cn_w (cons s))" using g by (simp add: unat_gt_0)
  moreover have "cn_w (cons s) \<noteq> cn_e (cons s)" using g by metis
  ultimately show "(t, s) \<in> measure (\<lambda>s. unat (cn_e (cons s) - cn_w (cons s)))"
    using unat_diff_pred [of "cn_w (cons s)" "cn_e (cons s)"] by simp
qed simp

declare kill_line.simps [simp del]

definition consoleintr :: "int \<Rightarrow> 'a cst_scheme \<Rightarrow> 'a cst_scheme res" where
  "consoleintr c s =
     andthen (acquire ConsLock s) (\<lambda>s.
     andthen
       (if c = C_ctl CHR ''P'' then procdump s
        else if c = C_ctl CHR ''U'' then kill_line s
        else if c = C_ctl CHR ''H'' \<or> c = 0x7f then
          if cn_e (cons s) \<noteq> cn_w (cons s)
          then consputc BACKSPACE (set_cons (\<lambda>q. q\<lparr>cn_e := cn_e q - 1\<rparr>) s)
          else Ok s
        else if c \<noteq> 0 \<and> cn_e (cons s) - cn_r (cons s) < INPUT_BUF_SIZE then
          let c = (if c = 13 then 10 else c) in
          andthen (consputc c s) (\<lambda>s.
          let s = set_cons (\<lambda>q. q\<lparr>cn_buf := (cn_buf q)[unat (cn_e q mod INPUT_BUF_SIZE) := of_int c],
                                  cn_e := cn_e q + 1\<rparr>) s in
          if c = 10 \<or> c = C_ctl CHR ''D'' \<or> cn_e (cons s) - cn_r (cons s) = INPUT_BUF_SIZE
          then wakeup ChCons (set_cons (\<lambda>q. q\<lparr>cn_w := cn_e q\<rparr>) s)
          else Ok s)
        else Ok s) (\<lambda>s.
     release ConsLock s))"

definition consoleinit :: "'a cst_scheme \<Rightarrow> 'a cst_scheme" where
  "consoleinit s =
     (let s = uartinit (s\<lparr>lks := (lks s)(ConsLock := False)\<rparr>) in
      s\<lparr>devsw := (devsw s)(CONSOLE := \<lparr>dv_read = Some Consoleread, dv_write = Some Consolewrite\<rparr>)\<rparr>)"

text \<open>The loop of \<open>uartintr\<close> runs as long as the device has input.\<close>

partial_function (option) uartintr_loop :: "'a cst_scheme \<Rightarrow> 'a cst_scheme res option" where
  "uartintr_loop s =
     (case uartgetc s of (c, s) \<Rightarrow>
      if c = -1 then Some (Ok s)
      else (case consoleintr c s of Fail e \<Rightarrow> Some (Fail e) | Ok s \<Rightarrow> uartintr_loop s))"

definition uartintr :: "'a cst_scheme \<Rightarrow> 'a cst_scheme res" where
  "uartintr s =
     (case uartintr_loop s of
        None \<Rightarrow> Fail Looping
      | Some r \<Rightarrow>
          andthen r (\<lambda>s.
          andthen (acquire UartTxLock s) (\<lambda>s.
          andthen (uartstart s) (\<lambda>s.
          release UartTxLock s))))"

section \<open>Printing only prints\<close>

definition prints :: "('a cst_scheme \<Rightarrow> 'a cst_scheme res) \<Rightarrow> bool" where
  "prints f \<longleftrightarrow> (\<forall>s. \<not> panicked s \<and> tx_recovers (uart s) \<longrightarrow> (\<exists>out t. f s = Ok t \<and> emitted out s t))"

lemma printsD: "\<lbrakk>prints f; \<not> panicked s; tx_recovers (uart s)\<rbrakk> \<Longrightarrow> \<exists>out t. f s = Ok t \<and> emitted out s t"
  by (simp add: prints_def)

lemma prints_Ok: "prints Ok"
  using emitted_Nil by (auto simp: prints_def)

lemma prints_bind: "\<lbrakk>prints f; prints g\<rbrakk> \<Longrightarrow> prints (\<lambda>s. andthen (f s) g)"
  unfolding prints_def
proof (intro allI impI)
  fix s :: "'a cst_scheme"
  assume f: "\<forall>s. \<not> panicked s \<and> tx_recovers (uart s) \<longrightarrow> (\<exists>out t. f s = Ok t \<and> emitted out s t)"
    and g: "\<forall>s. \<not> panicked s \<and> tx_recovers (uart s) \<longrightarrow> (\<exists>out t. g s = Ok t \<and> emitted out s t)"
    and s: "\<not> panicked s \<and> tx_recovers (uart s)"
  obtain a t where t: "f s = Ok t" "emitted a s t" using f s by blast
  then obtain b u where "g t = Ok u" "emitted b t u" using g s emitted_fields [OF t(2)] by blast
  then show "\<exists>out t. andthen (f s) g = Ok t \<and> emitted out s t" using t emitted_trans by fastforce
qed

lemma prints_consputs: "prints (consputs cs)"
  unfolding prints_def by (meson consputs_emits)

lemma prints_consputc: "prints (consputc (uint (c :: u8)))"
  unfolding prints_def by (meson consputc_emits(1))

lemma prints_printint: "prints (printint (scast (v :: u32)) 10 True)"
  unfolding prints_def by (meson printint_emits)

lemma printf_loop_fun:
  "printf_loop [] args = Ok"
  "printf_loop (cx # cs) args = (\<lambda>s. if cx = 0 then Ok s
     else if cx \<noteq> 37 then andthen (consputc (uint cx) s) (\<lambda>s. printf_loop cs args s)
     else andthen (printf_conv cs args s) (\<lambda>(used, args, s).
       case used of None \<Rightarrow> Ok s | Some n \<Rightarrow> printf_loop (drop n cs) args s))"
  by (rule ext, simp)+

lemma prints_ps_line:
  "prints (printf_loop (cstr_of ''%d %s %s'') [PInt v, PStr (Some a), PStr (Some b)]
     :: 'a cst_scheme \<Rightarrow> 'a cst_scheme res)"
proof -
  have "printf_loop (cstr_of ''%d %s %s'') [PInt v, PStr (Some a), PStr (Some b)] =
    (\<lambda>s :: 'a cst_scheme. andthen (printint (scast v) 10 True s) (\<lambda>s. andthen (consputc (uint (32 :: u8)) s)
    (\<lambda>s. andthen (consputs a s) (\<lambda>s. andthen (consputc (uint (32 :: u8)) s) (consputs b)))))"
    by (simp add: printf_loop_fun cstr_of_def printf_conv_def fmt_at_def print_arg_int_def print_arg_str_def andthen_assoc
        del: printf_loop.simps)
  then show ?thesis by (simp only:) (intro prints_bind prints_printint prints_consputc prints_consputs)
qed

lemma prints_newline: "prints (printf_loop (cstr_of [CHR 10]) [] :: 'a cst_scheme \<Rightarrow> 'a cst_scheme res)"
proof -
  have "printf_loop (cstr_of [CHR 10]) [] = (consputc (uint (10 :: u8)) :: 'a cst_scheme \<Rightarrow> 'a cst_scheme res)"
    by (simp add: printf_loop_fun cstr_of_def del: printf_loop.simps)
  then show ?thesis by (simp only: prints_consputc)
qed

text \<open>With the lock of \<open>printf\<close> free, a call returns and has only printed.\<close>

definition prints_unlocked :: "('a cst_scheme \<Rightarrow> 'a cst_scheme res) \<Rightarrow> bool" where
  "prints_unlocked f \<longleftrightarrow>
     (\<forall>s. \<not> panicked s \<and> tx_recovers (uart s) \<and> \<not> lks s PrLock \<longrightarrow> (\<exists>out t. f s = Ok t \<and> emitted out s t))"

lemma printf_prints:
  assumes "prints (printf_loop (cstr_of fmt) args :: 'a cst_scheme \<Rightarrow> 'a cst_scheme res)"
  shows "prints_unlocked (printf fmt args :: 'a cst_scheme \<Rightarrow> 'a cst_scheme res)"
  unfolding prints_unlocked_def
proof (intro allI impI)
  fix s :: "'a cst_scheme"
  assume h: "\<not> panicked s \<and> tx_recovers (uart s) \<and> \<not> lks s PrLock"
  let ?s = "if pr_locking s then s\<lparr>lks := (lks s)(PrLock := True)\<rparr> else s"
  obtain out t where t: "printf_loop (cstr_of fmt) args ?s = Ok t" "emitted out ?s t"
    using printsD [OF assms, of ?s] h by (cases "pr_locking s"; simp; blast)
  let ?t = "if pr_locking s then t\<lparr>lks := (lks t)(PrLock := False)\<rparr> else t"
  have "printf fmt args s = Ok ?t"
    using h t(1) emitted_fields(2) [OF t(2)] by (auto simp: printf_def Let_def acquire_def release_def)
  moreover have "emitted out s ?t"
  proof -
    obtain n where "t = ?s\<lparr>uart := (uart ?s)\<lparr>ut_reads := n, ut_wr := ut_wr (uart ?s) @ map (Pair THR) out\<rparr>\<rparr>"
      using t(2) unfolding emitted_def by blast
    then have "?t = s\<lparr>uart := (uart s)\<lparr>ut_reads := n, ut_wr := ut_wr (uart s) @ map (Pair THR) out\<rparr>\<rparr>"
      using h by simp
    then show ?thesis unfolding emitted_def by blast
  qed
  ultimately show "\<exists>out t. printf fmt args s = Ok t \<and> emitted out s t" by blast
qed

lemma unlocked_Ok: "prints_unlocked Ok"
  using emitted_Nil by (auto simp: prints_unlocked_def)

lemma unlocked_bind:
  assumes "prints_unlocked f" "prints_unlocked g"
  shows "prints_unlocked (\<lambda>s. andthen (f s) g)"
  unfolding prints_unlocked_def
proof (intro allI impI)
  fix s :: "'a cst_scheme"
  assume s: "\<not> panicked s \<and> tx_recovers (uart s) \<and> \<not> lks s PrLock"
  obtain a t where t: "f s = Ok t" "emitted a s t" using assms(1) s unfolding prints_unlocked_def by blast
  have "\<not> panicked t \<and> tx_recovers (uart t) \<and> \<not> lks t PrLock" using s emitted_fields [OF t(2)] by simp
  then obtain b u where "g t = Ok u" "emitted b t u" using assms(2) unfolding prints_unlocked_def by blast
  then show "\<exists>out t. andthen (f s) g = Ok t \<and> emitted out s t" using t emitted_trans by fastforce
qed

text \<open>What the listing prints depends on the state; that it only prints does not.\<close>

lemma procdump_loop_prints: "prints_unlocked (procdump_loop ps :: 'a cst_scheme \<Rightarrow> 'a cst_scheme res)"
proof (induction ps)
  case Nil
  then show ?case using unlocked_Ok by (simp add: prints_unlocked_def)
next
  case (Cons p ps)
  have line: "prints_unlocked (\<lambda>s :: 'a cst_scheme. andthen (printf ''%d %s %s'' [PInt v, PStr (Some a), PStr (Some b)] s)
      (\<lambda>s. andthen (printf [CHR 10] [] s) (procdump_loop ps)))" for v a b
    by (intro unlocked_bind printf_prints prints_ps_line prints_newline Cons)
  show ?case
    unfolding prints_unlocked_def
  proof (intro allI impI)
    fix s :: "'a cst_scheme"
    assume s: "\<not> panicked s \<and> tx_recovers (uart s) \<and> \<not> lks s PrLock"
    let ?q = "procs s p"
    show "\<exists>out t. procdump_loop (p # ps) s = Ok t \<and> emitted out s t"
    proof (cases "p_state ?q = UNUSED")
      case True
      then show ?thesis using Cons s by (simp add: prints_unlocked_def Let_def)
    next
      case False
      then show ?thesis
        using line [of "of_int (p_pid ?q)" "cstr_of (statename (p_state ?q))" "takeWhile (\<lambda>c. c \<noteq> 0) (p_name ?q)"] s
        unfolding prints_unlocked_def by (simp add: Let_def)
    qed
  qed
qed

lemma procdump_prints: "prints_unlocked (procdump :: 'a cst_scheme \<Rightarrow> 'a cst_scheme res)"
proof -
  have "procdump = (\<lambda>s :: 'a cst_scheme. andthen (printf [CHR 10] [] s) (procdump_loop [0..<NPROC]))"
    by (rule ext) (simp add: procdump_def)
  then show ?thesis
    by (rule ssubst [where P = prints_unlocked]) (intro unlocked_bind printf_prints prints_newline procdump_loop_prints)
qed

section \<open>The input buffer implements a line discipline\<close>

interpretation cring: word_ring 128 "TYPE(32)"
  by unfold_locales simp_all

text \<open>Input a reader may take, and the line that is being edited.\<close>

definition ready :: "console \<Rightarrow> u8 list" where
  "ready q = ring 128 (cn_buf q) (cn_r q) (cn_w q)"

definition editing :: "console \<Rightarrow> u8 list" where
  "editing q = ring 128 (cn_buf q) (cn_w q) (cn_e q)"

definition cons_ok :: "console \<Rightarrow> bool" where
  "cons_ok q \<longleftrightarrow> length (cn_buf q) = 128 \<and> unat (cn_w q - cn_r q) \<le> unat (cn_e q - cn_r q) \<and>
     unat (cn_e q - cn_r q) \<le> 128 \<and> 10 \<notin> set (editing q) \<and> 4 \<notin> set (editing q)"

text \<open>
  The line discipline: what one input character does to the ready input and the edited line.
  Control-P changes nothing, control-U drops the line, control-H and delete its last character;
  any other character but nul is added if there is room, return as newline, and the line becomes ready at a
  newline, at control-D, or when the buffer is full.
\<close>

definition line_in :: "u8 \<Rightarrow> u8 list \<times> u8 list \<Rightarrow> u8 list \<times> u8 list" where
  "line_in c v = (case v of (rd, ed) \<Rightarrow>
     if c = 16 \<or> c = 0 then (rd, ed)
     else if c = 21 then (rd, [])
     else if c = 8 \<or> c = 127 then (rd, butlast ed)
     else if length (rd @ ed) < 128 then
       let c = (if c = 13 then 10 else c) in
       if c = 10 \<or> c = 4 \<or> length (rd @ ed) = 127 then (rd @ ed @ [c], []) else (rd, ed @ [c])
     else (rd, ed))"

lemma unat_mod_128: "unat (x mod 128 :: u32) = unat x mod 128"
  by (simp add: unat_mod)

lemma cons_all: "cons_ok q \<Longrightarrow> ring 128 (cn_buf q) (cn_r q) (cn_e q) = ready q @ editing q"
  unfolding ready_def editing_def by (rule cring.join) (simp add: cons_ok_def)

lemma cons_len: "cons_ok q \<Longrightarrow> unat (cn_e q - cn_r q) = length (ready q @ editing q)"
  using cons_all [of q] by (metis length_ring)

lemma cons_ready_take:
  assumes "unat (cn_w q - cn_r q) \<le> unat (cn_e q - cn_r q)"
  shows "ready q = take (unat (cn_w q - cn_r q)) (ring 128 (cn_buf q) (cn_r q) (cn_e q))"
    "editing q = drop (unat (cn_w q - cn_r q)) (ring 128 (cn_buf q) (cn_r q) (cn_e q))"
  unfolding ready_def editing_def cring.join [OF assms] by simp_all

lemma cons_put:
  fixes c :: u8
  assumes "cons_ok q" "length (ready q @ editing q) < 128"
  defines "q' \<equiv> q\<lparr>cn_buf := (cn_buf q)[unat (cn_e q mod 128) := c], cn_e := cn_e q + 1\<rparr>"
  shows "ready q' = ready q" "editing q' = editing q @ [c]" "length (cn_buf q') = 128"
    "unat (cn_e q' - cn_r q') = Suc (length (ready q @ editing q))"
proof -
  have lt: "unat (cn_e q - cn_r q) < 128" using assms(2) cons_len [OF assms(1)] by simp
  have up: "unat (cn_e q + 1 - cn_r q) = unat (cn_e q - cn_r q) + 1" by (rule unat_diff_up) (use lt in simp)
  show "unat (cn_e q' - cn_r q') = Suc (length (ready q @ editing q))"
    using up cons_len [OF assms(1)] by (simp add: q'_def)
  show "length (cn_buf q') = 128" using assms(1) by (simp add: q'_def cons_ok_def)
  have all: "ring 128 (cn_buf q') (cn_r q') (cn_e q') = (ready q @ editing q) @ [c]"
    using assms(1) lt cring.put [of "cn_buf q" "cn_e q" "cn_r q" c] cons_all [OF assms(1)]
    by (simp add: q'_def cons_ok_def unat_mod_128)
  have le: "unat (cn_w q - cn_r q) \<le> unat (cn_e q - cn_r q)" using assms(1) by (simp add: cons_ok_def)
  then have le': "unat (cn_w q' - cn_r q') \<le> unat (cn_e q' - cn_r q')" using up by (simp add: q'_def)
  have k: "unat (cn_w q' - cn_r q') = length (ready q)" by (simp add: q'_def ready_def)
  show "ready q' = ready q" "editing q' = editing q @ [c]"
    using cons_ready_take [OF le'] unfolding all k by simp_all
qed

lemma cons_commit:
  assumes "unat (cn_w q - cn_r q) \<le> unat (cn_e q - cn_r q)"
  shows "ready (q\<lparr>cn_w := cn_e q\<rparr>) = ready q @ editing q" "editing (q\<lparr>cn_w := cn_e q\<rparr>) = []"
  using cring.join [OF assms, of "cn_buf q"] by (simp_all add: ready_def editing_def)

lemma cons_del:
  assumes "cons_ok q" "cn_e q \<noteq> cn_w q"
  defines "q' \<equiv> q\<lparr>cn_e := cn_e q - 1\<rparr>"
  shows "ready q' = ready q" "editing q' = butlast (editing q)" "cons_ok q'"
proof -
  show r: "ready q' = ready q" by (simp add: q'_def ready_def)
  show e: "editing q' = butlast (editing q)"
    using cring.unput [OF not_sym [OF assms(2)], of "cn_buf q"] by (simp add: q'_def editing_def)
  have ne: "editing q \<noteq> []" using assms(2) by (auto simp: editing_def ring_eq_Nil)
  have len: "unat (cn_e q - cn_r q) = length (ready q) + length (editing q)" using cons_len [OF assms(1)] by simp
  then have "0 < unat (cn_e q - cn_r q)" using ne by simp
  then have "cn_r q \<noteq> cn_e q" by (metis diff_self unat_0 less_irrefl)
  then have d: "unat (cn_e q - 1 - cn_r q) = unat (cn_e q - cn_r q) - 1" by (rule unat_diff_pred)
  have w: "unat (cn_w q - cn_r q) = length (ready q)" by (simp add: ready_def)
  have "unat (cn_w q - cn_r q) \<le> unat (cn_e q - 1 - cn_r q)"
    unfolding d len w using ne by (cases "editing q") simp_all
  moreover have "set (butlast (editing q)) \<subseteq> set (editing q)" by (auto dest: in_set_butlastD)
  ultimately show "cons_ok q'" using assms(1) d unfolding cons_ok_def e by (auto simp: q'_def)
qed

lemma kill_line_ok:
  "\<lbrakk>cons_ok (cons s); \<not> panicked s; tx_recovers (uart s)\<rbrakk> \<Longrightarrow>
   \<exists>t. kill_line s = Ok t \<and> cons_ok (cons t) \<and> ready (cons t) = ready (cons s) \<and> editing (cons t) = [] \<and>
     lks t = lks s \<and> procs t = procs s"
proof (induction s rule: kill_line.induct)
  case (1 s)
  let ?q = "cons s" and ?s = "set_cons (\<lambda>q. q\<lparr>cn_e := cn_e q - 1\<rparr>) s"
  show ?case
  proof (cases "cn_e ?q = cn_w ?q")
    case True
    then show ?thesis using "1.prems" by (subst kill_line.simps) (simp add: editing_def)
  next
    case False
    then have ne: "editing ?q \<noteq> []" by (auto simp: editing_def ring_eq_Nil)
    then have "last (editing ?q) \<noteq> 10" using "1.prems"(1) unfolding cons_ok_def by (metis last_in_set)
    then have g: "cn_e ?q \<noteq> cn_w ?q \<and> cn_buf ?q ! unat ((cn_e ?q - 1) mod INPUT_BUF_SIZE) \<noteq> 10"
      using False cring.last_index [OF not_sym [OF False], of "cn_buf ?q"] by (simp add: editing_def unat_mod_128)
    have "\<not> panicked ?s" "tx_recovers (uart ?s)" using "1.prems" by (simp_all add: set_cons_def)
    from consputc_emits(2) [OF this]
    obtain u where u: "consputc BACKSPACE ?s = Ok u" "emitted [8, 32, 8] ?s u" by blast
    note f = emitted_fields [OF u(2)]
    have q: "cons u = ?q\<lparr>cn_e := cn_e ?q - 1\<rparr>" using f(6) by (simp add: set_cons_def)
    note d = cons_del [OF "1.prems"(1) False]
    have step: "kill_line s = kill_line u" using g u(1) by (subst kill_line.simps) simp
    from "1.IH" [OF g u(1)] obtain t where "kill_line u = Ok t" "cons_ok (cons t)" "ready (cons t) = ready (cons u)"
      "editing (cons t) = []" "lks t = lks u" "procs t = procs u"
      using d(3) f(1,7) "1.prems"(2,3) unfolding q by (auto simp: set_cons_def)
    then show ?thesis using step d(1) f(2,4) unfolding q by (simp add: set_cons_def)
  qed
qed

text \<open>The body of \<open>consoleintr\<close> under the lock, on each kind of character.\<close>

definition intr_post :: "u8 \<Rightarrow> 'a cst_scheme \<Rightarrow> 'a cst_scheme \<Rightarrow> bool" where
  "intr_post c s t \<longleftrightarrow> cons_ok (cons t) \<and> lks t = lks s \<and>
     (ready (cons t), editing (cons t)) = line_in c (ready (cons s), editing (cons s)) \<and>
     (ready (cons t) \<noteq> ready (cons s) \<longrightarrow>
       (\<forall>p < NPROC. Some p \<noteq> curproc s \<longrightarrow> \<not> (p_state (procs t p) = SLEEPING \<and> p_chan (procs t p) = ChCons)))"

lemma intr_post_quiet:
  assumes "cons_ok (cons t)" "lks t = lks s" "ready (cons t) = ready (cons s)"
    "line_in c (ready (cons s), editing (cons s)) = (ready (cons s), editing (cons t))"
  shows "intr_post c s t"
  using assms by (simp add: intr_post_def)

lemma consoleintr_char:
  assumes ok: "cons_ok (cons s)" "\<not> panicked s" "tx_recovers (uart s)" "\<forall>p < 64. \<not> lks s (ProcLock p)"
    and c: "c \<noteq> 0" "c \<noteq> 16" "c \<noteq> 21" "c \<noteq> 8" "c \<noteq> 127"
    and room: "length (ready (cons s) @ editing (cons s)) < 128"
    and d: "d = (if c = 13 then 10 else c)"
  shows "\<exists>t. andthen (consputc (uint d) s) (\<lambda>s.
      let s = set_cons (\<lambda>q. q\<lparr>cn_buf := (cn_buf q)[unat (cn_e q mod INPUT_BUF_SIZE) := d], cn_e := cn_e q + 1\<rparr>) s in
      if d = 10 \<or> d = 4 \<or> cn_e (cons s) - cn_r (cons s) = INPUT_BUF_SIZE
      then wakeup ChCons (set_cons (\<lambda>q. q\<lparr>cn_w := cn_e q\<rparr>) s) else Ok s) = Ok t \<and> intr_post c s t"
proof -
  obtain u where u: "consputc (uint d) s = Ok u" "emitted [d] s u" using consputc_emits(1) [OF ok(2,3)] by blast
  note f = emitted_fields [OF u(2)]
  let ?q = "(cons s)\<lparr>cn_buf := (cn_buf (cons s))[unat (cn_e (cons s) mod 128) := d], cn_e := cn_e (cons s) + 1\<rparr>"
  let ?v = "u\<lparr>cons := ?q\<rparr>" and ?n = "length (ready (cons s) @ editing (cons s))"
  note put = cons_put [OF ok(1) room, of d]
  have full: "cn_e ?q - cn_r ?q = 128 \<longleftrightarrow> ?n = 127"
    using put(4) by (simp only: word_unat_eq_iff [of "cn_e ?q - cn_r ?q"]) simp
  have li: "line_in c (ready (cons s), editing (cons s)) =
      (if d = 10 \<or> d = 4 \<or> ?n = 127 then (ready (cons s) @ editing (cons s) @ [d], []) else (ready (cons s), editing (cons s) @ [d]))"
    using c room by (simp add: line_in_def d Let_def)
  have wle: "unat (cn_w ?q - cn_r ?q) \<le> unat (cn_e ?q - cn_r ?q)"
    using put(4) by (simp add: ready_def)
  show ?thesis
  proof (cases "d = 10 \<or> d = 4 \<or> ?n = 127")
    case True
    let ?w = "u\<lparr>cons := ?q\<lparr>cn_w := cn_e ?q\<rparr>\<rparr>"
    let ?t = "?w\<lparr>procs := wake ChCons (curproc ?w) {..<NPROC} (procs ?w)\<rparr>"
    have "wakeup ChCons ?w = Ok ?t" using ok(4) f(2) by (intro wakeup_eq) simp
    moreover have "cons_ok (cons ?t)" using put(3,4) room by (simp add: cons_ok_def editing_def)
    moreover have "ready (cons ?t) = ready (cons s) @ editing (cons s) @ [d]" "editing (cons ?t) = []"
      using cons_commit [OF wle] put(1,2) by simp_all
    ultimately show ?thesis using True full li f(2,5,6) u(1)
      by (auto simp: set_cons_def intr_post_def wake_def)
  next
    case False
    have "cons_ok ?q" using put room wle False ok(1) by (simp add: cons_ok_def)
    then show ?thesis using False full li f(2,6) u(1) put(1,2)
      by (auto simp: set_cons_def intr_post_def)
  qed
qed

lemma uint_u8_eq:
  "uint (c :: u8) = 16 \<longleftrightarrow> c = 16" "uint c = 21 \<longleftrightarrow> c = 21" "uint c = 8 \<longleftrightarrow> c = 8" "uint c = 127 \<longleftrightarrow> c = 127"
  "uint c = 0 \<longleftrightarrow> c = 0" "uint c = 13 \<longleftrightarrow> c = 13" "uint c = 10 \<longleftrightarrow> c = 10" "uint c = 4 \<longleftrightarrow> c = 4"
  by (simp_all add: word_uint_eq_iff)

definition intr_body :: "u8 \<Rightarrow> 'a cst_scheme \<Rightarrow> 'a cst_scheme res" where
  "intr_body c s =
     (if c = 16 then procdump s
      else if c = 21 then kill_line s
      else if c = 8 \<or> c = 127 then
        if cn_e (cons s) \<noteq> cn_w (cons s)
        then consputc BACKSPACE (set_cons (\<lambda>q. q\<lparr>cn_e := cn_e q - 1\<rparr>) s) else Ok s
      else if c \<noteq> 0 \<and> cn_e (cons s) - cn_r (cons s) < INPUT_BUF_SIZE then
        let d = (if c = 13 then 10 else c) in
        andthen (consputc (uint d) s) (\<lambda>s.
        let s = set_cons (\<lambda>q. q\<lparr>cn_buf := (cn_buf q)[unat (cn_e q mod INPUT_BUF_SIZE) := d], cn_e := cn_e q + 1\<rparr>) s in
        if d = 10 \<or> d = 4 \<or> cn_e (cons s) - cn_r (cons s) = INPUT_BUF_SIZE
        then wakeup ChCons (set_cons (\<lambda>q. q\<lparr>cn_w := cn_e q\<rparr>) s) else Ok s)
      else Ok s)"

lemma consoleintr_body:
  "consoleintr (uint c) s = andthen (acquire ConsLock s) (\<lambda>s. andthen (intr_body c s) (release ConsLock))"
proof -
  have "(if uint c = 13 then 10 else uint c) = uint (if c = 13 then 10 else c :: u8)" by (simp add: uint_u8_eq)
  then show ?thesis
    by (simp add: consoleintr_def intr_body_def uint_u8_eq Let_def del: INPUT_BUF_SIZE_def BACKSPACE_def cong: if_cong)
qed

lemma intr_body_ok:
  assumes ok: "cons_ok (cons s)" "\<not> panicked s" "tx_recovers (uart s)" "\<forall>p < 64. \<not> lks s (ProcLock p)" "\<not> lks s PrLock"
  shows "\<exists>t. intr_body c s = Ok t \<and> intr_post c s t"
proof -
  let ?q = "cons s"
  have room: "cn_e ?q - cn_r ?q < 128 \<longleftrightarrow> length (ready ?q @ editing ?q) < 128"
    using cons_len [OF ok(1)] by (simp add: word_less_nat_alt)
  consider "c = 16" | "c = 21" | "c = 8 \<or> c = 127"
    | "c = 0 \<or> \<not> length (ready ?q @ editing ?q) < 128" "c \<noteq> 16" "c \<noteq> 21" "c \<noteq> 8" "c \<noteq> 127"
    | "c \<noteq> 0" "c \<noteq> 16" "c \<noteq> 21" "c \<noteq> 8" "c \<noteq> 127" "length (ready ?q @ editing ?q) < 128" by blast
  then show ?thesis
  proof cases
    case 1
    obtain out t where t: "procdump s = Ok t" "emitted out s t"
      using procdump_prints ok unfolding prints_unlocked_def by blast
    then have "intr_post c s t"
      using emitted_fields [OF t(2)] ok(1) 1 by (intro intr_post_quiet) (simp_all add: line_in_def)
    then show ?thesis using t(1) 1 by (auto simp: intr_body_def)
  next
    case 2
    obtain t where t: "kill_line s = Ok t" "cons_ok (cons t)" "ready (cons t) = ready (cons s)" "editing (cons t) = []"
      "lks t = lks s" using kill_line_ok [OF ok(1-3)] by blast
    then have "intr_post c s t" using 2 by (intro intr_post_quiet) (simp_all add: line_in_def)
    then show ?thesis using t(1) 2 by (auto simp: intr_body_def)
  next
    case 3
    show ?thesis
    proof (cases "cn_e ?q = cn_w ?q")
      case True
      then have "editing ?q = []" by (simp add: editing_def)
      then have "intr_post c s s" using 3 ok(1) by (intro intr_post_quiet) (auto simp: line_in_def)
      then show ?thesis using 3 True by (auto simp: intr_body_def)
    next
      case False
      let ?s = "set_cons (\<lambda>q. q\<lparr>cn_e := cn_e q - 1\<rparr>) s"
      have "\<not> panicked ?s" "tx_recovers (uart ?s)" using ok by (simp_all add: set_cons_def)
      from consputc_emits(2) [OF this] obtain t where t: "consputc BACKSPACE ?s = Ok t" "emitted [8, 32, 8] ?s t" by blast
      note f = emitted_fields [OF t(2)]
      have "intr_post c s t"
        using 3 f cons_del [OF ok(1) False] by (intro intr_post_quiet) (auto simp: set_cons_def line_in_def)
      then show ?thesis using 3 False t(1) by (auto simp: intr_body_def)
    qed
  next
    case 4
    then have "intr_post c s s" using ok(1) by (intro intr_post_quiet) (auto simp: line_in_def)
    then show ?thesis using 4 room by (auto simp: intr_body_def)
  next
    case 5
    from consoleintr_char [OF ok(1-4) 5 refl] show ?thesis using 5 room by (simp add: intr_body_def Let_def)
  qed
qed

text \<open>
  C33: the console's interrupt handler implements the line discipline.  On any input byte it returns
  with its locks released, the ring buffer's invariant holds again (indices in order, at most 128
  bytes, across the wrap-around of the 32-bit indices), the ready input and the edited line are
  exactly what the line discipline says, and when input has become ready no reader is left asleep.
\<close>

theorem consoleintr_line_discipline:
  assumes "cons_ok (cons s)" "quiet s" "\<not> panicked s" "tx_recovers (uart s)"
  shows "\<exists>t. consoleintr (uint c) s = Ok t \<and> quiet t \<and> cons_ok (cons t) \<and>
    (ready (cons t), editing (cons t)) = line_in c (ready (cons s), editing (cons s)) \<and>
    (ready (cons t) \<noteq> ready (cons s) \<longrightarrow>
      (\<forall>p < NPROC. Some p \<noteq> curproc s \<longrightarrow> \<not> (p_state (procs t p) = SLEEPING \<and> p_chan (procs t p) = ChCons)))"
proof -
  let ?s = "s\<lparr>lks := (lks s)(ConsLock := True)\<rparr>"
  obtain t where t: "intr_body c ?s = Ok t" "intr_post c ?s t"
    using intr_body_ok [of ?s c] assms by auto
  let ?t = "t\<lparr>lks := (lks t)(ConsLock := False)\<rparr>"
  have l: "lks t = (lks s)(ConsLock := True)" using t(2) by (simp add: intr_post_def)
  have "consoleintr (uint c) s = Ok ?t"
    using assms(2) t(1) l unfolding consoleintr_body by (simp add: res_simps)
  moreover have "quiet ?t" using assms(2) l by (simp add: quiet_def fun_eq_iff)
  ultimately show ?thesis using t(2) unfolding intr_post_def by auto
qed

theorem consoleintr_line_discipline_witness:
  "\<exists>t. consoleintr 104 (con_state 0x20 (\<lambda>_. []) (\<lambda>_. 0)) = Ok t \<and> ready (cons t) = [] \<and> editing (cons t) = [104]"
proof -
  let ?s = "con_state 0x20 (\<lambda>_. []) (\<lambda>_. 0)"
  have h: "cons_ok (cons ?s)" "quiet ?s" "\<not> panicked ?s" "tx_recovers (uart ?s)" "ready (cons ?s) = []" "editing (cons ?s) = []"
    by (auto simp: con_state cons_ok_def quiet_def tx_recovers_def ready_def editing_def)
  have "line_in 104 ([], []) = ([], [104])" "uint (104 :: u8) = 104" by (simp_all add: line_in_def)
  then show ?thesis using consoleintr_line_discipline [OF h(1-4), of 104] h(5,6) by auto
qed

section \<open>A read takes one line\<close>

text \<open>
  What a read of at most \<open>n\<close> bytes takes from the ready input and what it leaves, or \<open>None\<close> when the
  input runs out first.  A line ends with its newline; control-D ends the read, and is left in the
  input unless it comes first, so that the next read returns nothing.
\<close>

fun take_line :: "nat \<Rightarrow> bool \<Rightarrow> u8 list \<Rightarrow> (u8 list \<times> u8 list) option" where
  "take_line 0 first q = Some ([], q)"
| "take_line (Suc n) first [] = None"
| "take_line (Suc n) first (c # q) =
     (if c = 4 then Some ([], if first then q else c # q)
      else if c = 10 then Some ([c], q)
      else map_option (\<lambda>(bs, r). (c # bs, r)) (take_line n False q))"

lemma cons_get:
  assumes "cons_ok q" "cn_r q \<noteq> cn_w q"
  defines "q' \<equiv> q\<lparr>cn_r := cn_r q + 1\<rparr>"
  shows "ready q = cn_buf q ! unat (cn_r q mod INPUT_BUF_SIZE) # ready q'" "editing q' = editing q" "cons_ok q'"
proof -
  show "ready q = cn_buf q ! unat (cn_r q mod INPUT_BUF_SIZE) # ready q'"
    using cring.get [OF assms(2), of "cn_buf q"] by (simp add: q'_def ready_def unat_mod_128)
  show e: "editing q' = editing q" by (simp add: q'_def editing_def)
  have w: "0 < unat (cn_w q - cn_r q)" using assms(2) by (simp add: unat_gt_0)
  then have "0 < unat (cn_e q - cn_r q)" using assms(1) by (simp add: cons_ok_def)
  then have "cn_e q \<noteq> cn_r q" by (metis diff_self unat_0 less_irrefl)
  then have "unat (cn_e q - (cn_r q + 1)) = unat (cn_e q - cn_r q) - 1" by (rule unat_diff_down)
  moreover have "unat (cn_w q - (cn_r q + 1)) = unat (cn_w q - cn_r q) - 1"
    using assms(2) by (intro unat_diff_down) metis
  ultimately show "cons_ok q'" using assms(1) e unfolding cons_ok_def by (auto simp: q'_def)
qed

lemma sint_of_int_u32: "\<lbrakk>- (2 ^ 31) \<le> k; k < 2 ^ 31\<rbrakk> \<Longrightarrow> sint (of_int k :: u32) = k"
  by (simp add: signed_of_int signed_take_bit_int_eq_self)

lemma read_count: "\<lbrakk>0 \<le> n; n \<le> N; N < 2 ^ 31\<rbrakk> \<Longrightarrow> sint (of_int N - of_int n :: u32) = N - n"
proof -
  assume "0 \<le> n" "n \<le> N" "N < 2 ^ 31"
  then have "sint (of_int (N - n) :: u32) = N - n" by (intro sint_of_int_u32) simp_all
  then show ?thesis by (simp only: of_int_diff)
qed

lemma of_int_u32_less: "\<lbrakk>0 \<le> n; n < N; N < 2 ^ 31\<rbrakk> \<Longrightarrow> (of_int n :: u32) < of_int N"
  by (simp add: word_less_def uint_word_of_int take_bit_int_eq_self unsigned_of_int)

definition read_post :: "u8 list \<Rightarrow> bytemem \<Rightarrow> 'a cst_scheme \<Rightarrow> 'a cst_scheme \<Rightarrow> bool" where
  "read_post rest m s t \<longleftrightarrow> cons_ok (cons t) \<and> ready (cons t) = rest \<and> editing (cons t) = editing (cons s) \<and>
     mem t = m \<and> lks t = (lks s)(ConsLock := False)"

lemma consoleread_end_ok:
  assumes "lks s ConsLock" "0 \<le> n" "n \<le> N" "N < 2 ^ 31" "cons_ok (cons s)" "ready (cons s) = rest" "mem s = m"
  shows "\<exists>t. consoleread_end (of_int N) n s = Ok (Returns (N - n), t) \<and> read_post rest m s t"
  using assms read_count [OF assms(2-4)] by (simp add: consoleread_end_def res_simps read_post_def)

lemma consoleread_loop_ok:
  assumes "cons_ok (cons s)" "lks s ConsLock" "curproc s = Some p" "p_pagetable (procs s p) = pt" "uptw (mem s) pt"
    "0 \<le> n" "n \<le> N" "N < 2 ^ 31" "take_line (nat n) (n = N) (ready (cons s)) = Some (bs, rest)"
    "user_write (mem s) pt dst bs = Some m"
  shows "\<exists>t. consoleread_loop True (of_int N) dst n s = Ok (Returns (N - n + int (length bs)), t) \<and> read_post rest m s t"
  using assms
proof (induction "nat n" arbitrary: n s dst bs)
  case 0
  then have "bs = []" "rest = ready (cons s)" "m = mem s" "n = 0" by auto
  then show ?case using 0 consoleread_end_ok [of s n N rest m] by (subst consoleread_loop.simps) auto
next
  case (Suc k)
  let ?q = "cons s" and ?s = "set_cons (\<lambda>q. q\<lparr>cn_r := cn_r q + 1\<rparr>) s"
  let ?c = "cn_buf ?q ! unat (cn_r ?q mod INPUT_BUF_SIZE)"
  have n: "0 < n" "nat n = Suc k" "nat (n - 1) = k" using Suc.hyps(2) by auto
  have ne: "cn_r ?q \<noteq> cn_w ?q" using Suc.prems(9) n(2) by (auto simp: ready_def)
  note g = cons_get [OF Suc.prems(1) ne]
  let ?rest = "ready (?q\<lparr>cn_r := cn_r ?q + 1\<rparr>)"
  have q: "cons ?s = ?q\<lparr>cn_r := cn_r ?q + 1\<rparr>" by (simp add: set_cons_def)
  have run: "consoleread_loop True (of_int N) dst n s =
      (if ?c = 4 then consoleread_end (of_int N) n (if of_int n < (of_int N :: u32) then s else ?s)
       else andthen (either_copyout True dst [?c] ?s) (\<lambda>(r, s).
         if r = -1 then consoleread_end (of_int N) n s
         else if ?c = 10 then consoleread_end (of_int N) (n - 1) s
         else consoleread_loop True (of_int N) (dst + 1) (n - 1) s))"
    using n(1) ne by (subst consoleread_loop.simps) (simp add: Let_def uint_u8_eq set_cons_def del: INPUT_BUF_SIZE_def)
  have tl: "take_line (Suc k) (n = N) (?c # ?rest) = Some (bs, rest)" using Suc.prems(9) g(1) n(2) by simp
  show ?case
  proof (cases "?c = 4")
    case True
    then have r: "bs = []" "rest = (if n = N then ?rest else ?c # ?rest)" "m = mem s"
      using tl Suc.prems(10) by (auto split: if_splits)
    show ?thesis
    proof (cases "n = N")
      case True
      then show ?thesis
        using \<open>?c = 4\<close> r Suc.prems(2,6-8) g(2,3) q consoleread_end_ok [of ?s n N ?rest "mem s"]
        unfolding run by (auto simp: set_cons_def read_post_def)
    next
      case False
      then have "of_int n < (of_int N :: u32)" using Suc.prems(6-8) by (intro of_int_u32_less) auto
      then show ?thesis
        using False \<open>?c = 4\<close> r Suc.prems g(1) consoleread_end_ok [of s n N "?c # ?rest" "mem s"] unfolding run by simp
    qed
  next
    case False
    have bs: "\<exists>ds. bs = ?c # ds" using tl False by (auto split: if_splits)
    then obtain ds where ds: "bs = ?c # ds" by blast
    obtain m1 where m1: "user_write (mem s) pt dst [?c] = Some m1" "user_write m1 pt (dst + 1) ds = Some m"
      using Suc.prems(10) unfolding ds by (auto split: option.splits)
    have "uptw (mem ?s) pt" using Suc.prems(5) by (simp add: set_cons_def)
    from copyout_obj_ok [OF this, of dst "[?c]"] obtain u where u: "copyout_obj pt dst [?c] ?s = Ok (0, u)" "mem_only ?s u" "mem u = m1"
      using m1(1) by (auto simp: set_cons_def)
    have cp: "either_copyout True dst [?c] ?s = Ok (0, u)"
      using u(1) Suc.prems(3,4) by (simp add: either_copyout_def myproc_def set_cons_def)
    have us: "u = ?s\<lparr>mem := m1, freelist := freelist u\<rparr>" using u(2,3) unfolding mem_only_def by simp
    have uf: "cons u = ?q\<lparr>cn_r := cn_r ?q + 1\<rparr>" "lks u = lks s" "curproc u = curproc s" "procs u = procs s" "mem u = m1"
      using u(3) by (subst us, simp add: set_cons_def)+
    show ?thesis
    proof (cases "?c = 10")
      case True
      then have "ds = []" "rest = ?rest" "m = m1" using tl m1(2) ds False by (auto split: if_splits)
      then show ?thesis
        using True False ds Suc.prems(2,6-8) n(1) g(2,3) q consoleread_end_ok [of u "n - 1" N ?rest m1]
        unfolding run cp by (auto simp: uf read_post_def)
    next
      case c10: False
      have tk: "take_line (nat (n - 1)) (n - 1 = N) (ready (cons u)) = Some (ds, rest)"
        using tl False c10 ds Suc.prems(7) n(3) by (auto simp: uf split: option.splits)
      have "uptw m1 pt" using m1(1) Suc.prems(5) uptw_store(1) by (auto split: option.splits)
      then have "\<exists>t. consoleread_loop True (of_int N) (dst + 1) (n - 1) u =
          Ok (Returns (N - (n - 1) + int (length ds)), t) \<and> read_post rest m u t"
        using Suc.prems(2-4,6-8) n g(3) m1(2) tk
        by (intro Suc.hyps(1)) (simp_all add: uf)
      then show ?thesis using False c10 ds g(2) unfolding run cp
        by (auto simp: uf read_post_def)
    qed
  qed
qed

text \<open>
  C34: a read from the console by a user process, when the ready input has what it needs, returns one
  line (at most \<open>n\<close> bytes, through the newline, or up to a control-D), stores exactly those bytes at the
  user's address, and leaves the rest of the input and the edited line as they were.
\<close>

theorem consoleread_takes_line:
  assumes "cons_ok (cons s)" "quiet s" "curproc s = Some p" "uptw (mem s) (p_pagetable (procs s p))"
    and "0 < n" "n < 2 ^ 31" "take_line (nat n) True (ready (cons s)) = Some (bs, rest)"
    and "user_write (mem s) (p_pagetable (procs s p)) dst bs = Some m"
  shows "\<exists>t. consoleread True dst n s = Ok (Returns (int (length bs)), t) \<and> quiet t \<and> mem t = m \<and>
    cons_ok (cons t) \<and> ready (cons t) = rest \<and> editing (cons t) = editing (cons s)"
proof -
  let ?s = "s\<lparr>lks := (lks s)(ConsLock := True)\<rparr>"
  obtain t where "consoleread_loop True (of_int n) dst n ?s = Ok (Returns (int (length bs)), t)" "read_post rest m ?s t"
    using consoleread_loop_ok [of ?s p "p_pagetable (procs s p)" n n bs rest dst m] assms by auto
  moreover have "((lks s)(ConsLock := True))(ConsLock := False) = (\<lambda>_. False)" using assms(2) by (auto simp: quiet_def)
  ultimately show ?thesis using assms(2) by (auto simp: consoleread_def res_simps read_post_def quiet_def)
qed

theorem consoleread_takes_line_witness:
  "\<exists>s t :: cst. ready (cons s) = [104, 10, 120] \<and> consoleread True 0x3000 3 s = Ok (Returns 2, t) \<and>
     mem t 0x80200000 = 104 \<and> mem t 0x80200001 = 10 \<and> ready (cons t) = [120]"
proof -
  obtain k :: kmst where k: "uptw (mem k) 0x80100000"
    "\<forall>va. 0x3000 \<le> va \<and> va < 0x4000 \<longrightarrow> utrans (mem k) 0x80100000 va = Some (0x80200000 + (va - 0x3000)) \<and>
      utransw (mem k) 0x80100000 va = Some (0x80200000 + (va - 0x3000))"
    by (rule one_user_page_trans)
  define s where "s = (con_state 0x20 (\<lambda>_. []) (mem k))\<lparr>procs := (\<lambda>_. zero_proc\<lparr>p_pagetable := 0x80100000\<rparr>),
    cons := \<lparr>cn_buf = [104, 10, 120] @ replicate 125 0, cn_r = 0, cn_w = 3, cn_e = 3\<rparr>\<rparr>"
  have ring: "ready (cons s) = [104, 10, 120]" by (simp add: s_def ready_def ring_def upt_rec)
  have h: "cons_ok (cons s)" "quiet s" "curproc s = Some 0" "p_pagetable (procs s 0) = 0x80100000" "mem s = mem k"
    by (simp_all add: s_def con_state cons_ok_def quiet_def editing_def)
  let ?m = "(mem k)(0x80200000 := 104, 0x80200001 := 10)"
  have u: "utransw (mem k) 0x80100000 0x3000 = Some 0x80200000" "utransw (mem k) 0x80100000 0x3001 = Some 0x80200001"
    using k(2) by simp_all
  then have w: "user_write (mem s) (p_pagetable (procs s 0)) 0x3000 [104, 10] = Some ?m"
    using uptw_store(2) [OF k(1) u(1)] unfolding h(4,5) by simp
  have l: "take_line (nat 3) True (ready (cons s)) = Some ([104, 10], [120])" by (simp add: ring numeral_3_eq_3)
  have "\<exists>t. consoleread True 0x3000 3 s = Ok (Returns (int (length [104 :: u8, 10])), t) \<and> quiet t \<and> mem t = ?m \<and>
      cons_ok (cons t) \<and> ready (cons t) = [120] \<and> editing (cons t) = editing (cons s)"
    by (rule consoleread_takes_line [OF h(1-3) _ _ _ l w]) (simp_all add: h(4,5) k(1))
  then obtain t where "consoleread True 0x3000 3 s = Ok (Returns 2, t)" "mem t = ?m" "ready (cons t) = [120]" by auto
  then show ?thesis using ring by (intro exI [of _ s] exI [of _ t]) simp
qed

end
