(* ===== verification/Fsframe.thy ===== *)
theory Fsframe
  imports Frame
begin

text \<open>
  What the file system leaves of byte memory: blocks, inodes and locks are structures of their
  own, so no operation below \<open>readi\<close> touches memory, and \<open>readi\<close> into a kernel buffer changes
  that buffer only.
\<close>

interpretation memf: fs_frame "mem :: 'a ist_scheme \<Rightarrow> bytemem"
  by unfold_locales simp_all

abbreviation mkeep :: "bytemem \<Rightarrow> 'a kmst_scheme res \<Rightarrow> bool" where
  "mkeep m \<equiv> okp (\<lambda>t. mem t = m)"

section \<open>Reading into a kernel buffer\<close>

definition mout :: "bytemem \<Rightarrow> u64 \<Rightarrow> nat \<Rightarrow> 'a kmst_scheme \<Rightarrow> bool" where
  "mout m p n t \<longleftrightarrow> (\<forall>a. \<not> unat (a - p) < n \<longrightarrow> mem t a = m a)"

lemma mout_same [simp]: "mem t = m \<Longrightarrow> mout m p n t"
  by (simp add: mout_def)

lemma mout_le: "\<lbrakk>mout m p k t; k \<le> n\<rbrakk> \<Longrightarrow> mout m p n t"
  by (simp add: mout_def)

lemma put_block_out: "\<lbrakk>\<not> unat (a - p) < n; length bs \<le> n\<rbrakk> \<Longrightarrow> put_block m p bs a = m a"
  by (simp add: put_block_def)

lemma chunk_bound: "unat (chunk off n tot) \<le> unat (n - tot)"
  by (simp add: chunk_def min_def word_le_nat_alt)

lemma offset_out:
  fixes a p :: u64
  assumes "\<not> unat (a - p) < n" "k \<le> n"
  shows "\<not> unat (a - (p + of_nat k)) < n - k"
proof -
  have "unat (of_nat k :: u64) \<le> unat (a - p)" using assms le_unat_uoi [of k "a - p"] by simp
  moreover from this have "unat (of_nat k :: u64) \<le> k" using unat_of_nat [where 'a = 64, of k] by simp
  moreover have "unat (a - p - of_nat k) = unat (a - p) - unat (of_nat k :: u64)"
    using calculation(1) by (intro unat_sub) (simp add: word_le_nat_alt)
  ultimately show ?thesis using assms by (simp add: diff_diff_eq)
qed

lemma readi_loop_mem:
  fixes s :: "'a ist_scheme"
  shows "okp (\<lambda>(r, t). mout (mem s) dst (unat (n - tot)) t) (readi_loop ip False dst off n tot s)"
proof (induction "unat (n - tot)" arbitrary: dst off tot s rule: less_induct)
  case less
  show ?case
  proof (cases "tot < n")
    case True
    let ?m = "mem s" and ?c = "chunk off n tot"
    have c: "unat ?c \<le> unat (n - tot)" by (rule chunk_bound)
    have step: "okp (\<lambda>(r, t). mout ?m dst (unat (n - tot)) t) (readi_loop ip False (dst + ucast ?c) (off + ?c) n (tot + ?c) t)"
      if "mem t = put_block ?m dst bs" "length bs \<le> unat ?c" for t :: "'a ist_scheme" and bs
    proof -
      have "unat (n - (tot + ?c)) = unat (n - tot) - unat ?c"
        using c by (metis diff_diff_eq unat_sub word_le_nat_alt)
      then have H: "okp (\<lambda>(r, u). mout (mem t) (dst + ucast ?c) (unat (n - tot) - unat ?c) u)
          (readi_loop ip False (dst + ucast ?c) (off + ?c) n (tot + ?c) t)"
        using less.hyps [where tot = "tot + ?c" and dst = "dst + ucast ?c" and off = "off + ?c" and s = t,
            OF chunk_decreases [OF True]] by simp
      have "mout ?m dst (unat (n - tot)) u" if "mout (mem t) (dst + ucast ?c) (unat (n - tot) - unat ?c) u"
        for u :: "'a ist_scheme"
        using that \<open>mem t = _\<close> offset_out [OF _ c, of _ dst] put_block_out [of _ dst "unat (n - tot)" bs ?m] c
          \<open>length bs \<le> _\<close> by (simp add: mout_def)
      then show ?thesis by (intro okp_mono [OF H]) auto
    qed
    let ?J = "\<lambda>t :: 'a ist_scheme. \<exists>bs. mem t = put_block ?m dst bs \<and> length bs \<le> unat ?c"
    have rel: "okp ?J (brelse b u)" if "mem u = put_block ?m dst (slice d k (unat ?c))" for b u d k
      using okpD [OF memf.mk_brelse [OF that]] by (intro okpI) (auto simp: slice_def)
    show ?thesis
      unfolding readi_loop.simps [of ip False dst off n tot s] if_P [OF True] either_copyout_def if_False Let_def
        andthen.simps prod.case
      by (rule memf.keep_bind(2) [of ?m] okp_struct okp_bind1 [where J = ?J] rel | simp add: mk | (elim exE conjE, rule step; assumption))+
  next
    case False
    then show ?thesis by (subst readi_loop.simps) simp
  qed
qed

lemma readi_mem: "okp (\<lambda>(r, t). mout (mem s) dst (unat n) t) (readi ip False dst off n s)"
proof (cases "off > i_size (itable s ip) \<or> off + n < off")
  case False
  define k where "k = (if off + n > i_size (itable s ip) then i_size (itable s ip) - off else n)"
  have "unat k \<le> unat n"
  proof (cases "off + n > i_size (itable s ip)")
    case True
    then show ?thesis using False unfolding k_def by simp unat_arith
  qed (simp add: k_def)
  then show ?thesis
    using readi_loop_mem [where tot = 0 and n = k and s = s and dst = dst and ip = ip and off = off] False unfolding readi_def k_def [symmetric] Let_def
    by (auto intro!: okp_bind2 [where J = "\<lambda>t. mout (mem s) dst (unat k) t"] intro: mout_le)
qed (simp add: readi_def)

lemma dirlookup_loop_mem:
  "mout m de 16 s \<Longrightarrow> okp (\<lambda>(r, t). mout m de 16 t) (dirlookup_loop dp name de offs s)"
proof (induction offs arbitrary: s)
  case (Cons off offs)
  have rd: "okp (\<lambda>(r, t). mout m de 16 t) (readi dp False de off 16 s)"
    using Cons.prems by (intro okp_mono [OF readi_mem]) (auto simp: mout_def)
  have ig: "okp (\<lambda>(r, t). mout m de 16 t) (iget dev n t)" if "mout m de 16 t" for dev n and t :: "'a ist_scheme"
    using that by (intro okp_mono [OF memf.mk_iget [OF refl]]) (auto simp: mout_def)
  show ?case unfolding dirlookup_loop.simps
    by (rule okp_bind2 [where J = "mout m de 16"] okp_struct | simp add: rd ig Cons.IH)+
qed simp

lemma namex_step_mem: "okp (\<lambda>(r, t). mout (mem s) de 16 t) (namex_step parent path name de ip s)"
proof -
  let ?J = "mout (mem s) de 16 :: 'a ist_scheme \<Rightarrow> bool"
  have k: "okp ?J r" if "mkeep (mem t) r" "?J t" for r and t :: "'a ist_scheme"
    using that by (intro okp_mono [OF that(1)]) (simp add: mout_def)
  have l: "okp (\<lambda>(r, t). ?J t) (dirlookup ip name de t)" if "?J t" for t :: "'a ist_scheme"
    using dirlookup_loop_mem [OF that] by (simp add: dirlookup_def)
  show ?thesis
    unfolding namex_step_def
    by (rule okp_bind1 [where J = ?J] okp_bind2 [where J = ?J] okp_struct
        | simp add: l k [OF memf.mk_ilock [OF refl]] k [OF memf.mk_iunlock [OF refl]] k [OF memf.mk_iunlockput [OF refl]])+
qed

end
