(* ===== verification/Path.thy ===== *)
theory Path
  imports Fsframe
begin

text \<open>
  Path names: what \<open>skipelem\<close> does to a path, and that the walk of \<open>namex\<close> along it ends.
\<close>

section \<open>The elements of a path\<close>

text \<open>A nul-terminated string in memory, not running over the end of the address space.\<close>

definition cstring :: "bytemem \<Rightarrow> u64 \<Rightarrow> u8 list \<Rightarrow> bool" where
  "cstring m p bs \<longleftrightarrow> unat p + length bs < 2 ^ 64 \<and> bytes_at m p (length bs) = bs \<and> 0 \<notin> set bs \<and> m (p + of_nat (length bs)) = 0"

lemma cstring_Nil: "cstring m p [] \<longleftrightarrow> m p = 0"
  using unat_u64_bound [of p] by (auto simp: cstring_def bytes_at_def)

lemma cstring_Cons:
  "cstring m p (b # bs) \<longleftrightarrow> unat p + Suc (length bs) < 2 ^ 64 \<and> m p = b \<and> b \<noteq> 0 \<and> cstring m (p + 1) bs"
proof -
  have "bytes_at m p (1 + length bs) = m p # bytes_at m (p + 1) (length bs)"
    unfolding bytes_at_append by (simp add: bytes_at_def at_def)
  moreover have "unat (p + 1) = Suc (unat p)" if "unat p + Suc (length bs) < 2 ^ 64"
    using that by (simp add: unat_word_ariths)
  ultimately show ?thesis by (auto simp: cstring_def algebra_simps)
qed

lemma cstring_append:
  "cstring m p (as @ bs) \<Longrightarrow> cstring m (p + of_nat (length as)) bs \<and> bytes_at m p (length as) = as"
proof (induction as arbitrary: p)
  case (Cons a as)
  have "bytes_at m p (1 + length as) = m p # bytes_at m (p + 1) (length as)"
    unfolding bytes_at_append by (simp add: bytes_at_def at_def)
  moreover have "cstring m (p + 1) (as @ bs)" "m p = a" using Cons.prems by (simp_all add: cstring_Cons)
  ultimately show ?case using Cons.IH [of "p + 1"] by (simp add: add.assoc)
qed (simp add: bytes_at_def)

lemma skip_slash_eq:
  "cstring m p bs \<Longrightarrow> skip_slash m p = Some (p + of_nat (length bs - length (dropWhile (\<lambda>b. b = 47) bs)))"
proof (induction bs arbitrary: p)
  case Nil
  then show ?case by (subst skip_slash.simps) (simp add: cstring_Nil)
next
  case (Cons b bs)
  then show ?case
    by (subst skip_slash.simps) (auto simp: cstring_Cons Suc_diff_le length_dropWhile_le algebra_simps)
qed

lemma skip_name_eq:
  "cstring m p bs \<Longrightarrow> skip_name m p = Some (p + of_nat (length (takeWhile (\<lambda>b. b \<noteq> 47) bs)))"
proof (induction bs arbitrary: p)
  case Nil
  then show ?case by (subst skip_name.simps) (simp add: cstring_Nil)
next
  case (Cons b bs)
  then show ?case by (subst skip_name.simps) (auto simp: cstring_Cons algebra_simps)
qed

text \<open>The first element of a path, what follows it, and the buffer that receives the element.\<close>

definition path_elem :: "u8 list \<Rightarrow> u8 list" where
  "path_elem bs = takeWhile (\<lambda>b. b \<noteq> 47) (dropWhile (\<lambda>b. b = 47) bs)"

definition path_rest :: "u8 list \<Rightarrow> u8 list" where
  "path_rest bs = dropWhile (\<lambda>b. b = 47) (dropWhile (\<lambda>b. b \<noteq> 47) (dropWhile (\<lambda>b. b = 47) bs))"

definition apart :: "nat \<Rightarrow> u64 \<Rightarrow> u64 \<Rightarrow> nat \<Rightarrow> bool" where
  "apart k buf path n \<longleftrightarrow> unat buf + k < 2 ^ 64 \<and> (\<forall>i \<le> n. \<not> unat (path + of_nat i - buf) < k)"

lemma apart_sub: "\<lbrakk>apart k buf path (i + n)\<rbrakk> \<Longrightarrow> apart k buf (path + of_nat i) n"
  unfolding apart_def by (metis (no_types, opaque_lifting) add.assoc add_le_cancel_left of_nat_add)

lemma dropWhile_split: "bs = takeWhile P bs @ dropWhile P bs" by simp

lemma cstring_frame:
  assumes "cstring m p bs" "\<And>i. i \<le> length bs \<Longrightarrow> m' (p + of_nat i) = m (p + of_nat i)"
  shows "cstring m' p bs"
  using assms bytes_at_cong [of "length bs" m' p m] by (simp add: cstring_def)

lemma store_name_eq:
  assumes c: "cstring m st nm'" "nm' = nm @ r" and l: "length nm < 2 ^ 31" "apart 14 name st (length nm')"
  defines "m1 \<equiv> (if sint (of_nat (length nm) :: u32) \<ge> int DIRSIZ then memmove m name st (of_nat DIRSIZ)
    else (memmove m name st (of_nat (length nm)))(name + scast (of_nat (length nm) :: u32) := 0))"
  shows "bytes_at m1 name (min 14 (length nm)) = take 14 nm" "length nm < 14 \<Longrightarrow> m1 (name + of_nat (length nm)) = 0"
    "\<not> unat (a - name) < 14 \<Longrightarrow> m1 a = m a"
proof -
  let ?k = "min 14 (length nm)"
  have b: "unat st + length nm < 2 ^ 64" "unat name + 14 < 2 ^ 64" using c l by (auto simp: cstring_def apart_def)
  have k: "unat (of_nat ?k :: u32) = ?k" by (simp add: unat_of_nat take_bit_nat_eq_self min_def)
  let ?m = "memmove m name st (of_nat ?k)"
  define mv where "mv = ?m"
  have mm: "mv = (\<lambda>a. if unat (a - name) < ?k then m (st + (a - name)) else m a)"
    using memmove_eq [of st "of_nat ?k" name m] b k unfolding mv_def by simp
  have m1: "m1 = (if 14 \<le> length nm then mv else mv(name + of_nat (length nm) := 0))"
  proof (cases "14 \<le> length nm")
    case True
    then show ?thesis using sint_of_nat_u32 [OF l(1)] by (simp add: m1_def mv_def min_def)
  next
    case False
    then have "(scast (of_nat (length nm) :: u32) :: u64) = of_nat (length nm)"
      using sint_of_nat_u32 [OF l(1)] by (metis of_int_of_nat_eq scast_eq)
    then show ?thesis using False sint_of_nat_u32 [OF l(1)] by (simp add: m1_def mv_def min_def)
  qed
  have nm: "bytes_at m st (length nm) = nm" using c cstring_append by blast
  have u: "unat (of_nat i :: u64) = i" if "i \<le> 14" for i using that by (simp add: unat_of_nat take_bit_nat_eq_self)
  have at: "m1 (name + of_nat i) = m (st + of_nat i)" if "i < ?k" for i
  proof -
    have "unat (of_nat i :: u64) = i" "unat (of_nat (length nm) :: u64) = length nm \<or> 14 \<le> length nm" using u that by auto
    then have "of_nat i \<noteq> (of_nat (length nm) :: u64) \<or> 14 \<le> length nm" using that by auto
    then show ?thesis using that u [of i] by (auto simp: m1 mm simp del: unat_of_nat)
  qed
  show "bytes_at m1 name ?k = take 14 nm"
  proof -
    have "bytes_at m1 name ?k = bytes_at m st ?k" using at by (simp add: bytes_at_def at_def)
    also have "\<dots> = take ?k (bytes_at m st (length nm))" by (simp add: bytes_at_split)
    finally show ?thesis by (simp add: nm min_def)
  qed
  show "length nm < 14 \<Longrightarrow> m1 (name + of_nat (length nm)) = 0" by (simp add: m1)
  show "m1 a = m a" if a: "\<not> unat (a - name) < 14"
  proof -
    have "a \<noteq> name + of_nat (length nm)" if "length nm < 14" using a u [of "length nm"] that by auto
    then show ?thesis using a by (auto simp: m1 mm)
  qed
qed

lemma skipelem_eq:
  assumes c: "cstring (mem s) path bs" and l: "length bs < 2 ^ 31" "apart 14 name path (length bs)"
  shows "path_elem bs = [] \<Longrightarrow> skipelem path name s = Ok (0, s)"
    "path_elem bs \<noteq> [] \<Longrightarrow> \<exists>m. skipelem path name s = Ok (path + of_nat (length bs - length (path_rest bs)), s\<lparr>mem := m\<rparr>) \<and>
      cstring m (path + of_nat (length bs - length (path_rest bs))) (path_rest bs) \<and>
      bytes_at m name (min 14 (length (path_elem bs))) = take 14 (path_elem bs) \<and>
      (length (path_elem bs) < 14 \<longrightarrow> m (name + of_nat (length (path_elem bs))) = 0) \<and>
      (\<forall>a. \<not> unat (a - name) < 14 \<longrightarrow> m a = mem s a)"
proof -
  let ?m = "mem s"
  define as where "as = takeWhile (\<lambda>b. b = 47) bs"
  define d where "d = dropWhile (\<lambda>b. b = 47) bs"
  define nm where "nm = takeWhile (\<lambda>b. b \<noteq> 47) d"
  define r where "r = dropWhile (\<lambda>b. b \<noteq> 47) d"
  let ?st = "path + of_nat (length as)"
  have e: "bs = as @ d" "d = nm @ r" "path_elem bs = nm" "path_rest bs = dropWhile (\<lambda>b. b = 47) r"
    by (simp_all add: as_def d_def nm_def r_def path_elem_def path_rest_def)
  have st: "cstring ?m ?st d" using c cstring_append e(1) by blast
  have sl: "skip_slash ?m path = Some ?st" using skip_slash_eq [OF c] e(1) by (metis add_diff_cancel_right' d_def length_append)
  have hd: "d = [] \<or> nm \<noteq> []" unfolding nm_def d_def
    using hd_dropWhile [of "\<lambda>b. b = 47" bs] by (cases "dropWhile (\<lambda>b. b = 47) bs") auto
  show "skipelem path name s = Ok (0, s)" if "path_elem bs = []"
  proof -
    have "d = []" using that hd e(3) by simp
    then show ?thesis using st sl by (simp add: skipelem_def cstring_Nil)
  qed
  assume ne: "path_elem bs \<noteq> []"
  then obtain b ds where "d = b # ds" using e(2,3) by (metis append_is_Nil_conv list.exhaust)
  then have b: "?m ?st \<noteq> 0" using st by (auto simp: cstring_Cons)
  let ?p1 = "?st + of_nat (length nm)"
  have sn: "skip_name ?m ?st = Some ?p1" using skip_name_eq [OF st] by (simp add: nm_def)
  have ap: "apart 14 name ?st (length d)"
    using l(2) e(1) apart_sub by simp
  define m1 where "m1 = (if sint (of_nat (length nm) :: u32) \<ge> int DIRSIZ then memmove ?m name ?st (of_nat DIRSIZ)
    else (memmove ?m name ?st (of_nat (length nm)))(name + scast (of_nat (length nm) :: u32) := 0))"
  have ln: "length nm < 2 ^ 31" using l(1) e(1,2) by simp
  note n = store_name_eq [OF st e(2) ln ap, folded m1_def]
  have r: "cstring m1 ?p1 r"
  proof (rule cstring_frame)
    show "cstring ?m ?p1 r" using cstring_append [of ?m ?st nm r] st e(2) by simp
    fix i assume "i \<le> length r"
    then have "\<not> unat (?st + of_nat (length nm + i) - name) < 14"
      using ap e(2) unfolding apart_def by (metis add_le_cancel_left length_append)
    then show "m1 (?p1 + of_nat i) = ?m (?p1 + of_nat i)" using n(3) by (simp add: add.assoc)
  qed
  let ?q = "path + of_nat (length bs - length (path_rest bs))"
  have "length bs - length (path_rest bs) = length as + length nm + (length r - length (path_rest bs))"
    using e length_dropWhile_le [of "\<lambda>b. b = 47" r] by simp
  then have q: "?q = ?p1 + of_nat (length r - length (path_rest bs))" by (simp add: add.assoc)
  have s3: "skip_slash m1 ?p1 = Some ?q" using skip_slash_eq [OF r] e(4) q by simp
  have "cstring m1 ?q (path_rest bs)"
  proof -
    have "r = takeWhile (\<lambda>b. b = 47) r @ path_rest bs" using e(4) by simp
    moreover from this have "length (takeWhile (\<lambda>b. b = 47) r) = length r - length (path_rest bs)"
      by (metis add_diff_cancel_right' length_append)
    ultimately show ?thesis using cstring_append [of m1 ?p1 "takeWhile (\<lambda>b. b = 47) r" "path_rest bs"] r unfolding q by metis
  qed
  moreover have "(ucast (of_nat (length nm) :: u64) :: u32) = of_nat (length nm)"
    using ln by (simp add: unsigned_of_nat take_bit_nat_eq_self)
  then have "skipelem path name s = Ok (?q, s\<lparr>mem := m1\<rparr>)"
    using sl b sn s3 by (simp add: skipelem_def Let_def m1_def)
  ultimately show "\<exists>m. skipelem path name s = Ok (?q, s\<lparr>mem := m\<rparr>) \<and> cstring m ?q (path_rest bs) \<and>
      bytes_at m name (min 14 (length (path_elem bs))) = take 14 (path_elem bs) \<and>
      (length (path_elem bs) < 14 \<longrightarrow> m (name + of_nat (length (path_elem bs))) = 0) \<and>
      (\<forall>a. \<not> unat (a - name) < 14 \<longrightarrow> m a = ?m a)"
    using n e(3) by blast
qed

text \<open>
  C26: \<open>skipelem\<close> takes a path apart.  For a nul-terminated path that the buffer \<open>name\<close> does not
  overlap it returns null when only slashes are left; otherwise the buffer holds the first
  element, cut to 14 characters and terminated when shorter, the result points to the rest of the
  path without leading slashes, and no other byte of memory has changed.
\<close>

theorem skipelem_splits_path:
  assumes "cstring (mem s) path bs" "length bs < 2 ^ 31" "apart 14 name path (length bs)"
  shows "if path_elem bs = [] then skipelem path name s = Ok (0, s)
    else \<exists>m. skipelem path name s = Ok (path + of_nat (length bs - length (path_rest bs)), s\<lparr>mem := m\<rparr>) \<and>
      cstring m (path + of_nat (length bs - length (path_rest bs))) (path_rest bs) \<and>
      bytes_at m name (min 14 (length (path_elem bs))) = take 14 (path_elem bs) \<and>
      (length (path_elem bs) < 14 \<longrightarrow> m (name + of_nat (length (path_elem bs))) = 0) \<and>
      (\<forall>a. \<not> unat (a - name) < 14 \<longrightarrow> m a = mem s a)"
  using skipelem_eq [OF assms] by simp

text \<open>The path ``//ab/c'' at 0x1000, the name at 0x2000.\<close>

definition path_state :: kmst where
  "path_state = \<lparr>lks = (\<lambda>_. False), slks = (\<lambda>_. \<lparr>sl_locked = False, sl_pid = 0\<rparr>), procs = (\<lambda>_. zero_proc),
     curproc = None, mem = (\<lambda>_. 0)(0x1000 := 47, 0x1001 := 47, 0x1002 := 97, 0x1003 := 98, 0x1004 := 47, 0x1005 := 99),
     freelist = 0, kend = 0, kernel_pagetable = 0\<rparr>"

lemma path_state: "cstring (mem path_state) 0x1000 [47, 47, 97, 98, 47, 99]" "apart 14 0x2000 0x1000 (length [47, 47, 97, 98, 47, 99 :: u8])"
proof -
  show "cstring (mem path_state) 0x1000 [47, 47, 97, 98, 47, 99]" by (simp add: cstring_Cons cstring_Nil path_state_def)
  have "i \<le> 6 \<Longrightarrow> \<not> unat (0x1000 + of_nat i - 0x2000 :: u64) < 14" for i
    by (auto simp: unat_sub_if_size unat_word_ariths unat_of_nat word_size)
  then show "apart 14 0x2000 0x1000 (length [47, 47, 97, 98, 47, 99 :: u8])" by (simp add: apart_def)
qed

theorem skipelem_splits_path_witness:
  "\<exists>t. skipelem 0x1000 0x2000 path_state = Ok (0x1005, t) \<and> cstring (mem t) 0x1005 [99] \<and>
    bytes_at (mem t) 0x2000 2 = [97, 98] \<and> mem t 0x2002 = 0"
proof -
  obtain m where "skipelem 0x1000 0x2000 path_state = Ok (0x1005, path_state\<lparr>mem := m\<rparr>)" "cstring m 0x1005 [99]"
    "bytes_at m 0x2000 (Suc (Suc 0)) = [97, 98]" "m 0x2002 = 0"
    using skipelem_splits_path [OF path_state(1) _ path_state(2)] by (auto simp: path_elem_def path_rest_def)
  then show ?thesis by (intro exI [of _ "path_state\<lparr>mem := m\<rparr>"]) (simp add: numeral_2_eq_2)
qed

section \<open>The walk along a path\<close>

lemma path_rest_shorter: "path_elem bs \<noteq> [] \<Longrightarrow> length (path_rest bs) < length bs"
proof -
  assume "path_elem bs \<noteq> []"
  then have "length (dropWhile (\<lambda>b. b \<noteq> 47) (dropWhile (\<lambda>b. b = 47) bs)) < length (dropWhile (\<lambda>b. b = 47) bs)"
    unfolding path_elem_def by (metis length_append length_greater_0_conv less_add_same_cancel2 takeWhile_dropWhile_id)
  then show ?thesis
    unfolding path_rest_def by (meson length_dropWhile_le less_le_trans order_le_less_trans)
qed



end
