(* ===== verification/File.thy ===== *)
theory File
  imports Console Path
begin

text \<open>
  The file table, \<open>kernel/file.c\<close>, and \<open>pipealloc\<close> of \<open>kernel/pipe.c\<close>, which builds on it.  A
  pointer to a file is its index in \<open>ftable\<close>.  Reads and writes dispatch on the file's type; those of
  pipes and devices may end asleep.  The rest of the global state of the kernel is declared here
  with it: the process counter, the first process, and the clock.
\<close>

section \<open>Structures\<close>

datatype fdtype = FD_NONE | FD_PIPE | FD_INODE | FD_DEVICE

record kfile =
  f_type :: fdtype
  f_ref :: int
  f_readable :: bool
  f_writable :: bool
  f_pipe :: u64
  f_ip :: nat
  f_off :: u32
  f_major :: u16

record kern = cst +
  ftable :: "nat \<Rightarrow> kfile"
  nextpid :: int
  initproc :: "nat option"
  ticks :: u32

definition set_file :: "nat \<Rightarrow> (kfile \<Rightarrow> kfile) \<Rightarrow> 'a kern_scheme \<Rightarrow> 'a kern_scheme" where
  "set_file f g s = s\<lparr>ftable := (ftable s)(f := g (ftable s f))\<rparr>"

section \<open>References\<close>

definition fileinit :: "'a kern_scheme \<Rightarrow> 'a kern_scheme" where
  "fileinit s = s\<lparr>lks := (lks s)(FtableLock := False)\<rparr>"

fun filealloc_loop :: "nat list \<Rightarrow> 'a kern_scheme \<Rightarrow> (nat option \<times> 'a kern_scheme) res" where
  "filealloc_loop [] s = andthen (release FtableLock s) (\<lambda>s. Ok (None, s))"
| "filealloc_loop (f # fs) s =
     (if f_ref (ftable s f) = 0 then
        andthen (release FtableLock (set_file f (\<lambda>q. q\<lparr>f_ref := 1\<rparr>) s)) (\<lambda>s. Ok (Some f, s))
      else filealloc_loop fs s)"

definition filealloc :: "'a kern_scheme \<Rightarrow> (nat option \<times> 'a kern_scheme) res" where
  "filealloc s = andthen (acquire FtableLock s) (\<lambda>s. filealloc_loop [0..<NFILE] s)"

definition filedup :: "nat \<Rightarrow> 'a kern_scheme \<Rightarrow> (nat \<times> 'a kern_scheme) res" where
  "filedup f s =
     andthen (acquire FtableLock s) (\<lambda>s.
     if f_ref (ftable s f) < 1 then Fail (Panic ''filedup'')
     else
       andthen (release FtableLock (set_file f (\<lambda>q. q\<lparr>f_ref := f_ref q + 1\<rparr>) s)) (\<lambda>s.
       Ok (f, s)))"

definition fileclose :: "nat \<Rightarrow> 'a kern_scheme \<Rightarrow> 'a kern_scheme res" where
  "fileclose f s =
     andthen (acquire FtableLock s) (\<lambda>s.
     if f_ref (ftable s f) < 1 then Fail (Panic ''fileclose'')
     else
       let s = set_file f (\<lambda>q. q\<lparr>f_ref := f_ref q - 1\<rparr>) s in
       if f_ref (ftable s f) > 0 then release FtableLock s
       else
         let ff = ftable s f in
         andthen (release FtableLock (set_file f (\<lambda>q. q\<lparr>f_ref := 0, f_type := FD_NONE\<rparr>) s)) (\<lambda>s.
         if f_type ff = FD_PIPE then pipeclose (f_pipe ff) (f_writable ff) s
         else if f_type ff = FD_INODE \<or> f_type ff = FD_DEVICE then
           andthen (begin_op s) (\<lambda>s.
           andthen (iput (f_ip ff) s) (\<lambda>s.
           end_op s))
         else Ok s))"

section \<open>Metadata\<close>

text \<open>
  The bytes of a \<open>struct stat\<close>.  Between \<open>nlink\<close> and the 8-byte aligned \<open>size\<close> the structure has
  four bytes of padding, which hold what the kernel stack held: \<open>pad\<close>.
\<close>

definition stat_bytes :: "u8 list \<Rightarrow> stat \<Rightarrow> u8 list" where
  "stat_bytes pad st = le_bytes 4 (st_dev st) @ le_bytes 4 (st_ino st) @ le_bytes 2 (st_type st) @
     le_bytes 2 (st_nlink st) @ pad @ le_bytes 8 (st_size st)"

definition filestat :: "u8 list \<Rightarrow> nat \<Rightarrow> u64 \<Rightarrow> 'a kern_scheme \<Rightarrow> (int \<times> 'a kern_scheme) res" where
  "filestat pad f addr s =
     (case myproc s of
        None \<Rightarrow> Fail Undefined
      | Some p \<Rightarrow>
          if f_type (ftable s f) = FD_INODE \<or> f_type (ftable s f) = FD_DEVICE then
            andthen (ilock (f_ip (ftable s f)) s) (\<lambda>s.
            let st = stati (f_ip (ftable s f)) s in
            andthen (iunlock (f_ip (ftable s f)) s) (\<lambda>s.
            andthen (copyout_obj (p_pagetable (procs s p)) addr (stat_bytes pad st) s) (\<lambda>(r, s).
            if r < 0 then Ok (-1, s) else Ok (0, s))))
          else Ok (-1, s))"

section \<open>Reading and writing\<close>

text \<open>A call through the device switch.\<close>

definition call_dev :: "devfn \<Rightarrow> u64 \<Rightarrow> int \<Rightarrow> 'a cst_scheme \<Rightarrow> (prun \<times> 'a cst_scheme) res" where
  "call_dev fn addr n s =
     (case fn of Consoleread \<Rightarrow> consoleread True addr n s | Consolewrite \<Rightarrow> consolewrite True addr n s)"

definition fileread :: "nat \<Rightarrow> u64 \<Rightarrow> int \<Rightarrow> 'a kern_scheme \<Rightarrow> (prun \<times> 'a kern_scheme) res" where
  "fileread f addr n s =
     (let q = ftable s f in
      if \<not> f_readable q then Ok (Returns (-1), s)
      else
        (case f_type q of
           FD_PIPE \<Rightarrow> piperead (f_pipe q) addr n s
         | FD_DEVICE \<Rightarrow>
             if sint (f_major q) < 0 \<or> sint (f_major q) \<ge> int NDEV then Ok (Returns (-1), s)
             else
               (case dv_read (devsw s (unat (f_major q))) of
                  None \<Rightarrow> Ok (Returns (-1), s)
                | Some fn \<Rightarrow> call_dev fn addr n s)
         | FD_INODE \<Rightarrow>
             andthen (ilock (f_ip q) s) (\<lambda>s.
             andthen (readi (f_ip q) True addr (f_off (ftable s f)) (of_int n) s) (\<lambda>(r, s).
             let s = (if r > 0 then set_file f (\<lambda>q. q\<lparr>f_off := f_off q + of_int r\<rparr>) s else s) in
             andthen (iunlock (f_ip q) s) (\<lambda>s.
             Ok (Returns r, s))))
         | FD_NONE \<Rightarrow> Fail (Panic ''fileread'')))"

definition max_write :: int where
  "max_write = (int MAXOPBLOCKS - 1 - 1 - 2) div 2 * int BSIZE"

lemma max_write_eq [simp]: "max_write = 3072"
  by (simp add: max_write_def)

text \<open>The transactions of a write to a file on disk: how far it came.\<close>

function filewrite_loop :: "nat \<Rightarrow> u64 \<Rightarrow> int \<Rightarrow> int \<Rightarrow> 'a kern_scheme \<Rightarrow> (int \<times> 'a kern_scheme) res" where
  "filewrite_loop f addr n i s =
     (if i < n then
        let n1 = min (n - i) max_write; ip = f_ip (ftable s f) in
        andthen (begin_op s) (\<lambda>s.
        andthen (ilock ip s) (\<lambda>s.
        andthen (writei ip True (addr + of_int i) (f_off (ftable s f)) (of_int n1) s) (\<lambda>(r, s).
        let s = (if r > 0 then set_file f (\<lambda>q. q\<lparr>f_off := f_off q + of_int r\<rparr>) s else s) in
        andthen (iunlock ip s) (\<lambda>s.
        andthen (end_op s) (\<lambda>s.
        if r \<noteq> n1 then Ok (i, s) else filewrite_loop f addr n (i + r) s)))))
      else Ok (i, s))"
  by pat_completeness auto
termination
  by (relation "measure (\<lambda>(f, addr, n, i, s). nat (n - i))") (auto simp: min_def)

declare filewrite_loop.simps [simp del]

definition filewrite :: "(int \<Rightarrow> bool) \<Rightarrow> nat \<Rightarrow> u64 \<Rightarrow> int \<Rightarrow> 'a kern_scheme \<Rightarrow> (prun \<times> 'a kern_scheme) res" where
  "filewrite K f addr n s =
     (let q = ftable s f in
      if \<not> f_writable q then Ok (Returns (-1), s)
      else
        (case f_type q of
           FD_PIPE \<Rightarrow> pipewrite K (f_pipe q) addr n s
         | FD_DEVICE \<Rightarrow>
             if sint (f_major q) < 0 \<or> sint (f_major q) \<ge> int NDEV then Ok (Returns (-1), s)
             else
               (case dv_write (devsw s (unat (f_major q))) of
                  None \<Rightarrow> Ok (Returns (-1), s)
                | Some fn \<Rightarrow> call_dev fn addr n s)
         | FD_INODE \<Rightarrow>
             andthen (filewrite_loop f addr n 0 s) (\<lambda>(i, s).
             Ok (Returns (if i = n then n else -1), s))
         | FD_NONE \<Rightarrow> Fail (Panic ''filewrite'')))"

section \<open>kernel/pipe.c: pipealloc\<close>

definition pipe_bad :: "u64 \<Rightarrow> nat option \<Rightarrow> nat option \<Rightarrow> 'a kern_scheme \<Rightarrow> ((nat \<times> nat) option \<times> 'a kern_scheme) res" where
  "pipe_bad pi f0 f1 s =
     andthen (if pi \<noteq> 0 then kfree pi s else Ok s) (\<lambda>s.
     andthen (case f0 of None \<Rightarrow> Ok s | Some f \<Rightarrow> fileclose f s) (\<lambda>s.
     andthen (case f1 of None \<Rightarrow> Ok s | Some f \<Rightarrow> fileclose f s) (\<lambda>s.
     Ok (None, s))))"

text \<open>The two files on success; the data bytes of a new pipe are whatever the page held.\<close>

definition pipealloc :: "'a kern_scheme \<Rightarrow> ((nat \<times> nat) option \<times> 'a kern_scheme) res" where
  "pipealloc s =
     andthen (filealloc s) (\<lambda>(f0, s).
     case f0 of
       None \<Rightarrow> pipe_bad 0 None None s
     | Some g0 \<Rightarrow>
         andthen (filealloc s) (\<lambda>(f1, s).
         case f1 of
           None \<Rightarrow> pipe_bad 0 f0 None s
         | Some g1 \<Rightarrow>
             andthen (kalloc s) (\<lambda>(pi, s).
             if pi = 0 then pipe_bad 0 f0 f1 s
             else
               let s = s\<lparr>lks := (lks s)(PipeLock pi := False)\<rparr>;
                   s = set_pipe pi \<lparr>pi_data = bytes_at (mem s) (pi + 24) 512, pi_nread = 0, pi_nwrite = 0,
                         pi_readopen = True, pi_writeopen = True\<rparr> s;
                   s = set_file g0 (\<lambda>q. q\<lparr>f_type := FD_PIPE, f_readable := True, f_writable := False, f_pipe := pi\<rparr>) s;
                   s = set_file g1 (\<lambda>q. q\<lparr>f_type := FD_PIPE, f_readable := False, f_writable := True, f_pipe := pi\<rparr>) s in
               Ok (Some (g0, g1), s))))"

end
