(* ===== verification/Proc.thy ===== *)
theory Proc
  imports File
begin

text \<open>
  Processes, the rest of \<open>kernel/proc.c\<close>: the process table's allocation and release, page tables
  of processes, \<open>fork\<close>, \<open>exit\<close>, \<open>wait\<close>, \<open>growproc\<close>, and the scheduler's hand-over of
  the processor.  The trapframe is a page of memory, its registers at the offsets of
  \<open>kernel/proc.h\<close>.  Addresses the linker assigns are in a record of symbols.

  \<open>sched\<close> ends where \<open>swtch\<close> leaves the process; what follows in the process is a function of its own
  (\<open>yield_resume\<close>, \<open>wait_resume\<close>), and what the scheduler does on each side of \<open>swtch\<close> is in
  \<open>scheduler_loop\<close>, whose argument \<open>run\<close> is the process from one switch to the next.
\<close>

record ksyms =
  sym_trampoline :: u64
  sym_forkret :: u64
  sym_initcode :: u64
  sym_slash :: u64

section \<open>The trapframe\<close>

definition TF_KERNEL_SATP :: u64 where [simp]: "TF_KERNEL_SATP = 0"
definition TF_KERNEL_SP :: u64 where [simp]: "TF_KERNEL_SP = 8"
definition TF_KERNEL_TRAP :: u64 where [simp]: "TF_KERNEL_TRAP = 16"
definition TF_EPC :: u64 where [simp]: "TF_EPC = 24"
definition TF_KERNEL_HARTID :: u64 where [simp]: "TF_KERNEL_HARTID = 32"
definition TF_SP :: u64 where [simp]: "TF_SP = 48"
definition TF_A0 :: u64 where [simp]: "TF_A0 = 112"
definition TF_A1 :: u64 where [simp]: "TF_A1 = 120"
definition TF_A7 :: u64 where [simp]: "TF_A7 = 168"
definition TF_SIZE :: nat where [simp]: "TF_SIZE = 288"

definition tf_set :: "nat \<Rightarrow> u64 \<Rightarrow> u64 \<Rightarrow> 'a kern_scheme \<Rightarrow> 'a kern_scheme" where
  "tf_set p reg v s = s\<lparr>mem := store64 (mem s) (p_trapframe (procs s p) + reg) v\<rparr>"

definition tf_get :: "nat \<Rightarrow> u64 \<Rightarrow> 'a kern_scheme \<Rightarrow> u64" where
  "tf_get p reg s = load64 (mem s) (p_trapframe (procs s p) + reg)"

text \<open>\<open>safestrcpy\<close> into a name of \<open>n\<close> bytes that is not in \<open>mem\<close>.\<close>

definition set_name :: "nat \<Rightarrow> u8 list \<Rightarrow> u8 list \<Rightarrow> u8 list" where
  "set_name n dst src =
     (let cs = take (n - 1) (takeWhile (\<lambda>c. c \<noteq> 0) src) in cs @ [0] @ drop (length cs + 1) dst)"

section \<open>Allocating and freeing processes\<close>

definition procinit :: "'a kern_scheme \<Rightarrow> 'a kern_scheme" where
  "procinit s =
     fold (\<lambda>p s. set_proc p (\<lambda>q. q\<lparr>p_state := UNUSED, p_kstack := KSTACK p\<rparr>) (s\<lparr>lks := (lks s)(ProcLock p := False)\<rparr>))
       [0..<NPROC] (s\<lparr>lks := (lks s)(PidLock := False, WaitLock := False)\<rparr>)"

text \<open>Counting beyond the range of \<open>int\<close> is undefined.\<close>

definition allocpid :: "'a kern_scheme \<Rightarrow> (int \<times> 'a kern_scheme) res" where
  "allocpid s =
     andthen (acquire PidLock s) (\<lambda>s.
     let pid = nextpid s in
     if pid \<ge> 2 ^ 31 - 1 then Fail Undefined
     else andthen (release PidLock (s\<lparr>nextpid := pid + 1\<rparr>)) (\<lambda>s. Ok (pid, s)))"

definition proc_pagetable :: "ksyms \<Rightarrow> nat \<Rightarrow> 'a kern_scheme \<Rightarrow> (u64 \<times> 'a kern_scheme) res" where
  "proc_pagetable sy p s =
     andthen (uvmcreate s) (\<lambda>(pt, s).
     if pt = 0 then Ok (0, s)
     else
       andthen (mappages pt TRAMPOLINE PGSIZE (sym_trampoline sy) (PTE_R OR PTE_X) s) (\<lambda>(r, s).
       if r < 0 then andthen (uvmfree pt 0 s) (\<lambda>s. Ok (0, s))
       else
         andthen (mappages pt TRAPFRAME PGSIZE (p_trapframe (procs s p)) (PTE_R OR PTE_W) s) (\<lambda>(r, s).
         if r < 0 then
           andthen (uvmunmap pt TRAMPOLINE 1 False s) (\<lambda>s.
           andthen (uvmfree pt 0 s) (\<lambda>s. Ok (0, s)))
         else Ok (pt, s))))"

definition proc_freepagetable :: "u64 \<Rightarrow> u64 \<Rightarrow> 'a kern_scheme \<Rightarrow> 'a kern_scheme res" where
  "proc_freepagetable pt sz s =
     andthen (uvmunmap pt TRAMPOLINE 1 False s) (\<lambda>s.
     andthen (uvmunmap pt TRAPFRAME 1 False s) (\<lambda>s.
     uvmfree pt sz s))"

definition freeproc :: "nat \<Rightarrow> 'a kern_scheme \<Rightarrow> 'a kern_scheme res" where
  "freeproc p s =
     andthen (if p_trapframe (procs s p) \<noteq> 0 then kfree (p_trapframe (procs s p)) s else Ok s) (\<lambda>s.
     let s = set_proc p (\<lambda>q. q\<lparr>p_trapframe := 0\<rparr>) s in
     andthen (if p_pagetable (procs s p) \<noteq> 0
              then proc_freepagetable (p_pagetable (procs s p)) (p_sz (procs s p)) s else Ok s) (\<lambda>s.
     Ok (set_proc p (\<lambda>q. q\<lparr>p_pagetable := 0, p_sz := 0, p_pid := 0, p_parent := None, p_name := (p_name q)[0 := 0],
           p_chan := ChNone, p_killed := 0, p_xstate := 0, p_state := UNUSED\<rparr>) s)))"

text \<open>From the label \<open>found\<close> of \<open>allocproc\<close>, with the lock of slot \<open>p\<close> held.\<close>

definition allocproc_found :: "ksyms \<Rightarrow> nat \<Rightarrow> 'a kern_scheme \<Rightarrow> (nat option \<times> 'a kern_scheme) res" where
  "allocproc_found sy p s =
     andthen (allocpid s) (\<lambda>(pid, s).
     let s = set_proc p (\<lambda>q. q\<lparr>p_pid := pid, p_state := USED\<rparr>) s in
     andthen (kalloc s) (\<lambda>(tf, s).
     let s = set_proc p (\<lambda>q. q\<lparr>p_trapframe := tf\<rparr>) s in
     if tf = 0 then
       andthen (freeproc p s) (\<lambda>s.
       andthen (release (ProcLock p) s) (\<lambda>s. Ok (None, s)))
     else
       andthen (proc_pagetable sy p s) (\<lambda>(pt, s).
       let s = set_proc p (\<lambda>q. q\<lparr>p_pagetable := pt\<rparr>) s in
       if pt = 0 then
         andthen (freeproc p s) (\<lambda>s.
         andthen (release (ProcLock p) s) (\<lambda>s. Ok (None, s)))
       else
         Ok (Some p, set_proc p (\<lambda>q. q\<lparr>p_context := \<lparr>c_ra = sym_forkret sy, c_sp = p_kstack q + PGSIZE,
           c_s = replicate 12 0\<rparr>\<rparr>) s))))"

fun allocproc_loop :: "ksyms \<Rightarrow> nat list \<Rightarrow> 'a kern_scheme \<Rightarrow> (nat option \<times> 'a kern_scheme) res" where
  "allocproc_loop sy [] s = Ok (None, s)"
| "allocproc_loop sy (p # ps) s =
     andthen (acquire (ProcLock p) s) (\<lambda>s.
     if p_state (procs s p) = UNUSED then allocproc_found sy p s
     else andthen (release (ProcLock p) s) (\<lambda>s. allocproc_loop sy ps s))"

definition allocproc :: "ksyms \<Rightarrow> 'a kern_scheme \<Rightarrow> (nat option \<times> 'a kern_scheme) res" where
  "allocproc sy s = allocproc_loop sy [0..<NPROC] s"

section \<open>The first process\<close>

definition initcode :: "u8 list" where
  "initcode = [
  0x17, 0x05, 0x00, 0x00, 0x13, 0x05, 0x45, 0x02,
  0x97, 0x05, 0x00, 0x00, 0x93, 0x85, 0x35, 0x02,
  0x93, 0x08, 0x70, 0x00, 0x73, 0x00, 0x00, 0x00,
  0x93, 0x08, 0x20, 0x00, 0x73, 0x00, 0x00, 0x00,
  0xef, 0xf0, 0x9f, 0xff, 0x2f, 0x69, 0x6e, 0x69,
  0x74, 0x00, 0x00, 0x24, 0x00, 0x00, 0x00, 0x00,
  0x00, 0x00, 0x00, 0x00]"

text \<open>
  A null result of \<open>allocproc\<close> is dereferenced.  \<open>nm\<close> and \<open>de\<close> are the addresses of the local
  variables of \<open>namei\<close>.
\<close>

definition userinit :: "ksyms \<Rightarrow> u64 \<Rightarrow> u64 \<Rightarrow> 'a kern_scheme \<Rightarrow> 'a kern_scheme res" where
  "userinit sy nm de s =
     andthen (allocproc sy s) (\<lambda>(np, s).
     let s = s\<lparr>initproc := np\<rparr> in
     case np of
       None \<Rightarrow> Fail Undefined
     | Some p \<Rightarrow>
         andthen (uvmfirst (p_pagetable (procs s p)) (sym_initcode sy) (of_nat (length initcode)) s) (\<lambda>s.
         let s = set_proc p (\<lambda>q. q\<lparr>p_sz := PGSIZE\<rparr>) s;
             s = tf_set p TF_EPC 0 s;
             s = tf_set p TF_SP PGSIZE s;
             s = set_proc p (\<lambda>q. q\<lparr>p_name := set_name 16 (p_name q) (cstr_of ''initcode'')\<rparr>) s in
         andthen (namei (sym_slash sy) nm de s) (\<lambda>(ip, s).
         release (ProcLock p) (set_proc p (\<lambda>q. q\<lparr>p_cwd := ip, p_state := RUNNABLE\<rparr>) s))))"

section \<open>Memory of the running process\<close>

definition growproc :: "int \<Rightarrow> 'a kern_scheme \<Rightarrow> (int \<times> 'a kern_scheme) res" where
  "growproc n s =
     (case myproc s of
        None \<Rightarrow> Fail Undefined
      | Some p \<Rightarrow>
          let sz = p_sz (procs s p); pt = p_pagetable (procs s p) in
          if n > 0 then
            andthen (uvmalloc pt sz (sz + of_int n) PTE_W s) (\<lambda>(sz, s).
            if sz = 0 then Ok (-1, s) else Ok (0, set_proc p (\<lambda>q. q\<lparr>p_sz := sz\<rparr>) s))
          else if n < 0 then
            andthen (uvmdealloc pt sz (sz + of_int n) s) (\<lambda>(sz, s).
            Ok (0, set_proc p (\<lambda>q. q\<lparr>p_sz := sz\<rparr>) s))
          else Ok (0, set_proc p (\<lambda>q. q\<lparr>p_sz := sz\<rparr>) s))"

section \<open>fork\<close>

fun fork_files :: "nat \<Rightarrow> nat \<Rightarrow> nat list \<Rightarrow> 'a kern_scheme \<Rightarrow> 'a kern_scheme res" where
  "fork_files p np [] s = Ok s"
| "fork_files p np (i # is) s =
     (case p_ofile (procs s p) ! i of
        None \<Rightarrow> fork_files p np is s
      | Some f \<Rightarrow>
          andthen (filedup f s) (\<lambda>(f, s).
          fork_files p np is (set_proc np (\<lambda>q. q\<lparr>p_ofile := (p_ofile q)[i := Some f]\<rparr>) s)))"

text \<open>\<open>fork\<close> from the sharing of the open files on.\<close>

definition fork_finish :: "nat \<Rightarrow> nat \<Rightarrow> 'a kern_scheme \<Rightarrow> (int \<times> 'a kern_scheme) res" where
  "fork_finish p np s =
     andthen (fork_files p np [0..<NOFILE] s) (\<lambda>s.
     case p_cwd (procs s p) of
       None \<Rightarrow> Fail Undefined
     | Some cwd \<Rightarrow>
         andthen (idup cwd s) (\<lambda>(ip, s).
         let s = set_proc np (\<lambda>q. q\<lparr>p_cwd := Some ip, p_name := set_name 16 (p_name q) (p_name (procs s p))\<rparr>) s;
             pid = p_pid (procs s np) in
         andthen (release (ProcLock np) s) (\<lambda>s.
         andthen (acquire WaitLock s) (\<lambda>s.
         andthen (release WaitLock (set_proc np (\<lambda>q. q\<lparr>p_parent := Some p\<rparr>) s)) (\<lambda>s.
         andthen (acquire (ProcLock np) s) (\<lambda>s.
         andthen (release (ProcLock np) (set_proc np (\<lambda>q. q\<lparr>p_state := RUNNABLE\<rparr>) s)) (\<lambda>s.
         Ok (pid, s))))))))"

definition fork :: "ksyms \<Rightarrow> 'a kern_scheme \<Rightarrow> (int \<times> 'a kern_scheme) res" where
  "fork sy s =
     (case myproc s of
        None \<Rightarrow> Fail Undefined
      | Some p \<Rightarrow>
          andthen (allocproc sy s) (\<lambda>(r, s).
          case r of
            None \<Rightarrow> Ok (-1, s)
          | Some np \<Rightarrow>
              andthen (uvmcopy (p_pagetable (procs s p)) (p_pagetable (procs s np)) (p_sz (procs s p)) s) (\<lambda>(r, s).
              if r < 0 then
                andthen (freeproc np s) (\<lambda>s.
                andthen (release (ProcLock np) s) (\<lambda>s. Ok (-1, s)))
              else
                let s = set_proc np (\<lambda>q. q\<lparr>p_sz := p_sz (procs s p)\<rparr>) s;
                    s = s\<lparr>mem := put_block (mem s) (p_trapframe (procs s np))
                          (bytes_at (mem s) (p_trapframe (procs s p)) TF_SIZE)\<rparr>;
                    s = tf_set np TF_A0 0 s in
                fork_finish p np s)))"

section \<open>The scheduler\<close>

text \<open>
  The checks of \<open>sched\<close> before it switches away; the hart's nesting depth and interrupt flag are those of
  theory Spinlock, which the caller passes.
\<close>

definition sched :: "int \<Rightarrow> bool \<Rightarrow> 'a kern_scheme \<Rightarrow> 'a kern_scheme res" where
  "sched noff intr s =
     (case myproc s of
        None \<Rightarrow> Fail Undefined
      | Some p \<Rightarrow>
          if \<not> lks s (ProcLock p) then Fail (Panic ''sched p->lock'')
          else if noff \<noteq> 1 then Fail (Panic ''sched locks'')
          else if p_state (procs s p) = RUNNING then Fail (Panic ''sched running'')
          else if intr then Fail (Panic ''sched interruptible'')
          else Ok s)"

definition yield :: "int \<Rightarrow> bool \<Rightarrow> 'a kern_scheme \<Rightarrow> 'a kern_scheme res" where
  "yield noff intr s =
     (case myproc s of
        None \<Rightarrow> Fail Undefined
      | Some p \<Rightarrow>
          andthen (acquire (ProcLock p) s) (\<lambda>s.
          sched noff intr (set_proc p (\<lambda>q. q\<lparr>p_state := RUNNABLE\<rparr>) s)))"

definition yield_resume :: "nat \<Rightarrow> 'a kern_scheme \<Rightarrow> 'a kern_scheme res" where
  "yield_resume p s = release (ProcLock p) s"

text \<open>One pass over the process table; the flag says whether a process was found to run.\<close>

fun scheduler_loop :: "(nat \<Rightarrow> 'a kern_scheme \<Rightarrow> 'a kern_scheme res) \<Rightarrow> nat list \<Rightarrow> bool \<Rightarrow> 'a kern_scheme
    \<Rightarrow> (bool \<times> 'a kern_scheme) res" where
  "scheduler_loop run [] found s = Ok (found, s)"
| "scheduler_loop run (p # ps) found s =
     andthen (acquire (ProcLock p) s) (\<lambda>s.
     if p_state (procs s p) = RUNNABLE then
       andthen (run p ((set_proc p (\<lambda>q. q\<lparr>p_state := RUNNING\<rparr>) s)\<lparr>curproc := Some p\<rparr>)) (\<lambda>s.
       andthen (release (ProcLock p) (s\<lparr>curproc := None\<rparr>)) (\<lambda>s.
       scheduler_loop run ps True s))
     else andthen (release (ProcLock p) s) (\<lambda>s. scheduler_loop run ps found s))"

definition scheduler_pass :: "(nat \<Rightarrow> 'a kern_scheme \<Rightarrow> 'a kern_scheme res) \<Rightarrow> 'a kern_scheme \<Rightarrow> (bool \<times> 'a kern_scheme) res" where
  "scheduler_pass run s = scheduler_loop run [0..<NPROC] False s"

text \<open>\<open>forkret\<close> up to its call of \<open>usertrapret\<close>; \<open>first\<close> is its static variable.\<close>

definition forkret :: "bool \<Rightarrow> 'a kern_scheme \<Rightarrow> (bool \<times> 'a kern_scheme) res" where
  "forkret first s =
     (case myproc s of
        None \<Rightarrow> Fail Undefined
      | Some p \<Rightarrow>
          andthen (release (ProcLock p) s) (\<lambda>s.
          if first then andthen (fsinit ROOTDEV s) (\<lambda>s. Ok (False, s)) else Ok (first, s)))"

section \<open>exit and wait\<close>

definition chan_of :: "nat option \<Rightarrow> chan" where
  "chan_of p = (case p of None \<Rightarrow> ChNone | Some i \<Rightarrow> ChProc i)"

fun reparent_loop :: "nat \<Rightarrow> nat list \<Rightarrow> 'a kern_scheme \<Rightarrow> 'a kern_scheme res" where
  "reparent_loop p [] s = Ok s"
| "reparent_loop p (pp # ps) s =
     (if p_parent (procs s pp) = Some p then
        andthen (wakeup (chan_of (initproc s)) (set_proc pp (\<lambda>q. q\<lparr>p_parent := initproc s\<rparr>) s)) (\<lambda>s.
        reparent_loop p ps s)
      else reparent_loop p ps s)"

definition reparent :: "nat \<Rightarrow> 'a kern_scheme \<Rightarrow> 'a kern_scheme res" where
  "reparent p s = reparent_loop p [0..<NPROC] s"

fun exit_files :: "nat \<Rightarrow> nat list \<Rightarrow> 'a kern_scheme \<Rightarrow> 'a kern_scheme res" where
  "exit_files p [] s = Ok s"
| "exit_files p (fd # fds) s =
     (case p_ofile (procs s p) ! fd of
        None \<Rightarrow> exit_files p fds s
      | Some f \<Rightarrow>
          andthen (fileclose f s) (\<lambda>s.
          exit_files p fds (set_proc p (\<lambda>q. q\<lparr>p_ofile := (p_ofile q)[fd := None]\<rparr>) s)))"

text \<open>
  \<open>exit\<close> up to the switch it does not come back from; the scheduler then releases the process lock.
\<close>

definition exit_finish :: "nat \<Rightarrow> int \<Rightarrow> int \<Rightarrow> bool \<Rightarrow> 'a kern_scheme \<Rightarrow> 'a kern_scheme res" where
  "exit_finish p status noff intr s =
     andthen (begin_op s) (\<lambda>s.
     case p_cwd (procs s p) of
       None \<Rightarrow> Fail Undefined
     | Some cwd \<Rightarrow>
         andthen (iput cwd s) (\<lambda>s.
         andthen (end_op s) (\<lambda>s.
         andthen (acquire WaitLock (set_proc p (\<lambda>q. q\<lparr>p_cwd := None\<rparr>) s)) (\<lambda>s.
         andthen (reparent p s) (\<lambda>s.
         andthen (wakeup (chan_of (p_parent (procs s p))) s) (\<lambda>s.
         andthen (acquire (ProcLock p) s) (\<lambda>s.
         andthen (release WaitLock (set_proc p (\<lambda>q. q\<lparr>p_xstate := status, p_state := ZOMBIE\<rparr>) s)) (\<lambda>s.
         sched noff intr s))))))))"

definition exit :: "int \<Rightarrow> int \<Rightarrow> bool \<Rightarrow> 'a kern_scheme \<Rightarrow> 'a kern_scheme res" where
  "exit status noff intr s =
     (case myproc s of
        None \<Rightarrow> Fail Undefined
      | Some p \<Rightarrow>
          if Some p = initproc s then Fail (Panic ''init exiting'')
          else
            andthen (exit_files p [0..<NOFILE] s) (\<lambda>s.
            exit_finish p status noff intr s))"

text \<open>
  The scan for an exited child: it has returned (\<open>Inl\<close>, with both locks released), or says whether
  there are children.
\<close>

fun wait_scan :: "nat \<Rightarrow> u64 \<Rightarrow> nat list \<Rightarrow> bool \<Rightarrow> 'a kern_scheme \<Rightarrow> ((int + bool) \<times> 'a kern_scheme) res" where
  "wait_scan p addr [] havekids s = Ok (Inr havekids, s)"
| "wait_scan p addr (pp # ps) havekids s =
     (if p_parent (procs s pp) = Some p then
        andthen (acquire (ProcLock pp) s) (\<lambda>s.
        if p_state (procs s pp) = ZOMBIE then
          let pid = p_pid (procs s pp) in
          andthen (if addr \<noteq> 0
                   then copyout_obj (p_pagetable (procs s p)) addr (le_bytes 4 (of_int (p_xstate (procs s pp)) :: u32)) s
                   else Ok (0, s)) (\<lambda>(r, s).
          if r < 0 then
            andthen (release (ProcLock pp) s) (\<lambda>s.
            andthen (release WaitLock s) (\<lambda>s. Ok (Inl (-1), s)))
          else
            andthen (freeproc pp s) (\<lambda>s.
            andthen (release (ProcLock pp) s) (\<lambda>s.
            andthen (release WaitLock s) (\<lambda>s. Ok (Inl pid, s)))))
        else andthen (release (ProcLock pp) s) (\<lambda>s. wait_scan p addr ps True s))
      else wait_scan p addr ps havekids s)"

definition wait_turn :: "nat \<Rightarrow> u64 \<Rightarrow> 'a kern_scheme \<Rightarrow> (prun \<times> 'a kern_scheme) res" where
  "wait_turn p addr s =
     andthen (wait_scan p addr [0..<NPROC] False s) (\<lambda>(r, s).
     case r of
       Inl pid \<Rightarrow> Ok (Returns pid, s)
     | Inr havekids \<Rightarrow>
         andthen (if \<not> havekids then Ok (True, s) else andthen (killed p s) (\<lambda>(k, s). Ok (k \<noteq> 0, s))) (\<lambda>(stop, s).
         if stop then andthen (release WaitLock s) (\<lambda>s. Ok (Returns (-1), s))
         else andthen (sleep_enter (ChProc p) WaitLock s) (\<lambda>s. Ok (Sleeps 0, s))))"

definition wait :: "u64 \<Rightarrow> 'a kern_scheme \<Rightarrow> (prun \<times> 'a kern_scheme) res" where
  "wait addr s =
     (case myproc s of
        None \<Rightarrow> Fail Undefined
      | Some p \<Rightarrow> andthen (acquire WaitLock s) (\<lambda>s. wait_turn p addr s))"

definition wait_resume :: "nat \<Rightarrow> u64 \<Rightarrow> 'a kern_scheme \<Rightarrow> (prun \<times> 'a kern_scheme) res" where
  "wait_resume p addr s = andthen (sleep_exit p WaitLock s) (\<lambda>s. wait_turn p addr s)"

end
