(* ===== verification/Addrspace.thy ===== *)
theory Addrspace
  imports Proc Vmframe
begin

text \<open>
  Address spaces of processes: what \<open>proc_pagetable\<close> builds, and that \<open>uvmcopy\<close> gives the child of
  a \<open>fork\<close> its own copy of its parent's memory.
\<close>

section \<open>A page at a time\<close>

lemma mappages_one:
  assumes t: "table_inv s 2 pt ps" and a: "page_aligned a" "a < MAXVA" and free: "leafv (mem s) 2 pt a AND 1 = 0"
    and room: "2 \<le> length ps"
  shows "\<exists>t qs rest. mappages pt a PGSIZE pa perm s = Ok (0, t) \<and> maps pt a 1 pa perm s ps t rest \<and>
    ps = qs @ rest \<and> length qs \<le> 2"
proof -
  obtain r t qs rest where w: "walk pt a True s = Ok (r, t)" "grows 2 pt qs s ps t rest" "length qs \<le> 2"
    "r = 0 \<and> rest = [] \<and> length qs < 2 \<or> r \<noteq> 0 \<and> r = lookup (mem t) 2 pt a \<and> load64 (mem t) r = leafv (mem s) 2 pt a"
    using walk_alloc [OF t a(2)] by blast
  have ps: "ps = qs @ rest" by (rule growsD(1) [OF w(2)])
  then have r: "r \<noteq> 0" "r = lookup (mem t) 2 pt a" "load64 (mem t) r = leafv (mem s) 2 pt a" using w(4) room by auto
  let ?u = "t\<lparr>mem := store64 (mem t) r (PA2PTE pa OR perm OR 1)\<rparr>"
  have "mappages_loop pt a a pa perm s = Ok (0, ?u)"
    using w(1) r free by (subst mappages_loop.simps) simp
  then have "mappages pt a PGSIZE pa perm s = Ok (0, ?u)"
    using a(1) by (simp add: mappages_def page_aligned_mod)
  moreover have "maps pt a 1 pa perm s ps ?u rest"
    using maps_one [OF w(2) _ a(2,1)] r by simp
  ultimately show ?thesis using ps w(3) by blast
qed

lemma uvmcreate_ok:
  assumes "kmem_inv s (p # ps)"
  shows "\<exists>t. uvmcreate s = Ok (p, t) \<and> p \<noteq> 0 \<and> table_inv t 2 p ps \<and> (\<forall>va. leafv (mem t) 2 p va = 0) \<and>
    ptset (mem t) 2 p = {p} \<and> mem_only s t \<and> (\<forall>a. page_of a \<noteq> p \<longrightarrow> mem t a = mem s a)"
proof -
  obtain u where u: "kalloc s = Ok (p, u)" "kmem_inv u ps" "p \<noteq> 0" "kpage s p"
    "u = s\<lparr>freelist := load64 (mem s) p, mem := fill_page (mem s) p 5\<rparr>"
    using kalloc_pop [OF assms] by blast
  have al: "page_aligned p" using u(4) by (simp add: kpage_def)
  have nin: "p \<notin> set ps" using assms by (auto simp: kmem_inv_def)
  let ?t = "u\<lparr>mem := fill_page (mem u) p 0\<rparr>"
  have run: "uvmcreate s = Ok (p, ?t)" using u(1,3) al by (simp add: uvmcreate_def memset_page)
  have inv: "kmem_inv ?t ps" by (rule kmem_inv_frame [OF u(2)]) (use nin in \<open>auto simp: fill_page_def\<close>)
  have z: "\<And>a. page_of a = p \<Longrightarrow> mem ?t a = 0" by (simp add: fill_page_def)
  have e: "table_inv ?t 2 p ps" "\<And>va. leafv (mem ?t) 2 p va = 0" "ptset (mem ?t) 2 p = {p}"
    by (rule table_inv_empty [OF inv al u(3) nin], erule z)+ (rule ptable_zero_page(1) [OF al], erule z)
  have "mem_only s ?t" "\<forall>a. page_of a \<noteq> p \<longrightarrow> mem ?t a = mem s a" using u(5) by (simp_all add: fill_page_def)
  then show ?thesis using run u(3) e by blast
qed

section \<open>proc_pagetable\<close>

text \<open>Where the two supervisor pages of a user address space are.\<close>

definition proc_map :: "u64 \<Rightarrow> u64 \<Rightarrow> u64 \<Rightarrow> u64" where
  "proc_map tramp tf va =
     (if page_of va = TRAMPOLINE then PA2PTE tramp OR (PTE_R OR PTE_X) OR 1
      else if page_of va = TRAPFRAME then PA2PTE tf OR (PTE_R OR PTE_W) OR 1 else 0)"

lemma map_range_page:
  assumes "page_aligned a" "unat a + 4096 \<le> 2 ^ 63"
  shows "map_range a 1 pa perm f va = (if page_of va = a then PA2PTE pa OR perm OR 1 else f va)"
  using map_range_Suc [OF assms, of 0 pa perm f va] by simp

lemma maps_page:
  assumes "maps pt a 1 pa perm s ps t rest" "page_aligned a" "unat a + 4096 \<le> 2 ^ 63" "va < MAXVA"
  shows "leafv (mem t) 2 pt va = (if page_of va = a then PA2PTE pa OR perm OR 1 else leafv (mem s) 2 pt va)"
  using assms(1,4) map_range_page [OF assms(2,3), of pa perm "leafv (mem s) 2 pt" va] unfolding maps_def by metis

lemma proc_pagetable_ok:
  fixes s :: "'a kern_scheme"
  assumes inv: "kmem_inv s ps" and room: "5 \<le> length ps"
  shows "\<exists>pt t qs rest. proc_pagetable sy p s = Ok (pt, t) \<and> pt \<noteq> 0 \<and> ps = qs @ rest \<and> length qs \<le> 5 \<and>
    table_inv t 2 pt rest \<and> ptset (mem t) 2 pt = set qs \<and> mem_only s t \<and>
    (\<forall>a. page_of a \<notin> set qs \<longrightarrow> mem t a = mem s a) \<and>
    (\<forall>va < MAXVA. leafv (mem t) 2 pt va = proc_map (sym_trampoline sy) (p_trapframe (procs s p)) va)"
proof -
  obtain pt ps' where ps: "ps = pt # ps'" using room by (cases ps) auto
  obtain s1 :: "'a kern_scheme" where s1: "uvmcreate s = Ok (pt, s1)" "pt \<noteq> 0" "table_inv s1 2 pt ps'"
    "\<forall>va. leafv (mem s1) 2 pt va = 0" "ptset (mem s1) 2 pt = {pt}" "mem_only s s1"
    "\<forall>a. page_of a \<noteq> pt \<longrightarrow> mem s1 a = mem s a"
    using uvmcreate_ok [of s pt ps'] inv ps by blast
  have al: "page_aligned TRAMPOLINE" "page_aligned TRAPFRAME" by (simp_all add: page_aligned_mod)
  obtain s2 :: "'a kern_scheme" and q2 r2 where s2:
    "mappages pt TRAMPOLINE PGSIZE (sym_trampoline sy) (PTE_R OR PTE_X) s1 = Ok (0, s2)"
    "maps pt TRAMPOLINE 1 (sym_trampoline sy) (PTE_R OR PTE_X) s1 ps' s2 r2" "ps' = q2 @ r2" "length q2 \<le> 2"
    using mappages_one [OF s1(3) al(1), of "sym_trampoline sy" "PTE_R OR PTE_X"] s1(4) room ps by auto
  have l2: "leafv (mem s2) 2 pt va = (if page_of va = TRAMPOLINE then PA2PTE (sym_trampoline sy) OR (PTE_R OR PTE_X) OR 1 else 0)"
    if "va < MAXVA" for va
    using maps_page [OF s2(2) al(1) _ that] s1(4) by simp
  have "TRAPFRAME < MAXVA" by simp
  moreover have "page_of TRAPFRAME \<noteq> TRAMPOLINE" using al(2) unfolding page_aligned_iff by simp
  ultimately have free: "leafv (mem s2) 2 pt TRAPFRAME AND 1 = 0" using l2 [of TRAPFRAME] by (simp del: TRAPFRAME_eq TRAMPOLINE_eq)
  have t2: "table_inv s2 2 pt r2" using s2(2) by (simp add: maps_def)
  have tf: "p_trapframe (procs s2 p) = p_trapframe (procs s p)"
    using mem_onlyD(3) [OF s1(6)] s2(2) mem_onlyD(3) unfolding maps_def by metis
  obtain s3 :: "'a kern_scheme" and q3 r3 where s3:
    "mappages pt TRAPFRAME PGSIZE (p_trapframe (procs s p)) (PTE_R OR PTE_W) s2 = Ok (0, s3)"
    "maps pt TRAPFRAME 1 (p_trapframe (procs s p)) (PTE_R OR PTE_W) s2 r2 s3 r3" "r2 = q3 @ r3" "length q3 \<le> 2"
    using mappages_one [OF t2 al(2) _ free, of "p_trapframe (procs s p)" "PTE_R OR PTE_W"] s2(3,4) room ps by auto
  have run: "proc_pagetable sy p s = Ok (pt, s3)"
    unfolding proc_pagetable_def using s1(1,2) s2(1) s3(1) by (simp only: andthen.simps prod.case if_False tf) simp
  let ?qs = "pt # q2 @ q3"
  have pset: "ptset (mem s2) 2 pt = {pt} \<union> set q2" "ptset (mem s3) 2 pt = set ?qs"
    using s2(2,3) s3(2,3) s1(5) unfolding maps_def by auto
  have out: "mem s3 a = mem s a" if "page_of a \<notin> set ?qs" for a
    using that s1(7) s2(2) s3(2) pset unfolding maps_def by auto
  have "leafv (mem s3) 2 pt va = proc_map (sym_trampoline sy) (p_trapframe (procs s p)) va" if "va < MAXVA" for va
    using maps_page [OF s3(2) al(2) _ that] l2 [OF that] unfolding proc_map_def by auto
  moreover have "mem_only s s3" using s1(6) s2(2) s3(2) mem_only_trans unfolding maps_def by blast
  moreover have "table_inv s3 2 pt r3" using s3(2) by (simp add: maps_def)
  moreover have "ps = ?qs @ r3" "length ?qs \<le> 5" using ps s2(3,4) s3(3,4) by simp_all
  ultimately show ?thesis using run s1(2) pset(2) out by blast
qed

section \<open>uvmcopy\<close>

text \<open>
  A leaf entry \<open>uvmcopy\<close> can copy from: valid, and to a page of memory outside \<open>X\<close>, the pages that
  the copy takes or writes.
\<close>

definition source_page :: "bytemem \<Rightarrow> u64 \<Rightarrow> u64 set \<Rightarrow> u64 \<Rightarrow> bool" where
  "source_page m pt X a \<longleftrightarrow> leafv m 2 pt a AND 1 \<noteq> 0 \<and> PTE2PA (leafv m 2 pt a) \<notin> insert 0 X \<and>
     unat (PTE2PA (leafv m 2 pt a)) + 4096 < 2 ^ 64"

text \<open>
  The user pages \<open>A\<close> of \<open>old\<close> are copied into \<open>new\<close>: each has a page \<open>f a\<close> of its own among the pages
  \<open>qs\<close> taken from the free list, with the same permissions and the same contents, and nothing but
  \<open>new\<close> and \<open>qs\<close> changes.
\<close>

definition copied :: "u64 \<Rightarrow> u64 \<Rightarrow> u64 set \<Rightarrow> (u64 \<Rightarrow> u64) \<Rightarrow> u64 list \<Rightarrow> 'a kmst_scheme \<Rightarrow> 'a kmst_scheme \<Rightarrow> bool" where
  "copied old new A f qs s t \<longleftrightarrow>
     (\<forall>va < MAXVA. leafv (mem t) 2 new va =
        (if page_of va \<in> A then PA2PTE (f (page_of va)) OR PTE_FLAGS (leafv (mem s) 2 old (page_of va))
         else leafv (mem s) 2 new va)) \<and>
     (\<forall>a \<in> A. page_aligned (f a) \<and> f a \<in> set qs - ptset (mem t) 2 new \<and>
        (\<forall>x. page_of x = f a \<longrightarrow> mem t x = mem s (PTE2PA (leafv (mem s) 2 old a) + (x - f a)))) \<and>
     inj_on f A \<and> ptset (mem t) 2 new \<subseteq> ptset (mem s) 2 new \<union> set qs \<and>
     (\<forall>x. page_of x \<notin> ptset (mem s) 2 new \<union> set qs \<longrightarrow> mem t x = mem s x) \<and> mem_only s t"

lemma copied_none: "copied old new {} f [] s s"
  by (simp add: copied_def)

lemma copied_old:
  assumes "copied old new A f qs s t" "ptree (mem s) 2 old" "ptset (mem s) 2 old \<inter> (ptset (mem s) 2 new \<union> set qs) = {}"
  shows "ptset (mem t) 2 old = ptset (mem s) 2 old" "ptree (mem t) 2 old" "leafv (mem t) 2 old va = leafv (mem s) 2 old va"
proof -
  have "mem t x = mem s x" if "page_of x \<in> ptset (mem s) 2 old" for x
    using assms(1,3) that unfolding copied_def by blast
  note l = ptable_frame [OF assms(2) this]
  show "ptset (mem t) 2 old = ptset (mem s) 2 old" "ptree (mem t) 2 old" "leafv (mem t) 2 old va = leafv (mem s) 2 old va"
    using l by blast+
qed

lemma page_of_offset: "\<lbrakk>page_aligned p; page_of x = q; page_aligned q\<rbrakk> \<Longrightarrow> page_of (p + (x - q)) = p"
  using page_offset [of q x] page_of_add [of p "unat (x - q)"] by simp

lemma copied_trans:
  assumes s: "copied old new A f qs s t" and t: "copied old new B g qs' t u" and d: "A \<inter> B = {}" "distinct (qs @ qs')"
    and old: "ptree (mem s) 2 old" "ptset (mem s) 2 old \<inter> (ptset (mem s) 2 new \<union> set qs) = {}"
    and B: "\<And>b. b \<in> B \<Longrightarrow> source_page (mem s) old (ptset (mem s) 2 new \<union> set qs) b"
  shows "copied old new (A \<union> B) (\<lambda>a. if a \<in> A then f a else g a) (qs @ qs') s u"
proof -
  note S = s [unfolded copied_def] and T = t [unfolded copied_def]
  note o = copied_old(3) [OF s old]
  have notin: "f a \<notin> ptset (mem t) 2 new \<union> set qs'" if "a \<in> A" for a
  proof -
    have "f a \<in> set qs - ptset (mem t) 2 new" using S that by blast
    then show ?thesis using d(2) by auto
  qed
  have leaf: "leafv (mem u) 2 new va = (if page_of va \<in> A \<union> B then
      PA2PTE (if page_of va \<in> A then f (page_of va) else g (page_of va)) OR PTE_FLAGS (leafv (mem s) 2 old (page_of va))
      else leafv (mem s) 2 new va)" if "va < MAXVA" for va
    using S T that d(1) o by (auto simp del: MAXVA_eq)
  have fa: "page_aligned (f a)" "f a \<in> set (qs @ qs') - ptset (mem u) 2 new"
    "page_of x = f a \<Longrightarrow> mem u x = mem s (PTE2PA (leafv (mem s) 2 old a) + (x - f a))" if "a \<in> A" for a x
    using S T notin [OF that] that by auto
  have ga: "page_aligned (g b)" "g b \<in> set (qs @ qs') - ptset (mem u) 2 new"
    "page_of x = g b \<Longrightarrow> mem u x = mem s (PTE2PA (leafv (mem s) 2 old b) + (x - g b))" if "b \<in> B" for b x
  proof -
    have g: "page_aligned (g b)" "g b \<in> set qs' - ptset (mem u) 2 new" using T that by auto
    then show "page_aligned (g b)" "g b \<in> set (qs @ qs') - ptset (mem u) 2 new" by auto
    assume x: "page_of x = g b"
    let ?y = "PTE2PA (leafv (mem s) 2 old b) + (x - g b)"
    have "page_of ?y = PTE2PA (leafv (mem s) 2 old b)" using page_of_offset [OF _ x g(1)] by simp
    then have "mem t ?y = mem s ?y" using S B [OF that] unfolding source_page_def by auto
    then show "mem u x = mem s ?y" using T that x o by auto
  qed
  have "inj_on (\<lambda>a. if a \<in> A then f a else g a) (A \<union> B)"
  proof (rule inj_on_disjoint_Un)
    show "inj_on f A" "inj_on g B" using S T by blast+
    have "f a \<noteq> g b" if "a \<in> A" "b \<in> B" for a b
    proof -
      have "f a \<in> set qs" "g b \<in> set qs'" using S T that by blast+
      then show ?thesis using d(2) by auto
    qed
    then show "f ` A \<inter> g ` B = {}" by blast
  qed
  moreover have "ptset (mem u) 2 new \<subseteq> ptset (mem s) 2 new \<union> set (qs @ qs')" using S T by auto
  moreover have "mem u x = mem s x" if "page_of x \<notin> ptset (mem s) 2 new \<union> set (qs @ qs')" for x
    using S T that by auto
  moreover have "mem_only s u" using S T mem_only_trans by blast
  moreover have "page_aligned (h a) \<and> h a \<in> set (qs @ qs') - ptset (mem u) 2 new \<and>
      (\<forall>x. page_of x = h a \<longrightarrow> mem u x = mem s (PTE2PA (leafv (mem s) 2 old a) + (x - h a)))"
    if "a \<in> A \<union> B" "h = (\<lambda>a. if a \<in> A then f a else g a)" for a h
    using that fa ga by (cases "a \<in> A") simp_all
  ultimately show ?thesis
    unfolding copied_def using leaf by blast
qed

lemma memmove_page:
  assumes "page_aligned q" "page_aligned p" "unat p + 4096 < 2 ^ 64" "unat q + 4096 < 2 ^ 64"
  shows "memmove m q p 4096 a = (if page_of a = q then m (p + (a - q)) else m a)"
  using memmove_eq [of p 4096 q m] assms page_offset [of q a] by simp

lemma PTE_FLAGS_valid:
  assumes "v AND 1 \<noteq> (0 :: u64)"
  shows "PTE_FLAGS v OR 1 = PTE_FLAGS v" "PTE_FLAGS v < 1024" "PTE_FLAGS v AND 1 \<noteq> 0"
proof -
  have m: "(0x3FF :: u64) = mask 10" by (simp add: mask_eq_exp_minus_1)
  have b: "bit v 0" using assms by (simp add: and_1_bit)
  show "PTE_FLAGS v OR 1 = PTE_FLAGS v"
    unfolding PTE_FLAGS_def m by (rule bit_word_eqI) (use b in \<open>auto simp: bit_simps bit_1_iff\<close>)
  show "PTE_FLAGS v < 1024"
    unfolding PTE_FLAGS_def m take_bit_eq_mask [symmetric] word_less_nat_alt
    by (simp add: unsigned_take_bit_eq take_bit_nat_less_exp [of 10, simplified])
  show "PTE_FLAGS v AND 1 \<noteq> 0" unfolding and_1_bit PTE_FLAGS_def m using b by (simp add: bit_simps)
qed

lemma copy_page_ok:
  fixes s :: "'a kmst_scheme"
  assumes t: "table_inv s 2 new (q # ps)" and room: "2 \<le> length ps" and a: "page_aligned a" "a < MAXVA"
    and free: "leafv (mem s) 2 new a AND 1 = 0"
    and src: "source_page (mem s) old (ptset (mem s) 2 new \<union> set (q # ps)) a"
  shows "\<exists>u v qs rest. kalloc s = Ok (q, u) \<and> q \<noteq> 0 \<and> mem_only s u \<and>
    mappages new a PGSIZE q (PTE_FLAGS (leafv (mem s) 2 old a))
      (u\<lparr>mem := memmove (mem u) q (PTE2PA (leafv (mem s) 2 old a)) 4096\<rparr>) = Ok (0, v) \<and>
    table_inv v 2 new rest \<and> ps = qs @ rest \<and> length qs \<le> 2 \<and> copied old new {a} (\<lambda>_. q) (q # qs) s v"
proof -
  let ?l = "leafv (mem s) 2 old a"
  have inv: "kmem_inv s (q # ps)" and wf: "ptree (mem s) 2 new" "0 \<notin> ptset (mem s) 2 new"
    and d: "q \<notin> ptset (mem s) 2 new" "set ps \<inter> ptset (mem s) 2 new = {}" "q \<notin> set ps"
    using t by (auto simp: table_inv_def kmem_inv_def)
  obtain u :: "'a kmst_scheme" where u: "kalloc s = Ok (q, u)" "kmem_inv u ps" "q \<noteq> 0" "kpage s q"
    "u = s\<lparr>freelist := load64 (mem s) q, mem := fill_page (mem s) q 5\<rparr>"
    using kalloc_pop [OF inv] by blast
  have q: "page_aligned q" "unat q + 4096 < 2 ^ 64" using u(4) by (auto simp: kpage_def word_less_nat_alt)
  let ?w = "u\<lparr>mem := memmove (mem u) q (PTE2PA ?l) 4096\<rparr>"
  have mw: "mem ?w x = (if page_of x = q then mem s (PTE2PA ?l + (x - q)) else mem s x)" for x
    using memmove_page [OF q(1) _ _ q(2), of "PTE2PA ?l" "mem u" x] src u(5) page_of_offset [OF _ _ q(1), of "PTE2PA ?l" x]
    by (simp add: source_page_def fill_page_def)
  have "kmem_inv ?w ps"
    by (rule kmem_inv_frame [OF u(2)]) (use mw u(5) d(3) in \<open>auto simp: fill_page_def\<close>)
  moreover have fr: "ptset (mem ?w) 2 new = ptset (mem s) 2 new" "ptree (mem ?w) 2 new"
      "leafv (mem ?w) 2 new va = leafv (mem s) 2 new va" for va
  proof -
    have "mem ?w x = mem s x" if "page_of x \<in> ptset (mem s) 2 new" for x using mw [of x] d(1) that by auto
    from ptable_frame [OF wf(1) this]
    show "ptset (mem ?w) 2 new = ptset (mem s) 2 new" "ptree (mem ?w) 2 new"
      "leafv (mem ?w) 2 new va = leafv (mem s) 2 new va" by blast+
  qed
  ultimately have tw: "table_inv ?w 2 new ps" using wf d(2) by (simp only: table_inv_def fr) simp
  obtain v :: "'a kmst_scheme" and qs rest where v: "mappages new a PGSIZE q (PTE_FLAGS ?l) ?w = Ok (0, v)"
    "maps new a 1 q (PTE_FLAGS ?l) ?w ps v rest" "ps = qs @ rest" "length qs \<le> 2"
    using mappages_one [OF tw a _ room, of q "PTE_FLAGS ?l"] free fr(3) by auto
  have V: "table_inv v 2 new rest" "mem_only ?w v" "ptset (mem v) 2 new = ptset (mem s) 2 new \<union> set qs"
    "\<And>x. page_of x \<notin> ptset (mem v) 2 new \<Longrightarrow> mem v x = mem ?w x"
    using v(2,3) fr(1) unfolding maps_def by auto
  have "unat a + 4096 \<le> 2 ^ 63" using a(2) by (simp add: word_less_nat_alt)
  then have leaf: "leafv (mem v) 2 new va = (if page_of va = a then PA2PTE q OR PTE_FLAGS ?l else leafv (mem s) 2 new va)"
    if "va < MAXVA" for va
    using maps_page [OF v(2) a(1) _ that] fr(3) src PTE_FLAGS_valid(1) [of ?l] by (simp add: source_page_def)
  have qv: "q \<notin> ptset (mem v) 2 new" using V(3) v(3) d(1,3) by auto
  have so: "mem_only s u" "mem_only s v" using u(5) mem_only_trans [OF _ V(2), of s] by simp_all
  have "copied old new {a} (\<lambda>_. q) (q # qs) s v"
    unfolding copied_def using leaf q(1) qv V(3,4) mw so(2) by (auto simp del: MAXVA_eq)
  then show ?thesis using u(1,3) so(1) v(1,3,4) V(1) by blast
qed

text \<open>The page addresses from \<open>i\<close> below \<open>sz\<close>.\<close>

definition pages_from :: "u64 \<Rightarrow> u64 \<Rightarrow> u64 set" where
  "pages_from i sz = {a. page_aligned a \<and> i \<le> a \<and> a < sz}"

lemma pages_from_step:
  assumes "page_aligned i" "i < sz" "sz \<le> MAXVA"
  shows "pages_from i sz = insert i (pages_from (i + 4096) sz)" "i \<notin> pages_from (i + 4096) sz" "unat (i + 4096) = unat i + 4096"
proof -
  have b: "unat i < unat sz" "unat sz \<le> 0x4000000000" using assms(2,3) by (simp_all add: word_less_nat_alt word_le_nat_alt)
  then show u: "unat (i + 4096) = unat i + 4096" by (simp add: unat_word_ariths)
  have "i + 4096 \<le> a \<longleftrightarrow> i \<le> a \<and> a \<noteq> i" if al: "page_aligned a" for a
  proof -
    obtain j where j: "unat i = 4096 * j" using assms(1) unfolding page_aligned_unat by (rule dvdE)
    obtain k where k: "unat a = 4096 * k" using al unfolding page_aligned_unat by (rule dvdE)
    have "a = i \<longleftrightarrow> unat a = unat i" by (simp add: word_unat_eq_iff)
    then show ?thesis unfolding word_le_nat_alt u j k by auto
  qed
  then show "pages_from i sz = insert i (pages_from (i + 4096) sz)" "i \<notin> pages_from (i + 4096) sz"
    using assms by (auto simp: pages_from_def)
qed

lemma pages_from_end: "\<not> i < sz \<Longrightarrow> pages_from i sz = {}"
  by (auto simp: pages_from_def)

lemma uvmcopy_loop_end: "\<not> i < sz \<Longrightarrow> uvmcopy_loop old new sz i s = Ok (0, s)"
  by (subst uvmcopy_loop.simps) simp

lemma source_page_mono: "\<lbrakk>source_page m pt X a; Y \<subseteq> X\<rbrakk> \<Longrightarrow> source_page m pt Y a"
  by (auto simp: source_page_def)

lemma uvmcopy_loop_step:
  fixes s :: "'a kmst_scheme"
  assumes "i < sz" "sz \<le> MAXVA" "ptree (mem s) 2 old" "0 \<notin> ptset (mem s) 2 old" "source_page (mem s) old X i"
    and "kalloc s = Ok (q, u)" "q \<noteq> 0"
      "mappages new i PGSIZE q (PTE_FLAGS (leafv (mem s) 2 old i))
        (u\<lparr>mem := memmove (mem u) q (PTE2PA (leafv (mem s) 2 old i)) 4096\<rparr>) = Ok (0, v)"
  shows "uvmcopy_loop old new sz i s = uvmcopy_loop old new sz (i + 4096) v"
proof -
  have i: "i < MAXVA" using assms(1,2) by simp
  have l: "lookup (mem s) 2 old i \<noteq> 0" "load64 (mem s) (lookup (mem s) 2 old i) = leafv (mem s) 2 old i"
    using leafv_lookup [OF assms(3,4), of i] assms(5) by (auto simp: source_page_def split: if_splits)
  show ?thesis
    using assms(1,5-8) walk_lookup [OF i, of old s] l
    by (subst uvmcopy_loop.simps) (simp add: source_page_def Let_def)
qed

lemma uvmcopy_loop_ok:
  fixes s :: "'a kmst_scheme"
  assumes "table_inv s 2 new ps" "ptree (mem s) 2 old" "0 \<notin> ptset (mem s) 2 old"
    "ptset (mem s) 2 old \<inter> (ptset (mem s) 2 new \<union> set ps) = {}" "page_aligned i" "sz \<le> MAXVA"
    "unat sz \<le> unat i + 4096 * n" "3 * n \<le> length ps"
    "\<And>a. a \<in> pages_from i sz \<Longrightarrow> leafv (mem s) 2 new a AND 1 = 0 \<and> source_page (mem s) old (ptset (mem s) 2 new \<union> set ps) a"
  shows "\<exists>t f qs rest. uvmcopy_loop old new sz i s = Ok (0, t) \<and> ps = qs @ rest \<and> length qs \<le> 3 * n \<and>
    table_inv t 2 new rest \<and> copied old new (pages_from i sz) f qs s t"
  using assms
proof (induction n arbitrary: i s ps)
  case 0
  then have "\<not> i < sz" by (simp add: word_less_nat_alt)
  then show ?case using 0 copied_none [of old new _ s] by (auto simp: uvmcopy_loop_end pages_from_end)
next
  case (Suc n)
  show ?case
  proof (cases "i < sz")
    case False
    then show ?thesis using Suc.prems copied_none [of old new _ s] by (auto simp: uvmcopy_loop_end pages_from_end)
  next
    case True
    note st = pages_from_step [OF Suc.prems(5) True Suc.prems(6)]
    obtain q ps' where ps: "ps = q # ps'" "2 \<le> length ps'" using Suc.prems(8) by (cases ps) auto
    have i: "leafv (mem s) 2 new i AND 1 = 0" "source_page (mem s) old (ptset (mem s) 2 new \<union> set (q # ps')) i" "i < MAXVA"
      using Suc.prems(9) [of i] st(1) True Suc.prems(6) ps(1) by auto
    obtain u v :: "'a kmst_scheme" and qs rest where v: "kalloc s = Ok (q, u)" "q \<noteq> 0"
      "mappages new i PGSIZE q (PTE_FLAGS (leafv (mem s) 2 old i))
        (u\<lparr>mem := memmove (mem u) q (PTE2PA (leafv (mem s) 2 old i)) 4096\<rparr>) = Ok (0, v)"
      "table_inv v 2 new rest" "ps' = qs @ rest" "length qs \<le> 2" "copied old new {i} (\<lambda>_. q) (q # qs) s v"
      using copy_page_ok [OF Suc.prems(1) [unfolded ps(1)] ps(2) Suc.prems(5) i(3,1,2)] by blast
    note step = uvmcopy_loop_step [OF True Suc.prems(6,2,3) i(2) v(1-3)]
    have dj: "ptset (mem s) 2 old \<inter> (ptset (mem s) 2 new \<union> set (q # qs)) = {}" using Suc.prems(4) ps(1) v(5) by auto
    note o = copied_old [OF v(7) Suc.prems(2) dj]
    have sub: "ptset (mem v) 2 new \<union> set rest \<subseteq> ptset (mem s) 2 new \<union> set ps"
      using v(5,7) ps(1) unfolding copied_def by auto
    have next_src: "leafv (mem v) 2 new a AND 1 = 0 \<and> source_page (mem v) old (ptset (mem v) 2 new \<union> set rest) a"
      if a: "a \<in> pages_from (i + 4096) sz" for a
    proof -
      have p: "leafv (mem s) 2 new a AND 1 = 0" "source_page (mem s) old (ptset (mem s) 2 new \<union> set ps) a"
        using Suc.prems(9) [of a] st(1) a by auto
      have "a < MAXVA" "page_of a \<noteq> i" using a st(2) Suc.prems(6) by (auto simp: pages_from_def page_aligned_iff)
      then have "leafv (mem v) 2 new a = leafv (mem s) 2 new a" using v(7) unfolding copied_def by simp
      then show ?thesis using p source_page_mono [OF p(2) sub] o(3) [of a] by (simp add: source_page_def)
    qed
    have "\<exists>t f qs' rest'. uvmcopy_loop old new sz (i + 4096) v = Ok (0, t) \<and> rest = qs' @ rest' \<and> length qs' \<le> 3 * n \<and>
        table_inv t 2 new rest' \<and> copied old new (pages_from (i + 4096) sz) f qs' v t"
      using Suc.prems(4-8) o sub ps v(4-6) st(3) next_src page_aligned_add [of i 4096]
      by (intro Suc.IH) (auto simp: Suc.prems(3))
    then obtain t :: "'a kmst_scheme" and f qs' rest' where t: "uvmcopy_loop old new sz (i + 4096) v = Ok (0, t)"
      "rest = qs' @ rest'" "length qs' \<le> 3 * n" "table_inv t 2 new rest'" "copied old new (pages_from (i + 4096) sz) f qs' v t"
      by blast
    have dist: "distinct ((q # qs) @ qs')" using Suc.prems(1) ps(1) v(5) t(2) by (auto simp: table_inv_def kmem_inv_def)
    have "source_page (mem s) old (ptset (mem s) 2 new \<union> set (q # qs)) b" if "b \<in> pages_from (i + 4096) sz" for b
      by (rule source_page_mono [OF conjunct2 [OF Suc.prems(9)]]) (use that st(1) ps(1) v(5) in auto)
    from copied_trans [OF v(7) t(5) _ dist Suc.prems(2) dj this] st(1,2)
    have "copied old new (pages_from i sz) (\<lambda>a. if a \<in> {i} then q else f a) ((q # qs) @ qs') s t" by simp
    moreover have "ps = ((q # qs) @ qs') @ rest'" "length ((q # qs) @ qs') \<le> 3 * Suc n"
      using ps v(5,6) t(2,3) by simp_all
    ultimately show ?thesis using step t(1,4) by (metis (no_types, lifting))
  qed
qed

section \<open>What the child of a fork sees\<close>

text \<open>The byte a user program reads at \<open>va\<close>, if it may.\<close>

definition user_byte :: "bytemem \<Rightarrow> u64 \<Rightarrow> u64 \<Rightarrow> u8 option" where
  "user_byte m pt va = map_option m (utrans m pt va)"

lemma user_byte_leafv:
  "va < MAXVA \<Longrightarrow> user_byte m pt va =
     (let v = leafv m 2 pt (page_of va) in
      if v AND 1 \<noteq> 0 \<and> v AND 16 \<noteq> 0 \<and> PTE2PA v \<noteq> 0 then Some (m (PTE2PA v + (va - page_of va))) else None)"
  using leafv_same_page [of "page_of va" va m pt] by (simp add: user_byte_def utrans_def Let_def)

lemma pages_from_page_of: "va < sz \<Longrightarrow> page_of va \<in> pages_from 0 sz"
  using word_and_le2 [of va "NOT (mask 12)"] page_aligned_page_of [of va] by (auto simp: pages_from_def page_of_def)

lemma PTE_FLAGS_bits: "PTE_FLAGS v AND 1 = v AND 1" "PTE_FLAGS v AND 16 = v AND 16"
  by (simp_all add: PTE_FLAGS_def and.assoc)

text \<open>A copied entry: a user program may access what it could before.\<close>

lemma copied_pte:
  assumes "v AND 1 \<noteq> 0" "page_aligned q" "q \<noteq> 0" "w = PA2PTE q OR PTE_FLAGS v"
  shows "PTE2PA w = q" "PTE_FLAGS w = PTE_FLAGS v" "w AND 1 \<noteq> 0" "w AND 16 = 0 \<longleftrightarrow> v AND 16 = 0"
proof -
  note f = PTE_FLAGS_valid [OF assms(1)]
  show "PTE2PA w = q" unfolding assms(4) by (rule PTE2PA_PA2PTE [OF assms(2) f(2)])
  show w: "PTE_FLAGS w = PTE_FLAGS v" unfolding assms(4) by (rule PTE_FLAGS_PA2PTE [OF f(2)])
  show "w AND 1 \<noteq> 0" "w AND 16 = 0 \<longleftrightarrow> v AND 16 = 0" using w PTE_FLAGS_bits [of w] PTE_FLAGS_bits [of v] assms(1) by simp_all
qed

text \<open>What a successful \<open>uvmcopy\<close> leaves.\<close>

definition space_copied :: "u64 \<Rightarrow> u64 \<Rightarrow> u64 \<Rightarrow> u64 list \<Rightarrow> 'a kmst_scheme \<Rightarrow> u64 list \<Rightarrow> 'a kmst_scheme \<Rightarrow> bool" where
  "space_copied old new sz ps s rest t \<longleftrightarrow> table_inv t 2 new rest \<and> set rest \<subseteq> set ps \<and> mem_only s t \<and>
    ptset (mem t) 2 new \<subseteq> ptset (mem s) 2 new \<union> set ps \<and>
    (\<forall>x. page_of x \<notin> ptset (mem s) 2 new \<union> set ps \<longrightarrow> mem t x = mem s x) \<and>
    (\<forall>va < sz. user_byte (mem t) new va = user_byte (mem s) old va \<and>
       user_byte (mem t) old va = user_byte (mem s) old va \<and>
       PTE_FLAGS (leafv (mem t) 2 new va) = PTE_FLAGS (leafv (mem s) 2 old va)) \<and>
    inj_on (\<lambda>a. PTE2PA (leafv (mem t) 2 new a)) (pages_from 0 sz) \<and>
    (\<lambda>a. PTE2PA (leafv (mem t) 2 new a)) ` pages_from 0 sz \<subseteq> set ps - set rest - ptset (mem t) 2 new"

lemma space_copiedD:
  assumes "space_copied old new sz ps s rest t"
  shows "table_inv t 2 new rest" "mem_only s t" "ptset (mem t) 2 new \<subseteq> ptset (mem s) 2 new \<union> set ps"
    "page_of x \<notin> ptset (mem s) 2 new \<union> set ps \<Longrightarrow> mem t x = mem s x"
    "va < sz \<Longrightarrow> user_byte (mem t) new va = user_byte (mem s) old va"
    "a \<in> pages_from 0 sz \<Longrightarrow> PTE2PA (leafv (mem t) 2 new a) \<in> set ps"
  using assms unfolding space_copied_def by blast+

lemma uvmcopy_ok:
  fixes s :: "'a kmst_scheme"
  assumes "table_inv s 2 new ps" "ptree (mem s) 2 old" "0 \<notin> ptset (mem s) 2 old"
    "ptset (mem s) 2 old \<inter> (ptset (mem s) 2 new \<union> set ps) = {}" "sz \<le> MAXVA"
    "unat sz \<le> 4096 * n" "3 * n \<le> length ps"
    "\<forall>a \<in> pages_from 0 sz. leafv (mem s) 2 new a AND 1 = 0 \<and> source_page (mem s) old (ptset (mem s) 2 new \<union> set ps) a"
  shows "\<exists>t rest. uvmcopy old new sz s = Ok (0, t) \<and> space_copied old new sz ps s rest t"
proof -
  obtain t :: "'a kmst_scheme" and f qs rest where t: "uvmcopy_loop old new sz 0 s = Ok (0, t)" "ps = qs @ rest"
    "table_inv t 2 new rest" and c: "copied old new (pages_from 0 sz) f qs s t"
    using uvmcopy_loop_ok [of s new ps old 0 sz n] assms by auto
  note C = c [unfolded copied_def]
  have dj: "ptset (mem s) 2 old \<inter> (ptset (mem s) 2 new \<union> set qs) = {}" using assms(4) t(2) by auto
  have dist: "distinct ps" "0 \<notin> set ps" using assms(1) kpage_nonzero by (auto simp: table_inv_def kmem_inv_def kpage_def)
  have page: "PTE2PA (leafv (mem t) 2 new a) = f a" "PTE_FLAGS (leafv (mem t) 2 new a) = PTE_FLAGS (leafv (mem s) 2 old a)"
    "leafv (mem t) 2 new a AND 1 \<noteq> 0" "leafv (mem t) 2 new a AND 16 = 0 \<longleftrightarrow> leafv (mem s) 2 old a AND 16 = 0"
    "leafv (mem s) 2 old a AND 1 \<noteq> 0" "f a \<noteq> 0" "page_aligned (f a)"
    if a: "a \<in> pages_from 0 sz" for a
  proof -
    have "page_of a = a" "a < MAXVA" using a assms(5) by (auto simp: pages_from_def page_aligned_iff)
    then have l: "leafv (mem t) 2 new a = PA2PTE (f a) OR PTE_FLAGS (leafv (mem s) 2 old a)" using C a by simp
    show f: "f a \<noteq> 0" "page_aligned (f a)" using C a dist(2) t(2) by auto
    show v: "leafv (mem s) 2 old a AND 1 \<noteq> 0" using assms(8) a by (simp add: source_page_def)
    note copied_pte [OF v f(2,1) l]
    then show "PTE2PA (leafv (mem t) 2 new a) = f a" "PTE_FLAGS (leafv (mem t) 2 new a) = PTE_FLAGS (leafv (mem s) 2 old a)"
      "leafv (mem t) 2 new a AND 1 \<noteq> 0" "leafv (mem t) 2 new a AND 16 = 0 \<longleftrightarrow> leafv (mem s) 2 old a AND 16 = 0" by blast+
  qed
  have bytes: "user_byte (mem t) new va = user_byte (mem s) old va \<and> user_byte (mem t) old va = user_byte (mem s) old va \<and>
      PTE_FLAGS (leafv (mem t) 2 new va) = PTE_FLAGS (leafv (mem s) 2 old va)" if va: "va < sz" for va
  proof -
    let ?a = "page_of va" and ?l = "leafv (mem s) 2 old (page_of va)"
    have a: "?a \<in> pages_from 0 sz" and M: "va < MAXVA" using pages_from_page_of [OF va] va assms(5) by auto
    have src: "source_page (mem s) old (ptset (mem s) 2 new \<union> set qs) ?a"
      by (rule source_page_mono [of _ _ "ptset (mem s) 2 new \<union> set ps"]) (use assms(8) a t(2) in auto)
    have o: "unat (va - ?a) < 4096" by (subst page_offset) simp_all
    have x: "page_of (f ?a + (va - ?a)) = f ?a" "page_of (PTE2PA ?l + (va - ?a)) = PTE2PA ?l"
      using page_of_offset [OF _ refl, of _ va] page(7) [OF a] by simp_all
    have "mem t (f ?a + (va - ?a)) = mem s (PTE2PA ?l + (va - ?a))" using C a x(1) by auto
    moreover have "mem t (PTE2PA ?l + (va - ?a)) = mem s (PTE2PA ?l + (va - ?a))"
      using C x(2) src unfolding source_page_def by auto
    ultimately show ?thesis
      using page [OF a] src copied_old(3) [OF c assms(2) dj] leafv_same_page [of va ?a]
      by (simp add: user_byte_leafv [OF M] Let_def source_page_def)
  qed
  have "inj_on (\<lambda>a. PTE2PA (leafv (mem t) 2 new a)) (pages_from 0 sz)" using C page(1) by (simp cong: inj_on_cong)
  moreover have "(\<lambda>a. PTE2PA (leafv (mem t) 2 new a)) ` pages_from 0 sz \<subseteq> set ps - set rest - ptset (mem t) 2 new"
    using C page(1) t(2) dist(1) by auto
  moreover have "mem_only s t" "ptset (mem t) 2 new \<subseteq> ptset (mem s) 2 new \<union> set ps"
    "\<forall>x. page_of x \<notin> ptset (mem s) 2 new \<union> set ps \<longrightarrow> mem t x = mem s x"
    using C t(2) by auto
  ultimately show ?thesis using t bytes unfolding uvmcopy_def space_copied_def by auto
qed

text \<open>C35: copying an address space, as \<open>fork\<close> does. Given enough free pages, \<open>uvmcopy\<close> succeeds,
  and then the child reads at every address below \<open>sz\<close> the byte the parent reads there, with the same
  permissions; the parent's memory is as before; and each page of the child is a page of its own, taken from
  the free list, so that a write by one of the two never shows in the other.\<close>

theorem uvmcopy_duplicates:
  fixes s :: "'a kmst_scheme"
  assumes "table_inv s 2 new ps" "ptree (mem s) 2 old" "0 \<notin> ptset (mem s) 2 old"
    "ptset (mem s) 2 old \<inter> (ptset (mem s) 2 new \<union> set ps) = {}" "sz \<le> MAXVA"
    "unat sz \<le> 4096 * n" "3 * n \<le> length ps"
    "\<forall>a \<in> pages_from 0 sz. leafv (mem s) 2 new a AND 1 = 0 \<and> source_page (mem s) old (ptset (mem s) 2 new \<union> set ps) a"
  shows "\<exists>t rest. uvmcopy old new sz s = Ok (0, t) \<and> table_inv t 2 new rest \<and> set rest \<subseteq> set ps \<and> mem_only s t \<and>
    (\<forall>va < sz. user_byte (mem t) new va = user_byte (mem s) old va \<and>
       user_byte (mem t) old va = user_byte (mem s) old va \<and>
       PTE_FLAGS (leafv (mem t) 2 new va) = PTE_FLAGS (leafv (mem s) 2 old va)) \<and>
    inj_on (\<lambda>a. PTE2PA (leafv (mem t) 2 new a)) (pages_from 0 sz) \<and>
    (\<lambda>a. PTE2PA (leafv (mem t) 2 new a)) ` pages_from 0 sz \<subseteq> set ps - set rest - ptset (mem t) 2 new"
  using uvmcopy_ok [OF assms] unfolding space_copied_def by blast

text \<open>A state whose free list is any given list of pages, with zero elsewhere.\<close>

lemma free_pages:
  assumes "distinct ps" "\<forall>p \<in> set ps. kpage (boot_kmst e) p" "0 < e"
  shows "\<exists>s :: kmst. kmem_inv s ps \<and> mem_only (boot_kmst e) s \<and> (\<forall>a. page_of a \<notin> set ps \<longrightarrow> mem s a = 0)"
  using assms(1,2)
proof (induction ps)
  case Nil
  then show ?case using kmem_inv_boot [OF assms(3)] by (auto intro!: exI [of _ "boot_kmst e"] simp: boot_kmst_def)
next
  case (Cons p ps)
  then obtain s :: kmst where s: "kmem_inv s ps" "mem_only (boot_kmst e) s" "\<forall>a. page_of a \<notin> set ps \<longrightarrow> mem s a = 0" by auto
  have "kpage s p" using Cons.prems(2) mem_onlyD(5) [OF s(2)] by (simp add: kpage_def)
  then obtain t :: kmst where "kmem_inv t (p # ps)" "mem_only s t" "\<forall>a. page_of a \<noteq> p \<longrightarrow> mem t a = mem s a"
    using kfree_push [OF s(1)] Cons.prems(1) by auto
  then show ?case using s(2,3) mem_only_trans [OF s(2)] by auto
qed

text \<open>A page table that maps the user page 0, and free pages.\<close>

lemma one_page_space:
  assumes "distinct ps" "\<forall>p \<in> set ps. kpage (boot_kmst 0x80021000) p" "2 \<le> length ps" "0x80100000 \<notin> set ps"
  obtains t :: kmst and qs rest where "ps = qs @ rest" "length qs \<le> 2" "table_inv t 2 0x80100000 rest"
    "ptset (mem t) 2 0x80100000 = {0x80100000} \<union> set qs" "leafv (mem t) 2 0x80100000 0 = PA2PTE 0x80200000 OR 22 OR 1"
    "\<forall>a. page_of a \<notin> {0x80100000} \<union> set ps \<longrightarrow> mem t a = 0"
proof -
  obtain s :: kmst where s: "kmem_inv s ps" "\<forall>a. page_of a \<notin> set ps \<longrightarrow> mem s a = 0"
    using free_pages [OF assms(1,2)] by auto
  have al: "page_aligned 0x80100000" by (simp add: page_aligned_mod)
  have z: "\<And>a. page_of a = 0x80100000 \<Longrightarrow> mem s a = 0" using s(2) assms(4) by auto
  have e: "table_inv s 2 0x80100000 ps" "leafv (mem s) 2 0x80100000 0 = 0"
    by (rule table_inv_empty [OF s(1) al], simp_all add: z assms(4))+
  have p: "ptset (mem s) 2 0x80100000 = {0x80100000}" by (rule ptable_zero_page [OF al], erule z)
  obtain t :: kmst and qs rest where t: "maps 0x80100000 0 1 0x80200000 22 s ps t rest" "ps = qs @ rest" "length qs \<le> 2"
    using mappages_one [OF e(1), of 0 "0x80200000" 22] e(2) assms(3) by auto
  have pt: "ptset (mem t) 2 0x80100000 = {0x80100000} \<union> set qs" "table_inv t 2 0x80100000 rest"
    and out: "\<And>a. page_of a \<notin> {0x80100000} \<union> set qs \<Longrightarrow> mem t a = mem s a"
    using t(1,2) p unfolding maps_def by auto
  have "leafv (mem t) 2 0x80100000 0 = PA2PTE 0x80200000 OR 22 OR 1"
    using maps_page [OF t(1), of 0] page_aligned_iff [of 0] by simp
  then show ?thesis using that t(2,3) pt out s(2) by simp
qed

text \<open>A second, empty table beside it.\<close>

lemma parent_and_child:
  obtains t :: kmst and rest where "table_inv t 2 0x80101000 rest" "3 \<le> length rest" "ptree (mem t) 2 0x80100000"
    "0 \<notin> ptset (mem t) 2 0x80100000" "ptset (mem t) 2 0x80100000 \<inter> (ptset (mem t) 2 0x80101000 \<union> set rest) = {}"
    "leafv (mem t) 2 0x80101000 0 AND 1 = 0" "leafv (mem t) 2 0x80100000 0 = PA2PTE 0x80200000 OR 22 OR 1"
    "ptset (mem t) 2 0x80101000 \<union> set rest \<subseteq> {0x80101000, 0x87FFF000, 0x87FFE000, 0x87FFD000, 0x87FFC000, 0x87FFB000}"
    "mem t 0x80200000 = 0"
proof -
  let ?ps = "[0x87FFF000, 0x87FFE000, 0x87FFD000, 0x87FFC000, 0x87FFB000] :: u64 list"
  have kp: "\<forall>p \<in> set ?ps. kpage (boot_kmst 0x80021000) p" by (simp add: kpage_def boot_kmst_def page_aligned_mod)
  obtain t :: kmst and qs rest where t: "?ps = qs @ rest" "length qs \<le> 2" "table_inv t 2 0x80100000 rest"
    "ptset (mem t) 2 0x80100000 = {0x80100000} \<union> set qs" "leafv (mem t) 2 0x80100000 0 = PA2PTE 0x80200000 OR 22 OR 1"
    "\<forall>a. page_of a \<notin> {0x80100000} \<union> set ?ps \<longrightarrow> mem t a = 0"
    by (rule one_page_space [OF _ kp]) simp_all
  have al: "page_aligned 0x80101000" "page_aligned 0x80200000" by (simp_all add: page_aligned_mod)
  have z: "\<And>a. page_of a = 0x80101000 \<Longrightarrow> mem t a = 0" using t(6) by simp
  have fr: "ptset (mem t) 2 0x80101000 = {0x80101000}" "ptree (mem t) 2 0x80101000" "leafv (mem t) 2 0x80101000 0 = 0"
    by (rule ptable_zero_page [OF al(1)], erule z)+
  have sq: "set qs \<union> set rest = set ?ps" "length qs + length rest = 5"
    using arg_cong [OF t(1), of set] arg_cong [OF t(1), of length] by simp_all
  have "distinct (qs @ rest)" unfolding t(1) [symmetric] by simp
  then have "set qs \<inter> set rest = {}" by simp
  moreover have no: "0x80101000 \<notin> set qs \<union> set rest" using sq(1) by force
  ultimately have "ptset (mem t) 2 0x80100000 \<inter> (ptset (mem t) 2 0x80101000 \<union> set rest) = {}"
    using t(3,4) fr(1) by (auto simp: table_inv_def)
  moreover have "table_inv t 2 0x80101000 rest" using fr t(3) no unfolding table_inv_def by auto
  moreover have "mem t 0x80200000 = 0" using t(6) al(2) unfolding page_aligned_iff by simp
  moreover have "ptset (mem t) 2 0x80101000 \<union> set rest \<subseteq> {0x80101000, 0x87FFF000, 0x87FFE000, 0x87FFD000, 0x87FFC000, 0x87FFB000}"
    using fr(1) sq(1) by auto
  ultimately show ?thesis using that [of t rest] t(2,3,5) fr(3) sq(2) unfolding table_inv_def by simp
qed

theorem uvmcopy_duplicates_witness:
  "\<exists>(s :: kmst) t. uvmcopy 0x80100000 0x80101000 0x1000 s = Ok (0, t) \<and>
     user_byte (mem s) 0x80100000 0 = Some 0 \<and> user_byte (mem t) 0x80101000 0 = Some 0 \<and>
     PTE2PA (leafv (mem t) 2 0x80101000 0) \<noteq> 0x80200000"
proof -
  obtain s :: kmst and ps where s: "table_inv s 2 0x80101000 ps" "3 \<le> length ps" "ptree (mem s) 2 0x80100000"
    "0 \<notin> ptset (mem s) 2 0x80100000" "ptset (mem s) 2 0x80100000 \<inter> (ptset (mem s) 2 0x80101000 \<union> set ps) = {}"
    "leafv (mem s) 2 0x80101000 0 AND 1 = 0" "leafv (mem s) 2 0x80100000 0 = PA2PTE 0x80200000 OR 22 OR 1"
    "ptset (mem s) 2 0x80101000 \<union> set ps \<subseteq> {0x80101000, 0x87FFF000, 0x87FFE000, 0x87FFD000, 0x87FFC000, 0x87FFB000}"
    "mem s 0x80200000 = 0"
    by (rule parent_and_child)
  have pg: "pages_from 0 0x1000 = {0}"
    using pages_from_step(1) [of 0 "0x1000"] pages_from_end [of "0x1000" "0x1000"] by simp
  have src: "source_page (mem s) 0x80100000 (ptset (mem s) 2 0x80101000 \<union> set ps) 0"
    unfolding source_page_def s(7) user_pte(1) using s(8) user_pte(2) by auto
  have sz: "0x1000 \<le> MAXVA" "unat (0x1000 :: u64) \<le> 4096 * 1" "3 * 1 \<le> length ps" using s(2) by simp_all
  obtain t rest where t: "uvmcopy 0x80100000 0x80101000 0x1000 s = Ok (0, t)"
    "user_byte (mem t) 0x80101000 0 = user_byte (mem s) 0x80100000 0" "PTE2PA (leafv (mem t) 2 0x80101000 0) \<in> set ps"
    using uvmcopy_duplicates [OF s(1,3-5) sz] s(6) src unfolding pg by auto
  have "user_byte (mem s) 0x80100000 0 = Some 0"
    unfolding user_byte_def utrans_def s(7) Let_def using user_pte s(9) page_aligned_iff [of 0] by simp
  then show ?thesis using t s(8) by (intro exI [of _ s] exI [of _ t]) auto
qed

end
