(* ===== verification/Fork.thy ===== *)
theory Fork
  imports Addrspace
begin

text \<open>
  What \<open>allocproc\<close> and \<open>fork\<close> of \<open>kernel/proc.c\<close> do when memory and table slots suffice: the new
  process, its trapframe, its files and its address space.
\<close>

section \<open>allocproc\<close>

text \<open>The slot as \<open>allocproc\<close> leaves it.\<close>

definition new_proc :: "ksyms \<Rightarrow> int \<Rightarrow> u64 \<Rightarrow> u64 \<Rightarrow> proc \<Rightarrow> proc" where
  "new_proc sy pid tf pt q = q\<lparr>p_pid := pid, p_state := USED, p_trapframe := tf, p_pagetable := pt,
     p_context := \<lparr>c_ra = sym_forkret sy, c_sp = p_kstack q + PGSIZE, c_s = replicate 12 0\<rparr>\<rparr>"

lemma mem_only_kern:
  assumes "mem_only s (t :: 'a kern_scheme)"
  shows "nextpid t = nextpid s" "ftable t = ftable s" "itable t = itable s" "initproc t = initproc s"
    "lks t = lks s" "procs t = procs s" "curproc t = curproc s"
  by (subst assms [unfolded mem_only_def], simp)+

lemma allocpid_ok:
  assumes "\<not> lks s PidLock" "nextpid s < 2 ^ 31 - 1"
  shows "allocpid s = Ok (nextpid s, s\<lparr>nextpid := nextpid s + 1\<rparr>)"
  using assms by (simp add: allocpid_def acquire_def release_def Let_def fun_upd_idem)

lemma allocproc_found_ok:
  fixes s :: "'a kern_scheme"
  assumes lk: "\<not> lks s PidLock" and np: "nextpid s < 2 ^ 31 - 1" and inv: "kmem_inv s (tf # ps)" and room: "5 \<le> length ps"
  shows "\<exists>pt t qs rest. allocproc_found sy p s = Ok (Some p, t) \<and> pt \<noteq> 0 \<and> ps = qs @ rest \<and> length qs \<le> 5 \<and>
    table_inv t 2 pt rest \<and> ptset (mem t) 2 pt = set qs \<and>
    mem_only (s\<lparr>nextpid := nextpid s + 1, procs := (procs s)(p := new_proc sy (nextpid s) tf pt (procs s p))\<rparr>) t \<and>
    (\<forall>a. page_of a \<notin> insert tf (set qs) \<longrightarrow> mem t a = mem s a) \<and>
    (\<forall>va < MAXVA. leafv (mem t) 2 pt va = proc_map (sym_trampoline sy) tf va)"
proof -
  let ?s1 = "set_proc p (\<lambda>q. q\<lparr>p_pid := nextpid s, p_state := USED\<rparr>) (s\<lparr>nextpid := nextpid s + 1\<rparr>)"
  have "kmem_inv ?s1 (tf # ps)" by (rule kmem_inv_frame [OF inv]) (simp_all add: set_proc_def)
  then obtain s2 :: "'a kern_scheme" where s2: "kalloc ?s1 = Ok (tf, s2)" "kmem_inv s2 ps" "tf \<noteq> 0"
    "s2 = ?s1\<lparr>freelist := load64 (mem ?s1) tf, mem := fill_page (mem ?s1) tf 5\<rparr>"
    using kalloc_pop by blast
  let ?s3 = "set_proc p (\<lambda>q. q\<lparr>p_trapframe := tf\<rparr>) s2"
  have "kmem_inv ?s3 ps" by (rule kmem_inv_frame [OF s2(2)]) (simp_all add: set_proc_def)
  from proc_pagetable_ok [OF this room, of sy p]
  obtain pt qs rest and s4 :: "'a kern_scheme" where s4: "proc_pagetable sy p ?s3 = Ok (pt, s4)" "pt \<noteq> 0" "ps = qs @ rest"
    "length qs \<le> 5" "table_inv s4 2 pt rest" "ptset (mem s4) 2 pt = set qs" "mem_only ?s3 s4"
    "\<forall>a. page_of a \<notin> set qs \<longrightarrow> mem s4 a = mem ?s3 a"
    "\<forall>va < MAXVA. leafv (mem s4) 2 pt va = proc_map (sym_trampoline sy) (p_trapframe (procs ?s3 p)) va"
    by blast
  let ?t = "set_proc p (\<lambda>q. q\<lparr>p_context := \<lparr>c_ra = sym_forkret sy, c_sp = p_kstack q + PGSIZE, c_s = replicate 12 0\<rparr>\<rparr>)
    (set_proc p (\<lambda>q. q\<lparr>p_pagetable := pt\<rparr>) s4)"
  have run: "allocproc_found sy p s = Ok (Some p, ?t)"
    using s2(1,3) s4(1,2) by (simp add: allocproc_found_def allocpid_ok [OF lk np] Let_def)
  have "table_inv ?t 2 pt rest"
    using s4(5) kmem_inv_frame [of s4 rest ?t] by (simp add: table_inv_def set_proc_def)
  moreover have "mem_only (s\<lparr>nextpid := nextpid s + 1, procs := (procs s)(p := new_proc sy (nextpid s) tf pt (procs s p))\<rparr>) ?t"
    unfolding mem_only_def
    by (subst (1) s4(7) [unfolded mem_only_def], subst s2(4)) (simp add: set_proc_def new_proc_def)
  moreover have "mem ?t a = mem s a" if "page_of a \<notin> insert tf (set qs)" for a
    using s4(8) that by (simp add: s2(4) set_proc_def fill_page_def)
  moreover have "leafv (mem ?t) 2 pt va = proc_map (sym_trampoline sy) tf va" if "va < MAXVA" for va
    using s4(9) that by (simp add: set_proc_def)
  moreover have "ptset (mem ?t) 2 pt = set qs" using s4(6) by (simp add: set_proc_def)
  ultimately show ?thesis using run s4(2-4) by blast
qed

lemma allocproc_loop_skip:
  assumes "\<forall>x \<in> set xs. p_state (procs s x) \<noteq> UNUSED \<and> \<not> lks s (ProcLock x)"
  shows "allocproc_loop sy (xs @ ys) s = allocproc_loop sy ys s"
  using assms by (induction xs) (simp_all add: acquire_def release_def fun_upd_idem)

lemma allocproc_first:
  assumes "p < NPROC" "p_state (procs s p) = UNUSED" "\<not> lks s (ProcLock p)"
    "\<forall>x < p. p_state (procs s x) \<noteq> UNUSED \<and> \<not> lks s (ProcLock x)"
  shows "allocproc sy s = allocproc_found sy p (s\<lparr>lks := (lks s)(ProcLock p := True)\<rparr>)"
proof -
  have "[0..<NPROC] = [0..<p] @ p # [Suc p..<NPROC]"
    using assms(1) upt_add_eq_append [of 0 p "NPROC - p"] upt_conv_Cons [of p NPROC] by simp
  then show ?thesis
    using allocproc_loop_skip [of "[0..<p]" s] assms(2-4) by (simp add: allocproc_def acquire_def)
qed

lemma allocproc_full:
  assumes "\<forall>x < NPROC. p_state (procs s x) \<noteq> UNUSED \<and> \<not> lks s (ProcLock x)"
  shows "allocproc sy s = Ok (None, s)"
  using allocproc_loop_skip [of "[0..<NPROC]" s sy "[]"] assms by (simp add: allocproc_def)

section \<open>fork\<close>

text \<open>What a user program reads depends on the table and the page of the address alone.\<close>

lemma user_byte_frame:
  assumes "ptree m 2 pt" "\<And>a. page_of a \<notin> X \<Longrightarrow> m' a = m a" "ptset m 2 pt \<inter> X = {}"
    "PTE2PA (leafv m 2 pt (page_of va)) \<notin> X" "va < MAXVA"
  shows "user_byte m' pt va = user_byte m pt va"
proof -
  have "m' a = m a" if "page_of a \<in> ptset m 2 pt" for a using assms(2,3) that by blast
  note l = ptable_frame [OF assms(1) this]
  have "page_of (PTE2PA (leafv m 2 pt (page_of va)) + (va - page_of va)) = PTE2PA (leafv m 2 pt (page_of va))"
    by (rule page_of_offset [OF _ refl]) simp_all
  then show ?thesis using l assms(2,4) by (simp add: user_byte_leafv [OF assms(5)] Let_def)
qed

lemma source_page_frame:
  assumes "ptree m 2 pt" "\<And>a. page_of a \<notin> X \<Longrightarrow> m' a = m a" "ptset m 2 pt \<inter> X = {}" "source_page m pt X va" "Y \<subseteq> X"
  shows "source_page m' pt Y va"
proof -
  have "m' a = m a" if "page_of a \<in> ptset m 2 pt" for a using assms(2,3) that by blast
  note l = ptable_frame [OF assms(1) this]
  show ?thesis using l assms(4,5) by (auto simp: source_page_def)
qed

text \<open>The descriptors of the child, and the references they add.\<close>

definition dup_ofile :: "nat option list \<Rightarrow> nat list \<Rightarrow> nat option list \<Rightarrow> nat option list" where
  "dup_ofile src is dst = fold (\<lambda>i d. case src ! i of None \<Rightarrow> d | Some f \<Rightarrow> d[i := Some f]) is dst"

definition add_refs :: "nat option list \<Rightarrow> (nat \<Rightarrow> kfile) \<Rightarrow> nat \<Rightarrow> kfile" where
  "add_refs fs ft f = (ft f)\<lparr>f_ref := f_ref (ft f) + int (count_list fs (Some f))\<rparr>"

lemma fork_files_ok:
  assumes "p \<noteq> np" "\<not> lks s FtableLock" "\<And>i f. \<lbrakk>i \<in> set is; p_ofile (procs s p) ! i = Some f\<rbrakk> \<Longrightarrow> 1 \<le> f_ref (ftable s f)"
  shows "fork_files p np is s = Ok (s\<lparr>ftable := add_refs (map ((!) (p_ofile (procs s p))) is) (ftable s),
    procs := (procs s)(np := (procs s np)\<lparr>p_ofile := dup_ofile (p_ofile (procs s p)) is (p_ofile (procs s np))\<rparr>)\<rparr>)"
  using assms
proof (induction "is" arbitrary: s)
  case Nil
  then show ?case by (simp add: add_refs_def dup_ofile_def)
next
  case (Cons i "is")
  show ?case
  proof (cases "p_ofile (procs s p) ! i")
    case None
    have "1 \<le> f_ref (ftable s f)" if "j \<in> set is" "p_ofile (procs s p) ! j = Some f" for j f
      using Cons.prems(3) [of j f] that by simp
    note IH = Cons.IH [OF Cons.prems(1,2) this]
    have "fork_files p np (i # is) s = fork_files p np is s" using None by simp
    also note IH
    finally show ?thesis using None by (simp add: dup_ofile_def add_refs_def [abs_def])
  next
    case (Some f)
    let ?s = "s\<lparr>ftable := (ftable s)(f := (ftable s f)\<lparr>f_ref := f_ref (ftable s f) + 1\<rparr>),
      procs := (procs s)(np := (procs s np)\<lparr>p_ofile := (p_ofile (procs s np))[i := Some f]\<rparr>)\<rparr>"
    have "1 \<le> f_ref (ftable s f)" using Cons.prems(3) [of i f] Some by simp
    then have "fork_files p np (i # is) s = fork_files p np is ?s"
      using Some Cons.prems(2) by (simp add: filedup_def acquire_def release_def set_file_def set_proc_def fun_upd_idem)
    also have "\<dots> = Ok (?s\<lparr>ftable := add_refs (map ((!) (p_ofile (procs ?s p))) is) (ftable ?s),
        procs := (procs ?s)(np := (procs ?s np)\<lparr>p_ofile := dup_ofile (p_ofile (procs ?s p)) is (p_ofile (procs ?s np))\<rparr>)\<rparr>)"
      using Cons.prems by (intro Cons.IH) (auto split: if_splits, force)
    also have "add_refs (map ((!) (p_ofile (procs ?s p))) is) (ftable ?s) = add_refs (map ((!) (p_ofile (procs s p))) (i # is)) (ftable s)"
      using Cons.prems(1) Some by (auto simp: add_refs_def fun_eq_iff)
    finally show ?thesis using Cons.prems(1) Some by (simp add: dup_ofile_def fun_upd_def cong: if_cong)
  qed
qed

lemma dup_ofile_all:
  assumes "k \<le> length src"
  shows "dup_ofile src [0..<k] (replicate (length src) None) = take k src @ replicate (length src - k) None"
  using assms
proof (induction k)
  case (Suc k)
  then have "take k src @ replicate (length src - k) None = take k src @ None # replicate (length src - Suc k) None"
    by (metis Suc_diff_Suc Suc_le_lessD replicate_Suc)
  then show ?case using Suc
    by (cases "src ! k") (simp_all add: dup_ofile_def list_update_append take_Suc_conv_app_nth)
qed (simp add: dup_ofile_def)

text \<open>What \<open>fork\<close> finds when it succeeds: a running process \<open>p\<close>, the first free slot \<open>np\<close>, enough memory.\<close>

definition fork_ready :: "'a kern_scheme \<Rightarrow> nat \<Rightarrow> nat \<Rightarrow> u64 list \<Rightarrow> bool" where
  "fork_ready s p np ps \<longleftrightarrow> quiet s \<and> curproc s = Some p \<and> p_state (procs s p) = RUNNING \<and> nextpid s < 2 ^ 31 - 1 \<and>
     np < NPROC \<and> p_state (procs s np) = UNUSED \<and> (\<forall>x < np. p_state (procs s x) \<noteq> UNUSED) \<and>
     p_ofile (procs s np) = replicate NOFILE None \<and> length (p_ofile (procs s p)) = NOFILE \<and>
     (\<forall>f. Some f \<in> set (p_ofile (procs s p)) \<longrightarrow> 1 \<le> f_ref (ftable s f)) \<and> p_cwd (procs s p) \<noteq> None \<and>
     kmem_inv s ps \<and> 6 + 3 * ((unat (p_sz (procs s p)) + 4095) div 4096) \<le> length ps"

text \<open>The address space of a process, apart from the free pages \<open>ps\<close>.\<close>

definition own_space :: "'a kern_scheme \<Rightarrow> nat \<Rightarrow> u64 list \<Rightarrow> bool" where
  "own_space s p ps \<longleftrightarrow> (let q = procs s p in
     ptree (mem s) 2 (p_pagetable q) \<and> 0 \<notin> ptset (mem s) 2 (p_pagetable q) \<and>
     ptset (mem s) 2 (p_pagetable q) \<inter> set ps = {} \<and> p_sz q \<le> TRAPFRAME \<and>
     page_aligned (p_trapframe q) \<and> p_trapframe q \<notin> set ps \<and>
     (\<forall>a \<in> pages_from 0 (p_sz q). source_page (mem s) (p_pagetable q) (set ps) a))"

definition child_proc :: "ksyms \<Rightarrow> 'a kern_scheme \<Rightarrow> nat \<Rightarrow> nat \<Rightarrow> u64 \<Rightarrow> u64 \<Rightarrow> proc" where
  "child_proc sy s p np tf pt = (new_proc sy (nextpid s) tf pt (procs s np))\<lparr>p_sz := p_sz (procs s p),
     p_ofile := p_ofile (procs s p), p_cwd := p_cwd (procs s p), p_name := set_name 16 (p_name (procs s np)) (p_name (procs s p)),
     p_parent := Some p, p_state := RUNNABLE\<rparr>"

lemma no_locks [simp]: "(\<lambda>_. False)(l := False) = (\<lambda>_. False)"
  by (simp add: fun_upd_idem)

lemma fork_finish_ok:
  assumes ne: "p \<noteq> np" and lk: "lks s = (\<lambda>_. False)(ProcLock np := True)"
    and of: "p_ofile (procs s np) = replicate NOFILE None" "length (p_ofile (procs s p)) = NOFILE"
      "\<And>f. Some f \<in> set (p_ofile (procs s p)) \<Longrightarrow> 1 \<le> f_ref (ftable s f)" and c: "p_cwd (procs s p) = Some c"
  shows "fork_finish p np s = Ok (p_pid (procs s np), s\<lparr>lks := (\<lambda>_. False), ftable := add_refs (p_ofile (procs s p)) (ftable s),
    itable := (itable s)(c := (itable s c)\<lparr>i_ref := i_ref (itable s c) + 1\<rparr>),
    procs := (procs s)(np := (procs s np)\<lparr>p_ofile := p_ofile (procs s p), p_cwd := Some c,
      p_name := set_name 16 (p_name (procs s np)) (p_name (procs s p)), p_parent := Some p, p_state := RUNNABLE\<rparr>)\<rparr>)"
proof -
  have "map ((!) (p_ofile (procs s p))) [0..<NOFILE] = p_ofile (procs s p)" using of(2) map_nth by metis
  moreover have "dup_ofile (p_ofile (procs s p)) [0..<NOFILE] (p_ofile (procs s np)) = p_ofile (procs s p)"
    using dup_ofile_all [of NOFILE "p_ofile (procs s p)"] of by simp
  moreover have "1 \<le> f_ref (ftable s f)" if "i \<in> set [0..<NOFILE]" "p_ofile (procs s p) ! i = Some f" for i f
    using of(3) [of f] that of(2) nth_mem [of i "p_ofile (procs s p)"] by simp
  ultimately have "fork_files p np [0..<NOFILE] s = Ok (s\<lparr>ftable := add_refs (p_ofile (procs s p)) (ftable s),
      procs := (procs s)(np := (procs s np)\<lparr>p_ofile := p_ofile (procs s p)\<rparr>)\<rparr>)"
    using fork_files_ok [OF ne, of s "[0..<NOFILE]"] lk by simp
  then show ?thesis
    using ne c lk by (simp add: fork_finish_def idup_def acquire_def release_def set_inode_def set_proc_def Let_def fun_upd_twist)
qed

text \<open>The child's trapframe.\<close>

definition copy_trapframe :: "bytemem \<Rightarrow> u64 \<Rightarrow> u64 \<Rightarrow> bytemem" where
  "copy_trapframe m ptf tf = store64 (put_block m tf (bytes_at m ptf TF_SIZE)) (tf + TF_A0) 0"

text \<open>From the copy of the address space on, \<open>fork\<close> runs to its end.\<close>

lemma fork_tail:
  fixes s t u :: "'a kern_scheme"
  assumes r: "fork_ready s p np ps" and c: "p_cwd (procs s p) = Some c"
    and a: "allocproc sy s = Ok (Some np, t)"
      "mem_only (s\<lparr>lks := (lks s)(ProcLock np := True), nextpid := nextpid s + 1,
        procs := (procs s)(np := new_proc sy (nextpid s) tf pt (procs s np))\<rparr>) t"
    and u: "uvmcopy (p_pagetable (procs s p)) pt (p_sz (procs s p)) t = Ok (0, u)" "mem_only t u"
  shows "fork sy s = Ok (nextpid s, u\<lparr>
    mem := copy_trapframe (mem u) (p_trapframe (procs s p)) tf,
    lks := lks s, ftable := add_refs (p_ofile (procs s p)) (ftable s),
    itable := (itable s)(c := (itable s c)\<lparr>i_ref := i_ref (itable s c) + 1\<rparr>),
    procs := (procs s)(np := child_proc sy s p np tf pt)\<rparr>)"
proof -
  have ne: "p \<noteq> np" and cur: "curproc s = Some p" and q: "lks s = (\<lambda>_. False)" using r by (auto simp: fork_ready_def quiet_def)
  note f = mem_only_kern [OF mem_only_trans [OF a(2) u(2)]] and g = mem_only_kern [OF a(2)]
  let ?m = "copy_trapframe (mem u) (p_trapframe (procs s p)) tf"
  let ?v = "u\<lparr>procs := (procs u)(np := (procs u np)\<lparr>p_sz := p_sz (procs s p)\<rparr>), mem := ?m\<rparr>"
  have "fork sy s = fork_finish p np ?v"
    unfolding fork_def myproc_def cur using a(1) u(1) ne f g
    by (simp add: new_proc_def set_proc_def tf_set_def Let_def copy_trapframe_def)
  also have "\<dots> = Ok (p_pid (procs ?v np), ?v\<lparr>lks := (\<lambda>_. False), ftable := add_refs (p_ofile (procs ?v p)) (ftable ?v),
      itable := (itable ?v)(c := (itable ?v c)\<lparr>i_ref := i_ref (itable ?v c) + 1\<rparr>),
      procs := (procs ?v)(np := (procs ?v np)\<lparr>p_ofile := p_ofile (procs ?v p), p_cwd := Some c,
        p_name := set_name 16 (p_name (procs ?v np)) (p_name (procs ?v p)), p_parent := Some p, p_state := RUNNABLE\<rparr>)\<rparr>)"
    by (rule fork_finish_ok [OF ne]) (use r c ne f q in \<open>auto simp: fork_ready_def new_proc_def\<close>)
  finally show ?thesis using ne f q c by (simp add: new_proc_def child_proc_def)
qed

lemma copy_trapframe_byte:
  assumes "i < 4096"
  shows "copy_trapframe m ptf tf (tf + of_nat i) =
    (if 112 \<le> i \<and> i < 120 then 0 else if i < TF_SIZE then m (ptf + of_nat i) else m (tf + of_nat i))"
proof -
  have u: "unat (of_nat i :: u64) = i" using assms by (simp add: unat_of_nat_u64)
  have "unat ((of_nat i :: u64) - 112) < 8 \<longleftrightarrow> 112 \<le> i \<and> i < 120"
    using assms u by (auto simp: unat_sub_if_size word_size)
  then show ?thesis
    using assms u by (simp add: copy_trapframe_def store64_def put_block_def bytes_at_def at_def)
qed

lemma copy_trapframe_outside:
  assumes "page_aligned tf" "page_of a \<noteq> tf"
  shows "copy_trapframe m ptf tf a = m a"
proof -
  have o: "\<not> unat (a - tf) < 4096" using page_offset [OF assms(1)] assms(2) by simp
  have "\<not> unat (a - (tf + 112)) < 8"
  proof
    assume l: "unat (a - (tf + 112)) < 8"
    have "a = tf + of_nat (112 + unat (a - (tf + 112)))" by simp
    moreover have "112 + unat (a - (tf + 112)) < 4096" using l by simp
    ultimately show False using page_of_add [OF assms(1)] assms(2) by metis
  qed
  then show ?thesis using o by (simp add: copy_trapframe_def store64_def put_block_def bytes_at_def)
qed

lemma proc_map_low: "\<lbrakk>page_of a = a; a < TRAPFRAME\<rbrakk> \<Longrightarrow> proc_map tramp tf a = 0"
  by (auto simp: proc_map_def)

lemma fork_ok:
  fixes s :: "'a kern_scheme"
  assumes r: "fork_ready s p np ps" and own: "own_space s p ps"
  shows "\<exists>t pt tf. fork sy s = Ok (nextpid s, t) \<and> quiet t \<and> nextpid t = nextpid s + 1 \<and>
    procs t = (procs s)(np := child_proc sy s p np tf pt) \<and> ftable t = add_refs (p_ofile (procs s p)) (ftable s) \<and>
    (\<forall>va < p_sz (procs s p). user_byte (mem t) pt va = user_byte (mem s) (p_pagetable (procs s p)) va \<and>
       user_byte (mem t) (p_pagetable (procs s p)) va = user_byte (mem s) (p_pagetable (procs s p)) va) \<and>
    (\<forall>i < TF_SIZE. mem t (tf + of_nat i) = (if 112 \<le> i \<and> i < 120 then 0 else mem s (p_trapframe (procs s p) + of_nat i)) \<and>
       mem t (p_trapframe (procs s p) + of_nat i) = mem s (p_trapframe (procs s p) + of_nat i))"
proof -
  let ?q = "procs s p" and ?n = "(unat (p_sz (procs s p)) + 4095) div 4096"
  note R = r [unfolded fork_ready_def] and O = own [unfolded own_space_def Let_def]
  obtain tf ps' where ps: "ps = tf # ps'" using R by (cases ps) auto
  obtain c where c: "p_cwd ?q = Some c" using R by auto
  let ?s = "s\<lparr>lks := (lks s)(ProcLock np := True)\<rparr>"
  have inv: "kmem_inv ?s (tf # ps')" using R ps by (auto simp: kmem_inv_def kpage_def quiet_def)
  then have tf: "page_aligned tf" "tf \<notin> set ps'" "tf \<in> set ps" using ps by (auto simp: kmem_inv_def kpage_def)
  obtain pt qs rest and t :: "'a kern_scheme" where t: "allocproc_found sy np ?s = Ok (Some np, t)" "pt \<noteq> 0" "ps' = qs @ rest"
    "length qs \<le> 5" "table_inv t 2 pt rest" "ptset (mem t) 2 pt = set qs"
    "mem_only (?s\<lparr>nextpid := nextpid s + 1, procs := (procs s)(np := new_proc sy (nextpid s) tf pt (procs s np))\<rparr>) t"
    "\<forall>a. page_of a \<notin> insert tf (set qs) \<longrightarrow> mem t a = mem s a"
    "\<forall>va < MAXVA. leafv (mem t) 2 pt va = proc_map (sym_trampoline sy) tf va"
    using allocproc_found_ok [OF _ _ inv, of sy np] R ps by (auto simp: quiet_def)
  have a: "allocproc sy s = Ok (Some np, t)" using allocproc_first [of np s sy] R t(1) by (simp add: quiet_def)
  have sub: "insert tf (set qs) \<subseteq> set ps" "set qs \<union> set rest \<subseteq> set ps" using ps t(3) by auto
  have fr: "mem t a = mem s a" if "page_of a \<notin> set ps" for a using t(8) sub that by blast
  have oldt: "ptset (mem t) 2 (p_pagetable ?q) = ptset (mem s) 2 (p_pagetable ?q)" "ptree (mem t) 2 (p_pagetable ?q)"
    using ptable_frame [of "mem s" 2 "p_pagetable ?q" "mem t"] O fr by (metis disjoint_iff)+
  have le: "p_sz ?q \<le> TRAPFRAME" "p_sz ?q \<le> MAXVA" using O order_trans [of "p_sz ?q" TRAPFRAME MAXVA] by auto
  have src: "leafv (mem t) 2 pt a AND 1 = 0 \<and> source_page (mem t) (p_pagetable ?q) (ptset (mem t) 2 pt \<union> set rest) a"
    if a: "a \<in> pages_from 0 (p_sz ?q)" for a
  proof -
    have l: "page_of a = a" "a < TRAPFRAME" "a < MAXVA"
      using a le less_le_trans [of a "p_sz ?q"] by (auto simp: pages_from_def page_aligned_iff simp del: TRAPFRAME_eq MAXVA_eq)
    then have "leafv (mem t) 2 pt a = 0" using t(9) proc_map_low [OF l(1,2)] by simp
    moreover have "source_page (mem t) (p_pagetable ?q) (ptset (mem t) 2 pt \<union> set rest) a"
      by (rule source_page_frame [OF _ fr]) (use O a sub t(6) in auto)
    ultimately show ?thesis by simp
  qed
  have room: "p_sz ?q \<le> MAXVA" "unat (p_sz ?q) \<le> 4096 * ?n" "3 * ?n \<le> length rest" using le(2) R ps t(3,4) by auto
  have old: "0 \<notin> ptset (mem t) 2 (p_pagetable ?q)" "ptset (mem t) 2 (p_pagetable ?q) \<inter> (ptset (mem t) 2 pt \<union> set rest) = {}"
    using O oldt(1) sub(2) t(6) by auto
  from src have src': "\<forall>a \<in> pages_from 0 (p_sz ?q). leafv (mem t) 2 pt a AND 1 = 0 \<and>
      source_page (mem t) (p_pagetable ?q) (ptset (mem t) 2 pt \<union> set rest) a" by simp
  obtain rest' and u :: "'a kern_scheme" where u: "uvmcopy (p_pagetable ?q) pt (p_sz ?q) t = Ok (0, u)"
    and sc: "space_copied (p_pagetable ?q) pt (p_sz ?q) rest t rest' u"
    using uvmcopy_ok [OF t(5) oldt(2) old room src'] by blast
  note U = space_copiedD [OF sc, unfolded t(6)]
  have m: "copy_trapframe (mem u) (p_trapframe ?q) tf a = mem s a" if "page_of a \<notin> set ps" for a
  proof -
    have "page_of a \<noteq> tf" using tf(3) that by auto
    moreover have "page_of a \<notin> set qs \<union> set rest" using sub(2) that by blast
    ultimately show ?thesis using that U(4) [of a] fr copy_trapframe_outside [OF tf(1)] by auto
  qed
  have "user_byte (copy_trapframe (mem u) (p_trapframe ?q) tf) pt va = user_byte (mem s) (p_pagetable ?q) va"
    "user_byte (copy_trapframe (mem u) (p_trapframe ?q) tf) (p_pagetable ?q) va = user_byte (mem s) (p_pagetable ?q) va"
    if va: "va < p_sz ?q" for va
  proof -
    have M: "va < MAXVA" "page_of va \<in> pages_from 0 (p_sz ?q)" using va room(1) pages_from_page_of [OF va] by auto
    have n: "ptset (mem s) 2 (p_pagetable ?q) \<inter> set ps = {}" "PTE2PA (leafv (mem s) 2 (p_pagetable ?q) (page_of va)) \<notin> set ps"
      using O M(2) by (auto simp: source_page_def)
    have wf: "ptree (mem s) 2 (p_pagetable ?q)" "ptree (mem u) 2 pt" using O U(1) by (auto simp: table_inv_def)
    show "user_byte (copy_trapframe (mem u) (p_trapframe ?q) tf) (p_pagetable ?q) va = user_byte (mem s) (p_pagetable ?q) va"
      by (rule user_byte_frame [OF wf(1) m n M(1)])
    have "user_byte (copy_trapframe (mem u) (p_trapframe ?q) tf) pt va = user_byte (mem u) pt va"
      by (rule user_byte_frame [of _ _ "{tf}"]) (use wf(2) copy_trapframe_outside [OF tf(1)] U(3) U(6) [OF M(2)] tf(2) t(3) M in auto)
    also have "\<dots> = user_byte (mem t) (p_pagetable ?q) va" using U(5) [OF va] .
    also have "\<dots> = user_byte (mem s) (p_pagetable ?q) va" by (rule user_byte_frame [OF wf(1) fr n M(1)])
    finally show "user_byte (copy_trapframe (mem u) (p_trapframe ?q) tf) pt va = user_byte (mem s) (p_pagetable ?q) va" .
  qed
  moreover have "copy_trapframe (mem u) (p_trapframe ?q) tf (tf + of_nat i) =
      (if 112 \<le> i \<and> i < 120 then 0 else mem s (p_trapframe ?q + of_nat i)) \<and>
      copy_trapframe (mem u) (p_trapframe ?q) tf (p_trapframe ?q + of_nat i) = mem s (p_trapframe ?q + of_nat i)"
    if i: "i < TF_SIZE" for i
  proof -
    have "page_of (p_trapframe ?q + of_nat i) \<notin> set ps" using page_of_add [of "p_trapframe ?q" i] O i by simp
    then show ?thesis using m copy_trapframe_byte [of i "mem u" "p_trapframe ?q" tf] i U(4) [of "p_trapframe ?q + of_nat i"] fr sub(2) by auto
  qed
  moreover have "fork sy s = Ok (nextpid s, u\<lparr>mem := copy_trapframe (mem u) (p_trapframe ?q) tf,
      lks := lks s, ftable := add_refs (p_ofile ?q) (ftable s),
      itable := (itable s)(c := (itable s c)\<lparr>i_ref := i_ref (itable s c) + 1\<rparr>),
      procs := (procs s)(np := child_proc sy s p np tf pt)\<rparr>)" (is "_ = Ok (_, ?t)")
    using fork_tail [OF r c a _ u U(2), of tf] t(7) by simp
  moreover have "nextpid u = nextpid s + 1" using mem_only_kern(1) [OF mem_only_trans [OF t(7) U(2)]] by simp
  ultimately show ?thesis using R by (intro exI [of _ ?t] exI [of _ pt] exI [of _ tf]) (simp add: quiet_def)
qed

text \<open>A kernel state over the memory of \<open>k\<close>: process 0 runs, with one open file.\<close>

definition kern_state :: "kmst \<Rightarrow> (nat \<Rightarrow> proc) \<Rightarrow> (nat \<Rightarrow> kfile) \<Rightarrow> kern" where
  "kern_state k P ft = (cst.extend (con_state 0x20 (\<lambda>_. []) (mem k)) (kern.fields ft 8 (Some 0) 0))
     \<lparr>freelist := freelist k, kend := kend k, procs := P, curproc := Some 0, lks := (\<lambda>_. False)\<rparr>"

lemma kern_state [simp]:
  "mem (kern_state k P ft) = mem k" "freelist (kern_state k P ft) = freelist k" "kend (kern_state k P ft) = kend k"
  "procs (kern_state k P ft) = P" "curproc (kern_state k P ft) = Some 0" "lks (kern_state k P ft) = (\<lambda>_. False)"
  "ftable (kern_state k P ft) = ft" "nextpid (kern_state k P ft) = 8" "initproc (kern_state k P ft) = Some 0"
  by (simp_all add: kern_state_def con_state cst.extend_def kern.fields_def)

definition proc0 :: "nat \<Rightarrow> proc" where
  "proc0 = (\<lambda>_. zero_proc)(0 := zero_proc\<lparr>p_state := RUNNING, p_pid := 7, p_pagetable := 0x80100000, p_sz := 0x1000,
     p_trapframe := 0x80300000, p_cwd := Some 0, p_ofile := Some 0 # replicate 15 None\<rparr>)"

definition ftable0 :: "nat \<Rightarrow> kfile" where
  "ftable0 = (\<lambda>_. \<lparr>f_type = FD_DEVICE, f_ref = 1, f_readable = True, f_writable = True, f_pipe = 0, f_ip = 0, f_off = 0, f_major = 1\<rparr>)"

lemma fork_start:
  obtains k ps where "fork_ready (kern_state k proc0 ftable0) 0 1 ps" "own_space (kern_state k proc0 ftable0) 0 ps"
    "user_byte (mem k) 0x80100000 0 = Some 0"
proof -
  let ?ps = "[0x87FFF000, 0x87FFE000, 0x87FFD000, 0x87FFC000, 0x87FFB000, 0x87FFA000, 0x87FF9000, 0x87FF8000,
    0x87FF7000, 0x87FF6000, 0x87FF5000] :: u64 list"
  have kp: "\<forall>p \<in> set ?ps. kpage (boot_kmst 0x80021000) p" by (simp add: kpage_def boot_kmst_def page_aligned_mod)
  obtain k :: kmst and qs rest where t: "?ps = qs @ rest" "length qs \<le> 2" "table_inv k 2 0x80100000 rest"
    "ptset (mem k) 2 0x80100000 = {0x80100000} \<union> set qs" "leafv (mem k) 2 0x80100000 0 = PA2PTE 0x80200000 OR 22 OR 1"
    "\<forall>a. page_of a \<notin> {0x80100000} \<union> set ?ps \<longrightarrow> mem k a = 0"
    by (rule one_page_space [OF _ kp]) simp_all
  let ?s = "kern_state k proc0 ftable0"
  have sq: "set rest \<subseteq> set ?ps" "length qs + length rest = 11"
    using arg_cong [OF t(1), of set] arg_cong [OF t(1), of length] by auto
  have "kmem_inv k rest" using t(3) by (simp add: table_inv_def)
  then have "kmem_inv ?s rest" by (simp add: kmem_inv_def kpage_def)
  then have "fork_ready ?s 0 1 rest"
    using t(2) sq(2) by (simp add: fork_ready_def quiet_def proc0_def ftable0_def zero_proc_def)
  moreover have "pages_from 0 0x1000 = {0}"
    using pages_from_step(1) [of 0 "0x1000"] pages_from_end [of "0x1000" "0x1000"] by simp
  moreover have "source_page (mem k) 0x80100000 (set rest) 0"
    unfolding source_page_def t(5) user_pte(1) using sq(1) user_pte(2) by auto
  moreover have "0x80300000 \<notin> set rest" using sq(1) by auto
  ultimately have "fork_ready ?s 0 1 rest \<and> own_space ?s 0 rest"
    using t(3) by (simp add: own_space_def proc0_def table_inv_def page_aligned_mod Int_commute)
  moreover have "mem k 0x80200000 = 0" using t(6) [rule_format, of "0x80200000"] page_aligned_iff [of "0x80200000"] by (simp add: page_aligned_mod)
  then have "user_byte (mem k) 0x80100000 0 = Some 0"
    unfolding user_byte_def utrans_def t(5) Let_def using user_pte page_aligned_iff [of 0] by simp
  ultimately show ?thesis using that by blast
qed

text \<open>C37: \<open>fork\<close>.  When the process table has a free slot, memory suffices and no lock is held, \<open>fork\<close>
  returns the fresh process identifier, with every lock released again.  The child is runnable, a copy of its parent
  in name, size, directory and open files, each of which has one more reference per descriptor; its saved registers
  are those of its parent but for \<open>a0\<close>, which is 0; and at every address below the size both see the bytes the parent
  had.  No other process changes.\<close>

theorem fork_duplicates:
  fixes s :: "'a kern_scheme"
  assumes "fork_ready s p np ps" "own_space s p ps"
  shows "\<exists>t pt tf. fork sy s = Ok (nextpid s, t) \<and> quiet t \<and> nextpid t = nextpid s + 1 \<and>
    procs t = (procs s)(np := child_proc sy s p np tf pt) \<and> ftable t = add_refs (p_ofile (procs s p)) (ftable s) \<and>
    (\<forall>va < p_sz (procs s p). user_byte (mem t) pt va = user_byte (mem s) (p_pagetable (procs s p)) va \<and>
       user_byte (mem t) (p_pagetable (procs s p)) va = user_byte (mem s) (p_pagetable (procs s p)) va) \<and>
    (\<forall>i < TF_SIZE. mem t (tf + of_nat i) = (if 112 \<le> i \<and> i < 120 then 0 else mem s (p_trapframe (procs s p) + of_nat i)) \<and>
       mem t (p_trapframe (procs s p) + of_nat i) = mem s (p_trapframe (procs s p) + of_nat i))"
  by (rule fork_ok [OF assms])

theorem fork_duplicates_witness:
  "\<exists>k t pt. fork \<lparr>sym_trampoline = 0x80007000, sym_forkret = 0x80001A00, sym_initcode = 0, sym_slash = 0\<rparr>
      (kern_state k proc0 ftable0) = Ok (8, t) \<and> p_pagetable (procs t 1) = pt \<and> p_parent (procs t 1) = Some 0 \<and>
      user_byte (mem k) 0x80100000 0 = Some 0 \<and> user_byte (mem t) pt 0 = Some 0 \<and> f_ref (ftable t 0) = 2"
proof -
  obtain k ps where k: "fork_ready (kern_state k proc0 ftable0) 0 1 ps" "own_space (kern_state k proc0 ftable0) 0 ps"
    "user_byte (mem k) 0x80100000 0 = Some 0"
    by (rule fork_start)
  let ?sy = "\<lparr>sym_trampoline = 0x80007000, sym_forkret = 0x80001A00, sym_initcode = 0, sym_slash = 0\<rparr>"
  obtain t pt tf where t: "fork ?sy (kern_state k proc0 ftable0) = Ok (8, t)"
    "procs t = proc0(1 := child_proc ?sy (kern_state k proc0 ftable0) 0 1 tf pt)"
    "ftable t = add_refs (p_ofile (proc0 0)) ftable0"
    "\<forall>va < p_sz (proc0 0). user_byte (mem t) pt va = user_byte (mem k) (p_pagetable (proc0 0)) va"
    using fork_duplicates [OF k(1,2), of ?sy] unfolding kern_state by blast
  have "p_pagetable (procs t 1) = pt" "p_parent (procs t 1) = Some 0" using t(2) by (simp_all add: child_proc_def new_proc_def)
  moreover have "user_byte (mem t) pt 0 = Some 0" using t(4) [rule_format, of 0] k(3) by (simp add: proc0_def)
  moreover have "f_ref (ftable t 0) = 2" using t(3) by (simp add: add_refs_def proc0_def ftable0_def)
  ultimately show ?thesis using t(1) k(3) by blast
qed

section \<open>The address space of a new process\<close>

lemma proc_map_user: "proc_map tramp tf va AND 16 = 0"
proof -
  have "(PA2PTE p OR f OR 1) AND 16 = 0" if "f OR 1 < 1024" "(f OR 1) AND 16 = 0" for p f :: u64
    using PTE_FLAGS_bits(2) [of "PA2PTE p OR f OR 1"] PTE_FLAGS_PA2PTE [OF that(1), of p] that(2) by (simp add: or.assoc)
  from this [of 10 tramp] this [of 6 tf] show ?thesis by (simp add: proc_map_def)
qed

text \<open>C36: a process starts with an address space that maps the trampoline and its trapframe and nothing else, and
  where a user program can access no address at all: both pages are for supervisor mode only.\<close>

theorem proc_pagetable_private:
  fixes s :: "'a kern_scheme"
  assumes "kmem_inv s ps" "5 \<le> length ps"
  shows "\<exists>pt t rest. proc_pagetable sy p s = Ok (pt, t) \<and> table_inv t 2 pt rest \<and> mem_only s t \<and>
    (\<forall>va < MAXVA. leafv (mem t) 2 pt va =
      (if page_of va = TRAMPOLINE then PA2PTE (sym_trampoline sy) OR (PTE_R OR PTE_X) OR PTE_V
       else if page_of va = TRAPFRAME then PA2PTE (p_trapframe (procs s p)) OR (PTE_R OR PTE_W) OR PTE_V else 0)) \<and>
    (\<forall>va. utrans (mem t) pt va = None)"
proof -
  obtain pt rest and t :: "'a kern_scheme" where t: "proc_pagetable sy p s = Ok (pt, t)" "table_inv t 2 pt rest" "mem_only s t"
    "\<forall>va < MAXVA. leafv (mem t) 2 pt va = proc_map (sym_trampoline sy) (p_trapframe (procs s p)) va"
    using proc_pagetable_ok [OF assms, of sy p] by blast
  have "utrans (mem t) pt va = None" for va
    using t(4) proc_map_user by (simp add: utrans_def Let_def)
  moreover have "PTE_V = 1" by simp
  ultimately show ?thesis using t unfolding proc_map_def by metis
qed

theorem proc_pagetable_private_witness:
  "\<exists>k pt t. proc_pagetable \<lparr>sym_trampoline = 0x80007000, sym_forkret = 0, sym_initcode = 0, sym_slash = 0\<rparr> 0
      (kern_state k proc0 ftable0) = Ok (pt, t) \<and> leafv (mem t) 2 pt TRAMPOLINE = PA2PTE 0x80007000 OR 11 \<and>
      utrans (mem t) pt TRAMPOLINE = None"
proof -
  obtain k ps where k: "fork_ready (kern_state k proc0 ftable0) 0 1 ps" by (rule fork_start)
  then have h: "kmem_inv (kern_state k proc0 ftable0) ps" "5 \<le> length ps" by (simp_all add: fork_ready_def)
  have "page_of TRAMPOLINE = TRAMPOLINE" using page_aligned_iff [of TRAMPOLINE] by (simp add: page_aligned_mod)
  then show ?thesis
    using proc_pagetable_private [OF h, of "\<lparr>sym_trampoline = 0x80007000, sym_forkret = 0, sym_initcode = 0, sym_slash = 0\<rparr>" 0]
    by (auto intro!: exI [of _ k])
qed

section \<open>kill\<close>

lemma kill_loop_skip:
  assumes "\<forall>x \<in> set xs. p_pid (procs s x) \<noteq> pid \<and> \<not> lks s (ProcLock x)"
  shows "kill_loop pid (xs @ ys) s = kill_loop pid ys s"
  using assms by (induction xs) (simp_all add: acquire_def release_def fun_upd_idem)

lemma kill_first:
  assumes "quiet s" "p < NPROC" "p_pid (procs s p) = pid" "\<forall>x < p. p_pid (procs s x) \<noteq> pid" "p_state (procs s p) \<noteq> SLEEPING"
  shows "kill pid s = Ok (0, s\<lparr>procs := (procs s)(p := (procs s p)\<lparr>p_killed := 1\<rparr>)\<rparr>)"
proof -
  have "[0..<NPROC] = [0..<p] @ p # [Suc p..<NPROC]"
    using assms(2) upt_add_eq_append [of 0 p "NPROC - p"] upt_conv_Cons [of p NPROC] by simp
  then show ?thesis
    using kill_loop_skip [of "[0..<p]" s pid] assms
    by (simp add: kill_def acquire_def release_def quiet_def set_proc_def Let_def fun_upd_idem)
qed

text \<open>C38: \<open>kill(0)\<close> finds the first free slot of the process table, whose process identifier is 0, marks it
  killed and reports success.  \<open>allocproc\<close> does not clear the mark, so that the next process to get the slot, here
  the child of a \<open>fork\<close>, starts out killed.\<close>

theorem kill_zero_dooms_child:
  fixes s :: "'a kern_scheme"
  assumes "fork_ready s p np ps" "own_space s p ps" "p_pid (procs s np) = 0" "\<forall>x < np. p_pid (procs s x) \<noteq> 0"
  shows "\<exists>u t. kill 0 s = Ok (0, u) \<and> fork sy u = Ok (nextpid s, t) \<and>
    p_state (procs t np) = RUNNABLE \<and> p_pid (procs t np) = nextpid s \<and> p_killed (procs t np) = 1"
proof -
  let ?u = "s\<lparr>procs := (procs s)(np := (procs s np)\<lparr>p_killed := 1\<rparr>)\<rparr>"
  note R = assms(1) [unfolded fork_ready_def]
  have ne: "p \<noteq> np" using R by auto
  have k: "kill 0 s = Ok (0, ?u)" by (rule kill_first) (use R assms(3,4) in auto)
  have "kmem_inv ?u ps" by (rule kmem_inv_frame [of s]) (use R in auto)
  then have r: "fork_ready ?u p np ps" using R ne by (simp add: fork_ready_def quiet_def)
  have o: "own_space ?u p ps" using assms(2) ne by (simp add: own_space_def Let_def)
  obtain t pt tf where "fork sy ?u = Ok (nextpid ?u, t)" "procs t = (procs ?u)(np := child_proc sy ?u p np tf pt)"
    using fork_ok [OF r o, of sy] by blast
  then show ?thesis using k by (simp add: child_proc_def new_proc_def)
qed

theorem kill_zero_dooms_child_witness:
  "\<exists>k u t. kill 0 (kern_state k proc0 ftable0) = Ok (0, u) \<and>
     fork \<lparr>sym_trampoline = 0x80007000, sym_forkret = 0, sym_initcode = 0, sym_slash = 0\<rparr> u = Ok (8, t) \<and>
     p_killed (procs t 1) = 1"
proof -
  obtain k ps where k: "fork_ready (kern_state k proc0 ftable0) 0 1 ps" "own_space (kern_state k proc0 ftable0) 0 ps"
    by (rule fork_start)
  then show ?thesis
    using kill_zero_dooms_child [OF k, of "\<lparr>sym_trampoline = 0x80007000, sym_forkret = 0, sym_initcode = 0, sym_slash = 0\<rparr>"]
    by (fastforce simp: proc0_def zero_proc_def)
qed

end
