(* ===== verification/Sysfile.thy ===== *)
theory Sysfile
  imports Proc
begin

text \<open>
  System call arguments (\<open>kernel/syscall.c\<close>) and the system calls on files (\<open>kernel/sysfile.c\<close>),
  except \<open>exec\<close>.  Arrays and structures on the kernel stack, and string constants, are memory at
  addresses given by a record.  A handler returns the value for the user, or ends asleep.
\<close>

record kstack =
  sk_path :: u64
  sk_new :: u64
  sk_name :: u64
  sk_nm :: u64
  sk_de :: u64
  sk_ude :: u64
  sk_ede :: u64
  sk_elf :: u64
  sk_ph :: u64
  sk_dot :: u64
  sk_dotdot :: u64

section \<open>Arguments\<close>

definition fetchaddr :: "u64 \<Rightarrow> 'a kern_scheme \<Rightarrow> (u64 option \<times> 'a kern_scheme) res" where
  "fetchaddr addr s =
     (case myproc s of
        None \<Rightarrow> Fail Undefined
      | Some p \<Rightarrow>
          if p_sz (procs s p) \<le> addr \<or> p_sz (procs s p) < addr + 8 then Ok (None, s)
          else
            andthen (copyin_obj (p_pagetable (procs s p)) addr 8 s) (\<lambda>(r, bs, s).
            if r \<noteq> 0 then Ok (None, s) else Ok (Some (le_word bs), s)))"

definition fetchstr :: "u64 \<Rightarrow> u64 \<Rightarrow> u64 \<Rightarrow> 'a kern_scheme \<Rightarrow> (int \<times> 'a kern_scheme) res" where
  "fetchstr addr buf mx s =
     (case myproc s of
        None \<Rightarrow> Fail Undefined
      | Some p \<Rightarrow>
          andthen (copyinstr (p_pagetable (procs s p)) buf addr mx s) (\<lambda>(r, s).
          if r < 0 then Ok (-1, s)
          else (case strlen (at (mem s) buf) of None \<Rightarrow> Fail Undefined | Some n \<Rightarrow> Ok (int n, s))))"

definition argraw :: "nat \<Rightarrow> 'a kern_scheme \<Rightarrow> u64 res" where
  "argraw n s =
     (case myproc s of
        None \<Rightarrow> Fail Undefined
      | Some p \<Rightarrow> if n \<le> 5 then Ok (tf_get p (TF_A0 + 8 * of_nat n) s) else Fail (Panic ''argraw''))"

definition argint :: "nat \<Rightarrow> 'a kern_scheme \<Rightarrow> int res" where
  "argint n s = andthen (argraw n s) (\<lambda>v. Ok (sint (ucast v :: u32)))"

definition argaddr :: "nat \<Rightarrow> 'a kern_scheme \<Rightarrow> u64 res" where
  "argaddr n s = argraw n s"

definition argstr :: "nat \<Rightarrow> u64 \<Rightarrow> u64 \<Rightarrow> 'a kern_scheme \<Rightarrow> (int \<times> 'a kern_scheme) res" where
  "argstr n buf mx s = andthen (argaddr n s) (\<lambda>addr. fetchstr addr buf mx s)"

section \<open>File descriptors\<close>

text \<open>The descriptor and its file, or \<open>None\<close> where the code returns \<open>-1\<close>.\<close>

definition argfd :: "nat \<Rightarrow> 'a kern_scheme \<Rightarrow> (nat \<times> nat) option res" where
  "argfd n s =
     andthen (argint n s) (\<lambda>fd.
     if fd < 0 \<or> fd \<ge> int NOFILE then Ok None
     else
       (case myproc s of
          None \<Rightarrow> Fail Undefined
        | Some p \<Rightarrow>
            (case p_ofile (procs s p) ! nat fd of None \<Rightarrow> Ok None | Some f \<Rightarrow> Ok (Some (nat fd, f)))))"

definition set_ofile :: "nat \<Rightarrow> nat \<Rightarrow> nat option \<Rightarrow> 'a kern_scheme \<Rightarrow> 'a kern_scheme" where
  "set_ofile p fd f s = set_proc p (\<lambda>q. q\<lparr>p_ofile := (p_ofile q)[fd := f]\<rparr>) s"

fun fdalloc_loop :: "nat \<Rightarrow> nat \<Rightarrow> nat list \<Rightarrow> 'a kern_scheme \<Rightarrow> int \<times> 'a kern_scheme" where
  "fdalloc_loop p f [] s = (-1, s)"
| "fdalloc_loop p f (fd # fds) s =
     (if p_ofile (procs s p) ! fd = None then (int fd, set_ofile p fd (Some f) s) else fdalloc_loop p f fds s)"

definition fdalloc :: "nat \<Rightarrow> 'a kern_scheme \<Rightarrow> (int \<times> 'a kern_scheme) res" where
  "fdalloc f s = (case myproc s of None \<Rightarrow> Fail Undefined | Some p \<Rightarrow> Ok (fdalloc_loop p f [0..<NOFILE] s))"

definition sys_dup :: "'a kern_scheme \<Rightarrow> (int \<times> 'a kern_scheme) res" where
  "sys_dup s =
     andthen (argfd 0 s) (\<lambda>r.
     case r of
       None \<Rightarrow> Ok (-1, s)
     | Some (_, f) \<Rightarrow>
         andthen (fdalloc f s) (\<lambda>(fd, s).
         if fd < 0 then Ok (-1, s)
         else andthen (filedup f s) (\<lambda>(_, s). Ok (fd, s))))"

definition sys_read :: "'a kern_scheme \<Rightarrow> (prun \<times> 'a kern_scheme) res" where
  "sys_read s =
     andthen (argaddr 1 s) (\<lambda>p.
     andthen (argint 2 s) (\<lambda>n.
     andthen (argfd 0 s) (\<lambda>r.
     case r of
       None \<Rightarrow> Ok (Returns (-1), s)
     | Some (_, f) \<Rightarrow> fileread f p n s)))"

definition sys_write :: "(int \<Rightarrow> bool) \<Rightarrow> 'a kern_scheme \<Rightarrow> (prun \<times> 'a kern_scheme) res" where
  "sys_write K s =
     andthen (argaddr 1 s) (\<lambda>p.
     andthen (argint 2 s) (\<lambda>n.
     andthen (argfd 0 s) (\<lambda>r.
     case r of
       None \<Rightarrow> Ok (Returns (-1), s)
     | Some (_, f) \<Rightarrow> filewrite K f p n s)))"

definition sys_close :: "'a kern_scheme \<Rightarrow> (int \<times> 'a kern_scheme) res" where
  "sys_close s =
     andthen (argfd 0 s) (\<lambda>r.
     case r of
       None \<Rightarrow> Ok (-1, s)
     | Some (fd, f) \<Rightarrow>
         (case myproc s of
            None \<Rightarrow> Fail Undefined
          | Some p \<Rightarrow> andthen (fileclose f (set_ofile p fd None s)) (\<lambda>s. Ok (0, s))))"

definition sys_fstat :: "u8 list \<Rightarrow> 'a kern_scheme \<Rightarrow> (int \<times> 'a kern_scheme) res" where
  "sys_fstat pad s =
     andthen (argaddr 1 s) (\<lambda>st.
     andthen (argfd 0 s) (\<lambda>r.
     case r of
       None \<Rightarrow> Ok (-1, s)
     | Some (_, f) \<Rightarrow> filestat pad f st s))"

section \<open>Links\<close>

definition add_nlink :: "nat \<Rightarrow> u16 \<Rightarrow> 'a kern_scheme \<Rightarrow> 'a kern_scheme" where
  "add_nlink ip d s = set_inode ip (\<lambda>q. q\<lparr>i_nlink := i_nlink q + d\<rparr>) s"

definition link_bad :: "nat \<Rightarrow> 'a kern_scheme \<Rightarrow> (int \<times> 'a kern_scheme) res" where
  "link_bad ip s =
     andthen (ilock ip s) (\<lambda>s.
     andthen (iupdate ip (add_nlink ip (-1) s)) (\<lambda>s.
     andthen (iunlockput ip s) (\<lambda>s.
     andthen (end_op s) (\<lambda>s. Ok (-1, s)))))"

definition sys_link :: "kstack \<Rightarrow> 'a kern_scheme \<Rightarrow> (int \<times> 'a kern_scheme) res" where
  "sys_link sk s =
     andthen (argstr 0 (sk_path sk) (of_nat MAXPATH) s) (\<lambda>(r, s).
     if r < 0 then Ok (-1, s)
     else
       andthen (argstr 1 (sk_new sk) (of_nat MAXPATH) s) (\<lambda>(r, s).
       if r < 0 then Ok (-1, s)
       else
         andthen (begin_op s) (\<lambda>s.
         andthen (namei (sk_path sk) (sk_nm sk) (sk_de sk) s) (\<lambda>(r, s).
         case r of
           None \<Rightarrow> andthen (end_op s) (\<lambda>s. Ok (-1, s))
         | Some ip \<Rightarrow>
             andthen (ilock ip s) (\<lambda>s.
             if i_type (itable s ip) = T_DIR then
               andthen (iunlockput ip s) (\<lambda>s.
               andthen (end_op s) (\<lambda>s. Ok (-1, s)))
             else
               andthen (iupdate ip (add_nlink ip 1 s)) (\<lambda>s.
               andthen (iunlock ip s) (\<lambda>s.
               andthen (nameiparent (sk_new sk) (sk_name sk) (sk_de sk) s) (\<lambda>(r, s).
               case r of
                 None \<Rightarrow> link_bad ip s
               | Some dp \<Rightarrow>
                   andthen (ilock dp s) (\<lambda>s.
                   andthen (if i_dev (itable s dp) \<noteq> i_dev (itable s ip) then Ok (-1, s)
                            else dirlink dp (sk_name sk) (i_inum (itable s ip)) (sk_de sk) s) (\<lambda>(r, s).
                   if r < 0 then andthen (iunlockput dp s) (\<lambda>s. link_bad ip s)
                   else
                     andthen (iunlockput dp s) (\<lambda>s.
                     andthen (iput ip s) (\<lambda>s.
                     andthen (end_op s) (\<lambda>s. Ok (0, s))))))))))))))"

fun isdirempty_loop :: "nat \<Rightarrow> u64 \<Rightarrow> u32 list \<Rightarrow> 'a kern_scheme \<Rightarrow> (bool \<times> 'a kern_scheme) res" where
  "isdirempty_loop dp de [] s = Ok (True, s)"
| "isdirempty_loop dp de (off # offs) s =
     andthen (readi dp False de off 16 s) (\<lambda>(r, s).
     if r \<noteq> 16 then Fail (Panic ''isdirempty: readi'')
     else if de_inum (mem s) de \<noteq> 0 then Ok (False, s)
     else isdirempty_loop dp de offs s)"

definition isdirempty :: "nat \<Rightarrow> u64 \<Rightarrow> 'a kern_scheme \<Rightarrow> (bool \<times> 'a kern_scheme) res" where
  "isdirempty dp de s = isdirempty_loop dp de (drop 2 (dir_offs (i_size (itable s dp)))) s"

definition unlink_bad :: "nat \<Rightarrow> 'a kern_scheme \<Rightarrow> (int \<times> 'a kern_scheme) res" where
  "unlink_bad dp s =
     andthen (iunlockput dp s) (\<lambda>s.
     andthen (end_op s) (\<lambda>s. Ok (-1, s)))"

definition sys_unlink :: "kstack \<Rightarrow> 'a kern_scheme \<Rightarrow> (int \<times> 'a kern_scheme) res" where
  "sys_unlink sk s =
     andthen (argstr 0 (sk_path sk) (of_nat MAXPATH) s) (\<lambda>(r, s).
     if r < 0 then Ok (-1, s)
     else
       andthen (begin_op s) (\<lambda>s.
       andthen (nameiparent (sk_path sk) (sk_name sk) (sk_de sk) s) (\<lambda>(r, s).
       case r of
         None \<Rightarrow> andthen (end_op s) (\<lambda>s. Ok (-1, s))
       | Some dp \<Rightarrow>
           andthen (ilock dp s) (\<lambda>s.
           if namecmp (mem s) (sk_name sk) (sk_dot sk) = 0 \<or> namecmp (mem s) (sk_name sk) (sk_dotdot sk) = 0
           then unlink_bad dp s
           else
             andthen (dirlookup dp (sk_name sk) (sk_de sk) s) (\<lambda>(r, s).
             case r of
               None \<Rightarrow> unlink_bad dp s
             | Some (ip, off) \<Rightarrow>
                 andthen (ilock ip s) (\<lambda>s.
                 if sint (i_nlink (itable s ip)) < 1 then Fail (Panic ''unlink: nlink < 1'')
                 else
                   andthen (if i_type (itable s ip) = T_DIR then isdirempty ip (sk_ede sk) s else Ok (True, s)) (\<lambda>(e, s).
                   if \<not> e then andthen (iunlockput ip s) (\<lambda>s. unlink_bad dp s)
                   else
                     let s = s\<lparr>mem := memset (mem s) (sk_ude sk) 0 16\<rparr> in
                     andthen (writei dp False (sk_ude sk) off 16 s) (\<lambda>(r, s).
                     if r \<noteq> 16 then Fail (Panic ''unlink: writei'')
                     else
                       andthen (if i_type (itable s ip) = T_DIR then iupdate dp (add_nlink dp (-1) s) else Ok s) (\<lambda>s.
                       andthen (iunlockput dp s) (\<lambda>s.
                       andthen (iupdate ip (add_nlink ip (-1) s)) (\<lambda>s.
                       andthen (iunlockput ip s) (\<lambda>s.
                       andthen (end_op s) (\<lambda>s. Ok (0, s))))))))))))))"

section \<open>Creating and opening\<close>

definition create_fail :: "nat \<Rightarrow> nat \<Rightarrow> 'a kern_scheme \<Rightarrow> (nat option \<times> 'a kern_scheme) res" where
  "create_fail ip dp s =
     andthen (iupdate ip (set_inode ip (\<lambda>q. q\<lparr>i_nlink := 0\<rparr>) s)) (\<lambda>s.
     andthen (iunlockput ip s) (\<lambda>s.
     andthen (iunlockput dp s) (\<lambda>s. Ok (None, s))))"

text \<open>The entries for the directory itself and its parent: \<open>-1\<close> if one could not be made.\<close>

definition create_dots :: "kstack \<Rightarrow> nat \<Rightarrow> nat \<Rightarrow> 'a kern_scheme \<Rightarrow> (int \<times> 'a kern_scheme) res" where
  "create_dots sk ip dp s =
     andthen (dirlink ip (sk_dot sk) (i_inum (itable s ip)) (sk_de sk) s) (\<lambda>(r, s).
     if r < 0 then Ok (-1, s)
     else
       andthen (dirlink ip (sk_dotdot sk) (i_inum (itable s dp)) (sk_de sk) s) (\<lambda>(r, s).
       if r < 0 then Ok (-1, s) else Ok (0, s)))"

definition create :: "kstack \<Rightarrow> u64 \<Rightarrow> u16 \<Rightarrow> u16 \<Rightarrow> u16 \<Rightarrow> 'a kern_scheme \<Rightarrow> (nat option \<times> 'a kern_scheme) res" where
  "create sk path type major minor s =
     andthen (nameiparent path (sk_name sk) (sk_de sk) s) (\<lambda>(r, s).
     case r of
       None \<Rightarrow> Ok (None, s)
     | Some dp \<Rightarrow>
         andthen (ilock dp s) (\<lambda>s.
         andthen (dirlookup dp (sk_name sk) (sk_de sk) s) (\<lambda>(r, s).
         case r of
           Some (ip, _) \<Rightarrow>
             andthen (iunlockput dp s) (\<lambda>s.
             andthen (ilock ip s) (\<lambda>s.
             if type = T_FILE \<and> (i_type (itable s ip) = T_FILE \<or> i_type (itable s ip) = T_DEVICE) then Ok (Some ip, s)
             else andthen (iunlockput ip s) (\<lambda>s. Ok (None, s))))
         | None \<Rightarrow>
             andthen (ialloc (i_dev (itable s dp)) type s) (\<lambda>(r, s).
             case r of
               None \<Rightarrow> andthen (iunlockput dp s) (\<lambda>s. Ok (None, s))
             | Some ip \<Rightarrow>
                 andthen (ilock ip s) (\<lambda>s.
                 andthen (iupdate ip (set_inode ip (\<lambda>q. q\<lparr>i_major := major, i_minor := minor, i_nlink := 1\<rparr>) s)) (\<lambda>s.
                 andthen (if type = T_DIR then create_dots sk ip dp s else Ok (0, s)) (\<lambda>(r, s).
                 if r < 0 then create_fail ip dp s
                 else
                   andthen (dirlink dp (sk_name sk) (i_inum (itable s ip)) (sk_de sk) s) (\<lambda>(r, s).
                   if r < 0 then create_fail ip dp s
                   else
                     andthen (if type = T_DIR then iupdate dp (add_nlink dp 1 s) else Ok s) (\<lambda>s.
                     andthen (iunlockput dp s) (\<lambda>s. Ok (Some ip, s)))))))))))"

definition open_fail :: "nat \<Rightarrow> 'a kern_scheme \<Rightarrow> (int \<times> 'a kern_scheme) res" where
  "open_fail ip s =
     andthen (iunlockput ip s) (\<lambda>s.
     andthen (end_op s) (\<lambda>s. Ok (-1, s)))"

text \<open>The inode to open, locked; \<open>None\<close> where the call has already failed and ended its transaction.\<close>

definition open_inode :: "kstack \<Rightarrow> u32 \<Rightarrow> 'a kern_scheme \<Rightarrow> (nat option \<times> 'a kern_scheme) res" where
  "open_inode sk omode s =
     (if omode AND O_CREATE \<noteq> 0 then
        andthen (create sk (sk_path sk) T_FILE 0 0 s) (\<lambda>(r, s).
        case r of
          None \<Rightarrow> andthen (end_op s) (\<lambda>s. Ok (None, s))
        | Some ip \<Rightarrow> Ok (Some ip, s))
      else
        andthen (namei (sk_path sk) (sk_nm sk) (sk_de sk) s) (\<lambda>(r, s).
        case r of
          None \<Rightarrow> andthen (end_op s) (\<lambda>s. Ok (None, s))
        | Some ip \<Rightarrow>
            andthen (ilock ip s) (\<lambda>s.
            if i_type (itable s ip) = T_DIR \<and> omode \<noteq> O_RDONLY then
              andthen (open_fail ip s) (\<lambda>(_, s). Ok (None, s))
            else Ok (Some ip, s))))"

definition open_file :: "u32 \<Rightarrow> nat \<Rightarrow> nat \<Rightarrow> 'a kern_scheme \<Rightarrow> 'a kern_scheme" where
  "open_file omode ip f s =
     set_file f (\<lambda>q.
       (if i_type (itable s ip) = T_DEVICE then q\<lparr>f_type := FD_DEVICE, f_major := i_major (itable s ip)\<rparr>
        else q\<lparr>f_type := FD_INODE, f_off := 0\<rparr>)
       \<lparr>f_ip := ip, f_readable := omode AND O_WRONLY = 0,
        f_writable := omode AND O_WRONLY \<noteq> 0 \<or> omode AND O_RDWR \<noteq> 0\<rparr>) s"

definition open_entry :: "u32 \<Rightarrow> nat \<Rightarrow> nat \<Rightarrow> 'a kern_scheme \<Rightarrow> (int \<times> 'a kern_scheme) res" where
  "open_entry omode ip f s =
     andthen (fdalloc f s) (\<lambda>(fd, s).
     if fd < 0 then andthen (fileclose f s) (\<lambda>s. open_fail ip s)
     else
       let s = open_file omode ip f s in
       andthen (if omode AND O_TRUNC \<noteq> 0 \<and> i_type (itable s ip) = T_FILE then itrunc ip s else Ok s) (\<lambda>s.
       andthen (iunlock ip s) (\<lambda>s.
       andthen (end_op s) (\<lambda>s. Ok (fd, s)))))"

definition sys_open :: "kstack \<Rightarrow> 'a kern_scheme \<Rightarrow> (int \<times> 'a kern_scheme) res" where
  "sys_open sk s =
     andthen (argint 1 s) (\<lambda>m.
     let omode = (of_int m :: u32) in
     andthen (argstr 0 (sk_path sk) (of_nat MAXPATH) s) (\<lambda>(n, s).
     if n < 0 then Ok (-1, s)
     else
       andthen (begin_op s) (\<lambda>s.
       andthen (open_inode sk omode s) (\<lambda>(r, s).
       case r of
         None \<Rightarrow> Ok (-1, s)
       | Some ip \<Rightarrow>
           if i_type (itable s ip) = T_DEVICE \<and>
              (sint (i_major (itable s ip)) < 0 \<or> sint (i_major (itable s ip)) \<ge> int NDEV)
           then open_fail ip s
           else
             andthen (filealloc s) (\<lambda>(r, s).
             case r of
               None \<Rightarrow> open_fail ip s
             | Some f \<Rightarrow> open_entry omode ip f s)))))"

definition make_node :: "kstack \<Rightarrow> u16 \<Rightarrow> u16 \<Rightarrow> u16 \<Rightarrow> 'a kern_scheme \<Rightarrow> (int \<times> 'a kern_scheme) res" where
  "make_node sk type major minor s =
     andthen (argstr 0 (sk_path sk) (of_nat MAXPATH) s) (\<lambda>(r, s).
     if r < 0 then andthen (end_op s) (\<lambda>s. Ok (-1, s))
     else
       andthen (create sk (sk_path sk) type major minor s) (\<lambda>(r, s).
       case r of
         None \<Rightarrow> andthen (end_op s) (\<lambda>s. Ok (-1, s))
       | Some ip \<Rightarrow>
           andthen (iunlockput ip s) (\<lambda>s.
           andthen (end_op s) (\<lambda>s. Ok (0, s)))))"

definition sys_mkdir :: "kstack \<Rightarrow> 'a kern_scheme \<Rightarrow> (int \<times> 'a kern_scheme) res" where
  "sys_mkdir sk s = andthen (begin_op s) (\<lambda>s. make_node sk T_DIR 0 0 s)"

definition sys_mknod :: "kstack \<Rightarrow> 'a kern_scheme \<Rightarrow> (int \<times> 'a kern_scheme) res" where
  "sys_mknod sk s =
     andthen (begin_op s) (\<lambda>s.
     andthen (argint 1 s) (\<lambda>major.
     andthen (argint 2 s) (\<lambda>minor.
     make_node sk T_DEVICE (of_int major) (of_int minor) s)))"

definition sys_chdir :: "kstack \<Rightarrow> 'a kern_scheme \<Rightarrow> (int \<times> 'a kern_scheme) res" where
  "sys_chdir sk s =
     (case myproc s of
        None \<Rightarrow> Fail Undefined
      | Some p \<Rightarrow>
          andthen (begin_op s) (\<lambda>s.
          andthen (argstr 0 (sk_path sk) (of_nat MAXPATH) s) (\<lambda>(r, s).
          andthen (if r < 0 then Ok (None, s) else namei (sk_path sk) (sk_nm sk) (sk_de sk) s) (\<lambda>(r, s).
          case r of
            None \<Rightarrow> andthen (end_op s) (\<lambda>s. Ok (-1, s))
          | Some ip \<Rightarrow>
              andthen (ilock ip s) (\<lambda>s.
              if i_type (itable s ip) \<noteq> T_DIR then open_fail ip s
              else
                andthen (iunlock ip s) (\<lambda>s.
                case p_cwd (procs s p) of
                  None \<Rightarrow> Fail Undefined
                | Some cwd \<Rightarrow>
                    andthen (iput cwd s) (\<lambda>s.
                    andthen (end_op s) (\<lambda>s.
                    Ok (0, set_proc p (\<lambda>q. q\<lparr>p_cwd := Some ip\<rparr>) s)))))))))"

definition pipe_undo :: "nat \<Rightarrow> int list \<Rightarrow> nat \<Rightarrow> nat \<Rightarrow> 'a kern_scheme \<Rightarrow> (int \<times> 'a kern_scheme) res" where
  "pipe_undo p fds rfl wfl s =
     (let s = fold (\<lambda>fd s. set_ofile p (nat fd) None s) fds s in
      andthen (fileclose rfl s) (\<lambda>s.
      andthen (fileclose wfl s) (\<lambda>s. Ok (-1, s))))"

definition sys_pipe :: "'a kern_scheme \<Rightarrow> (int \<times> 'a kern_scheme) res" where
  "sys_pipe s =
     (case myproc s of
        None \<Rightarrow> Fail Undefined
      | Some p \<Rightarrow>
          andthen (argaddr 0 s) (\<lambda>fdarray.
          andthen (pipealloc s) (\<lambda>(r, s).
          case r of
            None \<Rightarrow> Ok (-1, s)
          | Some (rfl, wfl) \<Rightarrow>
              andthen (fdalloc rfl s) (\<lambda>(fd0, s).
              if fd0 < 0 then pipe_undo p [] rfl wfl s
              else
                andthen (fdalloc wfl s) (\<lambda>(fd1, s).
                if fd1 < 0 then pipe_undo p [fd0] rfl wfl s
                else
                  andthen (copyout_obj (p_pagetable (procs s p)) fdarray (le_bytes 4 (of_int fd0 :: u32)) s) (\<lambda>(r, s).
                  if r < 0 then pipe_undo p [fd0, fd1] rfl wfl s
                  else
                    andthen (copyout_obj (p_pagetable (procs s p)) (fdarray + 4) (le_bytes 4 (of_int fd1 :: u32)) s) (\<lambda>(r, s).
                    if r < 0 then pipe_undo p [fd0, fd1] rfl wfl s
                    else Ok (0, s))))))))"

end
