(* ===== verification/Filerefs.thy ===== *)
theory Filerefs
  imports Kview Fork Sysfile
begin

text \<open>
  Reference counts of open files.  The count of a file (\<open>f_ref\<close>) is the number of descriptors of
  all processes that name it; a system call that holds a file it has not yet entered in a table, or has
  entered before it took its reference, is off by the references \<open>h\<close> it has in hand.
\<close>

section \<open>Counts and descriptors\<close>

type_synonym fdstate = "(nat \<Rightarrow> int) \<times> (nat \<Rightarrow> nat option list)"

definition fdview :: "'a kern_scheme \<Rightarrow> fdstate" where
  "fdview s = (\<lambda>f. f_ref (ftable s f), \<lambda>p. p_ofile (procs s p))"

definition descs :: "(nat \<Rightarrow> nat option list) \<Rightarrow> nat \<Rightarrow> (nat \<times> nat) set" where
  "descs F f = {(p, fd). fd < NOFILE \<and> F p ! fd = Some f}"

definition balanced :: "(nat \<Rightarrow> int) \<Rightarrow> fdstate \<Rightarrow> bool" where
  "balanced h v \<longleftrightarrow> (\<forall>p. length (snd v p) = NOFILE) \<and>
     (\<forall>f. finite (descs (snd v) f) \<and> fst v f = int (card (descs (snd v) f)) + h f)"

lemma balanced_ref: "balanced h (R, F) \<Longrightarrow> balanced (h(f := h f + d)) (R(f := R f + d), F)"
  by (simp add: balanced_def)

lemma descs_put:
  assumes "length (F p) = NOFILE" "fd < NOFILE" "F p ! fd = None"
  shows "descs (F(p := (F p)[fd := Some f])) g = (if g = f then insert (p, fd) (descs F g) else descs F g)"
  using assms by (auto simp: descs_def nth_list_update split: if_splits)

lemma descs_clear:
  assumes "length (F p) = NOFILE" "fd < NOFILE" "F p ! fd = Some f"
  shows "descs (F(p := (F p)[fd := None])) g = (if g = f then descs F g - {(p, fd)} else descs F g)"
  using assms by (auto simp: descs_def nth_list_update split: if_splits)

lemma balanced_put:
  assumes "balanced h (R, F)" "fd < NOFILE" "F p ! fd = None"
  shows "balanced (h(f := h f - 1)) (R, F(p := (F p)[fd := Some f]))"
proof -
  have "length (F p) = NOFILE" using assms(1) by (simp add: balanced_def)
  moreover have "(p, fd) \<notin> descs F f" using assms(3) by (simp add: descs_def)
  ultimately show ?thesis using assms by (simp add: balanced_def descs_put)
qed

lemma balanced_clear:
  assumes "balanced h (R, F)" "fd < NOFILE" "F p ! fd = Some f"
  shows "balanced (h(f := h f + 1)) (R, F(p := (F p)[fd := None]))"
proof -
  have "length (F p) = NOFILE" using assms(1) by (simp add: balanced_def)
  moreover have "(p, fd) \<in> descs F f" "finite (descs F f)" using assms by (auto simp: descs_def balanced_def)
  then have "int (card (descs F f)) = int (card (descs F f - {(p, fd)})) + 1"
    using card_Suc_Diff1 [of "descs F f" "(p, fd)"] by simp
  ultimately show ?thesis using assms by (simp add: balanced_def descs_clear)
qed

section \<open>Operations that leave both alone\<close>

interpretation fdv: mem_frame "fdview :: 'a kern_scheme \<Rightarrow> fdstate"
  by unfold_locales (simp_all add: fdview_def same_procs_fields)

abbreviation fdkeep :: "fdstate \<Rightarrow> 'a kern_scheme res \<Rightarrow> bool" where
  "fdkeep v \<equiv> okp (\<lambda>t. fdview t = v)"

abbreviation fdkeep2 :: "fdstate \<Rightarrow> ('b \<times> 'a kern_scheme) res \<Rightarrow> bool" where
  "fdkeep2 v \<equiv> okp (\<lambda>(x, t). fdview t = v)"

lemma fdk_argstr [mk]: "fdview s = v \<Longrightarrow> fdkeep2 v (argstr n buf mx s)"
  unfolding argstr_def fetchstr_def by (rule fdv.keep_bind(2) [of v] okp_struct okp_res | simp add: mk)+

lemma fdk_create_dots [mk]: "fdview s = v \<Longrightarrow> fdkeep2 v (create_dots sk ip dp s)"
  unfolding create_dots_def by (rule fdv.keep_bind [of v] okp_struct | simp add: mk)+

lemma fdk_create_fail [mk]: "fdview s = v \<Longrightarrow> fdkeep2 v (create_fail ip dp s)"
  unfolding create_fail_def by (rule fdv.keep_bind [of v] okp_struct | simp add: mk)+

lemma fdk_create [mk]: "fdview s = v \<Longrightarrow> fdkeep2 v (create sk path ty major minor s)"
  unfolding create_def by (rule fdv.keep_bind [of v] okp_struct | simp add: mk add_nlink_def)+

lemma fdk_open_fail [mk]: "fdview s = v \<Longrightarrow> fdkeep2 v (open_fail ip s)"
  unfolding open_fail_def by (rule fdv.keep_bind [of v] okp_struct | simp add: mk)+

lemma fdk_open_inode [mk]: "fdview s = v \<Longrightarrow> fdkeep2 v (open_inode sk om s)"
  unfolding open_inode_def by (rule fdv.keep_bind [of v] okp_struct | simp add: mk)+

section \<open>What the operations on files do to them\<close>

lemma fdview_upd [simp]:
  "fdview (s\<lparr>lks := l\<rparr>) = fdview s" "fdview (s\<lparr>nextpid := n\<rparr>) = fdview s" "fdview (s\<lparr>initproc := i\<rparr>) = fdview s"
  by (simp_all add: fdview_def)

lemma fdview_set_file: "fdview (set_file f g s) = ((fst (fdview s))(f := f_ref (g (ftable s f))), snd (fdview s))"
  by (auto simp: fdview_def set_file_def)

lemma fdview_set_proc: "fdview (set_proc p g s) = (fst (fdview s), (snd (fdview s))(p := p_ofile (g (procs s p))))"
  by (auto simp: fdview_def set_proc_def)

lemma fdview_same: "fst (fdview s) f = f_ref (ftable s f)" "snd (fdview s) p = p_ofile (procs s p)"
  by (simp_all add: fdview_def)

lemma fd_filedup:
  "fdview s = (R, F) \<Longrightarrow> okp (\<lambda>(g, t). g = f \<and> fdview t = (R(f := R f + 1), F)) (filedup f s)"
  using fdview_same(1) [of s f] by (simp add: filedup_def acquire_def release_def fdview_set_file)

lemma fd_filealloc_loop:
  "fdview s = (R, F) \<Longrightarrow>
   okp (\<lambda>(r, t). case r of None \<Rightarrow> fdview t = (R, F) | Some f \<Rightarrow> fdview t = (R(f := R f + 1), F)) (filealloc_loop fs s)"
proof (induction fs)
  case (Cons f fs)
  then show ?case using fdview_same(1) [of s f] by (simp add: release_def fdview_set_file)
qed (simp add: release_def)

lemma fd_filealloc:
  "fdview s = (R, F) \<Longrightarrow>
   okp (\<lambda>(r, t). case r of None \<Rightarrow> fdview t = (R, F) | Some f \<Rightarrow> fdview t = (R(f := R f + 1), F)) (filealloc s)"
  using fd_filealloc_loop [of "s\<lparr>lks := l\<rparr>" R F "[0..<NFILE]" for l] by (simp add: filealloc_def acquire_def)

lemma fd_fileclose:
  assumes "fdview s = (R, F)"
  shows "okp (\<lambda>t. fdview t = (R(f := R f - 1), F)) (fileclose f s)"
proof -
  let ?v = "(R(f := R f - 1), F)" and ?s = "s\<lparr>lks := (lks s)(FtableLock := True)\<rparr>"
  let ?t = "set_file f (\<lambda>q. q\<lparr>f_ref := f_ref q - 1\<rparr>) ?s"
  have R: "R f = f_ref (ftable s f)" using fdview_same(1) [of s f] assms by simp
  have v: "fdview ?t = ?v" using R assms by (simp add: fdview_set_file)
  have z: "fdview (set_file f (\<lambda>q. q\<lparr>f_ref := 0, f_type := FD_NONE\<rparr>) ?t) = ?v" if "f_ref (ftable s f) = 1"
    unfolding fdview_set_file [of f _ ?t] v using R that by simp
  have drop: "fdkeep ?v (andthen (release FtableLock u) (\<lambda>s.
      if ty = FD_PIPE then pipeclose pi w s
      else if ty = FD_INODE \<or> ty = FD_DEVICE then andthen (begin_op s) (\<lambda>s. andthen (iput ip s) (\<lambda>s. end_op s)) else Ok s))"
    if "fdview u = ?v" for u :: "'a kern_scheme" and ty pi w ip
    by (rule fdv.keep_bind [of ?v] okp_struct | simp add: mk that)+
  consider "f_ref (ftable s f) < 1" | "f_ref (ftable s f) = 1" | "f_ref (ftable s f) > 1" by linarith
  then show ?thesis
  proof cases
    case 2
    then show ?thesis
      using drop [OF z, of "f_type (ftable s f)" "f_pipe (ftable s f)" "f_writable (ftable s f)" "f_ip (ftable s f)"]
      by (simp add: fileclose_def acquire_def Let_def set_file_def cong: if_cong)
  next
    case 3
    then show ?thesis using fdv.mk_release [OF v] by (simp add: fileclose_def acquire_def Let_def set_file_def)
  qed (simp add: fileclose_def acquire_def)
qed

lemma fdalloc_loop_cases:
  assumes "fdalloc_loop p f fds s = (fd, t)" "\<forall>i \<in> set fds. i < NOFILE"
  shows "fd = -1 \<and> t = s \<or>
    (\<exists>i. fd = int i \<and> i < NOFILE \<and> p_ofile (procs s p) ! i = None \<and> t = set_ofile p i (Some f) s)"
  using assms
proof (induction fds)
  case (Cons i fds)
  show ?case
  proof (cases "p_ofile (procs s p) ! i = None")
    case True
    then show ?thesis using Cons.prems by (intro disjI2 exI [of _ i]) simp
  next
    case False
    then have "fdalloc_loop p f (i # fds) s = fdalloc_loop p f fds s" by auto
    then show ?thesis using Cons.prems Cons.IH by simp
  qed
qed simp

lemma fd_fdalloc:
  assumes "fdview s = v" "balanced h v"
  shows "okp (\<lambda>(fd, t). if fd < 0 then fdview t = v else balanced (h(f := h f - 1)) (fdview t)) (fdalloc f s)"
proof (cases "myproc s")
  case (Some p)
  obtain fd t where r: "fdalloc_loop p f [0..<NOFILE] s = (fd, t)"
    by (cases "fdalloc_loop p f [0..<NOFILE] s")
  have "if fd < 0 then fdview t = v else balanced (h(f := h f - 1)) (fdview t)"
  proof (cases "fd = -1 \<and> t = s")
    case False
    then obtain i where i: "fd = int i" "i < NOFILE" "p_ofile (procs s p) ! i = None" "t = set_ofile p i (Some f) s"
      using fdalloc_loop_cases [OF r] by auto
    have "fdview t = (fst v, (snd v)(p := (snd v p)[i := Some f]))"
      using i(4) assms(1) by (simp add: set_ofile_def fdview_set_proc fdview_same [symmetric])
    then show ?thesis
      using balanced_put [of h "fst v" "snd v" i p f] i assms fdview_same(2) [of s p] by simp
  qed (use assms in auto)
  then show ?thesis using Some r by (simp add: fdalloc_def)
qed (simp add: fdalloc_def)

lemma balanced_filedup: "balanced h (fdview s) \<Longrightarrow> okp (\<lambda>(g, t). g = f \<and> balanced (h(f := h f + 1)) (fdview t)) (filedup f s)"
  by (cases "fdview s") (rule okp_mono [OF fd_filedup], assumption, auto simp: balanced_ref)

lemma balanced_fileclose: "balanced h (fdview s) \<Longrightarrow> okp (\<lambda>t. balanced (h(f := h f - 1)) (fdview t)) (fileclose f s)"
  by (cases "fdview s") (rule okp_mono [OF fd_fileclose], assumption, simp add: balanced_ref [of h _ _ f "-1", simplified])

lemma balanced_filealloc:
  assumes "balanced h (fdview s)"
  shows "okp (\<lambda>(r, t). case r of None \<Rightarrow> balanced h (fdview t) | Some f \<Rightarrow> balanced (h(f := h f + 1)) (fdview t)) (filealloc s)"
proof (cases "fdview s")
  case (Pair R F)
  have b: "balanced h (R, F)" using assms Pair by simp
  show ?thesis
  proof (rule okp_mono [OF fd_filealloc [OF Pair]], clarify)
    fix r and t :: "'a kern_scheme"
    assume "case r of None \<Rightarrow> fdview t = (R, F) | Some f \<Rightarrow> fdview t = (R(f := R f + 1), F)"
    then show "case r of None \<Rightarrow> balanced h (fdview t) | Some f \<Rightarrow> balanced (h(f := h f + 1)) (fdview t)"
      using b balanced_ref [OF b] by (cases r) simp_all
  qed
qed

section \<open>System calls\<close>

text \<open>No call holds a file between system calls.\<close>

abbreviation refs_ok :: "'a kern_scheme \<Rightarrow> bool" where
  "refs_ok s \<equiv> balanced (\<lambda>_. 0) (fdview s)"

lemma hand_back [simp]: "(\<lambda>_. c)(f := c) = (\<lambda>_. c)"
  by auto

lemma keep_refs: "\<lbrakk>fdkeep2 (fdview s) r; balanced h (fdview s)\<rbrakk> \<Longrightarrow> okp (\<lambda>(x, t). balanced h (fdview t)) r"
  by (erule okp_mono) auto

lemma balanced_set_None:
  assumes "balanced h (fdview s)" "fd < NOFILE" "p_ofile (procs s p) ! fd = Some f"
  shows "balanced (h(f := h f + 1)) (fdview (set_ofile p fd None s))"
  using balanced_clear [of h "fst (fdview s)" "snd (fdview s)" fd p f] assms
  by (simp add: set_ofile_def fdview_set_proc fdview_same)

lemma argfd_Some:
  "argfd n s = Ok (Some (fd, f)) \<Longrightarrow> \<exists>p. myproc s = Some p \<and> fd < NOFILE \<and> p_ofile (procs s p) ! fd = Some f"
  by (cases "argint n s") (auto simp: argfd_def split: if_splits option.splits)

lemma sys_dup_refs: "refs_ok s \<Longrightarrow> okp (\<lambda>(r, t). refs_ok t) (sys_dup s)"
proof (rule okpI, clarify)
  fix r and t :: "'a kern_scheme"
  assume b: "refs_ok s" and run: "sys_dup s = Ok (r, t)"
  show "refs_ok t"
  proof (cases "\<exists>fd0 f u fd. argfd 0 s = Ok (Some (fd0, f)) \<and> fdalloc f s = Ok (fd, u) \<and> \<not> fd < 0")
    case True
    then obtain fd0 f u fd where a: "argfd 0 s = Ok (Some (fd0, f))" "fdalloc f s = Ok (fd, u)" "\<not> fd < 0" by blast
    have "balanced ((\<lambda>_. 0)(f := -1)) (fdview u)" using okpD [OF fd_fdalloc [OF refl b] a(2)] a(3) by simp
    from okpD [OF balanced_filedup [OF this, of f]] a run show ?thesis
      by (cases "filedup f u") (auto simp: sys_dup_def)
  next
    case False
    then show ?thesis using run b okpD [OF fd_fdalloc [OF refl b]]
      by (cases "argfd 0 s") (auto simp: sys_dup_def elim!: andthen_OkE split: option.splits prod.splits if_splits)
  qed
qed

lemma sys_close_refs: "refs_ok s \<Longrightarrow> okp (\<lambda>(r, t). refs_ok t) (sys_close s)"
proof (rule okpI, clarify)
  fix r and t :: "'a kern_scheme"
  assume b: "refs_ok s" and run: "sys_close s = Ok (r, t)"
  show "refs_ok t"
  proof (cases "argfd 0 s")
    case (Ok q)
    show ?thesis
    proof (cases q)
      case None
      then show ?thesis using Ok run b by (simp add: sys_close_def)
    next
      case (Some y)
      obtain fd f p where a: "argfd 0 s = Ok (Some (fd, f))" "myproc s = Some p" "fd < NOFILE" "p_ofile (procs s p) ! fd = Some f"
        using Ok Some argfd_Some by (cases y) blast
      have "okp refs_ok (fileclose f (set_ofile p fd None s))"
        by (rule okp_mono [OF balanced_fileclose [OF balanced_set_None [OF b a(3,4)]]]) simp
      then show ?thesis using run a(1,2)
        by (cases "fileclose f (set_ofile p fd None s)") (auto simp: sys_close_def)
    qed
  qed (use run in \<open>simp add: sys_close_def\<close>)
qed

lemma fdview_open_file [simp]: "fdview (open_file om ip f s) = fdview s"
  unfolding open_file_def fdview_set_file by (cases "fdview s") (auto simp: fdview_same(1) [symmetric])

lemma open_entry_refs:
  assumes "balanced ((\<lambda>_. 0)(f := 1)) (fdview s)"
  shows "okp (\<lambda>(r, t). refs_ok t) (open_entry om ip f s)"
  unfolding open_entry_def
proof (rule okp_bind1 [OF fd_fdalloc [OF refl assms]], clarify)
  fix fd :: int and u :: "'a kern_scheme"
  assume u: "if fd < 0 then fdview u = fdview s else balanced (((\<lambda>_. 0)(f := 1))(f := ((\<lambda>_. 0)(f := 1)) f - 1)) (fdview u)"
  show "okp (\<lambda>(r, t). refs_ok t) (if fd < 0 then andthen (fileclose f u) (\<lambda>s. open_fail ip s)
    else let s = open_file om ip f u in
       andthen (if om AND O_TRUNC \<noteq> 0 \<and> i_type (itable s ip) = T_FILE then itrunc ip s else Ok s) (\<lambda>s.
       andthen (iunlock ip s) (\<lambda>s. andthen (end_op s) (\<lambda>s. Ok (fd, s)))))"
  proof (rule okp_if)
    assume "fd < 0"
    then have "okp refs_ok (fileclose f u)"
      by (intro okp_mono [OF balanced_fileclose [of "(\<lambda>_. 0)(f := 1)"]]) (use assms u in auto)
    then show "okp (\<lambda>(r, t). refs_ok t) (andthen (fileclose f u) (\<lambda>s. open_fail ip s))"
      by (rule okp_bind1) (rule keep_refs [OF fdk_open_fail [OF refl]])
  next
    assume "\<not> fd < 0"
    then have "refs_ok u" using u by simp
    then show "okp (\<lambda>(r, t). refs_ok t) (let s = open_file om ip f u in
       andthen (if om AND O_TRUNC \<noteq> 0 \<and> i_type (itable s ip) = T_FILE then itrunc ip s else Ok s) (\<lambda>s.
       andthen (iunlock ip s) (\<lambda>s. andthen (end_op s) (\<lambda>s. Ok (fd, s)))))"
      by (intro keep_refs [of u]) ((rule fdv.keep_bind [of "fdview u"] okp_struct | simp add: mk del: O_TRUNC_def)+)
  qed
qed

lemma sys_open_refs:
  assumes "refs_ok s"
  shows "okp (\<lambda>(r, t). refs_ok t) (sys_open sk s)"
proof -
  let ?J = "\<lambda>t :: 'a kern_scheme. refs_ok t"
  have alloc: "okp (\<lambda>(r, t). ?J t) (andthen (filealloc u) (\<lambda>(r, s). case r of None \<Rightarrow> open_fail ip s | Some f \<Rightarrow> open_entry om ip f s))"
    if "?J u" for ip om u
  proof (rule okp_bind1 [OF balanced_filealloc [OF that]], clarify)
    fix r and t :: "'a kern_scheme"
    assume "case r of None \<Rightarrow> ?J t | Some f \<Rightarrow> balanced ((\<lambda>_. 0)(f := 0 + 1)) (fdview t)"
    then show "okp (\<lambda>(r, t). ?J t) (case r of None \<Rightarrow> open_fail ip t | Some f \<Rightarrow> open_entry om ip f t)"
      using open_entry_refs [of _ t om ip] keep_refs [OF fdk_open_fail [OF refl, of t ip]] by (cases r) simp_all
  qed
  have b: "okp ?J (begin_op t)" "okp (\<lambda>(r, t). ?J t) (open_inode sk om t)" "okp (\<lambda>(r, t). ?J t) (argstr n p m t)"
    "okp (\<lambda>(r, t). ?J t) (open_fail ip t)" if "?J t" for om n p m ip and t :: "'a kern_scheme"
    using okp_mono [OF fdv.mk_begin_op [OF refl, of t], of ?J] keep_refs [OF fdk_open_inode [OF refl] that]
      keep_refs [OF fdk_argstr [OF refl] that] keep_refs [OF fdk_open_fail [OF refl] that] that by auto
  show ?thesis
    unfolding sys_open_def Let_def
    by (rule okp_bind2 [where J = ?J] okp_bind1 [where J = ?J] okp_res okp_struct alloc | simp add: b assms)+
qed

subsection \<open>sys_pipe\<close>

lemma filealloc_loop_cur: "okp (\<lambda>(r, t). curproc t = curproc s) (filealloc_loop fs s)"
  by (induction fs) (simp_all add: release_def set_file_def)

lemma filealloc_refs:
  assumes "balanced h (fdview s)"
  shows "okp (\<lambda>(r, t). curproc t = curproc s \<and>
     (case r of None \<Rightarrow> balanced h (fdview t) | Some f \<Rightarrow> balanced (h(f := h f + 1)) (fdview t))) (filealloc s)"
proof -
  have "okp (\<lambda>(r, t). curproc t = curproc s) (filealloc s)"
    using filealloc_loop_cur [of "s\<lparr>lks := (lks s)(FtableLock := True)\<rparr>" "[0..<NFILE]"] by (simp add: filealloc_def acquire_def)
  then show ?thesis using balanced_filealloc [OF assms] by (auto simp: okp_def)
qed

definition hand2 :: "nat \<Rightarrow> nat \<Rightarrow> nat \<Rightarrow> int" where
  "hand2 f g = ((\<lambda>_. 0)(f := 1))(g := ((\<lambda>_. 0)(f := 1)) g + 1)"

lemma hand2_less:
  "((hand2 f g)(f := hand2 f g f - 1))(g := ((hand2 f g)(f := hand2 f g f - 1)) g - 1) = (\<lambda>_. 0)"
  "(hand2 f g)(f := hand2 f g f - 1) = (\<lambda>_. 0)(g := 1)"
  by (auto simp: hand2_def fun_eq_iff)

lemma close_two_refs:
  assumes "balanced (hand2 f g) (fdview s)"
  shows "okp (\<lambda>(r, t). r = x \<and> refs_ok t) (andthen (fileclose f s) (\<lambda>s. andthen (fileclose g s) (\<lambda>s. Ok (x, s))))"
proof (rule okp_bind1 [OF balanced_fileclose [OF assms]], rule okp_bind1 [OF balanced_fileclose], assumption)
  fix t :: "'a kern_scheme"
  assume "balanced (((hand2 f g)(f := hand2 f g f - 1))(g := ((hand2 f g)(f := hand2 f g f - 1)) g - 1)) (fdview t)"
  then show "okp (\<lambda>(r, t). r = x \<and> refs_ok t) (Ok (x, t))" unfolding hand2_less(1) by simp
qed

lemma curproc_upd [simp]: "curproc (set_pipe pi p s) = curproc s" "curproc (set_file f g s) = curproc s"
  "curproc (set_ofile q fd fo s) = curproc s"
  by (simp_all add: set_pipe_def set_file_def set_ofile_def set_proc_def)

lemma fdview_set_pipe [simp]: "fdview (set_pipe pi p s) = fdview s"
  by (simp add: set_pipe_def)

lemma fdview_file_type [simp]:
  "fdview (set_file f (\<lambda>q. q\<lparr>f_type := a, f_readable := b, f_writable := c, f_pipe := d\<rparr>) s) = fdview s"
  unfolding fdview_set_file by (cases "fdview s") (auto simp: fdview_same(1) [symmetric])

lemma pipealloc_refs:
  assumes "refs_ok s"
  shows "okp (\<lambda>(r, t). case r of None \<Rightarrow> refs_ok t
     | Some (f, g) \<Rightarrow> curproc t = curproc s \<and> balanced (hand2 f g) (fdview t)) (pipealloc s)"
proof (rule okpI, clarify)
  fix r and v :: "'a kern_scheme"
  assume run: "pipealloc s = Ok (r, v)"
  obtain f0 t where t: "filealloc s = Ok (f0, t)" using run by (auto simp: pipealloc_def andthen_eq_Ok)
  note T = okpD [OF filealloc_refs [OF assms] t, simplified]
  show "case r of None \<Rightarrow> refs_ok v | Some (f, g) \<Rightarrow> curproc v = curproc s \<and> balanced (hand2 f g) (fdview v)"
  proof (cases f0)
    case None
    then show ?thesis using run t T by (simp add: pipealloc_def pipe_bad_def)
  next
    case (Some f)
    then have f: "balanced ((\<lambda>_. 0)(f := 1)) (fdview t)" using T by simp
    obtain f1 u where u: "filealloc t = Ok (f1, u)" using run t Some by (auto simp: pipealloc_def andthen_eq_Ok)
    note U = okpD [OF filealloc_refs [OF f] u, simplified]
    show ?thesis
    proof (cases f1)
      case None
      then have "pipe_bad 0 (Some f) None u = Ok (r, v)" using run t u Some by (simp add: pipealloc_def)
      then show ?thesis using okpD [OF balanced_fileclose [of "(\<lambda>_. 0)(f := 1)" u f]] U None
        by (auto simp: pipe_bad_def andthen_eq_Ok)
    next
      case (Some g)
      then have g: "balanced (hand2 f g) (fdview u)" using U by (simp add: hand2_def)
      obtain pi w where w: "kalloc u = Ok (pi, w)" using run t u \<open>f0 = Some f\<close> Some by (auto simp: pipealloc_def andthen_eq_Ok)
      have "mem_only u w" using okpD [OF vk_kalloc [OF mem_only_refl] w] by simp
      then have W: "fdview w = fdview u" "curproc w = curproc s"
        using fdv.V_mem_only mem_only_kern(7) [of u w] U T by auto
      show ?thesis
      proof (cases "pi = 0")
        case True
        then have "pipe_bad 0 (Some f) (Some g) w = Ok (r, v)" using run t u w \<open>f0 = Some f\<close> Some by (simp add: pipealloc_def)
        then show ?thesis using okpD [OF close_two_refs [of f g w "None :: (nat \<times> nat) option"]] g W(1)
          by (auto simp: pipe_bad_def)
      next
        case False
        then show ?thesis using run t u w \<open>f0 = Some f\<close> Some g W
          by (auto simp: pipealloc_def Let_def)
      qed
    qed
  qed
qed

lemma fdalloc_entry:
  assumes "fdalloc f s = Ok (fd, t)" "\<not> fd < 0" "myproc s = Some p" "balanced h (fdview s)"
  shows "\<exists>i. fd = int i \<and> i < NOFILE \<and> p_ofile (procs s p) ! i = None \<and> t = set_ofile p i (Some f) s \<and>
    p_ofile (procs t p) ! i = Some f"
proof -
  have "length (p_ofile (procs s p)) = NOFILE" using assms(4) by (simp add: balanced_def fdview_def)
  then show ?thesis
    using fdalloc_loop_cases [of p f "[0..<NOFILE]" s fd t] assms(1-3) by (auto simp: fdalloc_def set_ofile_def set_proc_def)
qed

lemma pipe_undo_refs:
  assumes "pipe_undo p fds f g s = Ok (x, v)" "balanced (hand2 f g) (fdview (fold (\<lambda>fd s. set_ofile p (nat fd) None s) fds s))"
  shows "refs_ok v"
  using okpD [OF close_two_refs [OF assms(2), of "-1 :: int"] assms(1) [unfolded pipe_undo_def Let_def]] by simp

lemma undo_both:
  assumes "refs_ok s" "i < NOFILE" "j < NOFILE" "i \<noteq> j" "p_ofile (procs s p) ! i = Some f" "p_ofile (procs s p) ! j = Some g"
  shows "balanced (hand2 f g) (fdview (set_ofile p j None (set_ofile p i None s)))"
proof -
  have "balanced ((\<lambda>_. 0)(f := 1)) (fdview (set_ofile p i None s))" using balanced_set_None [OF assms(1,2,5)] by simp
  moreover have "p_ofile (procs (set_ofile p i None s) p) ! j = Some g" using assms(4,6) by (simp add: set_ofile_def set_proc_def)
  ultimately show ?thesis using balanced_set_None [of "(\<lambda>_. 0)(f := 1)" _ j p g] assms(3) unfolding hand2_def by blast
qed

lemma sys_pipe_refs: "refs_ok s \<Longrightarrow> okp (\<lambda>(r, t). refs_ok t) (sys_pipe s)"
proof (rule okpI, clarify)
  fix x and v :: "'a kern_scheme"
  assume b: "refs_ok s" and run: "sys_pipe s = Ok (x, v)"
  obtain p a r t where pt: "myproc s = Some p" "argaddr 0 s = Ok a" "pipealloc s = Ok (r, t)"
    using run by (auto simp: sys_pipe_def andthen_eq_Ok split: option.splits)
  note T = okpD [OF pipealloc_refs [OF b] pt(3)]
  show "refs_ok v"
  proof (cases r)
    case None
    then show ?thesis using run pt T by (simp add: sys_pipe_def)
  next
    case (Some fg)
    then obtain f g where fg: "r = Some (f, g)" by (cases fg) auto
    then have t: "myproc t = Some p" "balanced (hand2 f g) (fdview t)" using T pt(1) by (simp_all add: myproc_def)
    obtain fd0 u where u: "fdalloc f t = Ok (fd0, u)" using run pt fg by (auto simp: sys_pipe_def andthen_eq_Ok)
    note U = okpD [OF fd_fdalloc [OF refl t(2)] u, simplified]
    show ?thesis
    proof (cases "fd0 < 0")
      case True
      then have "pipe_undo p [] f g u = Ok (x, v)" using run pt fg u by (simp add: sys_pipe_def)
      then show ?thesis by (rule pipe_undo_refs) (use U True t(2) in simp)
    next
      case False
      obtain i where i: "fd0 = int i" "i < NOFILE" "u = set_ofile p i (Some f) t" "p_ofile (procs u p) ! i = Some f"
        using fdalloc_entry [OF u False t] by blast
      have bu: "balanced ((\<lambda>_. 0)(g := 1)) (fdview u)" using U False unfolding hand2_less(2) by simp
      have undo1: "balanced (hand2 f g) (fdview (set_ofile p i None w))"
        if "fdview w = fdview u" for w :: "'a kern_scheme"
      proof -
        have "((\<lambda>_. 0)(g := 1))(f := ((\<lambda>_. 0)(g := 1)) f + (1 :: int)) = hand2 f g" by (auto simp: hand2_def fun_eq_iff)
        then show ?thesis using balanced_set_None [of "(\<lambda>_. 0)(g := 1)" w i p f] bu i(2,4) that
            fdview_same(2) [of w p] fdview_same(2) [of u p] by simp
      qed
      obtain fd1 w where w: "fdalloc g u = Ok (fd1, w)" using run pt fg u False by (auto simp: sys_pipe_def andthen_eq_Ok)
      note W = okpD [OF fd_fdalloc [OF refl bu] w, simplified]
      show ?thesis
      proof (cases "fd1 < 0")
        case True
        then have "pipe_undo p [fd0] f g w = Ok (x, v)" using run pt fg u w \<open>\<not> fd0 < 0\<close> by (simp add: sys_pipe_def)
        then show ?thesis by (rule pipe_undo_refs) (use undo1 W True i(1) in simp)
      next
        case 1: False
        have "myproc u = Some p" using t(1) i(3) by (simp add: myproc_def)
        then obtain j where j: "fd1 = int j" "j < NOFILE" "p_ofile (procs u p) ! j = None" "w = set_ofile p j (Some g) u"
            "p_ofile (procs w p) ! j = Some g"
          using fdalloc_entry [OF w 1 _ bu] by blast
        have ne: "i \<noteq> j" using i(4) j(3) by auto
        then have ij: "i \<noteq> j" "p_ofile (procs w p) ! i = Some f" using i(4) j(4) by (simp_all add: set_ofile_def set_proc_def)
        have bw: "refs_ok w" using W 1 by simp
        have both: "balanced (hand2 f g) (fdview (set_ofile p j None (set_ofile p i None y)))" if "mem_only w y" for y
          using undo_both [of y i j p f g] fdv.V_mem_only [OF that] mem_only_kern(6) [OF that] bw i(2) j(2,5) ij by simp
        obtain r2 y where y: "copyout_obj (p_pagetable (procs w p)) a (le_bytes 4 (of_int fd0 :: u32)) w = Ok (r2, y)"
          using run pt fg u w \<open>\<not> fd0 < 0\<close> 1 by (auto simp: sys_pipe_def andthen_eq_Ok)
        have Y: "mem_only w y" using okpD [OF vk_copyout_obj [OF mem_only_refl] y] by simp
        show ?thesis
        proof (cases "r2 < 0")
          case True
          then have "pipe_undo p [fd0, fd1] f g y = Ok (x, v)" using run pt fg u w y \<open>\<not> fd0 < 0\<close> 1 by (simp add: sys_pipe_def)
          then show ?thesis by (rule pipe_undo_refs) (use both [OF Y] i(1) j(1) in simp)
        next
          case 2: False
          obtain r3 z where z: "copyout_obj (p_pagetable (procs y p)) (a + 4) (le_bytes 4 (of_int fd1 :: u32)) y = Ok (r3, z)"
            using run pt fg u w y \<open>\<not> fd0 < 0\<close> 1 2 by (auto simp: sys_pipe_def andthen_eq_Ok)
          have Z: "mem_only w z" using okpD [OF vk_copyout_obj [OF Y] z] by simp
          show ?thesis
          proof (cases "r3 < 0")
            case True
            then have "pipe_undo p [fd0, fd1] f g z = Ok (x, v)"
              using run pt fg u w y z \<open>\<not> fd0 < 0\<close> 1 2 by (simp add: sys_pipe_def)
            then show ?thesis by (rule pipe_undo_refs) (use both [OF Z] i(1) j(1) in simp)
          next
            case False
            then have "v = z" using run pt fg u w y z \<open>\<not> fd0 < 0\<close> 1 2 by (simp add: sys_pipe_def)
            then show ?thesis using fdv.V_mem_only [OF Z] bw by simp
          qed
        qed
      qed
    qed
  qed
qed

subsection \<open>fork and exit\<close>

lemma fdview_set_proc_same: "(\<And>q. p_ofile (g q) = p_ofile q) \<Longrightarrow> fdview (set_proc p g s) = fdview s"
  unfolding fdview_set_proc by (cases "fdview s") (auto simp: fdview_same(2) [symmetric])

lemma fdk_freeproc [mk]: "fdview s = v \<Longrightarrow> fdkeep v (freeproc p s)"
  unfolding freeproc_def proc_freepagetable_def Let_def
  by (rule fdv.keep_bind [of v] okp_struct | simp add: mk fdview_set_proc_same)+

lemma fdk_proc_pagetable [mk]: "fdview s = v \<Longrightarrow> fdkeep2 v (proc_pagetable sy p s)"
  unfolding proc_pagetable_def by (rule fdv.keep_bind [of v] okp_struct | simp add: mk)+

lemma fdk_allocpid [mk]: "fdview s = v \<Longrightarrow> fdkeep2 v (allocpid s)"
  unfolding allocpid_def by (rule fdv.keep_bind [of v] okp_struct | simp add: mk)+

lemma fdk_allocproc_found [mk]: "fdview s = v \<Longrightarrow> okp (\<lambda>(r, t). fdview t = v \<and> (r = None \<or> r = Some p)) (allocproc_found sy p s)"
proof -
  assume s: "fdview s = v"
  have free: "okp (\<lambda>(r, t). fdview t = v \<and> (r = None \<or> r = Some p))
      (andthen (freeproc p t) (\<lambda>s. andthen (release (ProcLock p) s) (\<lambda>s. Ok (None, s))))" if "fdview t = v" for t :: "'a kern_scheme"
    by (rule fdv.keep_bind [of v] okp_struct | simp add: mk that)+
  show ?thesis
    unfolding allocproc_found_def Let_def
    by (rule fdv.keep_bind [of v] okp_struct | simp add: mk s fdview_set_proc_same free)+
qed

lemma fdk_allocproc:
  assumes "fdview s = v"
  shows "okp (\<lambda>(r, t). fdview t = v \<and> (\<forall>np. r = Some np \<longrightarrow> p_state (procs s np) = UNUSED)) (allocproc sy s)"
proof -
  have "okp (\<lambda>(r, t). fdview t = v \<and> (\<forall>np. r = Some np \<longrightarrow> p_state (procs s np) = UNUSED)) (allocproc_loop sy ps u)"
    if "fdview u = v" "procs u = procs s" for ps and u :: "'a kern_scheme"
    using that
  proof (induction ps arbitrary: u)
    case (Cons p ps)
    show ?case
    proof (cases "lks u (ProcLock p)")
      case False
      let ?u = "u\<lparr>lks := (lks u)(ProcLock p := True)\<rparr>"
      show ?thesis
      proof (cases "p_state (procs s p) = UNUSED")
        case True
        have "okp (\<lambda>(r, t). fdview t = v \<and> (\<forall>np. r = Some np \<longrightarrow> p_state (procs s np) = UNUSED)) (allocproc_found sy p ?u)"
          by (rule okp_mono [OF fdk_allocproc_found]) (use True Cons.prems in auto)
        then show ?thesis using True False Cons.prems by (simp add: acquire_def)
      next
        case 1: False
        then show ?thesis using False Cons.prems Cons.IH by (simp add: acquire_def release_def)
      qed
    qed (simp add: acquire_def)
  qed simp
  then show ?thesis using assms by (simp add: allocproc_def)
qed

lemma fork_files_refs:
  assumes "balanced h (fdview s)" "distinct is" "\<forall>i \<in> set is. i < NOFILE \<and> p_ofile (procs s np) ! i = None"
  shows "okp (\<lambda>t. balanced h (fdview t)) (fork_files p np is s)"
  using assms
proof (induction "is" arbitrary: s)
  case (Cons i "is")
  show ?case
  proof (cases "p_ofile (procs s p) ! i")
    case (Some f)
    show ?thesis
    proof (rule okpI)
      fix v assume run: "fork_files p np (i # is) s = Ok v"
      then obtain g u where u: "filedup f s = Ok (g, u)"
          "fork_files p np is (set_proc np (\<lambda>q. q\<lparr>p_ofile := (p_ofile q)[i := Some g]\<rparr>) u) = Ok v"
        using Some by (auto simp: andthen_eq_Ok)
      let ?u = "set_proc np (\<lambda>q. q\<lparr>p_ofile := (p_ofile q)[i := Some f]\<rparr>) u"
      have g: "g = f" "balanced (h(f := h f + 1)) (fdview u)" using okpD [OF balanced_filedup [OF Cons.prems(1)] u(1)] by auto
      have "fdview s = (fst (fdview s), snd (fdview s))" by simp
      note fd = okpD [OF fd_filedup [OF this] u(1)]
      have same: "p_ofile (procs u q) = p_ofile (procs s q)" for q using fd fdview_same(2) [of u q] by (simp add: fdview_same)
      have b: "balanced h (fdview ?u)"
        using balanced_put [of "h(f := h f + 1)" "fst (fdview u)" "snd (fdview u)" i np f] g(2) Cons.prems(3) same
        by (simp add: fdview_set_proc fdview_same)
      have "\<forall>j \<in> set is. j < NOFILE \<and> p_ofile (procs ?u np) ! j = None"
      proof
        fix j assume j: "j \<in> set is"
        then have "j \<noteq> i" using Cons.prems(2) by auto
        then show "j < NOFILE \<and> p_ofile (procs ?u np) ! j = None" using Cons.prems(3) same j by (simp add: set_proc_def)
      qed
      then show "balanced h (fdview v)" using Cons.IH [OF b] Cons.prems(2) u(2) g(1) okpD by fastforce
    qed
  qed (use Cons in simp)
qed simp

lemma fork_finish_refs:
  assumes "refs_ok s" "p_ofile (procs s np) = replicate NOFILE None"
  shows "okp (\<lambda>(r, t). refs_ok t) (fork_finish p np s)"
  unfolding fork_finish_def
proof (rule okp_bind1 [where J = refs_ok])
  show "okp refs_ok (fork_files p np [0..<NOFILE] s)" by (rule fork_files_refs) (use assms in auto)
  fix t :: "'a kern_scheme"
  assume "refs_ok t"
  then show "okp (\<lambda>(r, t). refs_ok t) (case p_cwd (procs t p) of None \<Rightarrow> Fail Undefined | Some cwd \<Rightarrow>
      andthen (idup cwd t) (\<lambda>(ip, s).
      let s = set_proc np (\<lambda>q. q\<lparr>p_cwd := Some ip, p_name := set_name 16 (p_name q) (p_name (procs s p))\<rparr>) s;
          pid = p_pid (procs s np) in
      andthen (release (ProcLock np) s) (\<lambda>s.
      andthen (acquire WaitLock s) (\<lambda>s.
      andthen (release WaitLock (set_proc np (\<lambda>q. q\<lparr>p_parent := Some p\<rparr>) s)) (\<lambda>s.
      andthen (acquire (ProcLock np) s) (\<lambda>s.
      andthen (release (ProcLock np) (set_proc np (\<lambda>q. q\<lparr>p_state := RUNNABLE\<rparr>) s)) (\<lambda>s. Ok (pid, s))))))))"
    unfolding Let_def
    by (intro keep_refs [of t]) ((rule fdv.keep_bind [of "fdview t"] okp_struct | simp add: mk fdview_set_proc_same)+)
qed

lemma fork_refs:
  assumes b: "refs_ok s" and clean: "\<And>q. p_state (procs s q) = UNUSED \<Longrightarrow> p_ofile (procs s q) = replicate NOFILE None"
  shows "okp (\<lambda>(r, t). refs_ok t) (fork sy s)"
proof (rule okpI, clarify)
  fix x and v :: "'a kern_scheme"
  assume run: "fork sy s = Ok (x, v)"
  obtain p r t where a: "myproc s = Some p" "allocproc sy s = Ok (r, t)"
    using run by (auto simp: fork_def andthen_eq_Ok split: option.splits)
  note A = okpD [OF fdk_allocproc [OF refl] a(2), simplified]
  show "refs_ok v"
  proof (cases r)
    case None
    then show ?thesis using run a A b by (simp add: fork_def)
  next
    case (Some np)
    obtain r u where u: "uvmcopy (p_pagetable (procs t p)) (p_pagetable (procs t np)) (p_sz (procs t p)) t = Ok (r, u)"
      using run a Some by (auto simp: fork_def andthen_eq_Ok)
    have "mem_only t u" using okpD [OF vk_uvmcopy [OF mem_only_refl] u] by simp
    from fdv.V_mem_only [OF this] have U: "fdview u = fdview s" using A by simp
    show ?thesis
    proof (cases "r < 0")
      case True
      have "fdkeep2 (fdview s) (andthen (freeproc np u) (\<lambda>s. andthen (release (ProcLock np) s) (\<lambda>s. Ok (-1 :: int, s))))"
        by (rule fdv.keep_bind [of "fdview s"] okp_struct | simp add: mk U)+
      from okpD [OF this] show ?thesis using run a Some u True b by (auto simp: fork_def)
    next
      case False
      have "p_ofile (procs s np) = replicate NOFILE None" using clean A Some by simp
      then have "p_ofile (procs u np) = replicate NOFILE None" using U fdview_same(2) [of u np] fdview_same(2) [of s np] by simp
      moreover obtain w where w: "fork_finish p np w = Ok (x, v)" "fdview w = fdview u"
      proof
        let ?w = "set_proc np (\<lambda>q. q\<lparr>p_sz := p_sz (procs u p)\<rparr>) u"
        let ?w = "tf_set np TF_A0 0 (?w\<lparr>mem := put_block (mem ?w) (p_trapframe (procs ?w np)) (bytes_at (mem ?w) (p_trapframe (procs ?w p)) TF_SIZE)\<rparr>)"
        show "fork_finish p np ?w = Ok (x, v)" using run a Some u False by (simp add: fork_def Let_def)
        show "fdview ?w = fdview u" by (simp add: tf_set_def fdview_set_proc_same)
      qed
      ultimately have "p_ofile (procs w np) = replicate NOFILE None" "refs_ok w"
        using b U fdview_same(2) [of w np] fdview_same(2) [of u np] by simp_all
      from okpD [OF fork_finish_refs [OF this(2,1)] w(1)] show ?thesis by simp
    qed
  qed
qed

lemma exit_files_refs:
  assumes "refs_ok s" "\<forall>fd \<in> set fds. fd < NOFILE"
  shows "okp refs_ok (exit_files p fds s)"
  using assms
proof (induction fds arbitrary: s)
  case (Cons fd fds)
  show ?case
  proof (cases "p_ofile (procs s p) ! fd")
    case (Some f)
    show ?thesis
    proof (rule okpI)
      fix v assume "exit_files p (fd # fds) s = Ok v"
      then obtain u where u: "fileclose f s = Ok u" "exit_files p fds (set_ofile p fd None u) = Ok v"
        using Some by (auto simp: andthen_eq_Ok set_ofile_def)
      have "balanced ((\<lambda>_. 0)(f := -1)) (fdview u)" using okpD [OF balanced_fileclose [OF Cons.prems(1)] u(1)] by simp
      moreover have "fdview s = (fst (fdview s), snd (fdview s))" by simp
      from okpD [OF fd_fileclose [OF this] u(1)] have "p_ofile (procs u p) ! fd = Some f"
        using Some fdview_same(2) [of u p] by (simp add: fdview_same)
      ultimately have "refs_ok (set_ofile p fd None u)"
        using balanced_set_None [of "(\<lambda>_. 0)(f := -1)" u fd p f] Cons.prems(2) by simp
      then show "refs_ok v" using Cons.IH Cons.prems(2) u(2) okpD by fastforce
    qed
  qed (use Cons in simp)
qed simp

lemma fdk_reparent [mk]: "fdview s = v \<Longrightarrow> fdkeep v (reparent p s)"
proof -
  have "fdview s = v \<Longrightarrow> fdkeep v (reparent_loop p ps s)" for ps
  proof (induction ps arbitrary: s)
    case (Cons q ps)
    show ?case unfolding reparent_loop.simps
      by (rule fdv.keep_bind [of v] okp_struct | simp add: mk Cons fdview_set_proc_same)+
  qed simp
  then show "fdview s = v \<Longrightarrow> fdkeep v (reparent p s)" by (simp add: reparent_def)
qed

lemma fdk_sched [mk]: "fdview s = v \<Longrightarrow> fdkeep v (sched noff intr s)"
  unfolding sched_def by (rule okp_struct | simp)+

lemma fdk_exit_finish [mk]: "fdview s = v \<Longrightarrow> fdkeep v (exit_finish p status noff intr s)"
  unfolding exit_finish_def by (rule fdv.keep_bind(1) [of v] okp_struct | simp add: mk fdview_set_proc_same)+

lemma exit_refs: "refs_ok s \<Longrightarrow> okp refs_ok (exit status noff intr s)"
proof -
  assume b: "refs_ok s"
  have "okp refs_ok (andthen (exit_files p [0..<NOFILE] s) (exit_finish p status noff intr))" for p
  proof (rule okp_bind1)
    show "okp refs_ok (exit_files p [0..<NOFILE] s)" by (rule exit_files_refs) (use b in auto)
    show "okp refs_ok (exit_finish p status noff intr t)" if "refs_ok t" for t :: "'a kern_scheme"
      by (rule okp_mono [OF fdk_exit_finish [OF refl]]) (use that in simp)
  qed
  then show ?thesis by (simp add: exit_def split: option.split)
qed

section \<open>The invariant\<close>

definition file_refs_ok :: "'a kern_scheme \<Rightarrow> bool" where
  "file_refs_ok s \<longleftrightarrow> (\<forall>p. length (p_ofile (procs s p)) = NOFILE) \<and>
     (\<forall>f. finite {(p, fd). fd < NOFILE \<and> p_ofile (procs s p) ! fd = Some f} \<and>
        f_ref (ftable s f) = int (card {(p, fd). fd < NOFILE \<and> p_ofile (procs s p) ! fd = Some f}))"

lemma file_refs_ok: "file_refs_ok s \<longleftrightarrow> refs_ok s"
  by (simp add: file_refs_ok_def balanced_def descs_def fdview_def)

text \<open>C39: the reference count of every open file is the number of descriptors that name it, over all processes.
  Every system call that makes or drops references keeps it so, on success and on every failure:
  \<open>dup\<close>, \<open>close\<close>, \<open>open\<close>, \<open>pipe\<close>, \<open>exit\<close>, and \<open>fork\<close> as long as free slots of the process table have no open
  files.\<close>

theorem file_refs_invariant:
  fixes s :: "'a kern_scheme"
  assumes "file_refs_ok s"
  shows "okp (\<lambda>(r, t). file_refs_ok t) (sys_dup s) \<and> okp (\<lambda>(r, t). file_refs_ok t) (sys_close s) \<and>
    okp (\<lambda>(r, t). file_refs_ok t) (sys_open sk s) \<and> okp (\<lambda>(r, t). file_refs_ok t) (sys_pipe s) \<and>
    okp file_refs_ok (exit status noff intr s) \<and>
    ((\<forall>q. p_state (procs s q) = UNUSED \<longrightarrow> p_ofile (procs s q) = replicate NOFILE None) \<longrightarrow>
      okp (\<lambda>(r, t). file_refs_ok t) (fork sy s))"
  using assms unfolding file_refs_ok
  by (intro conjI impI sys_dup_refs sys_close_refs sys_open_refs sys_pipe_refs exit_refs fork_refs) auto

definition ftable1 :: "nat \<Rightarrow> kfile" where
  "ftable1 = (\<lambda>f. (ftable0 f)\<lparr>f_ref := if f = 0 then 1 else 0\<rparr>)"

lemma file_refs_start: "file_refs_ok (kern_state (boot_kmst 0x80021000) proc0 ftable1)"
proof -
  have "{(p, fd). fd < NOFILE \<and> p_ofile (proc0 p) ! fd = Some f} = (if f = 0 then {(0, 0)} else {})" for f
  proof -
    have "p_ofile (proc0 p) ! fd = Some f \<longleftrightarrow> p = 0 \<and> fd = 0 \<and> f = 0" if "fd < NOFILE" for p fd
      using that by (cases fd) (auto simp: proc0_def zero_proc_def)
    then show ?thesis by auto
  qed
  then show ?thesis by (simp add: file_refs_ok_def ftable1_def proc0_def zero_proc_def)
qed

theorem file_refs_invariant_witness:
  "\<exists>t. sys_dup (kern_state (boot_kmst 0x80021000) proc0 ftable1) = Ok (1, t) \<and> file_refs_ok t \<and> f_ref (ftable t 0) = 2"
proof -
  let ?s = "kern_state (boot_kmst 0x80021000) proc0 ftable1"
  have z: "foldr (\<lambda>i acc. acc) is (0 :: u64) = 0" for "is" by (induction "is") simp_all
  have a: "argfd 0 ?s = Ok (Some (0, 0))"
    by (simp add: argfd_def argint_def argraw_def myproc_def tf_get_def load64_def boot_kmst_def proc0_def z)
  have "fdalloc 0 ?s = Ok (1, set_ofile 0 1 (Some 0) ?s)"
    by (simp add: fdalloc_def myproc_def upt_rec proc0_def zero_proc_def)
  then obtain t where t: "sys_dup ?s = Ok (1, t)" "f_ref (ftable t 0) = 2"
    using a by (simp add: sys_dup_def filedup_def acquire_def release_def set_ofile_def set_proc_def set_file_def ftable1_def)
  then show ?thesis using okpD [OF conjunct1 [OF file_refs_invariant [OF file_refs_start]] t(1)] by auto
qed

end
