(* ===== verification/Exec.thy ===== *)
theory Exec
  imports Sysfile
begin

text \<open>
  Program loading: \<open>kernel/exec.c\<close> with the structures of \<open>kernel/elf.h\<close>, and \<open>sys_exec\<close> of
  \<open>kernel/sysfile.c\<close>.  The ELF headers are read into memory on the kernel stack and decoded at the
  offsets C gives their fields.  The arguments are pages of kernel memory, their addresses a list.
\<close>

definition ELF_MAGIC :: u32 where [simp]: "ELF_MAGIC = 0x464C457F"
definition ELF_PROG_LOAD :: u32 where [simp]: "ELF_PROG_LOAD = 1"
definition elfhdr_size :: nat where [simp]: "elfhdr_size = 64"
definition proghdr_size :: nat where [simp]: "proghdr_size = 56"

record elfhdr =
  eh_magic :: u32
  eh_entry :: u64
  eh_phoff :: u64
  eh_phnum :: u16

record proghdr =
  ph_type :: u32
  ph_flags :: u32
  ph_off :: u64
  ph_vaddr :: u64
  ph_filesz :: u64
  ph_memsz :: u64

definition get_elfhdr :: "bytemem \<Rightarrow> u64 \<Rightarrow> elfhdr" where
  "get_elfhdr m a = \<lparr>eh_magic = le_word (bytes_at m a 4), eh_entry = load64 m (a + 24),
     eh_phoff = load64 m (a + 32), eh_phnum = le_word (bytes_at m (a + 56) 2)\<rparr>"

definition get_proghdr :: "bytemem \<Rightarrow> u64 \<Rightarrow> proghdr" where
  "get_proghdr m a = \<lparr>ph_type = le_word (bytes_at m a 4), ph_flags = le_word (bytes_at m (a + 4) 4),
     ph_off = load64 m (a + 8), ph_vaddr = load64 m (a + 16), ph_filesz = load64 m (a + 32),
     ph_memsz = load64 m (a + 40)\<rparr>"

definition flags2perm :: "u32 \<Rightarrow> u64" where
  "flags2perm flags =
     (let perm = (if flags AND 1 \<noteq> 0 then PTE_X else 0) in
      if flags AND 2 \<noteq> 0 then perm OR PTE_W else perm)"

section \<open>Loading segments\<close>

text \<open>The 32-bit counter of \<open>loadseg\<close> goes up by a page and could wrap around: \<open>None\<close> is a loop without end.\<close>

partial_function (option) loadseg_loop :: "u64 \<Rightarrow> u64 \<Rightarrow> nat \<Rightarrow> u32 \<Rightarrow> u32 \<Rightarrow> u32 \<Rightarrow> 'a kern_scheme \<Rightarrow> (int \<times> 'a kern_scheme) res option" where
  "loadseg_loop pt va ip offset sz i s =
     (if i < sz then
        (case walkaddr pt (va + ucast i) s of
           Fail e \<Rightarrow> Some (Fail e)
         | Ok (pa, s) \<Rightarrow>
             if pa = 0 then Some (Fail (Panic ''loadseg: address should exist''))
             else
               let n = (if sz - i < 4096 then sz - i else 4096) in
               (case readi ip False pa (offset + i) n s of
                  Fail e \<Rightarrow> Some (Fail e)
                | Ok (r, s) \<Rightarrow>
                    if r \<noteq> sint n then Some (Ok (-1, s))
                    else loadseg_loop pt va ip offset sz (i + 4096) s))
      else Some (Ok (0, s)))"

definition loadseg :: "u64 \<Rightarrow> u64 \<Rightarrow> nat \<Rightarrow> u32 \<Rightarrow> u32 \<Rightarrow> 'a kern_scheme \<Rightarrow> (int \<times> 'a kern_scheme) res" where
  "loadseg pt va ip offset sz s =
     (case loadseg_loop pt va ip offset sz 0 s of None \<Rightarrow> Fail Looping | Some r \<Rightarrow> r)"

text \<open>
  The loop over the program headers, \<open>k\<close> of them left, with \<open>off\<close> an \<open>int\<close> that is passed as the
  file offset.  It ends with whether all were loaded and the size reached.
\<close>

fun exec_load :: "kstack \<Rightarrow> u64 \<Rightarrow> nat \<Rightarrow> nat \<Rightarrow> u32 \<Rightarrow> u64 \<Rightarrow> 'a kern_scheme \<Rightarrow> (bool \<times> u64 \<times> 'a kern_scheme) res" where
  "exec_load sk pt ip 0 off sz s = Ok (True, sz, s)"
| "exec_load sk pt ip (Suc k) off sz s =
     andthen (readi ip False (sk_ph sk) off (of_nat proghdr_size) s) (\<lambda>(r, s).
     if r \<noteq> int proghdr_size then Ok (False, sz, s)
     else
       let ph = get_proghdr (mem s) (sk_ph sk) in
       if ph_type ph \<noteq> ELF_PROG_LOAD then exec_load sk pt ip k (off + of_nat proghdr_size) sz s
       else if ph_memsz ph < ph_filesz ph then Ok (False, sz, s)
       else if ph_vaddr ph + ph_memsz ph < ph_vaddr ph then Ok (False, sz, s)
       else if ph_vaddr ph mod PGSIZE \<noteq> 0 then Ok (False, sz, s)
       else
         andthen (uvmalloc pt sz (ph_vaddr ph + ph_memsz ph) (flags2perm (ph_flags ph)) s) (\<lambda>(sz1, s).
         if sz1 = 0 then Ok (False, sz, s)
         else
           andthen (loadseg pt (ph_vaddr ph) ip (ucast (ph_off ph)) (ucast (ph_filesz ph)) s) (\<lambda>(r, s).
           if r < 0 then Ok (False, sz1, s)
           else exec_load sk pt ip k (off + of_nat proghdr_size) sz1 s)))"

section \<open>The argument stack\<close>

text \<open>
  Pushing the argument strings, from the list of their addresses: the stack pointers of the strings
  and the stack pointer reached, or \<open>None\<close> where the code goes to \<open>bad\<close>.
\<close>

fun push_args :: "u64 \<Rightarrow> u64 \<Rightarrow> nat \<Rightarrow> u64 list \<Rightarrow> u64 \<Rightarrow> 'a kern_scheme \<Rightarrow> ((u64 list \<times> u64) option \<times> 'a kern_scheme) res" where
  "push_args pt stackbase argc [] sp s = Ok (Some ([], sp), s)"
| "push_args pt stackbase argc (a # as) sp s =
     (if argc \<ge> MAXARG then Ok (None, s)
      else
        (case strlen (at (mem s) a) of
           None \<Rightarrow> Fail Undefined
         | Some n \<Rightarrow>
             let sp = sp - (of_nat n + 1); sp = sp - sp mod 16 in
             if sp < stackbase then Ok (None, s)
             else
               andthen (copyout pt sp a (of_nat n + 1) s) (\<lambda>(r, s).
               if r < 0 then Ok (None, s)
               else
                 andthen (push_args pt stackbase (argc + 1) as sp s) (\<lambda>(r, s).
                 Ok (map_option (\<lambda>(us, sp'). (sp # us, sp')) r, s)))))"

text \<open>Strings first, then the array of their addresses with its null.\<close>

definition push_argv :: "u64 \<Rightarrow> u64 \<Rightarrow> u64 list \<Rightarrow> u64 \<Rightarrow> 'a kern_scheme \<Rightarrow> (u64 option \<times> 'a kern_scheme) res" where
  "push_argv pt stackbase argv sp s =
     andthen (push_args pt stackbase 0 argv sp s) (\<lambda>(r, s).
     case r of
       None \<Rightarrow> Ok (None, s)
     | Some (us, sp) \<Rightarrow>
         let sp = sp - (of_nat (length us) + 1) * 8; sp = sp - sp mod 16 in
         if sp < stackbase then Ok (None, s)
         else
           andthen (copyout_obj pt sp (concat (map (le_bytes 8) (us @ [0]))) s) (\<lambda>(r, s).
           if r < 0 then Ok (None, s) else Ok (Some sp, s)))"

section \<open>exec\<close>

text \<open>The label \<open>bad\<close>: \<open>ip\<close> is \<open>None\<close> once the inode has been put.\<close>

definition exec_bad :: "u64 \<Rightarrow> u64 \<Rightarrow> nat option \<Rightarrow> 'a kern_scheme \<Rightarrow> (int \<times> 'a kern_scheme) res" where
  "exec_bad pt sz ip s =
     andthen (if pt \<noteq> 0 then proc_freepagetable pt sz s else Ok s) (\<lambda>s.
     case ip of
       None \<Rightarrow> Ok (-1, s)
     | Some ip \<Rightarrow>
         andthen (iunlockput ip s) (\<lambda>s.
         andthen (end_op s) (\<lambda>s. Ok (-1, s))))"

text \<open>The last component of a path, which becomes the name of the process.\<close>

definition last_elem :: "u8 list \<Rightarrow> u8 list" where
  "last_elem cs = rev (takeWhile (\<lambda>c. c \<noteq> 47) (rev cs))"

text \<open>From the point where the program is loaded: the stack, the arguments, and the switch to the new image.\<close>

definition exec_image :: "u64 \<Rightarrow> u64 list \<Rightarrow> u64 \<Rightarrow> u64 \<Rightarrow> u64 \<Rightarrow> nat \<Rightarrow> 'a kern_scheme \<Rightarrow> (int \<times> 'a kern_scheme) res" where
  "exec_image path argv entry pt sz p s =
     (let oldsz = p_sz (procs s p); sz = PGROUNDUP sz; stk = (of_nat USERSTACK + 1) * PGSIZE in
      andthen (uvmalloc pt sz (sz + stk) PTE_W s) (\<lambda>(sz1, s).
      if sz1 = 0 then exec_bad pt sz None s
      else
        let sz = sz1 in
        andthen (uvmclear pt (sz - stk) s) (\<lambda>s.
        andthen (push_argv pt (sz - of_nat USERSTACK * PGSIZE) argv sz s) (\<lambda>(r, s).
        case r of
          None \<Rightarrow> exec_bad pt sz None s
        | Some sp \<Rightarrow>
            let s = tf_set p TF_A1 sp s in
            (case strlen (at (mem s) path) of
               None \<Rightarrow> Fail Undefined
             | Some n \<Rightarrow>
                 let s = set_proc p (\<lambda>q. q\<lparr>p_name := set_name 16 (p_name q) (last_elem (bytes_at (mem s) path n))\<rparr>) s;
                     oldpagetable = p_pagetable (procs s p);
                     s = set_proc p (\<lambda>q. q\<lparr>p_pagetable := pt, p_sz := sz\<rparr>) s;
                     s = tf_set p TF_EPC entry s;
                     s = tf_set p TF_SP sp s in
                 andthen (proc_freepagetable oldpagetable oldsz s) (\<lambda>s.
                 Ok (int (length argv), s)))))))"

definition exec :: "ksyms \<Rightarrow> kstack \<Rightarrow> u64 \<Rightarrow> u64 list \<Rightarrow> 'a kern_scheme \<Rightarrow> (int \<times> 'a kern_scheme) res" where
  "exec sy sk path argv s =
     (case myproc s of
        None \<Rightarrow> Fail Undefined
      | Some p \<Rightarrow>
          andthen (begin_op s) (\<lambda>s.
          andthen (namei path (sk_nm sk) (sk_de sk) s) (\<lambda>(r, s).
          case r of
            None \<Rightarrow> andthen (end_op s) (\<lambda>s. Ok (-1, s))
          | Some ip \<Rightarrow>
              andthen (ilock ip s) (\<lambda>s.
              andthen (readi ip False (sk_elf sk) 0 (of_nat elfhdr_size) s) (\<lambda>(r, s).
              let elf = get_elfhdr (mem s) (sk_elf sk) in
              if r \<noteq> int elfhdr_size then exec_bad 0 0 (Some ip) s
              else if eh_magic elf \<noteq> ELF_MAGIC then exec_bad 0 0 (Some ip) s
              else
                andthen (proc_pagetable sy p s) (\<lambda>(pt, s).
                if pt = 0 then exec_bad 0 0 (Some ip) s
                else
                  andthen (exec_load sk pt ip (unat (eh_phnum elf)) (ucast (eh_phoff elf)) 0 s) (\<lambda>(ok, sz, s).
                  if \<not> ok then exec_bad pt sz (Some ip) s
                  else
                    andthen (iunlockput ip s) (\<lambda>s.
                    andthen (end_op s) (\<lambda>s.
                    exec_image path argv (eh_entry elf) pt sz p s)))))))))"

section \<open>sys_exec\<close>

text \<open>
  The loop that fetches the arguments, from index \<open>i\<close>: whether it completed, with the pages it filled so
  far.  The page whose string could not be fetched is already in \<open>argv\<close>.
\<close>

function fetch_args :: "u64 \<Rightarrow> nat \<Rightarrow> 'a kern_scheme \<Rightarrow> (bool \<times> u64 list \<times> 'a kern_scheme) res" where
  "fetch_args uargv i s =
     (if i \<ge> MAXARG then Ok (False, [], s)
      else
        andthen (fetchaddr (uargv + 8 * of_nat i) s) (\<lambda>(r, s).
        case r of
          None \<Rightarrow> Ok (False, [], s)
        | Some uarg \<Rightarrow>
            if uarg = 0 then Ok (True, [], s)
            else
              andthen (kalloc s) (\<lambda>(pg, s).
              if pg = 0 then Ok (False, [], s)
              else
                andthen (fetchstr uarg pg PGSIZE s) (\<lambda>(r, s).
                if r < 0 then Ok (False, [pg], s)
                else
                  andthen (fetch_args uargv (i + 1) s) (\<lambda>(ok, pgs, s). Ok (ok, pg # pgs, s))))))"
  by pat_completeness auto
termination
  by (relation "measure (\<lambda>(u, i, s). MAXARG - i)") auto

declare fetch_args.simps [simp del]

fun kfree_all :: "u64 list \<Rightarrow> 'a kern_scheme \<Rightarrow> 'a kern_scheme res" where
  "kfree_all [] s = Ok s"
| "kfree_all (a # as) s = andthen (kfree a s) (\<lambda>s. kfree_all as s)"

definition sys_exec :: "ksyms \<Rightarrow> kstack \<Rightarrow> 'a kern_scheme \<Rightarrow> (int \<times> 'a kern_scheme) res" where
  "sys_exec sy sk s =
     andthen (argaddr 1 s) (\<lambda>uargv.
     andthen (argstr 0 (sk_path sk) (of_nat MAXPATH) s) (\<lambda>(r, s).
     if r < 0 then Ok (-1, s)
     else
       andthen (fetch_args uargv 0 s) (\<lambda>(ok, argv, s).
       if \<not> ok then andthen (kfree_all argv s) (\<lambda>s. Ok (-1, s))
       else
         andthen (exec sy sk (sk_path sk) argv s) (\<lambda>(ret, s).
         andthen (kfree_all argv s) (\<lambda>s. Ok (ret, s))))))"

end
