(* ===== verification/Syscall.thy ===== *)
theory Syscall
  imports Exec
begin

text \<open>
  The system calls on processes (\<open>kernel/sysproc.c\<close>) and the dispatch of system calls
  (\<open>kernel/syscall.c\<close>).  What surrounds a call is a record: the linker's addresses, the stack
  addresses, the bytes of stack that reach the user as padding, when other harts kill the caller
  during a write, and the hart's lock nesting and interrupt flag where it switches to the scheduler.
\<close>

record kenv =
  ke_syms :: ksyms
  ke_stack :: kstack
  ke_pad :: "u8 list"
  ke_kill :: "int \<Rightarrow> bool"
  ke_noff :: int
  ke_intr :: bool

text \<open>A handler returns a value for the user, sleeps, or has ended the process.\<close>

datatype sysrun = Result u64 | Asleep | Exited

definition result :: "(int \<times> 'a kern_scheme) res \<Rightarrow> (sysrun \<times> 'a kern_scheme) res" where
  "result r = andthen r (\<lambda>(v, s). Ok (Result (of_int v), s))"

definition run_result :: "(prun \<times> 'a kern_scheme) res \<Rightarrow> (sysrun \<times> 'a kern_scheme) res" where
  "run_result r = andthen r (\<lambda>(v, s).
     Ok (case v of Returns n \<Rightarrow> Result (of_int n) | Sleeps _ \<Rightarrow> Asleep, s))"

section \<open>kernel/sysproc.c\<close>

definition sys_exit :: "kenv \<Rightarrow> 'a kern_scheme \<Rightarrow> (sysrun \<times> 'a kern_scheme) res" where
  "sys_exit e s =
     andthen (argint 0 s) (\<lambda>n.
     andthen (exit n (ke_noff e) (ke_intr e) s) (\<lambda>s. Ok (Exited, s)))"

definition sys_getpid :: "'a kern_scheme \<Rightarrow> (int \<times> 'a kern_scheme) res" where
  "sys_getpid s = andthen (mypid s) (\<lambda>pid. Ok (pid, s))"

definition sys_fork :: "kenv \<Rightarrow> 'a kern_scheme \<Rightarrow> (int \<times> 'a kern_scheme) res" where
  "sys_fork e s = fork (ke_syms e) s"

definition sys_wait :: "'a kern_scheme \<Rightarrow> (prun \<times> 'a kern_scheme) res" where
  "sys_wait s = andthen (argaddr 0 s) (\<lambda>p. wait p s)"

definition sys_sbrk :: "'a kern_scheme \<Rightarrow> (int \<times> 'a kern_scheme) res" where
  "sys_sbrk s =
     andthen (argint 0 s) (\<lambda>n.
     case myproc s of
       None \<Rightarrow> Fail Undefined
     | Some p \<Rightarrow>
         let addr = p_sz (procs s p) in
         andthen (growproc n s) (\<lambda>(r, s).
         if r < 0 then Ok (-1, s) else Ok (uint addr, s)))"

text \<open>The wait of \<open>sys_sleep\<close>, with \<open>tickslock\<close> held.\<close>

definition sleep_turn :: "nat \<Rightarrow> int \<Rightarrow> u32 \<Rightarrow> 'a kern_scheme \<Rightarrow> (prun \<times> 'a kern_scheme) res" where
  "sleep_turn p n ticks0 s =
     (if ticks s - ticks0 < of_int n then
        andthen (killed p s) (\<lambda>(k, s).
        if k \<noteq> 0 then andthen (release TicksLock s) (\<lambda>s. Ok (Returns (-1), s))
        else andthen (sleep_enter ChTicks TicksLock s) (\<lambda>s. Ok (Sleeps (uint ticks0), s)))
      else andthen (release TicksLock s) (\<lambda>s. Ok (Returns 0, s)))"

definition sys_sleep :: "'a kern_scheme \<Rightarrow> (prun \<times> 'a kern_scheme) res" where
  "sys_sleep s =
     andthen (argint 0 s) (\<lambda>n.
     let n = (if n < 0 then 0 else n) in
     andthen (acquire TicksLock s) (\<lambda>s.
     case myproc s of None \<Rightarrow> Fail Undefined | Some p \<Rightarrow> sleep_turn p n (ticks s) s))"

definition sys_sleep_resume :: "nat \<Rightarrow> int \<Rightarrow> u32 \<Rightarrow> 'a kern_scheme \<Rightarrow> (prun \<times> 'a kern_scheme) res" where
  "sys_sleep_resume p n ticks0 s = andthen (sleep_exit p TicksLock s) (\<lambda>s. sleep_turn p n ticks0 s)"

definition sys_kill :: "'a kern_scheme \<Rightarrow> (int \<times> 'a kern_scheme) res" where
  "sys_kill s = andthen (argint 0 s) (\<lambda>pid. kill pid s)"

definition sys_uptime :: "'a kern_scheme \<Rightarrow> (int \<times> 'a kern_scheme) res" where
  "sys_uptime s =
     andthen (acquire TicksLock s) (\<lambda>s.
     let xticks = ticks s in
     andthen (release TicksLock s) (\<lambda>s. Ok (uint xticks, s)))"

section \<open>kernel/syscall.c: dispatch\<close>

text \<open>The table \<open>syscalls\<close>, by the numbers of \<open>kernel/syscall.h\<close>.\<close>

definition syscalls :: "kenv \<Rightarrow> int \<Rightarrow> ('a kern_scheme \<Rightarrow> (sysrun \<times> 'a kern_scheme) res) option" where
  "syscalls e num =
     (if num = 1 then Some (\<lambda>s. result (sys_fork e s))
      else if num = 2 then Some (sys_exit e)
      else if num = 3 then Some (\<lambda>s. run_result (sys_wait s))
      else if num = 4 then Some (\<lambda>s. result (sys_pipe s))
      else if num = 5 then Some (\<lambda>s. run_result (sys_read s))
      else if num = 6 then Some (\<lambda>s. result (sys_kill s))
      else if num = 7 then Some (\<lambda>s. result (sys_exec (ke_syms e) (ke_stack e) s))
      else if num = 8 then Some (\<lambda>s. result (sys_fstat (ke_pad e) s))
      else if num = 9 then Some (\<lambda>s. result (sys_chdir (ke_stack e) s))
      else if num = 10 then Some (\<lambda>s. result (sys_dup s))
      else if num = 11 then Some (\<lambda>s. result (sys_getpid s))
      else if num = 12 then Some (\<lambda>s. result (sys_sbrk s))
      else if num = 13 then Some (\<lambda>s. run_result (sys_sleep s))
      else if num = 14 then Some (\<lambda>s. result (sys_uptime s))
      else if num = 15 then Some (\<lambda>s. result (sys_open (ke_stack e) s))
      else if num = 16 then Some (\<lambda>s. run_result (sys_write (ke_kill e) s))
      else if num = 17 then Some (\<lambda>s. result (sys_mknod (ke_stack e) s))
      else if num = 18 then Some (\<lambda>s. result (sys_unlink (ke_stack e) s))
      else if num = 19 then Some (\<lambda>s. result (sys_link (ke_stack e) s))
      else if num = 20 then Some (\<lambda>s. result (sys_mkdir (ke_stack e) s))
      else if num = 21 then Some (\<lambda>s. result (sys_close s))
      else None)"

text \<open>A call that has not returned yet, or never will, leaves \<open>a0\<close> as it is.\<close>

definition syscall :: "kenv \<Rightarrow> 'a kern_scheme \<Rightarrow> (sysrun \<times> 'a kern_scheme) res" where
  "syscall e s =
     (case myproc s of
        None \<Rightarrow> Fail Undefined
      | Some p \<Rightarrow>
          let num = sint (ucast (tf_get p TF_A7 s) :: u32) in
          (case syscalls e num of
             Some f \<Rightarrow>
               andthen (f s) (\<lambda>(r, s).
               case r of Result v \<Rightarrow> Ok (r, tf_set p TF_A0 v s) | _ \<Rightarrow> Ok (r, s))
           | None \<Rightarrow>
               andthen (printf (''%d %s: unknown sys call %d'' @ [CHR 10])
                 [PInt (of_int (p_pid (procs s p))), PStr (Some (takeWhile (\<lambda>c. c \<noteq> 0) (p_name (procs s p)))),
                  PInt (of_int num)] s) (\<lambda>s.
               Ok (Result (-1), tf_set p TF_A0 (-1) s))))"

end
