(* ===== verification/Trap.thy ===== *)
theory Trap
  imports Syscall
begin

text \<open>
  Traps, interrupts and booting: \<open>kernel/trap.c\<close>, \<open>kernel/plic.c\<close>, \<open>kernel/start.c\<close>,
  \<open>kernel/main.c\<close>, and the interrupt functions and register constants of \<open>kernel/riscv.h\<close>.  The control and status
  registers of the hart are a record; the PLIC is a device behind memory-mapped registers that
  answers its \<open>k\<close>-th read as it likes and whose writes are recorded.
\<close>

section \<open>Registers\<close>

definition MSTATUS_MPP_MASK :: u64 where [simp]: "MSTATUS_MPP_MASK = 0x1800"
definition MSTATUS_MPP_S :: u64 where [simp]: "MSTATUS_MPP_S = 0x800"
definition SSTATUS_SPP :: u64 where [simp]: "SSTATUS_SPP = 0x100"
definition SSTATUS_SPIE :: u64 where [simp]: "SSTATUS_SPIE = 0x20"
definition SSTATUS_SIE :: u64 where [simp]: "SSTATUS_SIE = 2"
definition SIE_SEIE :: u64 where [simp]: "SIE_SEIE = 0x200"
definition SIE_STIE :: u64 where [simp]: "SIE_STIE = 0x20"
definition SIE_SSIE :: u64 where [simp]: "SIE_SSIE = 2"
definition MIE_STIE :: u64 where [simp]: "MIE_STIE = 0x20"
definition SATP_SV39 :: u64 where [simp]: "SATP_SV39 = 0x8000000000000000"

definition MAKE_SATP :: "u64 \<Rightarrow> u64" where
  "MAKE_SATP pagetable = SATP_SV39 OR drop_bit 12 pagetable"

definition PLIC_SENABLE :: "u64 \<Rightarrow> u64" where
  "PLIC_SENABLE hart = PLIC + 0x2080 + hart * 0x100"

definition PLIC_SPRIORITY :: "u64 \<Rightarrow> u64" where
  "PLIC_SPRIORITY hart = PLIC + 0x201000 + hart * 0x2000"

definition PLIC_SCLAIM :: "u64 \<Rightarrow> u64" where
  "PLIC_SCLAIM hart = PLIC + 0x201004 + hart * 0x2000"

record csrs =
  mstatus :: u64
  mepc :: u64
  medeleg :: u64
  mideleg :: u64
  mie :: u64
  menvcfg :: u64
  mcounteren :: u64
  mhartid :: u64
  pmpaddr0 :: u64
  pmpcfg0 :: u64
  sstatus :: u64
  sie :: u64
  stvec :: u64
  sepc :: u64
  scause :: u64
  stval :: u64
  satp :: u64
  stimecmp :: u64
  time :: u64
  tp :: u64

record plic =
  pl_dev :: "nat \<Rightarrow> u64 \<Rightarrow> u32"
  pl_reads :: nat
  pl_wr :: "(u64 \<times> u32) list"

record mach = kern +
  csr :: csrs
  plic :: plic

text \<open>The addresses of the trap entry points.\<close>

record vectors =
  vc_kernelvec :: u64
  vc_usertrap :: u64
  vc_uservec :: u64
  vc_userret :: u64
  vc_main :: u64
  vc_etext :: u64

definition set_csr :: "(csrs \<Rightarrow> csrs) \<Rightarrow> 'a mach_scheme \<Rightarrow> 'a mach_scheme" where
  "set_csr f s = s\<lparr>csr := f (csr s)\<rparr>"

definition intr_on :: "'a mach_scheme \<Rightarrow> 'a mach_scheme" where
  "intr_on s = set_csr (\<lambda>c. c\<lparr>sstatus := sstatus c OR SSTATUS_SIE\<rparr>) s"

definition intr_off :: "'a mach_scheme \<Rightarrow> 'a mach_scheme" where
  "intr_off s = set_csr (\<lambda>c. c\<lparr>sstatus := sstatus c AND NOT SSTATUS_SIE\<rparr>) s"

definition intr_get :: "'a mach_scheme \<Rightarrow> bool" where
  "intr_get s \<longleftrightarrow> sstatus (csr s) AND SSTATUS_SIE \<noteq> 0"

text \<open>\<open>cpuid\<close> keeps the low 32 bits of \<open>tp\<close> as an \<open>int\<close>.\<close>

definition cpuid :: "'a mach_scheme \<Rightarrow> u64" where
  "cpuid s = scast (ucast (tp (csr s)) :: u32)"

definition kvminithart :: "'a mach_scheme \<Rightarrow> 'a mach_scheme" where
  "kvminithart s = set_csr (\<lambda>c. c\<lparr>satp := MAKE_SATP (kernel_pagetable s)\<rparr>) s"

section \<open>kernel/plic.c\<close>

definition plic_write :: "u64 \<Rightarrow> u32 \<Rightarrow> 'a mach_scheme \<Rightarrow> 'a mach_scheme" where
  "plic_write a v s = s\<lparr>plic := (plic s)\<lparr>pl_wr := pl_wr (plic s) @ [(a, v)]\<rparr>\<rparr>"

definition plicinit :: "'a mach_scheme \<Rightarrow> 'a mach_scheme" where
  "plicinit s = plic_write (PLIC + of_nat VIRTIO0_IRQ * 4) 1 (plic_write (PLIC + of_nat UART0_IRQ * 4) 1 s)"

definition plicinithart :: "'a mach_scheme \<Rightarrow> 'a mach_scheme" where
  "plicinithart s =
     plic_write (PLIC_SPRIORITY (cpuid s)) 0
       (plic_write (PLIC_SENABLE (cpuid s)) (push_bit UART0_IRQ 1 OR push_bit VIRTIO0_IRQ 1) s)"

definition plic_claim :: "'a mach_scheme \<Rightarrow> u32 \<times> 'a mach_scheme" where
  "plic_claim s = (pl_dev (plic s) (pl_reads (plic s)) (PLIC_SCLAIM (cpuid s)),
     s\<lparr>plic := (plic s)\<lparr>pl_reads := pl_reads (plic s) + 1\<rparr>\<rparr>)"

definition plic_complete :: "u32 \<Rightarrow> 'a mach_scheme \<Rightarrow> 'a mach_scheme" where
  "plic_complete irq s = plic_write (PLIC_SCLAIM (cpuid s)) irq s"

section \<open>kernel/trap.c\<close>

definition trapinit :: "'a mach_scheme \<Rightarrow> 'a mach_scheme" where
  "trapinit s = s\<lparr>lks := (lks s)(TicksLock := False)\<rparr>"

definition trapinithart :: "vectors \<Rightarrow> 'a mach_scheme \<Rightarrow> 'a mach_scheme" where
  "trapinithart v s = set_csr (\<lambda>c. c\<lparr>stvec := vc_kernelvec v\<rparr>) s"

definition clockintr :: "'a mach_scheme \<Rightarrow> 'a mach_scheme res" where
  "clockintr s =
     andthen (if cpuid s = 0 then
                andthen (acquire TicksLock s) (\<lambda>s.
                andthen (wakeup ChTicks (s\<lparr>ticks := ticks s + 1\<rparr>)) (\<lambda>s.
                release TicksLock s))
              else Ok s) (\<lambda>s.
     Ok (set_csr (\<lambda>c. c\<lparr>stimecmp := time c + 1000000\<rparr>) s))"

definition devintr :: "'a mach_scheme \<Rightarrow> (nat \<times> 'a mach_scheme) res" where
  "devintr s =
     (if scause (csr s) = 0x8000000000000009 then
        (case plic_claim s of (irq, s) \<Rightarrow>
         andthen
           (if irq = of_nat UART0_IRQ then uartintr s
            else if irq = of_nat VIRTIO0_IRQ then virtio_disk_intr s
            else if irq \<noteq> 0 then printf (''unexpected interrupt irq=%d'' @ [CHR 10]) [PInt irq] s
            else Ok s) (\<lambda>s.
         Ok (1, if irq \<noteq> 0 then plic_complete irq s else s)))
      else if scause (csr s) = 0x8000000000000005 then andthen (clockintr s) (\<lambda>s. Ok (2, s))
      else Ok (0, s))"

text \<open>
  \<open>usertrapret\<close> up to its jump to the trampoline, with the value it passes: the register holding
  the user page table.
\<close>

definition usertrapret :: "ksyms \<Rightarrow> vectors \<Rightarrow> 'a mach_scheme \<Rightarrow> (u64 \<times> 'a mach_scheme) res" where
  "usertrapret sy v s =
     (case myproc s of
        None \<Rightarrow> Fail Undefined
      | Some p \<Rightarrow>
          let s = intr_off s;
              s = set_csr (\<lambda>c. c\<lparr>stvec := TRAMPOLINE + (vc_uservec v - sym_trampoline sy)\<rparr>) s;
              s = tf_set p TF_KERNEL_SATP (satp (csr s)) s;
              s = tf_set p TF_KERNEL_SP (p_kstack (procs s p) + PGSIZE) s;
              s = tf_set p TF_KERNEL_TRAP (vc_usertrap v) s;
              s = tf_set p TF_KERNEL_HARTID (tp (csr s)) s;
              x = sstatus (csr s) AND NOT SSTATUS_SPP OR SSTATUS_SPIE;
              s = set_csr (\<lambda>c. c\<lparr>sstatus := x\<rparr>) s;
              s = set_csr (\<lambda>c. c\<lparr>sepc := tf_get p TF_EPC s\<rparr>) s
          in Ok (MAKE_SATP (p_pagetable (procs s p)), s))"

text \<open>
  How a trap from user space ends: back in user space (with the page table to use), asleep or
  preempted in the kernel, or with the process gone.
\<close>

datatype trapend = ToUser u64 | Blocked | Preempted | Gone

definition trap_finish :: "kenv \<Rightarrow> vectors \<Rightarrow> nat \<Rightarrow> nat \<Rightarrow> 'a mach_scheme \<Rightarrow> (trapend \<times> 'a mach_scheme) res" where
  "trap_finish e v p which_dev s =
     andthen (killed p s) (\<lambda>(k, s).
     if k \<noteq> 0 then andthen (exit (-1) (ke_noff e) (ke_intr e) s) (\<lambda>s. Ok (Gone, s))
     else if which_dev = 2 then andthen (yield (ke_noff e) (ke_intr e) s) (\<lambda>s. Ok (Preempted, s))
     else andthen (usertrapret (ke_syms e) v s) (\<lambda>(a, s). Ok (ToUser a, s)))"

definition usertrap :: "kenv \<Rightarrow> vectors \<Rightarrow> 'a mach_scheme \<Rightarrow> (trapend \<times> 'a mach_scheme) res" where
  "usertrap e v s =
     (if sstatus (csr s) AND SSTATUS_SPP \<noteq> 0 then Fail (Panic ''usertrap: not from user mode'')
      else
        let s = set_csr (\<lambda>c. c\<lparr>stvec := vc_kernelvec v\<rparr>) s in
        (case myproc s of
           None \<Rightarrow> Fail Undefined
         | Some p \<Rightarrow>
             let s = tf_set p TF_EPC (sepc (csr s)) s in
             if scause (csr s) = 8 then
               andthen (killed p s) (\<lambda>(k, s).
               if k \<noteq> 0 then andthen (exit (-1) (ke_noff e) (ke_intr e) s) (\<lambda>s. Ok (Gone, s))
               else
                 let s = intr_on (tf_set p TF_EPC (tf_get p TF_EPC s + 4) s) in
                 andthen (syscall e s) (\<lambda>(r, s).
                 case r of
                   Result _ \<Rightarrow> trap_finish e v p 0 s
                 | Asleep \<Rightarrow> Ok (Blocked, s)
                 | Exited \<Rightarrow> Ok (Gone, s)))
             else
               andthen (devintr s) (\<lambda>(which_dev, s).
               if which_dev \<noteq> 0 then trap_finish e v p which_dev s
               else
                 andthen (printf (''usertrap(): unexpected scause 0x%lx pid=%d'' @ [CHR 10])
                   [PLong (scause (csr s)), PInt (of_int (p_pid (procs s p)))] s) (\<lambda>s.
                 andthen (printf (''            sepc=0x%lx stval=0x%lx'' @ [CHR 10])
                   [PLong (sepc (csr s)), PLong (stval (csr s))] s) (\<lambda>s.
                 andthen (setkilled p s) (\<lambda>s.
                 trap_finish e v p 0 s))))))"

text \<open>The end of a trap that was preempted, after the scheduler has come back to it.\<close>

definition usertrap_resume :: "kenv \<Rightarrow> vectors \<Rightarrow> nat \<Rightarrow> 'a mach_scheme \<Rightarrow> (trapend \<times> 'a mach_scheme) res" where
  "usertrap_resume e v p s =
     andthen (yield_resume p s) (\<lambda>s.
     andthen (usertrapret (ke_syms e) v s) (\<lambda>(a, s). Ok (ToUser a, s)))"

text \<open>
  A trap from kernel code: the flag says whether it has given up the processor, in which case it
  continues with \<open>kerneltrap_resume\<close>.
\<close>

definition kerneltrap_end :: "u64 \<Rightarrow> u64 \<Rightarrow> 'a mach_scheme \<Rightarrow> 'a mach_scheme" where
  "kerneltrap_end epc status s = set_csr (\<lambda>c. c\<lparr>sepc := epc, sstatus := status\<rparr>) s"

definition kerneltrap :: "kenv \<Rightarrow> 'a mach_scheme \<Rightarrow> (bool \<times> 'a mach_scheme) res" where
  "kerneltrap e s =
     (let epc = sepc (csr s); status = sstatus (csr s); cause = scause (csr s) in
      if status AND SSTATUS_SPP = 0 then Fail (Panic ''kerneltrap: not from supervisor mode'')
      else if intr_get s then Fail (Panic ''kerneltrap: interrupts enabled'')
      else
        andthen (devintr s) (\<lambda>(which_dev, s).
        if which_dev = 0 then
          andthen (printf (''scause=0x%lx sepc=0x%lx stval=0x%lx'' @ [CHR 10])
            [PLong cause, PLong (sepc (csr s)), PLong (stval (csr s))] s) (\<lambda>s.
          Fail (Panic ''kerneltrap''))
        else if which_dev = 2 \<and> myproc s \<noteq> None then
          andthen (yield (ke_noff e) (ke_intr e) s) (\<lambda>s. Ok (True, s))
        else Ok (False, kerneltrap_end epc status s)))"

definition kerneltrap_resume :: "nat \<Rightarrow> u64 \<Rightarrow> u64 \<Rightarrow> 'a mach_scheme \<Rightarrow> 'a mach_scheme res" where
  "kerneltrap_resume p epc status s =
     andthen (yield_resume p s) (\<lambda>s. Ok (kerneltrap_end epc status s))"

section \<open>kernel/start.c\<close>

definition timerinit :: "csrs \<Rightarrow> csrs" where
  "timerinit c =
     c\<lparr>mie := mie c OR MIE_STIE,
       menvcfg := menvcfg c OR push_bit 63 1,
       mcounteren := mcounteren c OR 2,
       stimecmp := time c + 1000000\<rparr>"

definition start :: "vectors \<Rightarrow> csrs \<Rightarrow> csrs" where
  "start v c =
     (let x = mstatus c; x = x AND NOT MSTATUS_MPP_MASK; x = x OR MSTATUS_MPP_S;
          c = c\<lparr>mstatus := x\<rparr>;
          c = c\<lparr>mepc := vc_main v\<rparr>;
          c = c\<lparr>satp := 0\<rparr>;
          c = c\<lparr>medeleg := 0xffff\<rparr>;
          c = c\<lparr>mideleg := 0xffff\<rparr>;
          c = c\<lparr>sie := sie c OR SIE_SEIE OR SIE_STIE OR SIE_SSIE\<rparr>;
          c = c\<lparr>pmpaddr0 := 0x3fffffffffffff\<rparr>;
          c = c\<lparr>pmpcfg0 := 0xf\<rparr>;
          c = timerinit c
      in c\<lparr>tp := scast (ucast (mhartid c) :: u32)\<rparr>)"

section \<open>kernel/main.c\<close>

text \<open>
  The boot of hart 0 up to the scheduler.  \<open>rd\<close> answers the reads of the disk's registers, \<open>nm\<close> and
  \<open>de\<close> are the stack variables of \<open>namei\<close>.
\<close>

definition main0 :: "ksyms \<Rightarrow> vectors \<Rightarrow> mmio \<Rightarrow> u64 \<Rightarrow> u64 \<Rightarrow> 'a mach_scheme \<Rightarrow> 'a mach_scheme res" where
  "main0 sy v rd nm de s =
     (let s = printfinit (consoleinit s) in
      andthen (printf [CHR 10] [] s) (\<lambda>s.
      andthen (printf (''xv6 kernel is booting'' @ [CHR 10]) [] s) (\<lambda>s.
      andthen (printf [CHR 10] [] s) (\<lambda>s.
      andthen (case kinit s of None \<Rightarrow> Fail Looping | Some r \<Rightarrow> r) (\<lambda>s.
      andthen (kvminit (vc_etext v) (sym_trampoline sy) s) (\<lambda>s.
      let s = plicinithart (plicinit (trapinithart v (trapinit (procinit (kvminithart s)))));
          s = fileinit (iinit (binit s)) in
      andthen (virtio_disk_init rd s) (\<lambda>(_, s).
      userinit sy nm de s)))))))"

text \<open>The boot of another hart, once hart 0 has set \<open>started\<close>.\<close>

definition main_other :: "vectors \<Rightarrow> 'a mach_scheme \<Rightarrow> 'a mach_scheme res" where
  "main_other v s =
     andthen (printf (''hart %d starting'' @ [CHR 10]) [PInt (ucast (cpuid s))] s) (\<lambda>s.
     Ok (plicinithart (trapinithart v (kvminithart s))))"

end
