(* ===== verification/Ulib.thy ===== *)
theory Ulib
  imports Cstring
begin

text \<open>
  \<open>user/ulib.c\<close>: the string and memory functions of user programs, and what they rely on of the
  \<open>read\<close> system call.  The functions that only read take the bytes of the array from the pointer on as a
  list; running off its end is undefined.  The functions that store work on byte memory.
\<close>

section \<open>Strings\<close>

primrec strcmp :: "u8 list \<Rightarrow> u8 list \<Rightarrow> int res" where
  "strcmp [] q = Fail Undefined"
| "strcmp (x # p) q =
     (case q of [] \<Rightarrow> Fail Undefined
      | y # q' \<Rightarrow> if x \<noteq> 0 \<and> x = y then strcmp p q' else Ok (uint x - uint y))"

text \<open>The counter is an \<open>int\<close>, the result an \<open>uint\<close>.\<close>

primrec strlen_loop :: "u32 \<Rightarrow> u8 list \<Rightarrow> u32 res" where
  "strlen_loop n [] = Fail Undefined"
| "strlen_loop n (x # s) = (if x = 0 then Ok n else strlen_loop (n + 1) s)"

definition user_strlen :: "u8 list \<Rightarrow> u32 res" where
  "user_strlen s = strlen_loop 0 s"

text \<open>The pointer \<open>strchr\<close> returns, as its distance from the argument; \<open>None\<close> is the null pointer.\<close>

primrec strchr :: "u8 list \<Rightarrow> u8 \<Rightarrow> nat option res" where
  "strchr [] c = Fail Undefined"
| "strchr (x # s) c =
     (if x = 0 then Ok None
      else if x = c then Ok (Some 0)
      else andthen (strchr s c) (\<lambda>r. Ok (map_option Suc r)))"

primrec atoi_loop :: "u32 \<Rightarrow> u8 list \<Rightarrow> u32 res" where
  "atoi_loop n [] = Fail Undefined"
| "atoi_loop n (x # s) = (if 48 \<le> x \<and> x \<le> 57 then atoi_loop (n * 10 + ucast x - 48) s else Ok n)"

definition atoi :: "u8 list \<Rightarrow> u32 res" where
  "atoi s = atoi_loop 0 s"

partial_function (option) strcpy_loop :: "bytemem \<Rightarrow> u64 \<Rightarrow> u64 \<Rightarrow> bytemem option" where
  "strcpy_loop m s t =
     (let m' = m(s := m t) in if m t \<noteq> 0 then strcpy_loop m' (s + 1) (t + 1) else Some m')"

definition strcpy :: "bytemem \<Rightarrow> u64 \<Rightarrow> u64 \<Rightarrow> (u64 \<times> bytemem) option" where
  "strcpy m s t = map_option (Pair s) (strcpy_loop m s t)"

section \<open>Memory\<close>

definition user_memset :: "bytemem \<Rightarrow> u64 \<Rightarrow> u32 \<Rightarrow> u32 \<Rightarrow> bytemem" where
  "user_memset m dst c n = memset_loop m dst (ucast c) 0 (unat n)"

text \<open>The count is a signed \<open>int\<close>.\<close>

definition user_memmove :: "bytemem \<Rightarrow> u64 \<Rightarrow> u64 \<Rightarrow> u32 \<Rightarrow> bytemem" where
  "user_memmove m dst src n =
     (if src > dst then copy_up m dst src (nat (sint n))
      else copy_down m (dst + scast n) (src + scast n) (nat (sint n)))"

primrec user_memcmp_loop :: "(nat \<Rightarrow> u8) \<Rightarrow> (nat \<Rightarrow> u8) \<Rightarrow> nat \<Rightarrow> nat \<Rightarrow> int" where
  "user_memcmp_loop p1 p2 i 0 = 0"
| "user_memcmp_loop p1 p2 i (Suc n) =
     (if p1 i \<noteq> p2 i then uint (p1 i) - uint (p2 i) else user_memcmp_loop p1 p2 (Suc i) n)"

definition user_memcmp :: "(nat \<Rightarrow> u8) \<Rightarrow> (nat \<Rightarrow> u8) \<Rightarrow> u32 \<Rightarrow> int" where
  "user_memcmp s1 s2 n = user_memcmp_loop s1 s2 0 (unat n)"

definition user_memcpy :: "bytemem \<Rightarrow> u64 \<Rightarrow> u64 \<Rightarrow> u32 \<Rightarrow> bytemem" where
  "user_memcpy m dst src n = user_memmove m dst src n"

section \<open>Reading\<close>

text \<open>
  A program reads through the \<open>read\<close> system call of one descriptor: from the state \<open>w\<close> of the world and
  the largest number of bytes, the bytes stored in the buffer and the new state, or \<open>None\<close> for the
  result -1.  \<open>reads_file\<close> is what the programs rely on: the bytes are the next ones of \<open>rest w\<close>, at most
  as many as asked for, and none only at the end of the file.
\<close>

type_synonym 'w reader = "'w \<Rightarrow> nat \<Rightarrow> u8 list option \<times> 'w"

definition reads_file :: "'w reader \<Rightarrow> ('w \<Rightarrow> u8 list) \<Rightarrow> bool" where
  "reads_file rd rest \<longleftrightarrow> (\<forall>w n. \<exists>bs w'. rd w n = (Some bs, w') \<and> rest w = bs @ rest w' \<and> length bs \<le> n \<and>
     (bs = [] \<longrightarrow> n = 0 \<or> rest w = []))"

text \<open>\<open>gets\<close> reads byte by byte into a buffer of \<open>limit\<close> bytes; the last argument counts the bytes there is
  room for.\<close>

primrec gets_loop :: "'w reader \<Rightarrow> 'w \<Rightarrow> u8 list \<Rightarrow> nat \<Rightarrow> u8 list \<times> 'w" where
  "gets_loop rd w buf 0 = (buf @ [0], w)"
| "gets_loop rd w buf (Suc k) =
     (case rd w 1 of
        (Some [c], w') \<Rightarrow>
          if c = 10 \<or> c = 13 then (buf @ [c, 0], w') else gets_loop rd w' (buf @ [c]) k
      | (_, w') \<Rightarrow> (buf @ [0], w'))"

definition gets :: "'w reader \<Rightarrow> 'w \<Rightarrow> int \<Rightarrow> u8 list \<times> 'w" where
  "gets rd w limit = gets_loop rd w [] (nat (limit - 1))"

section \<open>Lemmas\<close>

text \<open>The string at the front of an array.\<close>

definition str :: "u8 list \<Rightarrow> u8 list" where
  "str s = takeWhile (\<lambda>c. c \<noteq> 0) s"

lemma str_append: "0 \<notin> set s \<Longrightarrow> str (s @ 0 # r) = s"
  by (auto simp: str_def takeWhile_append)

lemma strchr_None:
  "0 \<notin> set s \<Longrightarrow> c \<notin> set s \<Longrightarrow> strchr (s @ 0 # r) c = Ok None"
  by (induction s) auto

lemma strchr_Some:
  "0 \<notin> set s \<Longrightarrow> c \<notin> set s \<Longrightarrow> c \<noteq> 0 \<Longrightarrow> strchr (s @ c # r) c = Ok (Some (length s))"
  by (induction s) auto

lemma strchr_bound: "strchr s c = Ok (Some i) \<Longrightarrow> i < length s"
  by (induction s arbitrary: i) (auto simp: andthen_eq_Ok split: if_splits)

lemma user_strlen_str: "0 \<notin> set s \<Longrightarrow> user_strlen (s @ 0 # r) = Ok (of_nat (length s))"
proof -
  have "0 \<notin> set s \<Longrightarrow> strlen_loop n (s @ 0 # r) = Ok (n + of_nat (length s))" for n
    by (induction s arbitrary: n) (auto simp: add.assoc)
  then show "0 \<notin> set s \<Longrightarrow> user_strlen (s @ 0 # r) = Ok (of_nat (length s))" by (simp add: user_strlen_def)
qed

lemma strcmp_zero:
  assumes "0 \<notin> set p" "0 \<notin> set q"
  shows "\<exists>i. strcmp (p @ 0 # r) (q @ 0 # r') = Ok i \<and> (i = 0 \<longleftrightarrow> p = q)"
  using assms
proof (induction p arbitrary: q)
  case Nil
  then show ?case by (cases q) (auto simp: word_uint_eq_iff)
next
  case (Cons x p)
  then show ?case by (cases q) (auto simp: word_uint_eq_iff)
qed

text \<open>The library's \<open>memmove\<close> agrees with the kernel's wherever that is correct.\<close>

lemma user_memmove_eq:
  assumes k: "k < 2 ^ 31" and src: "unat src + k < 2 ^ 64" and dst: "unat dst + k < 2 ^ 64"
  shows "user_memmove m dst src (of_nat k) = memmove m dst src (of_nat k)"
proof -
  have n: "nat (sint (of_nat k :: u32)) = k" "scast (of_nat k :: u32) = (of_nat k :: u64)"
    using sint_of_nat_u32 [OF k] by (simp_all add: scast_eq)
  have u: "unat (of_nat k :: u32) = k" using k by (simp add: unat_of_nat take_bit_nat_eq_self)
  have k64: "k < 2 ^ 64" using k by simp
  have eq: "memmove m dst src (of_nat k) = (\<lambda>a. if unat (a - dst) < k then m (src + (a - dst)) else m a)"
    using memmove_eq [of src "of_nat k" dst m] src dst by (simp add: u)
  consider "k = 0" | "dst < src" | "0 < k" "src \<le> dst" by fastforce
  then show ?thesis
  proof cases
    case 1
    then show ?thesis by (simp add: user_memmove_def memmove_def)
  next
    case 2
    then have "unat dst < unat src" by (simp add: word_less_nat_alt)
    then have "k \<le> unat (dst - src)"
      using unat_sub_if' [of dst src] src unat_u64_bound [of src] by simp
    then show ?thesis using 2 copy_up_eq [OF k64, of dst src m] by (simp add: user_memmove_def n eq)
  next
    case 3
    have far: "dst + of_nat k = src + of_nat k \<or> k \<le> unat (src + of_nat k - (dst + of_nat k))"
    proof (cases "src = dst")
      case False
      then have "unat src < unat dst" using 3(2) by (simp add: word_less_nat_alt [symmetric])
      then have "k \<le> unat (src - dst)" using unat_sub_if' [of src dst] dst unat_u64_bound [of dst] by simp
      then show ?thesis by simp
    qed simp
    have off: "src + of_nat k - (dst + of_nat k - a) = src + (a - dst)" for a by (simp add: algebra_simps)
    have "copy_down m (dst + of_nat k) (src + of_nat k) k = memmove m dst src (of_nat k)"
      unfolding eq copy_down_eq [OF k64 far] off by (simp only: block_from_end [OF 3(1) k64])
    then show ?thesis using 3 by (simp add: user_memmove_def n not_less [symmetric])
  qed
qed

end
