(* ===== verification/Grep.thy ===== *)
theory Grep
  imports Ulib
begin

text \<open>
  \<open>user/grep.c\<close>: the regular expression matcher, shown to decide the language of its expression, and the
  loop that reads a file through a buffer of 1024 bytes, shown to print the matching lines however the
  file arrives in pieces.  A C string is the list of its characters before the terminating nul; a pointer
  into it is the suffix it points to.
\<close>

section \<open>match, matchhere, matchstar\<close>

text \<open>\<open>matchstar\<close> is a loop that calls \<open>matchhere\<close>, which calls it again on a shorter expression.\<close>

function matchhere :: "u8 list \<Rightarrow> u8 list \<Rightarrow> bool"
and matchstar :: "u8 \<Rightarrow> u8 list \<Rightarrow> u8 list \<Rightarrow> bool" where
  "matchhere re t =
     (case re of
        [] \<Rightarrow> True
      | c # r \<Rightarrow>
          if r \<noteq> [] \<and> hd r = 42 then matchstar c (tl r) t
          else if c = 36 \<and> r = [] then t = []
          else if t \<noteq> [] \<and> (c = 46 \<or> c = hd t) then matchhere r (tl t)
          else False)"
| "matchstar c re t =
     (if matchhere re t then True
      else if t \<noteq> [] \<and> (hd t = c \<or> c = 46) then matchstar c re (tl t)
      else False)"
  by pat_completeness auto
termination
  by (relation "measures [\<lambda>x. case x of Inl (re, t) \<Rightarrow> length re | Inr (c, re, t) \<Rightarrow> Suc (length re),
        \<lambda>x. case x of Inl (re, t) \<Rightarrow> length t | Inr (c, re, t) \<Rightarrow> length t]")
    (auto split: list.splits)

declare matchhere.simps [simp del] matchstar.simps [simp del]

fun match_loop :: "u8 list \<Rightarrow> u8 list \<Rightarrow> bool" where
  "match_loop re t =
     (if matchhere re t then True else (case t of [] \<Rightarrow> False | _ # t \<Rightarrow> match_loop re t))"

declare match_loop.simps [simp del]

definition match :: "u8 list \<Rightarrow> u8 list \<Rightarrow> bool" where
  "match re t = (if re \<noteq> [] \<and> hd re = 94 then matchhere (tl re) t else match_loop re t)"

section \<open>The loop over the lines of a file\<close>

text \<open>The inner loop: \<open>p\<close> is the position in \<open>buf\<close>, \<open>out\<close> what has been written to descriptor 1.\<close>

function grep_lines :: "u8 list \<Rightarrow> u8 list \<Rightarrow> nat \<Rightarrow> u8 list \<Rightarrow> (u8 list \<times> nat \<times> u8 list) res" where
  "grep_lines pattern buf p out =
     andthen (strchr (drop p buf) 10) (\<lambda>r.
     case r of
       None \<Rightarrow> Ok (buf, p, out)
     | Some i \<Rightarrow>
         let q = p + i; buf = buf[q := 0] in
         if match pattern (str (drop p buf)) then
           let buf = buf[q := 10] in
           grep_lines pattern buf (q + 1) (out @ take (q + 1 - p) (drop p buf))
         else grep_lines pattern buf (q + 1) out)"
  by pat_completeness auto
termination
  by (relation "measure (\<lambda>(pattern, buf, p, out). length buf - p)") (auto dest!: strchr_bound)

declare grep_lines.simps [simp del]

text \<open>The outer loop: \<open>m\<close> is the number of bytes in \<open>buf\<close>.  It ends when \<open>read\<close> returns no byte or fails.\<close>

partial_function (option) grep_loop ::
  "'w reader \<Rightarrow> u8 list \<Rightarrow> 'w \<Rightarrow> u8 list \<Rightarrow> nat \<Rightarrow> u8 list \<Rightarrow> ('w \<times> u8 list) res option" where
  "grep_loop rd pattern w buf m out =
     (case rd w (length buf - m - 1) of
        (None, w) \<Rightarrow> Some (Ok (w, out))
      | (Some bs, w) \<Rightarrow>
          if bs = [] then Some (Ok (w, out)) else
          let buf = take m buf @ bs @ drop (m + length bs) buf; m = m + length bs; buf = buf[m := 0] in
          case grep_lines pattern buf 0 out of
            Fail e \<Rightarrow> Some (Fail e)
          | Ok (buf, p, out) \<Rightarrow>
              if m > 0 then
                let m = m - p in
                grep_loop rd pattern w (take m (drop p buf) @ drop m buf) m out
              else grep_loop rd pattern w buf m out)"

definition grep :: "'w reader \<Rightarrow> u8 list \<Rightarrow> 'w \<Rightarrow> u8 list \<Rightarrow> ('w \<times> u8 list) res option" where
  "grep rd pattern w buf = grep_loop rd pattern w buf 0 []"

section \<open>The language of an expression\<close>

datatype item = One u8 | Many u8

fun items :: "u8 list \<Rightarrow> item list \<times> bool" where
  "items [] = ([], False)"
| "items [c] = (if c = 36 then ([], True) else ([One c], False))"
| "items (c # d # r) =
     (if d = 42 then (case items r of (is, e) \<Rightarrow> (Many c # is, e))
      else (case items (d # r) of (is, e) \<Rightarrow> (One c # is, e)))"

text \<open>The dot stands for any character.\<close>

definition matches :: "u8 \<Rightarrow> u8 \<Rightarrow> bool" where
  "matches c x \<longleftrightarrow> c = 46 \<or> c = x"

fun lang :: "item list \<Rightarrow> u8 list set" where
  "lang [] = {[]}"
| "lang (One c # is) = {x # w | x w. matches c x \<and> w \<in> lang is}"
| "lang (Many c # is) = {v @ w | v w. (\<forall>x \<in> set v. matches c x) \<and> w \<in> lang is}"

definition prefix_in :: "item list \<times> bool \<Rightarrow> u8 list \<Rightarrow> bool" where
  "prefix_in p t \<longleftrightarrow> (\<exists>u v. t = u @ v \<and> u \<in> lang (fst p) \<and> (snd p \<longrightarrow> v = []))"

lemma prefix_inI: "\<lbrakk>u \<in> lang is; e \<longrightarrow> v = []\<rbrakk> \<Longrightarrow> prefix_in (is, e) (u @ v)"
  by (auto simp: prefix_in_def)

lemma prefix_inE:
  assumes "prefix_in (is, e) t"
  obtains u v where "t = u @ v" "u \<in> lang is" "e \<longrightarrow> v = []"
  using assms unfolding prefix_in_def by auto

lemma prefix_in_Nil: "prefix_in ([], False) t" "prefix_in ([], True) t \<longleftrightarrow> t = []"
  by (auto simp: prefix_in_def)

lemma prefix_in_One: "prefix_in (One c # is, e) t \<longleftrightarrow> (\<exists>x r. t = x # r \<and> matches c x \<and> prefix_in (is, e) r)"
proof
  assume "prefix_in (One c # is, e) t"
  then obtain u v where "t = u @ v" "u \<in> lang (One c # is)" "e \<longrightarrow> v = []" by (rule prefix_inE)
  then obtain x w where "t = x # w @ v" "matches c x" "w \<in> lang is" "e \<longrightarrow> v = []" by auto
  then show "\<exists>x r. t = x # r \<and> matches c x \<and> prefix_in (is, e) r" using prefix_inI by blast
next
  assume "\<exists>x r. t = x # r \<and> matches c x \<and> prefix_in (is, e) r"
  then obtain x u v where "t = (x # u) @ v" "matches c x" "u \<in> lang is" "e \<longrightarrow> v = []" by (auto elim!: prefix_inE)
  then show "prefix_in (One c # is, e) t" by (metis (mono_tags, lifting) lang.simps(2) mem_Collect_eq prefix_inI)
qed

lemma prefix_in_Many:
  "prefix_in (Many c # is, e) t \<longleftrightarrow>
     prefix_in (is, e) t \<or> (\<exists>x r. t = x # r \<and> matches c x \<and> prefix_in (Many c # is, e) r)" (is "?l \<longleftrightarrow> ?r")
proof
  assume ?l
  then obtain u r where "t = u @ r" "u \<in> lang (Many c # is)" and e: "e \<longrightarrow> r = []" by (rule prefix_inE)
  then obtain v w where t: "t = (v @ w) @ r" "\<forall>x \<in> set v. matches c x" "w \<in> lang is" by auto
  show ?r
  proof (cases v)
    case Nil
    then show ?thesis using t e prefix_inI by auto
  next
    case (Cons x v')
    then have "v' @ w \<in> lang (Many c # is)" using t by auto
    from prefix_inI [OF this e] show ?thesis using t Cons by auto
  qed
next
  have many: "v @ w \<in> lang (Many c # is)" if "\<forall>x \<in> set v. matches c x" "w \<in> lang is" for v w using that by auto
  assume ?r
  then show ?l
  proof
    assume "prefix_in (is, e) t"
    then show ?thesis using prefix_inI many [of "[]"] by (metis append_Nil empty_iff list.set(1) prefix_inE)
  next
    assume "\<exists>x r. t = x # r \<and> matches c x \<and> prefix_in (Many c # is, e) r"
    then obtain x u r where "t = x # u @ r" "matches c x" "u \<in> lang (Many c # is)" "e \<longrightarrow> r = []"
      by (auto elim!: prefix_inE simp del: lang.simps)
    then obtain v w where t: "t = ((x # v) @ w) @ r" "matches c x" "\<forall>x \<in> set v. matches c x" "w \<in> lang is" "e \<longrightarrow> r = []"
      by auto
    then show ?thesis using prefix_inI [OF many [of "x # v" w] t(5)] by simp
  qed
qed

lemmas prefix_in_simps = prefix_in_Nil prefix_in_One

lemma matchhere_Nil: "matchhere [] t"
  by (subst matchhere.simps) simp

lemma matchhere_one: "matchhere [c] t \<longleftrightarrow> (if c = 36 then t = [] else t \<noteq> [] \<and> matches c (hd t))"
  by (subst matchhere.simps) (simp add: matchhere_Nil matches_def)

lemma matchhere_two:
  "matchhere (c # d # r) t \<longleftrightarrow>
     (if d = 42 then matchstar c r t else t \<noteq> [] \<and> matches c (hd t) \<and> matchhere (d # r) (tl t))"
  by (subst matchhere.simps) (simp add: matches_def)

lemma matchstar_step:
  "matchstar c re t \<longleftrightarrow> matchhere re t \<or> (t \<noteq> [] \<and> matches c (hd t) \<and> matchstar c re (tl t))"
  by (subst matchstar.simps) (auto simp: matches_def)

lemma matchstar_prefix:
  assumes "\<And>t. matchhere re t \<longleftrightarrow> prefix_in (items re) t"
  shows "matchstar c re t \<longleftrightarrow> prefix_in (Many c # fst (items re), snd (items re)) t"
proof (induction t)
  case Nil
  then show ?case using assms by (subst matchstar_step, subst prefix_in_Many) simp
next
  case (Cons x t)
  then show ?case using assms by (subst matchstar_step, subst prefix_in_Many) auto
qed

lemma matchhere_prefix: "matchhere re t \<longleftrightarrow> prefix_in (items re) t"
proof (induction re arbitrary: t rule: items.induct)
  case (3 c d r)
  show ?case
  proof (cases "d = 42")
    case True
    then show ?thesis using matchstar_prefix [OF 3(1), of c t] by (simp add: matchhere_two split: prod.split)
  next
    case False
    then show ?thesis using 3(2) by (cases t) (auto simp: matchhere_two prefix_in_One split: prod.split)
  qed
qed (auto simp: matchhere_Nil matchhere_one prefix_in_simps neq_Nil_conv)

lemma match_loop_suffix: "match_loop re t \<longleftrightarrow> (\<exists>u v. t = u @ v \<and> matchhere re v)"
proof (induction t)
  case Nil
  show ?case by (subst match_loop.simps) simp
next
  case (Cons a t)
  show ?case by (subst match_loop.simps) (auto simp: Cons_eq_append_conv Cons)
qed

text \<open>C27: \<open>match\<close> decides whether some part of the text is in the language of the expression: an unanchored
  expression matches anywhere, \<open>^\<close> at its beginning and \<open>$\<close> at its end tie the part to the ends of the text,
  \<open>.\<close> is any character and \<open>c*\<close> any number of \<open>c\<close>.\<close>

theorem match_correct:
  "match re t \<longleftrightarrow>
     (let (anchored, p) = (if re \<noteq> [] \<and> hd re = 94 then (True, items (tl re)) else (False, items re)) in
      \<exists>u v w. t = u @ v @ w \<and> v \<in> lang (fst p) \<and> (anchored \<longrightarrow> u = []) \<and> (snd p \<longrightarrow> w = []))"
  by (auto simp: match_def match_loop_suffix matchhere_prefix prefix_in_def)

theorem match_correct_witness: "match [98, 36] [97, 98] \<and> \<not> match [94, 98] [97, 98]"
proof
  have "\<exists>u v w. [97, 98] = u @ v @ w \<and> v \<in> lang [One 98] \<and> w = []"
    by (intro exI [of _ "[97]"] exI [of _ "[98]"] exI [of _ "[]"]) (simp add: matches_def)
  then show "match [98, 36] [97, 98]" using match_correct [of "[98, 36]" "[97, 98]"] by simp
  show "\<not> match [94, 98] [97, 98]" using match_correct [of "[94, 98]" "[97, 98]"] by (auto simp: matches_def)
qed

section \<open>The lines of a file\<close>

text \<open>The complete lines of a text that continues the begun line \<open>cur\<close>, and what is left behind the last
  newline.\<close>

fun lines :: "u8 list \<Rightarrow> u8 list \<Rightarrow> u8 list list \<times> u8 list" where
  "lines cur [] = ([], cur)"
| "lines cur (x # s) = (if x = 10 then apfst (Cons cur) (lines [] s) else lines (cur @ [x]) s)"

definition selected :: "u8 list \<Rightarrow> u8 list list \<Rightarrow> u8 list" where
  "selected pattern ls = concat (map (\<lambda>l. l @ [10]) (filter (match pattern) ls))"

lemma selected_simps [simp]:
  "selected pattern [] = []"
  "selected pattern (l # ls) = (if match pattern l then l @ [10] else []) @ selected pattern ls"
  "selected pattern (ls @ ls') = selected pattern ls @ selected pattern ls'"
  by (simp_all add: selected_def)

lemma lines_append:
  "lines cur (s @ r) = (fst (lines cur s) @ fst (lines (snd (lines cur s)) r), snd (lines (snd (lines cur s)) r))"
  by (induction cur s rule: lines.induct) (auto simp: apfst_def)

lemma lines_whole: "10 \<notin> set s \<Longrightarrow> lines cur s = ([], cur @ s)"
  by (induction cur s rule: lines.induct) auto

lemma lines_rest: "10 \<notin> set cur \<Longrightarrow> 10 \<notin> set (snd (lines cur s))"
  by (induction cur s rule: lines.induct) auto

lemma lines_rest_set: "set (snd (lines cur s)) \<subseteq> set cur \<union> set s"
  by (induction cur s rule: lines.induct) auto

lemma lines_rest_length: "length (snd (lines cur s)) \<le> length cur + length s"
  by (induction cur s rule: lines.induct) auto

lemma lines_first: "fst (lines cur s) \<noteq> [] \<Longrightarrow> length cur \<le> length (hd (fst (lines cur s)))"
  by (induction cur s rule: lines.induct) auto

lemma lines_cur: "10 \<notin> set cur \<Longrightarrow> lines [] (cur @ s) = lines cur s"
  by (simp add: lines_append lines_whole)

text \<open>The inner loop splits off the complete lines of the text \<open>d\<close> in the buffer and prints those that
  match.\<close>

lemma grep_lines_run:
  "0 \<notin> set d \<Longrightarrow>
   \<exists>pre'. grep_lines pattern (pre @ d @ 0 # junk) (length pre) out =
       Ok (pre' @ snd (lines [] d) @ 0 # junk, length pre', out @ selected pattern (fst (lines [] d))) \<and>
     length pre' + length (snd (lines [] d)) = length pre + length d"
proof (induction "length d" arbitrary: d pre out rule: less_induct)
  case less
  show ?case
  proof (cases "10 \<in> set d")
    case False
    then show ?thesis using less.prems by (subst grep_lines.simps) (auto simp: strchr_None lines_whole)
  next
    case True
    then obtain l r where d: "d = l @ 10 # r" and l: "10 \<notin> set l" by (meson split_list_first)
    then have l0: "0 \<notin> set l" and r0: "0 \<notin> set r" using less.prems by auto
    have ls: "lines [] d = (l # fst (lines [] r), snd (lines [] r))"
      using l by (simp add: d lines_append lines_whole apfst_def split: prod.split)
    let ?b = "\<lambda>x. (pre @ l @ [x]) @ r @ 0 # junk"
    have upd: "(pre @ l @ x # t)[length pre + length l := y] = pre @ l @ y # t" for x y t
      by (simp add: list_update_append)
    have run: "grep_lines pattern (pre @ d @ 0 # junk) (length pre) out =
        (if match pattern l then grep_lines pattern (?b 10) (length (pre @ l @ [10])) (out @ l @ [10])
         else grep_lines pattern (?b 0) (length (pre @ l @ [0])) out)"
      using l l0 by (subst grep_lines.simps) (simp add: d strchr_Some [of l 10] str_append upd Let_def)
    have IH: "\<exists>pre'. grep_lines pattern (?b x) (length (pre @ l @ [x])) out' =
       Ok (pre' @ snd (lines [] r) @ 0 # junk, length pre', out' @ selected pattern (fst (lines [] r))) \<and>
     length pre' + length (snd (lines [] r)) = length (pre @ l @ [x]) + length r" for x out'
      using less.hyps [OF _ r0, of "pre @ l @ [x]" out'] by (simp add: d)
    show ?thesis unfolding run ls using IH [of 10 "out @ l @ [10]"] IH [of 0 out] by (auto simp: d)
  qed
qed

lemma grep_loop_run:
  assumes rd: "reads_file rd rest"
  shows "\<lbrakk>length buf = 1024; take m buf = cur; m = length cur; m \<le> 1023; 10 \<notin> set cur; 0 \<notin> set (cur @ rest w);
      \<forall>l \<in> set (fst (lines cur (rest w))). length l \<le> 1022\<rbrakk> \<Longrightarrow>
    \<exists>w'. grep_loop rd pattern w buf m out = Some (Ok (w', out @ selected pattern (fst (lines cur (rest w)))))"
proof (induction "length (rest w)" arbitrary: w buf m cur out rule: less_induct)
  case less
  obtain bs w' where r: "rd w (1023 - m) = (Some bs, w')" "rest w = bs @ rest w'" "length bs \<le> 1023 - m"
    "bs = [] \<longrightarrow> 1023 - m = 0 \<or> rest w = []"
    using rd unfolding reads_file_def by metis
  show ?case
  proof (cases "bs = []")
    case Nil: True
    have "fst (lines cur (rest w)) = []"
    proof (rule ccontr)
      assume *: "fst (lines cur (rest w)) \<noteq> []"
      then have "rest w \<noteq> []" by auto
      then have "m = 1023" using r(4) Nil less.prems by auto
      moreover have "length (hd (fst (lines cur (rest w)))) \<le> 1022" using less.prems(7) * by simp
      ultimately show False using lines_first [OF *] less.prems(3) by simp
    qed
    then show ?thesis using less.prems(1) r(1) Nil by (subst grep_loop.simps) simp
  next
    case False
    let ?d = "cur @ bs" and ?j = "drop (Suc (length (cur @ bs))) buf"
    have d0: "0 \<notin> set ?d" using less.prems(6) r(2) by simp
    have len: "length ?d \<le> 1023" using r(3) less.prems(3,4) by simp
    have buf: "(take m buf @ bs @ drop (m + length bs) buf)[m + length bs := 0] = [] @ ?d @ 0 # ?j"
      using less.prems(1-3) len by (simp add: list_update_append Cons_nth_drop_Suc [symmetric])
    have ls: "lines [] ?d = lines cur bs" using less.prems(5) by (rule lines_cur)
    obtain pre where run: "grep_lines pattern (?d @ 0 # ?j) 0 out =
        Ok (pre @ snd (lines cur bs) @ 0 # ?j, length pre, out @ selected pattern (fst (lines cur bs)))"
      and pre: "length pre + length (snd (lines cur bs)) = length ?d"
      using grep_lines_run [OF d0, of pattern "[]" ?j out] by (auto simp: ls)
    let ?cur = "snd (lines cur bs)" and ?b = "pre @ snd (lines cur bs) @ 0 # ?j"
    have m': "m + length bs - length pre = length ?cur" using pre less.prems(3) by simp
    have tk: "take (length ?cur) (drop (length pre) (pre @ ?cur @ y)) = ?cur" for y by simp
    have step: "grep_loop rd pattern w buf m out =
        grep_loop rd pattern w' (?cur @ drop (length ?cur) ?b) (length ?cur) (out @ selected pattern (fst (lines cur bs)))"
      using less.prems(1) r(1) False run
      by (subst grep_loop.simps) (simp add: Let_def buf m' tk del: append_assoc drop_append)
    have sp: "lines cur (rest w) = (fst (lines cur bs) @ fst (lines ?cur (rest w')), snd (lines ?cur (rest w')))"
      using r(2) by (simp add: lines_append)
    have "\<exists>w''. grep_loop rd pattern w' (?cur @ drop (length ?cur) ?b) (length ?cur) (out @ selected pattern (fst (lines cur bs))) =
       Some (Ok (w'', (out @ selected pattern (fst (lines cur bs))) @ selected pattern (fst (lines ?cur (rest w')))))"
    proof (rule less.hyps)
      show "length (rest w') < length (rest w)" using r(2) False by simp
      show "length (?cur @ drop (length ?cur) ?b) = 1024" using pre len less.prems(1) by simp
      show "10 \<notin> set ?cur" using less.prems(5) by (rule lines_rest)
      show "0 \<notin> set (?cur @ rest w')" using lines_rest_set [of cur bs] less.prems(6) r(2) by auto
      show "\<forall>l \<in> set (fst (lines ?cur (rest w'))). length l \<le> 1022" using less.prems(7) by (simp add: sp)
      show "length ?cur \<le> 1023" using pre len by simp
    qed simp_all
    then show ?thesis by (simp add: step sp)
  qed
qed

text \<open>C28: \<open>grep\<close> on a file without nul bytes, whose lines fit into the buffer with their newline, ends and
  has written exactly the lines that match, in order and each with its newline, in whatever pieces
  \<open>read\<close> delivers the file.  What stands behind the last newline is not looked at.\<close>

theorem grep_prints_matching_lines:
  assumes "reads_file rd rest" "length buf = 1024" "0 \<notin> set (rest w)"
    "\<forall>l \<in> set (fst (lines [] (rest w))). length l \<le> 1022"
  shows "\<exists>w'. grep rd pattern w buf = Some (Ok (w', selected pattern (fst (lines [] (rest w)))))"
  using grep_loop_run [OF assms(1,2), of 0 "[]" w pattern "[]"] assms(3,4) by (auto simp: grep_def)

text \<open>A reader that delivers a file two bytes at a time.\<close>

definition two_bytes :: "u8 list reader" where
  "two_bytes w n = (Some (take (min 2 n) w), drop (min 2 n) w)"

theorem grep_prints_matching_lines_witness:
  "\<exists>w'. grep two_bytes [97, 42, 98] [99, 10, 97, 98, 10, 98] (replicate 1024 0) = Some (Ok (w', [97, 98, 10]))"
proof -
  have m: "match [97, 42, 98] [97, 98]" "\<not> match [97, 42, 98] [99]" by code_simp+
  have "reads_file two_bytes (\<lambda>w. w)" by (auto simp: reads_file_def two_bytes_def)
  then show ?thesis
    using grep_prints_matching_lines [of two_bytes "\<lambda>w. w" "replicate 1024 0" "[99, 10, 97, 98, 10, 98]" "[97, 42, 98]"]
    by (simp add: m)
qed

end
