(* ===== verification/Wc.thy ===== *)
theory Wc
  imports Ulib
begin

text \<open>
  \<open>user/wc.c\<close>: the loop of \<open>wc\<close> that counts lines, words and characters while the file passes through a
  buffer of 512 bytes, shown to compute the three numbers of the whole file.  The counters are C ints,
  kept at their 32 bits.
\<close>

record counts =
  nl :: u32
  nw :: u32
  nc :: u32
  inword :: bool

definition is_space :: "u8 \<Rightarrow> bool" where
  "is_space b \<longleftrightarrow> strchr [32, 13, 9, 10, 11, 0] b \<noteq> Ok None"

definition wc_byte :: "u8 \<Rightarrow> counts \<Rightarrow> counts" where
  "wc_byte b s =
     (let s = s\<lparr>nc := nc s + 1\<rparr>;
          s = (if b = 10 then s\<lparr>nl := nl s + 1\<rparr> else s) in
      if is_space b then s\<lparr>inword := False\<rparr>
      else if \<not> inword s then s\<lparr>nw := nw s + 1, inword := True\<rparr>
      else s)"

partial_function (option) wc_loop ::
  "'w reader \<Rightarrow> 'w \<Rightarrow> counts \<Rightarrow> ('w \<times> counts option) option" where
  "wc_loop rd w s =
     (case rd w 512 of
        (None, w) \<Rightarrow> Some (w, None)
      | (Some bs, w) \<Rightarrow> if bs = [] then Some (w, Some s) else wc_loop rd w (fold wc_byte bs s))"

text \<open>What \<open>wc\<close> prints: the three numbers, or the message that a read failed.\<close>

definition wc :: "'w reader \<Rightarrow> 'w \<Rightarrow> ('w \<times> (u32 \<times> u32 \<times> u32) option) option" where
  "wc rd w =
     (case wc_loop rd w \<lparr>nl = 0, nw = 0, nc = 0, inword = False\<rparr> of
        None \<Rightarrow> None
      | Some (w, None) \<Rightarrow> Some (w, None)
      | Some (w, Some s) \<Rightarrow> Some (w, Some (nl s, nw s, nc s)))"

section \<open>Words\<close>

text \<open>The pieces between white space of a text that continues the piece \<open>cur\<close>; the words are the pieces
  that are not empty.\<close>

fun pieces :: "u8 list \<Rightarrow> u8 list \<Rightarrow> u8 list list" where
  "pieces cur [] = [cur]"
| "pieces cur (x # s) =
     (if x \<in> {9, 10, 11, 13, 32} then cur # pieces [] s else pieces (cur @ [x]) s)"

definition word_list :: "u8 list \<Rightarrow> u8 list list" where
  "word_list s = filter (\<lambda>p. p \<noteq> []) (pieces [] s)"

lemma is_space_iff: "is_space b \<longleftrightarrow> b \<in> {9, 10, 11, 13, 32}"
  by (auto simp: is_space_def)

definition begun :: "u8 list \<Rightarrow> u32" where
  "begun cur = (if cur = [] then 0 else 1)"

lemma wc_byte_sel:
  "nl (wc_byte b s) = nl s + (if b = 10 then 1 else 0)"
  "nw (wc_byte b s) = nw s + (if is_space b \<or> inword s then 0 else 1)"
  "nc (wc_byte b s) = nc s + 1"
  "inword (wc_byte b s) = (\<not> is_space b)"
  by (auto simp: wc_byte_def Let_def)

lemma wc_lines_chars:
  "nl (fold wc_byte bs s) = nl s + of_nat (count_list bs 10)"
  "nc (fold wc_byte bs s) = nc s + of_nat (length bs)"
  by (induction bs arbitrary: s) (auto simp: wc_byte_sel algebra_simps)

lemma wc_words:
  "inword s = (cur \<noteq> []) \<Longrightarrow>
   nw (fold wc_byte bs s) = nw s + of_nat (length (filter (\<lambda>p. p \<noteq> []) (pieces cur bs))) - begun cur"
proof (induction cur bs arbitrary: s rule: pieces.induct)
  case (2 cur x bs)
  show ?case
  proof (cases "is_space x")
    case True
    then show ?thesis using 2(1) [of "wc_byte x s"] by (simp add: wc_byte_sel begun_def is_space_iff)
  next
    case False
    then show ?thesis using 2(2) [of "wc_byte x s"] 2(3) by (simp add: wc_byte_sel begun_def is_space_iff)
  qed
qed (simp add: begun_def)

lemma wc_loop_run:
  assumes rd: "reads_file rd rest"
  shows "\<exists>w'. wc_loop rd w s = Some (w', Some (fold wc_byte (rest w) s))"
proof (induction "length (rest w)" arbitrary: w s rule: less_induct)
  case less
  obtain bs w' where r: "rd w 512 = (Some bs, w')" "rest w = bs @ rest w'" "bs = [] \<longrightarrow> rest w = []"
    using rd unfolding reads_file_def by (metis zero_neq_numeral)
  show ?case
  proof (cases "bs = []")
    case True
    then show ?thesis using r by (subst wc_loop.simps) simp
  next
    case False
    then have "length (rest w') < length (rest w)" using r(2) by simp
    from less [OF this] show ?thesis using r False by (subst wc_loop.simps) simp
  qed
qed

text \<open>C40: \<open>wc\<close> always ends, and prints the number of newlines, of words and of bytes of the file, as 32-bit
  numbers, in whatever pieces \<open>read\<close> delivers it: a word that two reads cut is counted once.\<close>

theorem wc_counts_file:
  assumes "reads_file rd rest"
  shows "\<exists>w'. wc rd w = Some (w', Some (of_nat (count_list (rest w) 10), of_nat (length (word_list (rest w))),
    of_nat (length (rest w))))"
proof -
  let ?z = "\<lparr>nl = 0, nw = 0, nc = 0, inword = False\<rparr>"
  obtain w' where "wc_loop rd w ?z = Some (w', Some (fold wc_byte (rest w) ?z))"
    using wc_loop_run [OF assms] by blast
  then show ?thesis using wc_words [of ?z "[]" "rest w"] by (simp add: wc_def wc_lines_chars word_list_def begun_def)
qed

definition three_bytes :: "u8 list reader" where
  "three_bytes w n = (Some (take (min 3 n) w), drop (min 3 n) w)"

theorem wc_counts_file_witness:
  "\<exists>w'. wc three_bytes [97, 32, 98, 99, 100, 10, 101] = Some (w', Some (1, 3, 7))"
proof -
  have "reads_file three_bytes (\<lambda>w. w)" by (auto simp: reads_file_def three_bytes_def)
  then show ?thesis
    using wc_counts_file [of three_bytes "\<lambda>w. w" "[97, 32, 98, 99, 100, 10, 101]"] by (simp add: word_list_def)
qed

end
