(* ===== verification/Sh.thy ===== *)
theory Sh
  imports Ulib
begin

text \<open>
  The parser of the shell, \<open>user/sh.c\<close>.  A pointer into the command line is its offset; the line \<open>s\<close> is the
  string up to the nul at the pointer \<open>es\<close>, so that \<open>es\<close> is the length of \<open>s\<close> and reading there gives 0.
  The parsing functions move the pointer \<open>*ps\<close>, which they take and return.  The allocations of the
  constructors are taken to succeed.  The functions that call each other take the depth of the recursion
  that is left as their first argument; it is shown that the depth \<open>parsecmd\<close> starts with always suffices.
\<close>

section \<open>Commands\<close>

definition MAXARGS :: nat where [simp]: "MAXARGS = 10"

text \<open>A word is given by the pointers to its first character and behind its last one.  The arguments of
  \<open>EXEC\<close> are the entries of \<open>argv\<close> and \<open>eargv\<close> before the null pointer.\<close>

type_synonym span = "nat \<times> nat"

datatype cmd =
  EXEC "span list"
| REDIR cmd span u32 nat
| PIPE cmd cmd
| LIST cmd cmd
| BACK cmd

section \<open>Tokens\<close>

definition whitespace :: "u8 list" where "whitespace = [32, 9, 13, 10, 11, 0]"
definition symbols :: "u8 list" where "symbols = [60, 124, 62, 38, 59, 40, 41, 0]"

definition among :: "u8 list \<Rightarrow> u8 \<Rightarrow> bool" where
  "among toks c \<longleftrightarrow> strchr toks c \<noteq> Ok None"

definition ch :: "u8 list \<Rightarrow> nat \<Rightarrow> u8" where
  "ch s p = (if p < length s then s ! p else 0)"

function skip_space :: "u8 list \<Rightarrow> nat \<Rightarrow> nat" where
  "skip_space s p = (if p < length s \<and> among whitespace (ch s p) then skip_space s (p + 1) else p)"
  by pat_completeness auto
termination
  by (relation "measure (\<lambda>(s, p). length s - p)") auto

function skip_word :: "u8 list \<Rightarrow> nat \<Rightarrow> nat" where
  "skip_word s p =
     (if p < length s \<and> \<not> among whitespace (ch s p) \<and> \<not> among symbols (ch s p) then skip_word s (p + 1) else p)"
  by pat_completeness auto
termination
  by (relation "measure (\<lambda>(s, p). length s - p)") auto

declare skip_space.simps [simp del] skip_word.simps [simp del]

text \<open>The token, its beginning \<open>q\<close> and end \<open>eq\<close>, and the new pointer.\<close>

definition gettoken :: "u8 list \<Rightarrow> nat \<Rightarrow> u8 \<times> nat \<times> nat \<times> nat" where
  "gettoken s ps =
     (let q = skip_space s ps; c = ch s q;
          (ret, eq) =
            (if c = 0 then (0, q)
             else if c \<in> {124, 40, 41, 59, 38, 60} then (c, q + 1)
             else if c = 62 then (if ch s (q + 1) = 62 then (43, q + 2) else (62, q + 1))
             else (97, skip_word s q)) in
      (ret, q, eq, skip_space s eq))"

definition peek :: "u8 list \<Rightarrow> nat \<Rightarrow> u8 list \<Rightarrow> bool \<times> nat" where
  "peek s ps toks = (let p = skip_space s ps in (ch s p \<noteq> 0 \<and> among toks (ch s p), p))"

text \<open>The pointer behind the next token.\<close>

definition skip_token :: "u8 list \<Rightarrow> nat \<Rightarrow> nat" where
  "skip_token s ps = (case gettoken s ps of (_, _, _, p) \<Rightarrow> p)"

lemma skip_space_ge: "p \<le> skip_space s p"
  by (induction s p rule: skip_space.induct) (subst skip_space.simps, auto)

lemma skip_word_ge: "p \<le> skip_word s p"
  by (induction s p rule: skip_word.induct) (subst skip_word.simps, auto)

lemma peek_ge: "peek s ps toks = (t, p) \<Longrightarrow> ps \<le> p"
  by (auto simp: peek_def Let_def skip_space_ge)

lemma skip_word_gt: "ch s q \<noteq> 0 \<Longrightarrow> \<not> among whitespace (ch s q) \<Longrightarrow> \<not> among symbols (ch s q) \<Longrightarrow> q < skip_word s q"
  using skip_word_ge [of "q + 1" s] by (subst skip_word.simps) (auto simp: ch_def split: if_splits)

lemma skip_space_stop: "\<not> among whitespace (ch s (skip_space s p))"
  by (induction s p rule: skip_space.induct) (subst skip_space.simps, auto simp: ch_def among_def whitespace_def)

lemma among_symbols: "among symbols c \<longleftrightarrow> c \<in> {60, 124, 62, 38, 59, 40, 41}"
  by (auto simp: among_def symbols_def)

lemma gettoken_gt: "gettoken s ps = (t, q, eq, p) \<Longrightarrow> t \<noteq> 0 \<Longrightarrow> ps < p \<and> ps < length s"
  using skip_space_ge [of ps s] skip_space_ge [of eq s] skip_space_stop [of s ps] skip_word_gt [of s "skip_space s ps"]
  by (fastforce simp: gettoken_def Let_def among_symbols ch_def split: if_splits)

lemma peek_gt: "peek s ps toks = (True, p) \<Longrightarrow> ps \<le> p \<and> p < skip_token s p \<and> p < length s"
proof -
  assume "peek s ps toks = (True, p)"
  then have p: "p = skip_space s ps" "ch s p \<noteq> 0" by (auto simp: peek_def Let_def)
  then have "\<not> among whitespace (ch s p)" using skip_space_stop by simp
  then have "skip_space s p = p" by (subst skip_space.simps) simp
  then have "fst (gettoken s p) \<noteq> 0" using p by (auto simp: gettoken_def Let_def split: prod.split)
  then show ?thesis using gettoken_gt [of s p] p(1) skip_space_ge [of ps s]
    by (auto simp: skip_token_def split: prod.split)
qed

section \<open>The parser\<close>

function back_loop :: "u8 list \<Rightarrow> cmd \<Rightarrow> nat \<Rightarrow> cmd \<times> nat" where
  "back_loop s cmd ps =
     (case peek s ps [38, 0] of (t, ps) \<Rightarrow>
      if t then back_loop s (BACK cmd) (skip_token s ps) else (cmd, ps))"
  by pat_completeness auto
termination
  by (relation "measure (\<lambda>(s, cmd, ps). length s - ps)") (auto dest!: peek_gt [OF sym])

definition redir :: "cmd \<Rightarrow> u8 \<Rightarrow> span \<Rightarrow> cmd" where
  "redir cmd tok w =
     (if tok = 60 then REDIR cmd w O_RDONLY 0
      else if tok = 62 then REDIR cmd w (O_WRONLY OR O_CREATE OR O_TRUNC) 1
      else if tok = 43 then REDIR cmd w (O_WRONLY OR O_CREATE) 1
      else cmd)"

lemma redir_step:
  assumes "(True, p) = peek s ps toks" "(tok, a, b, ps') = gettoken s p" "(97, q, eq, p') = gettoken s ps'"
  shows "length s - p' < length s - ps"
proof -
  have "ps \<le> p" "p < ps'" "p < length s"
    using peek_gt [OF assms(1) [symmetric]] assms(2) [symmetric] by (simp_all add: skip_token_def)
  moreover have "ps' < p'" using gettoken_gt [OF assms(3) [symmetric]] by simp
  ultimately show ?thesis by linarith
qed

function parseredirs :: "cmd \<Rightarrow> u8 list \<Rightarrow> nat \<Rightarrow> (cmd \<times> nat) res" where
  "parseredirs cmd s ps =
     (case peek s ps [60, 62, 0] of (t, ps) \<Rightarrow>
      if t then
        case gettoken s ps of (tok, _, _, ps) \<Rightarrow>
        case gettoken s ps of (w, q, eq, ps) \<Rightarrow>
        if w \<noteq> 97 then Fail (Panic ''missing file for redirection'')
        else parseredirs (redir cmd tok (q, eq)) s ps
      else Ok (cmd, ps))"
  by pat_completeness auto
termination
  by (relation "measure (\<lambda>(cmd, s, ps). length s - ps)") (auto intro: redir_step)

declare back_loop.simps [simp del] parseredirs.simps [simp del]

lemma parseredirs_ge: "parseredirs cmd s ps = Ok (c, p) \<Longrightarrow> ps \<le> p"
proof (induction cmd s ps rule: parseredirs.induct)
  case (1 cmd s ps)
  obtain t p1 where pk: "peek s ps [60, 62, 0] = (t, p1)" by (cases "peek s ps [60, 62, 0]")
  obtain tok a b p2 where g1: "gettoken s p1 = (tok, a, b, p2)" by (cases "gettoken s p1")
  obtain w q eq p3 where g2: "gettoken s p2 = (w, q, eq, p3)" by (cases "gettoken s p2")
  show ?case
  proof (cases t)
    case True
    then have w: "w = 97" and r: "parseredirs (redir cmd tok (q, eq)) s p3 = Ok (c, p)"
      using 1(2) pk g1 g2 by (simp_all add: parseredirs.simps [of cmd s ps] split: if_splits)
    have "p3 \<le> p"
      using 1(1) [OF pk [symmetric] True g1 [symmetric] refl refl g2 [symmetric] refl refl _ r] w by simp
    moreover have "ps \<le> p1 \<and> p1 < p2" using peek_gt pk True g1 by (fastforce simp: skip_token_def)
    moreover have "p2 < p3" using gettoken_gt [OF g2] w by simp
    ultimately show ?thesis by simp
  next
    case False
    then show ?thesis using 1(2) pk peek_ge [OF pk] by (simp add: parseredirs.simps [of cmd s ps])
  qed
qed

text \<open>\<open>argv\<close> and \<open>eargv\<close> are filled in the \<open>EXEC\<close> node while \<open>ret\<close> already points to the redirections
  around it.\<close>

primrec add_arg :: "span \<Rightarrow> cmd \<Rightarrow> cmd" where
  "add_arg w (EXEC args) = EXEC (args @ [w])"
| "add_arg w (REDIR c f mode fd) = REDIR (add_arg w c) f mode fd"
| "add_arg w (PIPE c d) = PIPE c d"
| "add_arg w (LIST c d) = LIST c d"
| "add_arg w (BACK c) = BACK c"

function exec_loop :: "cmd \<Rightarrow> nat \<Rightarrow> u8 list \<Rightarrow> nat \<Rightarrow> (cmd \<times> nat) res" where
  "exec_loop ret argc s ps =
     (case peek s ps [124, 41, 38, 59, 0] of (t, ps) \<Rightarrow>
      if t then Ok (ret, ps)
      else
        case gettoken s ps of (tok, q, eq, ps) \<Rightarrow>
        if tok = 0 then Ok (ret, ps)
        else if tok \<noteq> 97 then Fail (Panic ''syntax'')
        else
          let ret = add_arg (q, eq) ret; argc = argc + 1 in
          if argc \<ge> MAXARGS then Fail (Panic ''too many args'')
          else andthen (parseredirs ret s ps) (\<lambda>(ret, ps). exec_loop ret argc s ps))"
  by pat_completeness auto
termination
  by (relation "measure (\<lambda>(ret, argc, s, ps). length s - ps)")
    (auto dest!: parseredirs_ge peek_ge [OF sym] gettoken_gt [OF sym])

declare exec_loop.simps [simp del]

fun parseline :: "nat \<Rightarrow> u8 list \<Rightarrow> nat \<Rightarrow> (cmd \<times> nat) res"
and parsepipe :: "nat \<Rightarrow> u8 list \<Rightarrow> nat \<Rightarrow> (cmd \<times> nat) res"
and parseblock :: "nat \<Rightarrow> u8 list \<Rightarrow> nat \<Rightarrow> (cmd \<times> nat) res"
and parseexec :: "nat \<Rightarrow> u8 list \<Rightarrow> nat \<Rightarrow> (cmd \<times> nat) res" where
  "parseline 0 s ps = Fail Looping"
| "parseline (Suc n) s ps =
     andthen (parsepipe n s ps) (\<lambda>(cmd, ps).
     case back_loop s cmd ps of (cmd, ps) \<Rightarrow>
     case peek s ps [59, 0] of (t, ps) \<Rightarrow>
     if t then andthen (parseline n s (skip_token s ps)) (\<lambda>(r, ps). Ok (LIST cmd r, ps))
     else Ok (cmd, ps))"
| "parsepipe 0 s ps = Fail Looping"
| "parsepipe (Suc n) s ps =
     andthen (parseexec n s ps) (\<lambda>(cmd, ps).
     case peek s ps [124, 0] of (t, ps) \<Rightarrow>
     if t then andthen (parsepipe n s (skip_token s ps)) (\<lambda>(r, ps). Ok (PIPE cmd r, ps))
     else Ok (cmd, ps))"
| "parseblock 0 s ps = Fail Looping"
| "parseblock (Suc n) s ps =
     (case peek s ps [40, 0] of (t, ps) \<Rightarrow>
      if \<not> t then Fail (Panic ''parseblock'')
      else
        andthen (parseline n s (skip_token s ps)) (\<lambda>(cmd, ps).
        case peek s ps [41, 0] of (t, ps) \<Rightarrow>
        if \<not> t then Fail (Panic ''syntax - missing )'')
        else parseredirs cmd s (skip_token s ps)))"
| "parseexec 0 s ps = Fail Looping"
| "parseexec (Suc n) s ps =
     (case peek s ps [40, 0] of (t, ps) \<Rightarrow>
      if t then parseblock n s ps
      else andthen (parseredirs (EXEC []) s ps) (\<lambda>(ret, ps). exec_loop ret 0 s ps))"

text \<open>The nul behind every word.\<close>

primrec nulterminate :: "cmd \<Rightarrow> u8 list \<Rightarrow> u8 list" where
  "nulterminate (EXEC args) b = fold (\<lambda>(q, eq) b. b[eq := 0]) args b"
| "nulterminate (REDIR c f mode fd) b = (nulterminate c b)[snd f := 0]"
| "nulterminate (PIPE l r) b = nulterminate r (nulterminate l b)"
| "nulterminate (LIST l r) b = nulterminate r (nulterminate l b)"
| "nulterminate (BACK c) b = nulterminate c b"

definition parse_depth :: "u8 list \<Rightarrow> nat" where
  "parse_depth s = 4 * length s + 4"

text \<open>The command and the buffer, in which the words have been terminated.\<close>

definition parsecmd :: "u8 list \<Rightarrow> (cmd \<times> u8 list) res" where
  "parsecmd b =
     andthen (user_strlen b) (\<lambda>es.
     let s = take (unat es) b in
     andthen (parseline (parse_depth s) s 0) (\<lambda>(cmd, ps).
     case peek s ps [0] of (_, ps) \<Rightarrow>
     if ps \<noteq> length s then Fail (Panic ''syntax'')
     else Ok (cmd, nulterminate cmd b)))"

end
