(* ===== verification/Shgrammar.thy ===== *)
theory Shgrammar
  imports Sh
begin

text \<open>
  The grammar of the shell's command lines over the tokens \<open>gettoken\<close> splits a line into, and the proof
  that the parser of theory \<open>Sh\<close> accepts exactly the sentences of the grammar, builds their commands and
  always ends.  The proofs go through equations that describe each parsing function by the kind of the
  next token alone.
\<close>

named_theorems token_eqs "the parsing functions by the kind of the next token"

section \<open>The next token\<close>

definition kind :: "u8 list \<Rightarrow> nat \<Rightarrow> u8" where "kind s p = fst (gettoken s p)"
definition tok_span :: "u8 list \<Rightarrow> nat \<Rightarrow> span" where
  "tok_span s p = (fst (snd (gettoken s p)), fst (snd (snd (gettoken s p))))"

lemma gettoken_parts: "gettoken s p = (kind s p, fst (tok_span s p), snd (tok_span s p), skip_token s p)"
  by (simp add: kind_def tok_span_def skip_token_def split: prod.split)

lemma skip_space_idem [simp]: "skip_space s (skip_space s p) = skip_space s p"
  by (subst skip_space.simps) (simp add: skip_space_stop)

lemma gettoken_skip: "gettoken s (skip_space s p) = gettoken s p"
  by (simp add: gettoken_def)

lemma token_skip [simp]:
  "kind s (skip_space s p) = kind s p" "tok_span s (skip_space s p) = tok_span s p"
  "skip_token s (skip_space s p) = skip_token s p"
  by (simp_all add: kind_def tok_span_def skip_token_def gettoken_skip)

lemma skip_token_gt: "kind s p \<noteq> 0 \<Longrightarrow> p < skip_token s p \<and> p < length s"
  using gettoken_gt [OF gettoken_parts] by simp

lemma skip_token_end: "kind s p = 0 \<Longrightarrow> skip_token s p = skip_space s p"
  by (auto simp: kind_def skip_token_def gettoken_def Let_def split: if_splits)

lemma kind_eq:
  "kind s p =
     (let c = ch s (skip_space s p) in
      if c \<in> {0, 124, 40, 41, 59, 38, 60} then c
      else if c = 62 then (if ch s (skip_space s p + 1) = 62 then 43 else 62)
      else 97)"
  by (simp add: kind_def gettoken_def Let_def)

lemma kinds: "kind s p \<in> {0, 124, 40, 41, 59, 38, 60, 62, 43, 97}"
  by (simp add: kind_eq Let_def)

lemma peek_kind [token_eqs]:
  "peek s p [38, 0] = (kind s p = 38, skip_space s p)"
  "peek s p [59, 0] = (kind s p = 59, skip_space s p)"
  "peek s p [124, 0] = (kind s p = 124, skip_space s p)"
  "peek s p [40, 0] = (kind s p = 40, skip_space s p)"
  "peek s p [41, 0] = (kind s p = 41, skip_space s p)"
  "peek s p [60, 62, 0] = (kind s p \<in> {60, 62, 43}, skip_space s p)"
  "peek s p [124, 41, 38, 59, 0] = (kind s p \<in> {124, 41, 38, 59}, skip_space s p)"
  "peek s p [0] = (False, skip_space s p)"
  by (auto simp: peek_def among_def kind_eq Let_def)

section \<open>The tokens of a line\<close>

type_synonym tok = "u8 \<times> span"

function tokens :: "u8 list \<Rightarrow> nat \<Rightarrow> tok list" where
  "tokens s p = (if kind s p = 0 then [] else (kind s p, tok_span s p) # tokens s (skip_token s p))"
  by pat_completeness auto
termination
proof (relation "measure (\<lambda>(s, p). length s - p)")
  show "((s, skip_token s p), s, p) \<in> measure (\<lambda>(s, p). length s - p)" if "kind s p \<noteq> 0" for s p
    using skip_token_gt [OF that] by auto
qed simp

declare tokens.simps [simp del]

lemma tokens_skip [simp]: "tokens s (skip_space s p) = tokens s p"
  by (subst (1 2) tokens.simps) simp

lemma tokens_end: "kind s p = 0 \<Longrightarrow> tokens s p = []"
  by (simp add: tokens.simps)

lemma tokens_more: "kind s p \<noteq> 0 \<Longrightarrow> tokens s p = (kind s p, tok_span s p) # tokens s (skip_token s p)"
  by (subst tokens.simps) simp

lemma tokens_Nil_iff: "tokens s p = [] \<longleftrightarrow> kind s p = 0"
  by (subst tokens.simps) simp

lemma tokens_Cons_iff:
  "tokens s p = (t, w) # ts \<longleftrightarrow> t \<noteq> 0 \<and> kind s p = t \<and> tok_span s p = w \<and> tokens s (skip_token s p) = ts"
  by (subst tokens.simps) auto

text \<open>The kind of the first token of a list, 0 at the end.\<close>

definition first_kind :: "tok list \<Rightarrow> u8" where
  "first_kind ts = (case ts of [] \<Rightarrow> 0 | t # _ \<Rightarrow> fst t)"

lemma first_kind_tokens: "first_kind (tokens s p) = kind s p"
  by (subst tokens.simps) (simp add: first_kind_def)

lemma length_tokens: "length (tokens s p) \<le> length s - p"
proof (induction s p rule: tokens.induct)
  case (1 s p)
  then show ?case using skip_token_gt [of s p] by (cases "kind s p = 0") (auto simp: tokens_end tokens_more)
qed

section \<open>The parser by the kind of the next token\<close>

lemma back_loop_eq:
  "back_loop s c p = (if kind s p = 38 then back_loop s (BACK c) (skip_token s p) else (c, skip_space s p))"
  by (subst back_loop.simps) (simp add: token_eqs)

lemma parseredirs_eq:
  "parseredirs c s p =
     (if kind s p \<in> {60, 62, 43} then
        if kind s (skip_token s p) \<noteq> 97 then Fail (Panic ''missing file for redirection'')
        else parseredirs (redir c (kind s p) (tok_span s (skip_token s p))) s (skip_token s (skip_token s p))
      else Ok (c, skip_space s p))"
  by (subst parseredirs.simps) (simp add: token_eqs gettoken_parts)

lemma exec_loop_eq:
  "exec_loop c n s p =
     (if kind s p \<in> {0, 124, 41, 38, 59} then Ok (c, skip_space s p)
      else if kind s p \<noteq> 97 then Fail (Panic ''syntax'')
      else if n + 1 \<ge> 10 then Fail (Panic ''too many args'')
      else andthen (parseredirs (add_arg (tok_span s p) c) s (skip_token s p)) (\<lambda>(c, p). exec_loop c (n + 1) s p))"
  by (subst exec_loop.simps) (auto simp: token_eqs gettoken_parts skip_token_end)

text \<open>A simple command: words and redirections in any order.\<close>

definition simple :: "cmd \<Rightarrow> nat \<Rightarrow> u8 list \<Rightarrow> nat \<Rightarrow> (cmd \<times> nat) res" where
  "simple c n s p = andthen (parseredirs c s p) (\<lambda>(c, p). exec_loop c n s p)"

lemma exec_loop_skip: "exec_loop c n s (skip_space s p) = exec_loop c n s p"
  by (subst (1 2) exec_loop_eq) simp

lemma simple_eq:
  "simple c n s p =
     (if kind s p \<in> {60, 62, 43} then
        if kind s (skip_token s p) \<noteq> 97 then Fail (Panic ''missing file for redirection'')
        else simple (redir c (kind s p) (tok_span s (skip_token s p))) n s (skip_token s (skip_token s p))
      else if kind s p \<in> {0, 124, 41, 38, 59} then Ok (c, skip_space s p)
      else if kind s p \<noteq> 97 then Fail (Panic ''syntax'')
      else if n + 1 \<ge> 10 then Fail (Panic ''too many args'')
      else simple (add_arg (tok_span s p) c) (n + 1) s (skip_token s p))"
  unfolding simple_def
  by (subst parseredirs_eq) (auto simp: exec_loop_skip exec_loop_eq [of c n s p])

section \<open>The grammar\<close>

text \<open>A redirection: the kind of its operator, where the operator stands, and the file.\<close>

type_synonym redirection = "u8 \<times> span \<times> span"

definition redir_op :: "redirection \<Rightarrow> bool" where
  "redir_op r \<longleftrightarrow> fst r \<in> {60, 62, 43}"

definition redir_toks :: "redirection list \<Rightarrow> tok list" where
  "redir_toks rs = concat (map (\<lambda>(t, x, w). [(t, x), (97, w)]) rs)"

definition redirected :: "redirection list \<Rightarrow> cmd \<Rightarrow> cmd" where
  "redirected rs c = fold (\<lambda>(t, x, w) c. redir c t w) rs c"

datatype elem = Word span | Redir redirection

fun elem_toks :: "elem list \<Rightarrow> tok list" where
  "elem_toks [] = []"
| "elem_toks (Word w # es) = (97, w) # elem_toks es"
| "elem_toks (Redir r # es) = redir_toks [r] @ elem_toks es"

fun words :: "elem list \<Rightarrow> span list" where
  "words [] = []"
| "words (Word w # es) = w # words es"
| "words (Redir r # es) = words es"

fun redirs :: "elem list \<Rightarrow> redirection list" where
  "redirs [] = []"
| "redirs (Word w # es) = redirs es"
| "redirs (Redir r # es) = r # redirs es"

text \<open>
  A simple command is a sequence of words and redirections, with fewer than \<open>MAXARGS\<close> words; the
  redirections enclose the command with all its words, the first one innermost.  A command in parentheses
  may be redirected.  Commands are joined by \<open>|\<close> to pipelines; a pipeline may be followed by any number
  of \<open>&\<close>, and by \<open>;\<close> and another line.
\<close>

inductive exec_of :: "tok list \<Rightarrow> cmd \<Rightarrow> bool"
and pipe_of :: "tok list \<Rightarrow> cmd \<Rightarrow> bool"
and line_of :: "tok list \<Rightarrow> cmd \<Rightarrow> bool" where
  exec_simple:
    "\<lbrakk>list_all redir_op (redirs es); length (words es) < MAXARGS\<rbrakk> \<Longrightarrow>
     exec_of (elem_toks es) (redirected (redirs es) (EXEC (words es)))"
| exec_block:
    "\<lbrakk>line_of ts c; list_all redir_op rs\<rbrakk> \<Longrightarrow>
     exec_of ((40, x) # ts @ (41, y) # redir_toks rs) (redirected rs c)"
| pipe_one: "exec_of ts c \<Longrightarrow> pipe_of ts c"
| pipe_more: "\<lbrakk>exec_of ts c; pipe_of us d\<rbrakk> \<Longrightarrow> pipe_of (ts @ (124, x) # us) (PIPE c d)"
| line_one: "pipe_of ts c \<Longrightarrow> line_of (ts @ map (Pair 38) xs) ((BACK ^^ length xs) c)"
| line_more:
    "\<lbrakk>pipe_of ts c; line_of us d\<rbrakk> \<Longrightarrow>
     line_of (ts @ map (Pair 38) xs @ (59, x) # us) (LIST ((BACK ^^ length xs) c) d)"

lemma redir_toks_simps [simp]:
  "redir_toks [] = []" "redir_toks ((t, x, w) # rs) = (t, x) # (97, w) # redir_toks rs"
  "redir_toks (rs @ rs') = redir_toks rs @ redir_toks rs'"
  by (simp_all add: redir_toks_def)

lemma redirected_simps [simp]:
  "redirected [] c = c" "redirected ((t, x, w) # rs) c = redirected rs (redir c t w)"
  "redirected (rs @ rs') c = redirected rs' (redirected rs c)"
  by (simp_all add: redirected_def)

lemma add_arg_redir: "add_arg w (redir c t f) = redir (add_arg w c) t f"
  by (simp add: redir_def)

lemma add_arg_redirected: "add_arg w (redirected rs c) = redirected rs (add_arg w c)"
  by (induction rs arbitrary: c) (auto simp: add_arg_redir)

section \<open>What the parser accepts is in the grammar\<close>

lemma back_loop_sound:
  "back_loop s c p = (c', p') \<Longrightarrow>
   \<exists>xs. tokens s p = map (Pair 38) xs @ tokens s p' \<and> c' = (BACK ^^ length xs) c"
proof (induction "length (tokens s p)" arbitrary: c p rule: less_induct)
  case less
  show ?case
  proof (cases "kind s p = 38")
    case True
    then have t: "tokens s p = (38, tok_span s p) # tokens s (skip_token s p)" by (subst tokens_more) simp_all
    have "back_loop s (BACK c) (skip_token s p) = (c', p')" using less.prems True by (subst (asm) back_loop_eq) simp
    then obtain xs where "tokens s (skip_token s p) = map (Pair 38) xs @ tokens s p'" "c' = (BACK ^^ length xs) (BACK c)"
      using less.hyps [of "skip_token s p" "BACK c"] t by auto
    then show ?thesis using t by (intro exI [of _ "tok_span s p # xs"]) (simp add: funpow_swap1)
  next
    case False
    then show ?thesis using less.prems by (subst (asm) back_loop_eq) (auto intro: exI [of _ "[]"])
  qed
qed

lemma parseredirs_sound:
  "parseredirs c s p = Ok (c', p') \<Longrightarrow>
   \<exists>rs. list_all redir_op rs \<and> tokens s p = redir_toks rs @ tokens s p' \<and> c' = redirected rs c"
proof (induction "length (tokens s p)" arbitrary: c p rule: less_induct)
  case less
  let ?q = "skip_token s p"
  show ?case
  proof (cases "kind s p \<in> {60, 62, 43}")
    case True
    then have w: "kind s ?q = 97"
      and r: "parseredirs (redir c (kind s p) (tok_span s ?q)) s (skip_token s ?q) = Ok (c', p')"
      using less.prems by (subst (asm) parseredirs_eq, simp split: if_splits)+
    have t: "tokens s p = (kind s p, tok_span s p) # (97, tok_span s ?q) # tokens s (skip_token s ?q)"
      using True w tokens_more [of s p] tokens_more [of s ?q] by auto
    from less.hyps [OF _ r] t obtain rs where "list_all redir_op rs"
      "tokens s (skip_token s ?q) = redir_toks rs @ tokens s p'" "c' = redirected rs (redir c (kind s p) (tok_span s ?q))"
      by auto
    then show ?thesis using t True
      by (intro exI [of _ "(kind s p, tok_span s p, tok_span s ?q) # rs"]) (simp add: redir_op_def)
  next
    case False
    then show ?thesis using less.prems by (subst (asm) parseredirs_eq) (auto intro: exI [of _ "[]"])
  qed
qed

lemma simple_sound:
  "simple (redirected rs (EXEC ws)) (length ws) s p = Ok (c, p') \<Longrightarrow> length ws < 10 \<Longrightarrow>
   \<exists>es. list_all redir_op (redirs es) \<and> length (ws @ words es) < 10 \<and> tokens s p = elem_toks es @ tokens s p' \<and>
     c = redirected (rs @ redirs es) (EXEC (ws @ words es))"
proof (induction "length (tokens s p)" arbitrary: rs ws p rule: less_induct)
  case less
  let ?q = "skip_token s p" and ?w = "tok_span s p" and ?f = "tok_span s (skip_token s p)"
  consider "kind s p \<in> {60, 62, 43}" | "kind s p \<in> {0, 124, 41, 38, 59}" | "kind s p = 97"
    using less.prems(1) by (subst (asm) simple_eq) (auto split: if_splits)
  then show ?case
  proof cases
    case 1
    then have w: "kind s ?q = 97"
      and r: "simple (redir (redirected rs (EXEC ws)) (kind s p) ?f) (length ws) s (skip_token s ?q) = Ok (c, p')"
      using less.prems(1) by (subst (asm) simple_eq, simp split: if_splits)+
    have t: "tokens s p = (kind s p, ?w) # (97, ?f) # tokens s (skip_token s ?q)"
      using 1 w tokens_more [of s p] tokens_more [of s ?q] by auto
    have "simple (redirected (rs @ [(kind s p, ?w, ?f)]) (EXEC ws)) (length ws) s (skip_token s ?q) = Ok (c, p')"
      using r by simp
    from less.hyps [OF _ this less.prems(2)] t obtain es where "list_all redir_op (redirs es)" "length (ws @ words es) < 10"
      "tokens s (skip_token s ?q) = elem_toks es @ tokens s p'"
      "c = redirected ((rs @ [(kind s p, ?w, ?f)]) @ redirs es) (EXEC (ws @ words es))"
      by auto
    then show ?thesis using t 1
      by (intro exI [of _ "Redir (kind s p, ?w, ?f) # es"]) (simp add: redir_op_def)
  next
    case 2
    then have "c = redirected rs (EXEC ws)" "p' = skip_space s p"
      using less.prems(1) by (subst (asm) simple_eq, auto split: if_splits)+
    then show ?thesis using less.prems(2) by (intro exI [of _ "[]"]) simp
  next
    case 3
    then have n: "length ws + 1 < 10"
      and r: "simple (redirected rs (EXEC (ws @ [?w]))) (length (ws @ [?w])) s ?q = Ok (c, p')"
      using less.prems(1) by (subst (asm) simple_eq, simp add: add_arg_redirected split: if_splits)+
    have t: "tokens s p = (97, ?w) # tokens s ?q" using 3 tokens_more [of s p] by auto
    from less.hyps [OF _ r] n t obtain es where "list_all redir_op (redirs es)" "length ((ws @ [?w]) @ words es) < 10"
      "tokens s ?q = elem_toks es @ tokens s p'" "c = redirected (rs @ redirs es) (EXEC ((ws @ [?w]) @ words es))"
      by auto
    then show ?thesis using t by (intro exI [of _ "Word ?w # es"]) simp
  qed
qed

lemma parseexec_simple:
  "kind s p \<noteq> 40 \<Longrightarrow> parseexec (Suc n) s p = simple (EXEC []) 0 s (skip_space s p)"
  by (simp add: token_eqs simple_def)

lemma exec_of_simple_run:
  assumes "simple (EXEC []) 0 s (skip_space s p) = Ok (c, p')"
  shows "\<exists>ts. tokens s p = ts @ tokens s p' \<and> exec_of ts c"
  using simple_sound [of "[]" "[]" s "skip_space s p"] assms exec_simple by fastforce

lemma tokens_kind:
  "kind s p = t \<Longrightarrow> t \<noteq> 0 \<Longrightarrow> tokens s p = (t, tok_span s p) # tokens s (skip_token s p)"
  using tokens_more by blast

definition sound_at :: "nat \<Rightarrow> u8 list \<Rightarrow> bool" where
  "sound_at n s \<longleftrightarrow> (\<forall>p c p'.
     (parseline n s p = Ok (c, p') \<longrightarrow> (\<exists>ts. tokens s p = ts @ tokens s p' \<and> line_of ts c)) \<and>
     (parsepipe n s p = Ok (c, p') \<longrightarrow> (\<exists>ts. tokens s p = ts @ tokens s p' \<and> pipe_of ts c)) \<and>
     (parseblock n s p = Ok (c, p') \<longrightarrow> (\<exists>ts. tokens s p = ts @ tokens s p' \<and> exec_of ts c)) \<and>
     (parseexec n s p = Ok (c, p') \<longrightarrow> (\<exists>ts. tokens s p = ts @ tokens s p' \<and> exec_of ts c)))"

lemma sound_atD:
  assumes "sound_at n s"
  shows "parseline n s p = Ok (c, p') \<Longrightarrow> \<exists>ts. tokens s p = ts @ tokens s p' \<and> line_of ts c"
    "parsepipe n s p = Ok (c, p') \<Longrightarrow> \<exists>ts. tokens s p = ts @ tokens s p' \<and> pipe_of ts c"
    "parseblock n s p = Ok (c, p') \<Longrightarrow> \<exists>ts. tokens s p = ts @ tokens s p' \<and> exec_of ts c"
    "parseexec n s p = Ok (c, p') \<Longrightarrow> \<exists>ts. tokens s p = ts @ tokens s p' \<and> exec_of ts c"
  using assms unfolding sound_at_def by blast+

lemma parseline_sound:
  assumes "sound_at n s" "parseline (Suc n) s p = Ok (c, p')"
  shows "\<exists>ts. tokens s p = ts @ tokens s p' \<and> line_of ts c"
proof -
  obtain c1 p1 where pp: "parsepipe n s p = Ok (c1, p1)" using assms(2) by (auto simp: andthen_eq_Ok)
  obtain c2 p2 where bk: "back_loop s c1 p1 = (c2, p2)" by (cases "back_loop s c1 p1")
  obtain ts where ts: "tokens s p = ts @ tokens s p1" "pipe_of ts c1" using sound_atD(2) [OF assms(1) pp] by blast
  obtain xs where xs: "tokens s p1 = map (Pair 38) xs @ tokens s p2" "c2 = (BACK ^^ length xs) c1"
    using back_loop_sound [OF bk] by blast
  show ?thesis
  proof (cases "kind s p2 = 59")
    case True
    then obtain d where "parseline n s (skip_token s p2) = Ok (d, p')" and c: "c = LIST c2 d"
      using assms(2) pp bk by (auto simp: andthen_eq_Ok token_eqs)
    then obtain us where us: "tokens s (skip_token s p2) = us @ tokens s p'" "line_of us d"
      using sound_atD(1) [OF assms(1)] by blast
    have "tokens s p = (ts @ map (Pair 38) xs @ (59, tok_span s p2) # us) @ tokens s p'"
      using ts(1) xs(1) us(1) tokens_kind [OF True] by simp
    then show ?thesis using line_more [OF ts(2) us(2)] c xs(2) by blast
  next
    case False
    then have "c = c2" "p' = skip_space s p2" using assms(2) pp bk by (auto simp: andthen_eq_Ok token_eqs)
    then have "tokens s p = (ts @ map (Pair 38) xs) @ tokens s p'" using ts(1) xs(1) by simp
    then show ?thesis using line_one [OF ts(2)] \<open>c = c2\<close> xs(2) by blast
  qed
qed

lemma parsepipe_sound:
  assumes "sound_at n s" "parsepipe (Suc n) s p = Ok (c, p')"
  shows "\<exists>ts. tokens s p = ts @ tokens s p' \<and> pipe_of ts c"
proof -
  obtain c1 p1 where ex: "parseexec n s p = Ok (c1, p1)" using assms(2) by (auto simp: andthen_eq_Ok)
  obtain ts where ts: "tokens s p = ts @ tokens s p1" "exec_of ts c1" using sound_atD(4) [OF assms(1) ex] by blast
  show ?thesis
  proof (cases "kind s p1 = 124")
    case True
    then obtain d where "parsepipe n s (skip_token s p1) = Ok (d, p')" and c: "c = PIPE c1 d"
      using assms(2) ex by (auto simp: andthen_eq_Ok token_eqs)
    then obtain us where us: "tokens s (skip_token s p1) = us @ tokens s p'" "pipe_of us d"
      using sound_atD(2) [OF assms(1)] by blast
    have "tokens s p = (ts @ (124, tok_span s p1) # us) @ tokens s p'"
      using ts(1) us(1) tokens_kind [OF True] by simp
    then show ?thesis using pipe_more [OF ts(2) us(2)] c by blast
  next
    case False
    then have "c = c1" "p' = skip_space s p1" using assms(2) ex by (auto simp: andthen_eq_Ok token_eqs)
    then show ?thesis using ts pipe_one by auto
  qed
qed

lemma parseblock_sound:
  assumes "sound_at n s" "parseblock (Suc n) s p = Ok (c, p')"
  shows "\<exists>ts. tokens s p = ts @ tokens s p' \<and> exec_of ts c"
proof -
  have o: "kind s p = 40" using assms(2) by (auto simp: token_eqs split: if_splits)
  obtain c1 p1 where ln: "parseline n s (skip_token s p) = Ok (c1, p1)" and cl: "kind s p1 = 41"
    and rd: "parseredirs c1 s (skip_token s p1) = Ok (c, p')"
    using assms(2) o by (auto simp: andthen_eq_Ok token_eqs split: if_splits)
  obtain ts where ts: "tokens s (skip_token s p) = ts @ tokens s p1" "line_of ts c1"
    using sound_atD(1) [OF assms(1) ln] by blast
  obtain rs where rs: "list_all redir_op rs" "tokens s (skip_token s p1) = redir_toks rs @ tokens s p'" "c = redirected rs c1"
    using parseredirs_sound [OF rd] by blast
  have "tokens s p = ((40, tok_span s p) # ts @ (41, tok_span s p1) # redir_toks rs) @ tokens s p'"
    using tokens_kind [OF o] tokens_kind [OF cl] ts(1) rs(2) by simp
  then show ?thesis using exec_block [OF ts(2) rs(1)] rs(3) by blast
qed

lemma parseexec_sound:
  assumes "sound_at n s" "parseexec (Suc n) s p = Ok (c, p')"
  shows "\<exists>ts. tokens s p = ts @ tokens s p' \<and> exec_of ts c"
proof (cases "kind s p = 40")
  case True
  then show ?thesis using assms(2) sound_atD(3) [OF assms(1), of "skip_space s p" c p'] by (auto simp: token_eqs)
next
  case False
  then show ?thesis using assms(2) exec_of_simple_run parseexec_simple by metis
qed

lemma parse_sound: "sound_at n s"
proof (induction n)
  case 0
  then show ?case by (simp add: sound_at_def)
next
  case (Suc n)
  then show ?case
    unfolding sound_at_def [of "Suc n"]
    by (intro allI conjI impI) (rule parseline_sound parsepipe_sound parseblock_sound parseexec_sound, assumption, assumption)+
qed

section \<open>The parser always ends\<close>

lemma parseredirs_ends: "parseredirs c s p \<noteq> Fail Looping"
proof (induction "length (tokens s p)" arbitrary: c p rule: less_induct)
  case less
  let ?q = "skip_token s p"
  show ?case
  proof (cases "kind s p \<in> {60, 62, 43} \<and> kind s ?q = 97")
    case True
    then have "length (tokens s (skip_token s ?q)) < length (tokens s p)"
      using tokens_more [of s p] tokens_more [of s ?q] by auto
    from less [OF this] show ?thesis by (subst parseredirs_eq) simp
  next
    case False
    then show ?thesis by (subst parseredirs_eq) auto
  qed
qed

lemma simple_ends: "simple c n s p \<noteq> Fail Looping"
proof (induction "length (tokens s p)" arbitrary: c n p rule: less_induct)
  case less
  let ?q = "skip_token s p"
  have 1: "length (tokens s ?q) < length (tokens s p)" if "kind s p = 97" using that tokens_more [of s p] by auto
  have 2: "length (tokens s (skip_token s ?q)) < length (tokens s p)"
    if "kind s p \<in> {60, 62, 43}" "kind s ?q = 97"
    using that tokens_more [of s p] tokens_more [of s ?q] by auto
  show ?case by (subst simple_eq) (simp add: less.hyps [OF 1] less.hyps [OF 2])
qed

lemma andthen_ends: "m \<noteq> Fail Looping \<Longrightarrow> (\<And>x. m = Ok x \<Longrightarrow> f x \<noteq> Fail Looping) \<Longrightarrow> andthen m f \<noteq> Fail Looping"
  by (cases m) auto

definition ends_at :: "nat \<Rightarrow> u8 list \<Rightarrow> bool" where
  "ends_at n s \<longleftrightarrow> (\<forall>p.
     (4 * length (tokens s p) + 4 \<le> n \<longrightarrow> parseline n s p \<noteq> Fail Looping) \<and>
     (4 * length (tokens s p) + 3 \<le> n \<longrightarrow> parsepipe n s p \<noteq> Fail Looping) \<and>
     (4 * length (tokens s p) + 1 \<le> n \<longrightarrow> parseblock n s p \<noteq> Fail Looping) \<and>
     (4 * length (tokens s p) + 2 \<le> n \<longrightarrow> parseexec n s p \<noteq> Fail Looping))"

lemma length_rest: "tokens s p = ts @ tokens s p' \<Longrightarrow> length (tokens s p') \<le> length (tokens s p)"
  by simp

lemma parse_length:
  "parseline n s p = Ok (c, p') \<Longrightarrow> length (tokens s p') \<le> length (tokens s p)"
  "parsepipe n s p = Ok (c, p') \<Longrightarrow> length (tokens s p') \<le> length (tokens s p)"
  "parseexec n s p = Ok (c, p') \<Longrightarrow> length (tokens s p') \<le> length (tokens s p)"
  using sound_atD(1,2,4) [OF parse_sound] length_rest by metis+

lemma back_loop_length: "back_loop s c p = (c', p') \<Longrightarrow> length (tokens s p') \<le> length (tokens s p)"
  using back_loop_sound length_rest by metis

lemma length_step: "kind s p = t \<Longrightarrow> t \<noteq> 0 \<Longrightarrow> length (tokens s p) = Suc (length (tokens s (skip_token s p)))"
  using tokens_kind by simp

lemma parseline_ends:
  assumes "ends_at n s" "4 * length (tokens s p) + 4 \<le> Suc n"
  shows "parseline (Suc n) s p \<noteq> Fail Looping"
proof -
  have k: "(case back_loop s c p1 of (c, p1) \<Rightarrow> case peek s p1 [59, 0] of (t, p1) \<Rightarrow>
      if t then andthen (parseline n s (skip_token s p1)) (\<lambda>(r, p1). Ok (LIST c r, p1)) else Ok (c, p1)) \<noteq> Fail Looping"
    if r: "parsepipe n s p = Ok (c, p1)" for c p1
  proof -
    obtain d q where b: "back_loop s c p1 = (d, q)" by (cases "back_loop s c p1")
    have "parseline n s (skip_token s q) \<noteq> Fail Looping" if "kind s q = 59"
      using assms parse_length(2) [OF r] back_loop_length [OF b] length_step [OF that] by (simp add: ends_at_def)
    then show ?thesis by (simp add: b token_eqs andthen_ends split: prod.split)
  qed
  have "parsepipe n s p \<noteq> Fail Looping" using assms by (simp add: ends_at_def)
  then show ?thesis unfolding parseline.simps using k by (intro andthen_ends) (auto split del: if_split)
qed

lemma parsepipe_ends:
  assumes "ends_at n s" "4 * length (tokens s p) + 3 \<le> Suc n"
  shows "parsepipe (Suc n) s p \<noteq> Fail Looping"
proof -
  have k: "(case peek s q [124, 0] of (t, q) \<Rightarrow>
      if t then andthen (parsepipe n s (skip_token s q)) (\<lambda>(r, q). Ok (PIPE c r, q)) else Ok (c, q)) \<noteq> Fail Looping"
    if r: "parseexec n s p = Ok (c, q)" for c q
  proof -
    have "parsepipe n s (skip_token s q) \<noteq> Fail Looping" if "kind s q = 124"
      using assms parse_length(3) [OF r] length_step [OF that] by (simp add: ends_at_def)
    then show ?thesis by (simp add: token_eqs andthen_ends split: prod.split)
  qed
  have "parseexec n s p \<noteq> Fail Looping" using assms by (simp add: ends_at_def)
  then show ?thesis unfolding parsepipe.simps using k by (intro andthen_ends) (auto split del: if_split)
qed

lemma parseblock_ends:
  assumes "ends_at n s" "4 * length (tokens s p) + 1 \<le> Suc n"
  shows "parseblock (Suc n) s p \<noteq> Fail Looping"
proof (cases "kind s p = 40")
  case True
  then have "parseline n s (skip_token s p) \<noteq> Fail Looping"
    using assms length_step [OF True] by (simp add: ends_at_def)
  then have "andthen (parseline n s (skip_token s p)) f \<noteq> Fail Looping"
    if "\<And>c q. f (c, q) \<noteq> Fail Looping" for f :: "cmd \<times> nat \<Rightarrow> (cmd \<times> nat) res"
    using that by (intro andthen_ends) auto
  then show ?thesis using True by (simp add: token_eqs parseredirs_ends)
qed (simp add: token_eqs)

lemma parseexec_ends:
  assumes "ends_at n s" "4 * length (tokens s p) + 2 \<le> Suc n"
  shows "parseexec (Suc n) s p \<noteq> Fail Looping"
proof (cases "kind s p = 40")
  case True
  then show ?thesis using assms by (simp add: token_eqs ends_at_def)
next
  case False
  then show ?thesis by (simp add: parseexec_simple simple_ends del: parseexec.simps)
qed

lemma parse_ends: "ends_at n s"
proof (induction n)
  case 0
  then show ?case by (simp add: ends_at_def)
next
  case (Suc n)
  then show ?case
    unfolding ends_at_def [of "Suc n"]
    by (intro allI conjI impI) (rule parseline_ends parsepipe_ends parseblock_ends parseexec_ends, assumption, assumption)+
qed

section \<open>Every sentence is accepted\<close>

lemma back_loop_complete:
  "tokens s p = map (Pair 38) xs @ rest \<Longrightarrow> first_kind rest \<noteq> 38 \<Longrightarrow>
   \<exists>p'. back_loop s c p = ((BACK ^^ length xs) c, p') \<and> tokens s p' = rest"
proof (induction xs arbitrary: c p)
  case Nil
  then have "kind s p \<noteq> 38" using first_kind_tokens [of s p] by simp
  then show ?case using Nil by (subst back_loop_eq) simp
next
  case (Cons x xs)
  then have "kind s p = 38" "tokens s (skip_token s p) = map (Pair 38) xs @ rest"
    by (auto simp: tokens_Cons_iff)
  then show ?case using Cons.IH [of "skip_token s p" "BACK c"] Cons.prems(2)
    by (subst back_loop_eq) (simp add: funpow_swap1)
qed

lemma parseredirs_complete:
  "\<lbrakk>tokens s p = redir_toks rs @ rest; list_all redir_op rs; first_kind rest \<notin> {60, 62, 43}\<rbrakk> \<Longrightarrow>
   \<exists>p'. parseredirs c s p = Ok (redirected rs c, p') \<and> tokens s p' = rest"
proof (induction rs arbitrary: c p)
  case Nil
  then have "kind s p \<notin> {60, 62, 43}" using first_kind_tokens [of s p] by simp
  then show ?case using Nil by (subst parseredirs_eq) simp
next
  case (Cons r rs)
  obtain t x w where r: "r = (t, x, w)" by (cases r)
  let ?q = "skip_token s p"
  have "kind s p = t" "t \<in> {60, 62, 43}" "kind s ?q = 97" "tok_span s ?q = w"
    "tokens s (skip_token s ?q) = redir_toks rs @ rest"
    using Cons.prems(1,2) by (auto simp: r tokens_Cons_iff redir_op_def)
  then show ?case using Cons.IH [of "skip_token s ?q" "redir c t w"] Cons.prems(2,3)
    by (subst parseredirs_eq) (simp add: r)
qed

lemma simple_complete:
  "\<lbrakk>tokens s p = elem_toks es @ rest; list_all redir_op (redirs es); length (ws @ words es) < 10;
    first_kind rest \<in> {0, 124, 41, 38, 59}\<rbrakk> \<Longrightarrow>
   \<exists>p'. simple (redirected rs (EXEC ws)) (length ws) s p =
     Ok (redirected (rs @ redirs es) (EXEC (ws @ words es)), p') \<and> tokens s p' = rest"
proof (induction es arbitrary: rs ws p rule: elem_toks.induct)
  case 1
  then have "kind s p \<in> {0, 124, 41, 38, 59}" using first_kind_tokens [of s p] by simp
  then show ?case using 1 by (subst simple_eq) auto
next
  case (2 w es)
  then have "kind s p = 97" "tok_span s p = w" "tokens s (skip_token s p) = elem_toks es @ rest"
    by (auto simp: tokens_Cons_iff)
  then show ?case using 2(1) [of "skip_token s p" "ws @ [w]" rs] 2(3-)
    by (subst simple_eq) (simp add: add_arg_redirected)
next
  case (3 r es)
  obtain t x w where r: "r = (t, x, w)" by (cases r)
  let ?q = "skip_token s p"
  have "kind s p = t" "t \<in> {60, 62, 43}" "kind s ?q = 97" "tok_span s ?q = w"
    "tokens s (skip_token s ?q) = elem_toks es @ rest"
    using 3(2,3) by (auto simp: r tokens_Cons_iff redir_op_def)
  then show ?case using 3(1) [of "skip_token s ?q" ws "rs @ [r]"] 3(3-)
    by (subst simple_eq) (simp add: r)
qed

text \<open>A parsing function accepts the tokens \<open>ts\<close> with the result \<open>c\<close> when a token of one of the kinds in \<open>F\<close>
  follows.\<close>

definition accepts ::
  "(nat \<Rightarrow> u8 list \<Rightarrow> nat \<Rightarrow> (cmd \<times> nat) res) \<Rightarrow> nat \<Rightarrow> u8 set \<Rightarrow> tok list \<Rightarrow> cmd \<Rightarrow> bool" where
  "accepts f k F ts c \<longleftrightarrow> (\<forall>s p rest n. tokens s p = ts @ rest \<longrightarrow> first_kind rest \<in> F \<longrightarrow>
     4 * length (tokens s p) + k \<le> n \<longrightarrow> (\<exists>p'. f n s p = Ok (c, p') \<and> tokens s p' = rest))"

lemma acceptsI:
  assumes "\<And>s p rest n. \<lbrakk>tokens s p = ts @ rest; first_kind rest \<in> F; 4 * length (tokens s p) + k \<le> Suc n\<rbrakk> \<Longrightarrow>
    \<exists>p'. f (Suc n) s p = Ok (c, p') \<and> tokens s p' = rest"
    and "0 < k"
  shows "accepts f k F ts c"
  unfolding accepts_def
proof (intro allI impI)
  fix s p rest n
  assume "tokens s p = ts @ rest" "first_kind rest \<in> F" "4 * length (tokens s p) + k \<le> n"
  moreover from this assms(2) obtain m where "n = Suc m" by (cases n) auto
  ultimately show "\<exists>p'. f n s p = Ok (c, p') \<and> tokens s p' = rest" using assms(1) by simp
qed

lemma acceptsE:
  assumes "accepts f k F ts c" "tokens s p = ts @ rest" "first_kind rest \<in> F" "4 * length (tokens s p) + k \<le> n"
  obtains p' where "f n s p = Ok (c, p')" "tokens s p' = rest"
  using assms unfolding accepts_def by metis

lemma first_kind_Cons [simp]: "first_kind (t # ts) = fst t" "first_kind [] = 0"
  by (simp_all add: first_kind_def)

lemma accepts_simple:
  assumes "list_all redir_op (redirs es)" "length (words es) < MAXARGS"
  shows "accepts parseexec 2 {0, 124, 41, 38, 59} (elem_toks es) (redirected (redirs es) (EXEC (words es)))"
proof (rule acceptsI)
  fix s p rest n
  assume t: "tokens s p = elem_toks es @ rest" and r: "first_kind rest \<in> {0, 124, 41, 38, 59}"
  have "kind s p \<noteq> 40"
  proof (cases es)
    case Nil
    then show ?thesis using t r first_kind_tokens [of s p] by auto
  next
    case (Cons e es')
    then have "kind s p \<in> {97, 60, 62, 43}"
      using t assms(1) first_kind_tokens [of s p] by (cases e) (auto simp: redir_op_def)
    then show ?thesis by auto
  qed
  moreover have "tokens s (skip_space s p) = elem_toks es @ rest" using t by simp
  from simple_complete [OF this assms(1), of "[]" "[]"] assms(2) r
  have "\<exists>p'. simple (EXEC []) 0 s (skip_space s p) = Ok (redirected (redirs es) (EXEC (words es)), p') \<and> tokens s p' = rest"
    by simp
  ultimately show "\<exists>p'. parseexec (Suc n) s p = Ok (redirected (redirs es) (EXEC (words es)), p') \<and> tokens s p' = rest"
    by (simp add: parseexec_simple del: parseexec.simps)
qed simp

lemma accepts_block:
  assumes "accepts parseline 4 {0, 41} ts c" "list_all redir_op rs"
  shows "accepts parseexec 2 {0, 124, 41, 38, 59} ((40, x) # ts @ (41, y) # redir_toks rs) (redirected rs c)"
proof (rule acceptsI)
  fix s p rest n
  assume t: "tokens s p = ((40, x) # ts @ (41, y) # redir_toks rs) @ rest" and r: "first_kind rest \<in> {0, 124, 41, 38, 59}"
    and n: "4 * length (tokens s p) + 2 \<le> Suc n"
  have k: "kind s p = 40" "tokens s (skip_token s p) = ts @ (41, y) # redir_toks rs @ rest"
    using t by (auto simp: tokens_Cons_iff)
  obtain m where m: "n = Suc m" "4 * length (tokens s (skip_token s p)) + 4 \<le> m"
    using n length_step [OF k(1)] by (cases n) auto
  obtain q where q: "parseline m s (skip_token s p) = Ok (c, q)" "tokens s q = (41, y) # redir_toks rs @ rest"
    using acceptsE [OF assms(1) k(2) _ m(2)] by auto
  have q2: "kind s q = 41" "tokens s (skip_token s q) = redir_toks rs @ rest" using q(2) by (auto simp: tokens_Cons_iff)
  have "first_kind rest \<notin> {60, 62, 43}" using r by auto
  from parseredirs_complete [OF q2(2) assms(2) this]
  show "\<exists>p'. parseexec (Suc n) s p = Ok (redirected rs c, p') \<and> tokens s p' = rest"
    using k(1) q(1) q2(1) m(1) by (simp add: token_eqs)
qed simp

lemma accepts_pipe_one:
  assumes "accepts parseexec 2 {0, 124, 41, 38, 59} ts c"
  shows "accepts parsepipe 3 {0, 41, 38, 59} ts c"
proof (rule acceptsI)
  fix s p rest n
  assume t: "tokens s p = ts @ rest" and r: "first_kind rest \<in> {0, 41, 38, 59}" and n: "4 * length (tokens s p) + 3 \<le> Suc n"
  obtain q where q: "parseexec n s p = Ok (c, q)" "tokens s q = rest"
    using acceptsE [OF assms t] r n by auto
  then have "kind s q \<noteq> 124" using r first_kind_tokens [of s q] by auto
  then show "\<exists>p'. parsepipe (Suc n) s p = Ok (c, p') \<and> tokens s p' = rest" using q by (simp add: token_eqs)
qed simp

lemma accepts_pipe_more:
  assumes "accepts parseexec 2 {0, 124, 41, 38, 59} ts c" "accepts parsepipe 3 {0, 41, 38, 59} us d"
  shows "accepts parsepipe 3 {0, 41, 38, 59} (ts @ (124, x) # us) (PIPE c d)"
proof (rule acceptsI)
  fix s p rest n
  assume t: "tokens s p = (ts @ (124, x) # us) @ rest" and r: "first_kind rest \<in> {0, 41, 38, 59}"
    and n: "4 * length (tokens s p) + 3 \<le> Suc n"
  have t': "tokens s p = ts @ (124, x) # us @ rest" using t by simp
  obtain q where q: "parseexec n s p = Ok (c, q)" "tokens s q = (124, x) # us @ rest"
    using acceptsE [OF assms(1) t'] n by auto
  then have k: "kind s q = 124" "tokens s (skip_token s q) = us @ rest" by (auto simp: tokens_Cons_iff)
  have "4 * length (tokens s (skip_token s q)) + 3 \<le> n" using n t k(2) by simp
  from acceptsE [OF assms(2) k(2) r this] obtain p' where "parsepipe n s (skip_token s q) = Ok (d, p')" "tokens s p' = rest"
    by blast
  then show "\<exists>p'. parsepipe (Suc n) s p = Ok (PIPE c d, p') \<and> tokens s p' = rest" using q k by (simp add: token_eqs)
qed simp

lemma accepts_line_one:
  assumes "accepts parsepipe 3 {0, 41, 38, 59} ts c"
  shows "accepts parseline 4 {0, 41} (ts @ map (Pair 38) xs) ((BACK ^^ length xs) c)"
proof (rule acceptsI)
  fix s p rest n
  assume t: "tokens s p = (ts @ map (Pair 38) xs) @ rest" and r: "first_kind rest \<in> {0, 41}"
    and n: "4 * length (tokens s p) + 4 \<le> Suc n"
  have t': "tokens s p = ts @ map (Pair 38) xs @ rest" using t by simp
  have f: "first_kind (map (Pair 38) xs @ rest) \<in> {0, 41, 38, 59}" using r by (cases xs) auto
  obtain q where q: "parsepipe n s p = Ok (c, q)" "tokens s q = map (Pair 38) xs @ rest"
    by (rule acceptsE [OF assms t' f, of n]) (use n in simp)
  obtain p' where p': "back_loop s c q = ((BACK ^^ length xs) c, p')" "tokens s p' = rest"
    using back_loop_complete [OF q(2), of c] r by auto
  then have "kind s p' \<noteq> 59" using r first_kind_tokens [of s p'] by auto
  then show "\<exists>p'. parseline (Suc n) s p = Ok ((BACK ^^ length xs) c, p') \<and> tokens s p' = rest"
    using q p' by (simp add: token_eqs)
qed simp

lemma accepts_line_more:
  assumes "accepts parsepipe 3 {0, 41, 38, 59} ts c" "accepts parseline 4 {0, 41} us d"
  shows "accepts parseline 4 {0, 41} (ts @ map (Pair 38) xs @ (59, x) # us) (LIST ((BACK ^^ length xs) c) d)"
proof (rule acceptsI)
  fix s p rest n
  assume t: "tokens s p = (ts @ map (Pair 38) xs @ (59, x) # us) @ rest" and r: "first_kind rest \<in> {0, 41}"
    and n: "4 * length (tokens s p) + 4 \<le> Suc n"
  have t': "tokens s p = ts @ map (Pair 38) xs @ (59, x) # us @ rest" using t by simp
  have f: "first_kind (map (Pair 38) xs @ (59, x) # us @ rest) \<in> {0, 41, 38, 59}" by (cases xs) auto
  obtain q where q: "parsepipe n s p = Ok (c, q)" "tokens s q = map (Pair 38) xs @ (59, x) # us @ rest"
    by (rule acceptsE [OF assms(1) t' f, of n]) (use n in simp)
  obtain u where u: "back_loop s c q = ((BACK ^^ length xs) c, u)" "tokens s u = (59, x) # us @ rest"
    using back_loop_complete [OF q(2), of c] by auto
  then have k: "kind s u = 59" "tokens s (skip_token s u) = us @ rest" by (auto simp: tokens_Cons_iff)
  have "4 * length (tokens s (skip_token s u)) + 4 \<le> n" using n t k(2) by simp
  from acceptsE [OF assms(2) k(2) r this] obtain p' where "parseline n s (skip_token s u) = Ok (d, p')" "tokens s p' = rest"
    by blast
  then show "\<exists>p'. parseline (Suc n) s p = Ok (LIST ((BACK ^^ length xs) c) d, p') \<and> tokens s p' = rest"
    using q u k by (simp add: token_eqs)
qed simp

lemma parse_complete:
  shows "exec_of ts c \<Longrightarrow> accepts parseexec 2 {0, 124, 41, 38, 59} ts c"
    and "pipe_of ts c \<Longrightarrow> accepts parsepipe 3 {0, 41, 38, 59} ts c"
    and "line_of ts c \<Longrightarrow> accepts parseline 4 {0, 41} ts c"
  by (induction rule: exec_of_pipe_of_line_of.inducts)
    (rule accepts_simple accepts_block accepts_pipe_one accepts_pipe_more accepts_line_one accepts_line_more; assumption)+

section \<open>parsecmd\<close>

lemma skip_space_le: "p \<le> length s \<Longrightarrow> skip_space s p \<le> length s"
  by (induction s p rule: skip_space.induct) (subst skip_space.simps, auto)

text \<open>The whole line has been read when no token is left.\<close>

lemma end_of_line:
  assumes "0 \<notin> set s" "p \<le> length s"
  shows "skip_space s p = length s \<longleftrightarrow> tokens s p = []"
proof -
  have "kind s p = 0 \<longleftrightarrow> ch s (skip_space s p) = 0" by (auto simp: kind_eq Let_def)
  moreover have "ch s (skip_space s p) = 0 \<longleftrightarrow> skip_space s p = length s"
    using skip_space_le [OF assms(2)] assms(1) by (auto simp: ch_def) (metis le_neq_implies_less nth_mem)
  ultimately show ?thesis by (simp add: tokens_Nil_iff)
qed

text \<open>The pointer stays within the line.\<close>

lemma skip_word_le: "p \<le> length s \<Longrightarrow> skip_word s p \<le> length s"
  by (induction s p rule: skip_word.induct) (subst skip_word.simps, auto)

lemma skip_token_le: "p \<le> length s \<Longrightarrow> skip_token s p \<le> length s"
  using skip_space_le [of p s]
  by (auto simp: skip_token_def gettoken_def Let_def ch_def split: if_splits intro!: skip_space_le skip_word_le)

definition within :: "u8 list \<Rightarrow> (cmd \<times> nat) res \<Rightarrow> bool" where
  "within s r \<longleftrightarrow> okp (\<lambda>(c, p). p \<le> length s) r"

lemma within_simps [simp]: "within s (Ok (c, p)) \<longleftrightarrow> p \<le> length s" "within s (Fail e)"
  by (simp_all add: within_def)

lemma within_andthen: "within s m \<Longrightarrow> (\<And>c p. p \<le> length s \<Longrightarrow> within s (f (c, p))) \<Longrightarrow> within s (andthen m f)"
  by (cases m) auto

lemma back_loop_le: "p \<le> length s \<Longrightarrow> back_loop s c p = (c', p') \<Longrightarrow> p' \<le> length s"
proof (induction "length (tokens s p)" arbitrary: c p rule: less_induct)
  case less
  show ?case
  proof (cases "kind s p = 38")
    case True
    then show ?thesis
      using less.hyps [of "skip_token s p" "BACK c"] less.prems length_step [OF True] skip_token_le back_loop_eq [of s c p]
      by simp
  next
    case False
    then show ?thesis using less.prems skip_space_le back_loop_eq [of s c p] by auto
  qed
qed

lemma parseredirs_le: "p \<le> length s \<Longrightarrow> within s (parseredirs c s p)"
proof (induction "length (tokens s p)" arbitrary: c p rule: less_induct)
  case less
  let ?q = "skip_token s (skip_token s p)"
  show ?case
  proof (cases "kind s p \<in> {60, 62, 43} \<and> kind s (skip_token s p) = 97")
    case True
    then have "length (tokens s ?q) < length (tokens s p)"
      using tokens_more [of s p] tokens_more [of s "skip_token s p"] by auto
    from less.hyps [OF this] less.prems show ?thesis by (subst parseredirs_eq) (simp add: skip_token_le skip_space_le)
  next
    case False
    then show ?thesis using less.prems by (subst parseredirs_eq) (auto simp: skip_space_le)
  qed
qed

lemma simple_le: "p \<le> length s \<Longrightarrow> within s (simple c n s p)"
proof (induction "length (tokens s p)" arbitrary: c n p rule: less_induct)
  case less
  let ?q = "skip_token s p"
  have 1: "length (tokens s ?q) < length (tokens s p)" if "kind s p = 97" using that tokens_more [of s p] by auto
  have 2: "length (tokens s (skip_token s ?q)) < length (tokens s p)"
    if "kind s p \<in> {60, 62, 43}" "kind s ?q = 97"
    using that tokens_more [of s p] tokens_more [of s ?q] by auto
  show ?case using less.prems
    by (subst simple_eq) (simp add: less.hyps [OF 1] less.hyps [OF 2] skip_token_le skip_space_le)
qed

lemma parse_le:
  "p \<le> length s \<Longrightarrow> within s (parseline n s p) \<and> within s (parsepipe n s p) \<and> within s (parseblock n s p) \<and> within s (parseexec n s p)"
proof (induction n arbitrary: p)
  case (Suc n)
  have line: "within s (parseline n s p)" and pipe: "within s (parsepipe n s p)" and block: "within s (parseblock n s p)"
    and exec: "within s (parseexec n s p)" if "p \<le> length s" for p
    using Suc.IH [OF that] by blast+
  have "within s (parseline (Suc n) s p)"
    unfolding parseline.simps
  proof (rule within_andthen)
    fix c q assume q: "q \<le> length s"
    obtain c' q' where b: "back_loop s c q = (c', q')" by (cases "back_loop s c q")
    have "q' \<le> length s" using back_loop_le [OF q b] .
    then have "within s (andthen (parseline n s (skip_token s q')) (\<lambda>(r, p). Ok (LIST c' r, p)))" "skip_space s q' \<le> length s"
      by (auto intro!: within_andthen line skip_token_le skip_space_le)
    then show "within s (case (c, q) of (c, q) \<Rightarrow> case back_loop s c q of (c, q) \<Rightarrow> case peek s q [59, 0] of (t, q) \<Rightarrow>
        if t then andthen (parseline n s (skip_token s q)) (\<lambda>(r, q). Ok (LIST c r, q)) else Ok (c, q))"
      by (simp add: b token_eqs)
  qed (rule pipe [OF Suc.prems])
  moreover have "within s (parsepipe (Suc n) s p)"
    unfolding parsepipe.simps
  proof (rule within_andthen)
    fix c q assume "q \<le> length s"
    then have "within s (andthen (parsepipe n s (skip_token s q)) (\<lambda>(r, p). Ok (PIPE c r, p)))" "skip_space s q \<le> length s"
      by (auto intro!: within_andthen pipe skip_token_le skip_space_le)
    then show "within s (case (c, q) of (c, q) \<Rightarrow> case peek s q [124, 0] of (t, q) \<Rightarrow>
        if t then andthen (parsepipe n s (skip_token s q)) (\<lambda>(r, q). Ok (PIPE c r, q)) else Ok (c, q))"
      by (simp add: token_eqs)
  qed (rule exec [OF Suc.prems])
  moreover have "within s (parseblock (Suc n) s p)"
  proof -
    have "within s (andthen (parseline n s (skip_token s p)) (\<lambda>(c, q).
        if kind s q \<noteq> 41 then Fail (Panic ''syntax - missing )'') else parseredirs c s (skip_token s (skip_space s q))))"
      using line [OF skip_token_le [OF Suc.prems]] by (rule within_andthen) (simp add: parseredirs_le skip_token_le)
    then show ?thesis by (simp add: token_eqs)
  qed
  moreover have "within s (parseexec (Suc n) s p)"
    using block [of "skip_space s p"] simple_le [of "skip_space s p" s "EXEC []" 0] skip_space_le [OF Suc.prems]
    by (simp add: token_eqs simple_def)
  ultimately show ?case by blast
qed simp

lemma take_line: "0 \<notin> set s \<Longrightarrow> length s < 2 ^ 32 \<Longrightarrow>
    parsecmd (s @ 0 # r) =
      andthen (parseline (parse_depth s) s 0) (\<lambda>(c, p).
      if skip_space s p \<noteq> length s then Fail (Panic ''syntax'') else Ok (c, nulterminate c (s @ 0 # r)))"
  by (simp add: parsecmd_def user_strlen_str token_eqs unat_of_nat take_bit_nat_eq_self)

lemma parsecmd_line:
  assumes "0 \<notin> set s" "length s < 2 ^ 32" "parsecmd (s @ 0 # r) = Ok (c, b)"
  shows "line_of (tokens s 0) c"
proof -
  obtain p where p: "parseline (parse_depth s) s 0 = Ok (c, p)" "skip_space s p = length s"
    using assms(3) unfolding take_line [OF assms(1,2)] by (auto simp: andthen_eq_Ok split: if_splits)
  have "p \<le> length s" using parse_le [of 0 s "parse_depth s"] p(1) by simp
  then have "tokens s p = []" using end_of_line [OF assms(1)] p(2) by simp
  then show ?thesis using sound_atD(1) [OF parse_sound p(1)] by simp
qed



section \<open>The words of a command\<close>

primrec spans :: "cmd \<Rightarrow> span set" where
  "spans (EXEC args) = set args"
| "spans (REDIR c f mode fd) = insert f (spans c)"
| "spans (PIPE l r) = spans l \<union> spans r"
| "spans (LIST l r) = spans l \<union> spans r"
| "spans (BACK c) = spans c"

text \<open>\<open>argv\<close> has room for the arguments and the null pointer behind them.\<close>

primrec args_fit :: "cmd \<Rightarrow> bool" where
  "args_fit (EXEC args) \<longleftrightarrow> length args < MAXARGS"
| "args_fit (REDIR c f mode fd) \<longleftrightarrow> args_fit c"
| "args_fit (PIPE l r) \<longleftrightarrow> args_fit l \<and> args_fit r"
| "args_fit (LIST l r) \<longleftrightarrow> args_fit l \<and> args_fit r"
| "args_fit (BACK c) \<longleftrightarrow> args_fit c"

definition word_char :: "u8 \<Rightarrow> bool" where
  "word_char x \<longleftrightarrow> x \<notin> {0, 9, 10, 11, 13, 32} \<union> {60, 124, 62, 38, 59, 40, 41}"

definition is_word :: "u8 list \<Rightarrow> span \<Rightarrow> bool" where
  "is_word s w \<longleftrightarrow> fst w < snd w \<and> snd w \<le> length s \<and> (\<forall>i. fst w \<le> i \<and> i < snd w \<longrightarrow> word_char (s ! i)) \<and>
     \<not> word_char (ch s (snd w))"

lemma among_whitespace: "among whitespace c \<longleftrightarrow> c \<in> {32, 9, 13, 10, 11}"
  by (auto simp: among_def whitespace_def)

lemma word_char_iff: "word_char c \<longleftrightarrow> c \<noteq> 0 \<and> \<not> among whitespace c \<and> \<not> among symbols c"
  by (auto simp: word_char_def among_whitespace among_symbols)

lemma skip_word_chars:
  "0 \<notin> set s \<Longrightarrow> (\<forall>i. p \<le> i \<and> i < skip_word s p \<longrightarrow> word_char (s ! i)) \<and> \<not> word_char (ch s (skip_word s p))"
proof (induction s p rule: skip_word.induct)
  case (1 s p)
  show ?case
  proof (cases "p < length s \<and> word_char (ch s p)")
    case True
    then have "skip_word s p = skip_word s (p + 1)" by (subst skip_word.simps) (simp add: word_char_iff)
    moreover have "(\<forall>i. p + 1 \<le> i \<and> i < skip_word s (p + 1) \<longrightarrow> word_char (s ! i)) \<and> \<not> word_char (ch s (skip_word s (p + 1)))"
      using 1 True by (simp add: word_char_iff)
    moreover have "word_char (s ! p)" using True by (auto simp: ch_def)
    ultimately show ?thesis by (metis Suc_eq_plus1 le_antisym not_less_eq_eq)
  next
    case False
    have "p < length s \<Longrightarrow> ch s p \<noteq> 0" using "1.prems" by (metis ch_def nth_mem)
    then have "skip_word s p = p" using False by (subst skip_word.simps) (auto simp: word_char_iff)
    then show ?thesis using False by (auto simp: ch_def word_char_def)
  qed
qed

lemma kind_word:
  assumes "0 \<notin> set s" "kind s p = 97"
  shows "is_word s (tok_span s p)"
proof -
  let ?q = "skip_space s p"
  have c: "ch s ?q \<noteq> 0" "\<not> among symbols (ch s ?q)" "tok_span s p = (?q, skip_word s ?q)"
    using assms(2) by (auto simp: kind_def tok_span_def gettoken_def Let_def among_symbols split: if_splits)
  then have "?q < skip_word s ?q" using skip_word_gt [OF c(1) skip_space_stop c(2)] by simp
  moreover have "skip_word s ?q \<le> length s" using c(1) skip_word_le [of ?q s] by (simp add: ch_def split: if_splits)
  ultimately show ?thesis using skip_word_chars [OF assms(1), of ?q] c(3) by (auto simp: is_word_def)
qed

lemma tokens_words: "0 \<notin> set s \<Longrightarrow> (97, w) \<in> set (tokens s p) \<Longrightarrow> is_word s w"
proof (induction s p rule: tokens.induct)
  case (1 s p)
  then show ?case using kind_word [of s p] by (cases "kind s p = 0") (auto simp: tokens_end tokens_more)
qed

lemma spans_redirected: "spans (redirected rs c) \<subseteq> spans c \<union> {w. (97, w) \<in> set (redir_toks rs)}"
  by (induction rs arbitrary: c) (force simp: redir_def split: if_splits)+

lemma args_fit_redir: "args_fit (redir c t w) = args_fit c"
  by (simp add: redir_def)

lemma args_fit_redirected [simp]: "args_fit (redirected rs c) = args_fit c"
proof (induction rs arbitrary: c)
  case (Cons r rs)
  then show ?case by (cases r) (simp add: args_fit_redir)
qed simp

lemma elem_tok_words:
  "w \<in> set (words es) \<or> (97, w) \<in> set (redir_toks (redirs es)) \<Longrightarrow> (97, w) \<in> set (elem_toks es)"
proof (induction es rule: elem_toks.induct)
  case (3 r es)
  obtain t x f where "r = (t, x, f)" by (cases r)
  then show ?case using 3 by auto
qed auto

lemma back_spans [simp]: "spans ((BACK ^^ n) c) = spans c" "args_fit ((BACK ^^ n) c) = args_fit c"
  by (induction n) simp_all

lemma grammar_spans:
  shows "exec_of ts c \<Longrightarrow> args_fit c \<and> spans c \<subseteq> {w. (97, w) \<in> set ts}"
    and "pipe_of ts c \<Longrightarrow> args_fit c \<and> spans c \<subseteq> {w. (97, w) \<in> set ts}"
    and "line_of ts c \<Longrightarrow> args_fit c \<and> spans c \<subseteq> {w. (97, w) \<in> set ts}"
proof (induction rule: exec_of_pipe_of_line_of.inducts)
  case (exec_simple es)
  then show ?case using spans_redirected [of "redirs es" "EXEC (words es)"] elem_tok_words [of _ es] by auto
next
  case (exec_block ts c rs x y)
  then show ?case using spans_redirected [of rs c] by auto
qed auto

lemma nth_upd: "i < length xs \<Longrightarrow> xs[j := x] ! i = (if i = j then x else xs ! i)"
  by (cases "i = j") simp_all

lemma fold_nul:
  "i < length b \<Longrightarrow> fold (\<lambda>(q, eq) b. b[eq := 0]) args b ! i = (if \<exists>q. (q, i) \<in> set args then 0 else b ! i)"
  "length (fold (\<lambda>(q, eq) b. b[eq := 0]) args b) = length b"
  by (induction args arbitrary: b) (auto simp: nth_upd)

lemma nulterminate_nth:
  "length (nulterminate c b) = length b \<and>
   (\<forall>i < length b. nulterminate c b ! i = (if \<exists>q. (q, i) \<in> spans c then 0 else b ! i))"
  by (induction c arbitrary: b) (auto simp: fold_nul nth_upd)

text \<open>C13: A command that \<open>parsecmd\<close> returns is well formed: no \<open>argv\<close> is longer than its array, and every
  word lies in the line, is not empty and has no blank or operator in it.  In the buffer, where
  \<open>nulterminate\<close> has stored the terminators, every word is the string that its pointer points to: no
  terminator falls into another word.\<close>

theorem parsecmd_words:
  assumes "0 \<notin> set s" "length s < 2 ^ 32" "parsecmd (s @ 0 # r) = Ok (c, b)"
  shows "args_fit c \<and>
    (\<forall>q eq. (q, eq) \<in> spans c \<longrightarrow> is_word s (q, eq) \<and> str (drop q b) = take (eq - q) (drop q s))"
proof -
  have ln: "line_of (tokens s 0) c" using assms by (rule parsecmd_line)
  have b: "b = nulterminate c (s @ 0 # r)" using assms(3) unfolding take_line [OF assms(1,2)]
    by (auto simp: andthen_eq_Ok split: if_splits)
  have words: "is_word s w" if "w \<in> spans c" for w
    using grammar_spans(3) [OF ln] that tokens_words [OF assms(1)] by blast
  have "str (drop q b) = take (eq - q) (drop q s)" if w: "(q, eq) \<in> spans c" for q eq
  proof -
    have iw: "q < eq" "eq \<le> length s" "\<forall>i. q \<le> i \<and> i < eq \<longrightarrow> word_char (s ! i)"
      using words [OF w] by (auto simp: is_word_def)
    have keep: "b ! i = s ! i" if "q \<le> i" "i < eq" for i
    proof -
      have "\<nexists>q'. (q', i) \<in> spans c" using words iw that by (fastforce simp: is_word_def ch_def)
      then show ?thesis using nulterminate_nth [of c "s @ 0 # r"] iw that by (simp add: b nth_append)
    qed
    have len: "length b = length s + 1 + length r" and z: "b ! eq = 0"
      using nulterminate_nth [of c "s @ 0 # r"] w iw by (auto simp: b)
    have "drop q b = take (eq - q) (drop q b) @ b ! eq # drop (eq + 1) b"
      using append_take_drop_id [of "eq - q" "drop q b"] Cons_nth_drop_Suc [of eq b] iw len by simp
    moreover have "take (eq - q) (drop q b) = take (eq - q) (drop q s)"
      using iw len keep by (intro nth_equalityI) auto
    moreover have "0 \<notin> set (take (eq - q) (drop q s))"
      using iw by (auto simp: in_set_conv_nth word_char_def)
    ultimately show ?thesis using z str_append by metis
  qed
  then show ?thesis using words grammar_spans(3) [OF ln] by blast
qed

theorem parsecmd_words_witness:
  "args_fit (PIPE (EXEC [(0, 1), (2, 3)]) (EXEC [(4, 5)])) \<and>
   str (drop 2 [97, 0, 98, 0, 99, 0 :: u8]) = [98]"
proof -
  let ?s = "[97, 32, 98, 124, 99] :: u8 list" and ?c = "PIPE (EXEC [(0, 1), (2, 3)]) (EXEC [(4, 5)])"
  have "parsecmd (?s @ 0 # []) = Ok (?c, [97, 0, 98, 0, 99, 0])" by code_simp
  moreover have "0 \<notin> set ?s" "length ?s < 2 ^ 32" by simp_all
  ultimately have w: "args_fit ?c \<and>
    (\<forall>q eq. (q, eq) \<in> spans ?c \<longrightarrow> is_word ?s (q, eq) \<and> str (drop q [97, 0, 98, 0, 99, 0]) = take (eq - q) (drop q ?s))"
    using parsecmd_words [of ?s "[]"] by blast
  then show ?thesis using w [THEN conjunct2, rule_format, of 2 3] by simp
qed

end
