(* ===== verification/Shrun.thy ===== *)
theory Shrun
  imports Shgrammar
begin

text \<open>
  Running commands, \<open>runcmd\<close> and \<open>main\<close> of \<open>user/sh.c\<close>.  A process of the shell is the tree of the system
  calls it makes, with a branch for every result the code tells apart.  The theorem runs such a tree on a
  table of file descriptors and shows how the programs of a command line are connected.
\<close>

section \<open>System calls\<close>

datatype act =
  Exit int
| Exec "span list" act                   \<comment> \<open>arguments; what follows when \<open>exec\<close> fails\<close>
| Say string act
| Close nat act
| Open span u32 act act                  \<comment> \<open>file, mode; failure, success\<close>
| Dup nat act
| Pipe act "nat \<Rightarrow> nat \<Rightarrow> act"          \<comment> \<open>failure; success with \<open>p[0]\<close> and \<open>p[1]\<close>\<close>
| Fork act act act                       \<comment> \<open>failure; child; parent\<close>
| Wait act

definition sh_panic :: "string \<Rightarrow> act" where
  "sh_panic msg = Say msg (Exit 1)"

definition fork1 :: "act \<Rightarrow> act \<Rightarrow> act" where
  "fork1 child parent = Fork (sh_panic ''fork'') child parent"

text \<open>\<open>runcmd\<close> never returns: what stands behind its recursive calls is not reached.\<close>

primrec runcmd :: "cmd \<Rightarrow> act" where
  "runcmd (EXEC args) = (if args = [] then Exit 1 else Exec args (Say ''exec failed'' (Exit 0)))"
| "runcmd (REDIR c f mode fd) = Close fd (Open f mode (Say ''open failed'' (Exit 1)) (runcmd c))"
| "runcmd (LIST l r) = fork1 (runcmd l) (Wait (runcmd r))"
| "runcmd (PIPE l r) =
     Pipe (sh_panic ''pipe'') (\<lambda>p0 p1.
       fork1 (Close 1 (Dup p1 (Close p0 (Close p1 (runcmd l)))))
       (fork1 (Close 0 (Dup p0 (Close p0 (Close p1 (runcmd r)))))
       (Close p0 (Close p1 (Wait (Wait (Exit 0)))))))"
| "runcmd (BACK c) = fork1 (runcmd c) (Exit 0)"

section \<open>The shell's loop\<close>

text \<open>What one round of the loop in \<open>main\<close> does with the line in the buffer.\<close>

datatype round = Chdir "u8 list" | Job act

definition sh_round :: "u8 list \<Rightarrow> round" where
  "sh_round buf =
     (if take 3 buf = [99, 100, 32] then Chdir (drop 3 (butlast (str buf)))
      else
        Job (fork1
          (case parsecmd buf of
             Ok (c, b) \<Rightarrow> runcmd c
           | Fail (Panic msg) \<Rightarrow> sh_panic msg
           | Fail _ \<Rightarrow> Exit 1)
          (Wait (Exit 0))))"

definition getcmd :: "'w reader \<Rightarrow> 'w \<Rightarrow> u8 list option \<times> 'w" where
  "getcmd rd w = (case gets rd w 100 of (buf, w) \<Rightarrow> (if buf ! 0 = 0 then None else Some buf, w))"

text \<open>The rounds until the end of the input.\<close>

partial_function (option) sh_loop :: "'w reader \<Rightarrow> 'w \<Rightarrow> round list \<Rightarrow> (round list \<times> 'w) option" where
  "sh_loop rd w out =
     (case getcmd rd w of
        (None, w) \<Rightarrow> Some (out, w)
      | (Some buf, w) \<Rightarrow> sh_loop rd w (out @ [sh_round buf]))"

section \<open>File descriptors\<close>

text \<open>What a descriptor refers to: something the shell has inherited, a file it has opened, or an end of a
  pipe, numbered in the order of creation.\<close>

datatype fobj = Inherited nat | Opened span u32 | ReadEnd nat | WriteEnd nat

type_synonym fdtable = "nat \<rightharpoonup> fobj"

definition lowest :: "fdtable \<Rightarrow> nat option" where
  "lowest F = find (\<lambda>i. F i = None) [0..<NOFILE]"

text \<open>The programs that a process and its children execute, each with its descriptors, when \<open>fork\<close> and
  \<open>exec\<close> succeed and \<open>open\<close> succeeds where \<open>op\<close> says; and the number of the next pipe.\<close>

primrec programs :: "(span \<Rightarrow> u32 \<Rightarrow> bool) \<Rightarrow> act \<Rightarrow> fdtable \<Rightarrow> nat \<Rightarrow> (span list \<times> fdtable) list \<times> nat" where
  "programs op (Exit i) F n = ([], n)"
| "programs op (Exec args k) F n = ([(args, F)], n)"
| "programs op (Say msg k) F n = programs op k F n"
| "programs op (Close i k) F n = programs op k (F(i := None)) n"
| "programs op (Open f mode bad k) F n =
     (case lowest F of
        None \<Rightarrow> programs op bad F n
      | Some i \<Rightarrow> if op f mode then programs op k (F(i \<mapsto> Opened f mode)) n else programs op bad F n)"
| "programs op (Dup i k) F n =
     (case lowest F of None \<Rightarrow> programs op k F n | Some j \<Rightarrow> programs op k (F(j := F i)) n)"
| "programs op (Pipe bad k) F n =
     (case lowest F of
        None \<Rightarrow> programs op bad F n
      | Some i \<Rightarrow>
          case lowest (F(i \<mapsto> ReadEnd n)) of
            None \<Rightarrow> programs op bad F n
          | Some j \<Rightarrow> programs op (k i j) (F(i \<mapsto> ReadEnd n, j \<mapsto> WriteEnd n)) (Suc n))"
| "programs op (Fork bad child parent) F n =
     (case programs op child F n of (xs, n) \<Rightarrow>
      case programs op parent F n of (ys, n) \<Rightarrow> (xs @ ys, n))"
| "programs op (Wait k) F n = programs op k F n"

section \<open>How a command line is connected\<close>

text \<open>The programs of a command with input \<open>i\<close> and output \<open>out\<close>: a redirection replaces one of them, a pipe
  connects the output of its left side to the input of its right side.\<close>

primrec wiring :: "(span \<Rightarrow> u32 \<Rightarrow> bool) \<Rightarrow> cmd \<Rightarrow> fobj \<Rightarrow> fobj \<Rightarrow> nat \<Rightarrow> (span list \<times> fobj \<times> fobj) list \<times> nat" where
  "wiring op (EXEC args) i out n = (if args = [] then [] else [(args, i, out)], n)"
| "wiring op (REDIR c f mode fd) i out n =
     (if \<not> op f mode then ([], n)
      else if fd = 0 then wiring op c (Opened f mode) out n
      else wiring op c i (Opened f mode) n)"
| "wiring op (PIPE l r) i out n =
     (case wiring op l i (WriteEnd n) (Suc n) of (xs, m) \<Rightarrow>
      case wiring op r (ReadEnd n) out m of (ys, m) \<Rightarrow> (xs @ ys, m))"
| "wiring op (LIST l r) i out n =
     (case wiring op l i out n of (xs, m) \<Rightarrow>
      case wiring op r i out m of (ys, m) \<Rightarrow> (xs @ ys, m))"
| "wiring op (BACK c) i out n = wiring op c i out n"

definition table :: "fobj \<Rightarrow> fobj \<Rightarrow> fobj \<Rightarrow> fdtable" where
  "table i out e = [0 \<mapsto> i, 1 \<mapsto> out, 2 \<mapsto> e]"

primrec redirs_std :: "cmd \<Rightarrow> bool" where
  "redirs_std (EXEC args) \<longleftrightarrow> True"
| "redirs_std (REDIR c f mode fd) \<longleftrightarrow> fd \<in> {0, 1} \<and> redirs_std c"
| "redirs_std (PIPE l r) \<longleftrightarrow> redirs_std l \<and> redirs_std r"
| "redirs_std (LIST l r) \<longleftrightarrow> redirs_std l \<and> redirs_std r"
| "redirs_std (BACK c) \<longleftrightarrow> redirs_std c"

lemma lowest_simps:
  "lowest (table i out e) = Some 3" "lowest ((table i out e)(3 \<mapsto> x)) = Some 4"
  "lowest ((table i out e)(0 := None)) = Some 0" "lowest ((table i out e)(Suc 0 := None)) = Some (Suc 0)"
  "lowest ((table i out e)(3 \<mapsto> x, 4 \<mapsto> y, 0 := None)) = Some 0"
  "lowest ((table i out e)(3 \<mapsto> x, 4 \<mapsto> y, Suc 0 := None)) = Some (Suc 0)"
  by (simp_all add: lowest_def table_def upt_rec)

lemma table_simps:
  "(table i out e)(0 \<mapsto> x) = table x out e" "(table i out e)(Suc 0 \<mapsto> x) = table i x e"
  "(table i out e)(3 := None, 4 := None) = table i out e"
  "(table i out e)(0 \<mapsto> x, 3 := None, 4 := None) = table x out e"
  "(table i out e)(Suc 0 \<mapsto> x, 3 := None, 4 := None) = table i x e"
  by (auto simp: table_def fun_eq_iff)

lemma runcmd_programs:
  "redirs_std c \<Longrightarrow>
   programs op (runcmd c) (table i out e) n =
     (map (\<lambda>(args, i, out). (args, table i out e)) (fst (wiring op c i out n)), snd (wiring op c i out n))"
proof (induction c arbitrary: i out n)
  case (REDIR c f mode fd)
  then show ?case by (auto simp: lowest_simps table_simps)
next
  case (PIPE l r)
  then show ?case by (simp add: fork1_def lowest_simps table_simps split: prod.split)
qed (auto simp: fork1_def split: prod.split)

lemma redirs_std_redir: "redirs_std (redir c t w) = redirs_std c"
  by (simp add: redir_def)

lemma redirs_std_redirected: "redirs_std (redirected rs c) = redirs_std c"
proof (induction rs arbitrary: c)
  case (Cons r rs)
  then show ?case by (cases r) (simp add: redirs_std_redir)
qed simp

lemma redirs_std_back: "redirs_std ((BACK ^^ n) c) = redirs_std c"
  by (induction n) simp_all

lemma grammar_redirs_std:
  shows "exec_of ts c \<Longrightarrow> redirs_std c" and "pipe_of ts c \<Longrightarrow> redirs_std c" and "line_of ts c \<Longrightarrow> redirs_std c"
  by (induction rule: exec_of_pipe_of_line_of.inducts) (simp_all add: redirs_std_redirected redirs_std_back)



end
