(* ===== verification/Umalloc.thy ===== *)
theory Umalloc
  imports Memory
begin

text \<open>
  The memory allocator of user programs, \<open>user/umalloc.c\<close>: \<open>malloc\<close>, \<open>free\<close> and \<open>morecore\<close> on byte memory.
  A block begins with a header of 16 bytes, the pointer to the next free block and the size of the block
  in units of 16 bytes; pointer arithmetic on \<open>Header\<close> is in these units.  The free blocks form a ring
  that includes the static header \<open>base\<close>, whose address is a parameter.  So is \<open>grow\<close>, which says whether
  the \<open>sbrk\<close> system call grants a request at a break; \<open>sbrk\<close> takes a signed 32-bit number and returns the
  old break or -1.  The searches are loops that may run for ever on a damaged ring: \<open>None\<close> is not
  returning.
\<close>

section \<open>Headers\<close>

definition load32 :: "bytemem \<Rightarrow> u64 \<Rightarrow> u32" where
  "load32 m a = foldr (\<lambda>i acc. push_bit (8 * i) (ucast (m (a + of_nat i))) OR acc) [0..<4] 0"

definition store32 :: "bytemem \<Rightarrow> u64 \<Rightarrow> u32 \<Rightarrow> bytemem" where
  "store32 m a v = (\<lambda>b. if unat (b - a) < 4 then ucast (drop_bit (8 * unat (b - a)) v) else m b)"

definition hptr :: "bytemem \<Rightarrow> u64 \<Rightarrow> u64" where "hptr m p = load64 m p"
definition hsize :: "bytemem \<Rightarrow> u64 \<Rightarrow> u32" where "hsize m p = load32 m (p + 8)"
definition set_ptr :: "u64 \<Rightarrow> u64 \<Rightarrow> bytemem \<Rightarrow> bytemem" where "set_ptr p v m = store64 m p v"
definition set_size :: "u64 \<Rightarrow> u32 \<Rightarrow> bytemem \<Rightarrow> bytemem" where "set_size p v m = store32 m (p + 8) v"

text \<open>\<open>p + n\<close> for a pointer to headers.\<close>

definition units :: "u32 \<Rightarrow> u64" where "units n = 16 * ucast n"

section \<open>The allocator\<close>

record ualloc =
  umem :: bytemem
  freep :: u64
  ubrk :: u64

definition sbrk :: "(u64 \<Rightarrow> u32 \<Rightarrow> bool) \<Rightarrow> u32 \<Rightarrow> ualloc \<Rightarrow> u64 \<times> ualloc" where
  "sbrk grow n s = (if grow (ubrk s) n then (ubrk s, s\<lparr>ubrk := ubrk s + scast n\<rparr>) else (-1, s))"

partial_function (option) free_loop :: "bytemem \<Rightarrow> u64 \<Rightarrow> u64 \<Rightarrow> u64 option" where
  "free_loop m bp p =
     (if bp > p \<and> bp < hptr m p then Some p
      else if p \<ge> hptr m p \<and> (bp > p \<or> bp < hptr m p) then Some p
      else free_loop m bp (hptr m p))"

definition join_upper :: "u64 \<Rightarrow> u64 \<Rightarrow> bytemem \<Rightarrow> bytemem" where
  "join_upper bp p m =
     (if bp + units (hsize m bp) = hptr m p then
        let m = set_size bp (hsize m bp + hsize m (hptr m p)) m in
        set_ptr bp (hptr m (hptr m p)) m
      else set_ptr bp (hptr m p) m)"

definition join_lower :: "u64 \<Rightarrow> u64 \<Rightarrow> bytemem \<Rightarrow> bytemem" where
  "join_lower bp p m =
     (if p + units (hsize m p) = bp then
        let m = set_size p (hsize m p + hsize m bp) m in
        set_ptr p (hptr m bp) m
      else set_ptr p bp m)"

definition free :: "u64 \<Rightarrow> ualloc \<Rightarrow> ualloc option" where
  "free ap s =
     (let bp = ap - 16 in
      case free_loop (umem s) bp (freep s) of
        None \<Rightarrow> None
      | Some p \<Rightarrow> Some (s\<lparr>umem := join_lower bp p (join_upper bp p (umem s)), freep := p\<rparr>))"

definition morecore :: "(u64 \<Rightarrow> u32 \<Rightarrow> bool) \<Rightarrow> u32 \<Rightarrow> ualloc \<Rightarrow> (u64 \<times> ualloc) option" where
  "morecore grow nu s =
     (let nu = (if nu < 4096 then 4096 else nu) in
      case sbrk grow (ucast (units nu)) s of (p, s) \<Rightarrow>
      if p = -1 then Some (0, s)
      else
        case free (p + 16) (s\<lparr>umem := set_size p nu (umem s)\<rparr>) of
          None \<Rightarrow> None
        | Some s \<Rightarrow> Some (freep s, s))"

text \<open>Taking \<open>nunits\<close> units from the block \<open>p\<close> behind \<open>prevp\<close>: all of it, or its tail.\<close>

definition carve :: "u32 \<Rightarrow> u64 \<Rightarrow> u64 \<Rightarrow> ualloc \<Rightarrow> u64 \<times> ualloc" where
  "carve nunits prevp p s =
     (let m = umem s in
      if hsize m p = nunits then (p + 16, s\<lparr>umem := set_ptr prevp (hptr m p) m, freep := prevp\<rparr>)
      else
        let m = set_size p (hsize m p - nunits) m;
            p = p + units (hsize m p);
            m = set_size p nunits m in
        (p + 16, s\<lparr>umem := m, freep := prevp\<rparr>))"

partial_function (option) malloc_loop ::
  "(u64 \<Rightarrow> u32 \<Rightarrow> bool) \<Rightarrow> u32 \<Rightarrow> u64 \<Rightarrow> u64 \<Rightarrow> ualloc \<Rightarrow> (u64 \<times> ualloc) option" where
  "malloc_loop grow nunits prevp p s =
     (if hsize (umem s) p \<ge> nunits then Some (carve nunits prevp p s)
      else if p = freep s then
        case morecore grow nunits s of
          None \<Rightarrow> None
        | Some (p, s) \<Rightarrow>
            if p = 0 then Some (0, s) else malloc_loop grow nunits p (hptr (umem s) p) s
      else malloc_loop grow nunits p (hptr (umem s) p) s)"

definition nunits_of :: "u32 \<Rightarrow> u32" where
  "nunits_of nbytes = ucast ((ucast nbytes + 16 - 1 :: u64) div 16 + 1)"

definition malloc :: "(u64 \<Rightarrow> u32 \<Rightarrow> bool) \<Rightarrow> u64 \<Rightarrow> u32 \<Rightarrow> ualloc \<Rightarrow> (u64 \<times> ualloc) option" where
  "malloc grow base nbytes s =
     (let nunits = nunits_of nbytes;
          s = (if freep s = 0
               then s\<lparr>umem := set_size base 0 (set_ptr base base (umem s)), freep := base\<rparr> else s);
          prevp = freep s in
      malloc_loop grow nunits prevp (hptr (umem s) prevp) s)"

section \<open>Headers in memory\<close>

lemma bit_foldr_or32: "bit (foldr (\<lambda>i acc. f i OR acc) xs (0 :: u32)) n \<longleftrightarrow> (\<exists>i \<in> set xs. bit (f i) n)"
  by (induction xs) (auto simp: bit_or_iff)

lemma bit_byte_of_word32:
  "bit (push_bit (8 * i) (ucast (b :: u8)) :: u32) n \<longleftrightarrow> n < 32 \<and> n div 8 = i \<and> bit b (n mod 8)"
proof -
  have "n div 8 = i \<longleftrightarrow> 8 * i \<le> n \<and> n - 8 * i < 8" by auto
  moreover have "n div 8 = i \<Longrightarrow> n - 8 * i = n mod 8" by (metis minus_mult_div_eq_mod)
  ultimately show ?thesis
    by (auto simp: bit_push_bit_iff bit_ucast_iff not_le dest: bit_imp_le_length)
qed

lemma bit_load32: "bit (load32 m a) n \<longleftrightarrow> n < 32 \<and> bit (m (a + of_nat (n div 8))) (n mod 8)"
  unfolding load32_def bit_foldr_or32 bit_byte_of_word32 by auto

lemma load32_cong: "(\<And>i. i < 4 \<Longrightarrow> m' (a + of_nat i) = m (a + of_nat i)) \<Longrightarrow> load32 m' a = load32 m a"
  by (rule bit_word_eqI) (simp add: bit_load32)

lemma load32_store32_same: "load32 (store32 m a v) a = v"
proof (rule bit_word_eqI)
  fix n assume n: "n < LENGTH(32)"
  then have "unat (of_nat (n div 8) :: u64) = n div 8" and "n div 8 < 4"
    by (auto simp: unat_of_nat_u64)
  with n show "bit (load32 (store32 m a v) a) n = bit v n"
    by (simp add: bit_load32 store32_def bit_simps)
qed

text \<open>The sixteen bytes of a header.\<close>

definition in_header :: "u64 \<Rightarrow> u64 \<Rightarrow> bool" where
  "in_header p b \<longleftrightarrow> unat (b - p) < 16"

lemma offset_mono: "k < 16 \<Longrightarrow> j \<le> k \<Longrightarrow> unat (x - of_nat j :: u64) < 16 - k \<Longrightarrow> unat x < 16"
  for x :: u64
proof -
  assume k: "k < 16" "j \<le> k" and lt: "unat (x - of_nat j) < 16 - k"
  have "x = (x - of_nat j) + of_nat j" by simp
  also have "unat \<dots> = unat (x - of_nat j) + j"
    using lt k by (subst unat_word_ariths) (simp add: unat_of_nat_u64)
  finally show ?thesis using lt k by simp
qed

lemma set_ptr_frame: "\<not> in_header p b \<Longrightarrow> set_ptr p v m b = m b"
  by (auto simp: set_ptr_def store64_def in_header_def)

lemma set_size_frame: "\<not> in_header p b \<Longrightarrow> set_size p v m b = m b"
  using offset_mono [of 8 8 "b - p"]
  by (auto simp: set_size_def store32_def in_header_def diff_diff_eq)

lemma header_bytes: "i < 16 \<Longrightarrow> in_header p (p + of_nat i)"
  by (simp add: in_header_def unat_of_nat_u64)

text \<open>Two headers that do not overlap.\<close>

definition apart :: "u64 \<Rightarrow> u64 \<Rightarrow> bool" where
  "apart p q \<longleftrightarrow> (\<forall>i < 16. \<not> in_header p (q + of_nat i))"

lemma apart_simps:
  "apart p q \<Longrightarrow> hptr (set_ptr p v m) q = hptr m q"
  "apart p q \<Longrightarrow> hptr (set_size p n m) q = hptr m q"
  "apart p q \<Longrightarrow> hsize (set_ptr p v m) q = hsize m q"
  "apart p q \<Longrightarrow> hsize (set_size p n m) q = hsize m q"
proof -
  have b8: "q + 8 + of_nat i = q + of_nat (8 + i)" for i by simp
  show "apart p q \<Longrightarrow> hptr (set_ptr p v m) q = hptr m q" "apart p q \<Longrightarrow> hptr (set_size p n m) q = hptr m q"
    by (auto simp: hptr_def apart_def set_ptr_frame set_size_frame intro!: load64_cong)
  show "apart p q \<Longrightarrow> hsize (set_ptr p v m) q = hsize m q" "apart p q \<Longrightarrow> hsize (set_size p n m) q = hsize m q"
    unfolding hsize_def apart_def
    by (rule load32_cong, simp only: b8, simp add: set_ptr_frame set_size_frame del: of_nat_add)+
qed

lemma header_simps [simp]:
  "hptr (set_ptr p v m) p = v" "hsize (set_size p n m) p = n"
  "hptr (set_size p n m) p = hptr m p" "hsize (set_ptr p v m) p = hsize m p"
proof -
  show "hptr (set_ptr p v m) p = v" by (simp add: hptr_def set_ptr_def load64_store64_same)
  show "hsize (set_size p n m) p = n" by (simp add: hsize_def set_size_def load32_store32_same)
  have "\<not> unat (of_nat i - 8 :: u64) < 4" if "i < 8" for i
    using that unat_sub_if' [of "of_nat i :: u64" 8] by (simp add: unat_of_nat_u64)
  then show "hptr (set_size p n m) p = hptr m p"
    unfolding hptr_def by (intro load64_cong) (simp add: set_size_def store32_def)
  have "\<not> unat (8 + of_nat i :: u64) < 8" if "i < 4" for i
    using that by (simp add: unat_word_ariths unat_of_nat_u64)
  then show "hsize (set_ptr p v m) p = hsize m p"
    unfolding hsize_def by (intro load32_cong) (simp add: set_ptr_def store64_def)
qed

lemma apartI:
  assumes "unat p + 16 \<le> unat q \<or> unat q + 16 \<le> unat p" "unat p + 16 \<le> 2 ^ 63" "unat q + 16 \<le> 2 ^ 63"
  shows "apart p q"
  unfolding apart_def in_header_def
proof (intro allI impI)
  fix i :: nat assume i: "i < 16"
  have u: "unat (q + of_nat i) = unat q + i"
    using assms(3) i by (subst unat_word_ariths) (simp add: unat_of_nat_u64)
  show "\<not> unat (q + of_nat i - p) < 16"
  proof (cases "unat p \<le> unat q + i")
    case True
    then have "unat (q + of_nat i - p) = unat q + i - unat p" using u by (subst unat_sub) (auto simp: word_le_nat_alt)
    then show ?thesis using assms(1) i True by auto
  next
    case False
    then have "unat (q + of_nat i - p) = 2 ^ 64 + (unat q + i) - unat p"
      using u unat_sub_if' [of "q + of_nat i" p] unat_u64_bound [of p] by simp
    then show ?thesis using assms(2) by simp
  qed
qed

section \<open>The ring of free blocks\<close>

type_synonym block = "u64 \<times> u32"

text \<open>The end of a block; \<open>base\<close> has size 0 and occupies its header.\<close>

definition bend :: "block \<Rightarrow> nat" where
  "bend b = unat (fst b) + 16 * max 1 (unat (snd b))"

definition before :: "block \<Rightarrow> block \<Rightarrow> bool" where
  "before b c \<longleftrightarrow> bend b \<le> unat (fst c)"

definition first_addr :: "block list \<Rightarrow> u64 \<Rightarrow> u64" where
  "first_addr bs nxt = (case bs of [] \<Rightarrow> nxt | b # _ \<Rightarrow> fst b)"

lemma first_addr_simps [simp]: "first_addr [] nxt = nxt" "first_addr (b # bs) nxt = fst b"
  "first_addr (bs @ cs) nxt = first_addr bs (first_addr cs nxt)"
  by (simp_all add: first_addr_def split: list.split)

text \<open>The headers of the blocks in memory, each pointing to the next one and the last one to \<open>nxt\<close>.\<close>

primrec cells :: "bytemem \<Rightarrow> block list \<Rightarrow> u64 \<Rightarrow> bool" where
  "cells m [] nxt \<longleftrightarrow> True"
| "cells m (b # bs) nxt \<longleftrightarrow> hsize m (fst b) = snd b \<and> hptr m (fst b) = first_addr bs nxt \<and> cells m bs nxt"

lemma cells_append: "cells m (bs @ cs) nxt \<longleftrightarrow> cells m bs (first_addr cs nxt) \<and> cells m cs nxt"
  by (induction bs) auto

lemma cells_cong:
  "(\<And>b. b \<in> set bs \<Longrightarrow> hptr m' (fst b) = hptr m (fst b) \<and> hsize m' (fst b) = hsize m (fst b)) \<Longrightarrow>
   cells m' bs nxt = cells m bs nxt"
  by (induction bs) auto

lemma cells_set_ptr: "(\<And>b. b \<in> set bs \<Longrightarrow> apart p (fst b)) \<Longrightarrow> cells (set_ptr p v m) bs nxt = cells m bs nxt"
  by (rule cells_cong) (simp add: apart_simps)

lemma cells_set_size: "(\<And>b. b \<in> set bs \<Longrightarrow> apart p (fst b)) \<Longrightarrow> cells (set_size p v m) bs nxt = cells m bs nxt"
  by (rule cells_cong) (simp add: apart_simps)

lemma bend_ge: "unat (fst b) + 16 \<le> bend b"
  by (simp add: bend_def)

lemma before_apart:
  "before b c \<or> before c b \<Longrightarrow> bend b \<le> 2 ^ 63 \<Longrightarrow> bend c \<le> 2 ^ 63 \<Longrightarrow> apart (fst b) (fst c)"
  using bend_ge [of b] bend_ge [of c] by (intro apartI) (auto simp: before_def)

lemma before_less: "before b c \<Longrightarrow> fst b < fst c"
  using bend_ge [of b] by (auto simp: before_def word_less_nat_alt)

text \<open>The ring: blocks in the order of their addresses, the empty \<open>base\<close> first.\<close>

definition ring :: "bytemem \<Rightarrow> u64 \<Rightarrow> block list \<Rightarrow> bool" where
  "ring m base fl \<longleftrightarrow> cells m fl base \<and> sorted_wrt before fl \<and> fl \<noteq> [] \<and> hd fl = (base, 0) \<and>
     (\<forall>b \<in> set (tl fl). snd b \<noteq> 0)"

lemma ring_next:
  assumes "ring m base fl" "fl = xs @ b # ys"
  shows "hptr m (fst b) = first_addr ys base" "hsize m (fst b) = snd b"
  using assms by (simp_all add: ring_def cells_append)

lemma ring_split: "ring m base fl \<Longrightarrow> a \<in> fst ` set fl \<Longrightarrow> \<exists>xs n ys. fl = xs @ (a, n) # ys"
  by (metis imageE prod.collapse split_list)

lemma ring_base_in: "ring m base fl \<Longrightarrow> base \<in> fst ` set fl"
  by (cases fl) (auto simp: ring_def)

lemma ring_closed: "ring m base fl \<Longrightarrow> a \<in> fst ` set fl \<Longrightarrow> hptr m a \<in> fst ` set fl"
proof -
  assume r: "ring m base fl" and a: "a \<in> fst ` set fl"
  then obtain xs n ys where fl: "fl = xs @ (a, n) # ys" using ring_split by blast
  then show ?thesis using ring_next(1) [OF r fl] ring_base_in [OF r] by (cases ys) auto
qed

lemma ring_base_le: "ring m base fl \<Longrightarrow> b \<in> set fl \<Longrightarrow> base \<le> fst b"
  by (cases fl) (auto simp: ring_def dest!: before_less [of "(base, 0)" b, simplified])

text \<open>Walking along the ring reaches every block.\<close>

lemma walk_up: "cells m (xs @ b # ys) nxt \<Longrightarrow> c \<in> set xs \<Longrightarrow> \<exists>k. (hptr m ^^ k) (fst c) = fst b"
proof (induction xs arbitrary: c)
  case (Cons x xs)
  have tl: "cells m (xs @ b # ys) nxt" and hd: "hptr m (fst x) = first_addr (xs @ [b]) nxt" using Cons.prems(1) by auto
  show ?case
  proof (cases "c \<in> set xs")
    case True
    then show ?thesis using Cons.IH tl by blast
  next
    case False
    then have c: "c = x" using Cons.prems(2) by simp
    show ?thesis
    proof (cases xs)
      case Nil
      then show ?thesis using hd c by (intro exI [of _ 1]) simp
    next
      case xs: (Cons y ys')
      then obtain k where "(hptr m ^^ k) (fst y) = fst b" using Cons.IH [OF tl, of y] by auto
      then show ?thesis using hd c xs by (intro exI [of _ "Suc k"]) (simp add: funpow_swap1)
    qed
  qed
qed simp

lemma ring_walk:
  assumes r: "ring m base fl" and a: "a \<in> fst ` set fl" and b: "b \<in> fst ` set fl"
  shows "\<exists>k. (hptr m ^^ k) a = b"
proof -
  obtain xs n ys where fl: "fl = xs @ (b, n) # ys" using ring_split [OF r b] by blast
  have cells: "cells m (xs @ (b, n) # ys) base" using r fl by (simp add: ring_def)
  have up: "\<exists>k. (hptr m ^^ k) c = b" if "c \<in> fst ` set xs \<or> c = b" for c
    using that
  proof
    assume "c \<in> fst ` set xs"
    then show ?thesis using walk_up [OF cells] by auto
  next
    assume "c = b"
    then show ?thesis by (intro exI [of _ 0]) simp
  qed
  have base: "base \<in> fst ` set xs \<or> base = b" using r fl by (cases xs) (auto simp: ring_def)
  show ?thesis
  proof (cases "a \<in> fst ` set xs \<or> a = b")
    case False
    then obtain us k vs where ys: "ys = us @ (a, k) # vs" using a fl by (force dest: split_list)
    obtain l where l: "(hptr m ^^ l) a = base"
    proof (cases vs)
      case Nil
      then have "hptr m a = base" using cells by (simp add: ys cells_append)
      then show ?thesis using that [of 1] by simp
    next
      case (Cons v vs')
      obtain vl zs where vs: "vs = zs @ [vl]" using Cons by (metis list.distinct(1) rev_exhaust)
      then have "cells m (((a, k) # zs) @ vl # []) base" using cells by (simp add: ys cells_append)
      from walk_up [OF this, of "(a, k)"] obtain j where j: "(hptr m ^^ j) a = fst vl" by auto
      moreover have "hptr m (fst vl) = base" using cells vs by (simp add: ys cells_append)
      ultimately show ?thesis using that [of "Suc j"] by simp
    qed
    obtain j where "(hptr m ^^ j) base = b" using up base by blast
    then have "(hptr m ^^ (j + l)) a = b" using l by (simp add: funpow_add)
    then show ?thesis ..
  qed (rule up)
qed

section \<open>Where a block belongs\<close>

lemma before_trans: "before a b \<Longrightarrow> before b c \<Longrightarrow> before a c"
  using bend_ge [of b] by (auto simp: before_def)

lemma ring_place:
  "\<lbrakk>sorted_wrt before fl; fl \<noteq> []; before (hd fl) B; \<forall>b \<in> set fl. before b B \<or> before B b\<rbrakk> \<Longrightarrow>
   \<exists>xs q ys. fl = xs @ q # ys \<and> (\<forall>b \<in> set (xs @ [q]). before b B) \<and> (\<forall>b \<in> set ys. before B b)"
proof (induction fl rule: induct_list012)
  case (2 b)
  then show ?case by (intro exI [of _ "[]"]) simp
next
  case (3 b c r)
  show ?case
  proof (cases "before c B")
    case True
    then obtain xs q ys where "c # r = xs @ q # ys" "\<forall>b \<in> set (xs @ [q]). before b B" "\<forall>b \<in> set ys. before B b"
      using 3(2) 3(3-) by auto
    then show ?thesis using 3(5) by (intro exI [of _ "b # xs"] exI [of _ q] exI [of _ ys]) simp
  next
    case False
    then have "before B c" using 3(6) by simp
    then have "\<forall>d \<in> set (c # r). before B d" using 3(3) before_trans by auto
    then show ?thesis using 3(5) by (intro exI [of _ "[]"] exI [of _ b] exI [of _ "c # r"]) simp
  qed
qed simp

definition placed :: "block list \<Rightarrow> block \<Rightarrow> block list \<Rightarrow> block \<Rightarrow> bool" where
  "placed xs q ys B \<longleftrightarrow> (\<forall>b \<in> set (xs @ [q]). before b B) \<and> (\<forall>b \<in> set ys. before B b)"

lemma placedD:
  "placed xs q ys B \<Longrightarrow> b \<in> set xs \<Longrightarrow> before b B" "placed xs q ys B \<Longrightarrow> before q B"
  "placed xs q ys B \<Longrightarrow> b \<in> set ys \<Longrightarrow> before B b"
  by (auto simp: placed_def)

text \<open>The test of the search holds at the block below and at no other.\<close>

lemma search_stops:
  assumes r: "ring m base fl" and fl: "fl = xs @ q # ys" and pl: "placed xs q ys (bp, n)" and a: "a \<in> fst ` set fl"
  shows "(bp > a \<and> bp < hptr m a) \<or> (a \<ge> hptr m a \<and> (bp > a \<or> bp < hptr m a)) \<longleftrightarrow> a = fst q"
proof -
  have sorted: "sorted_wrt before (xs @ q # ys)" using r fl by (simp add: ring_def)
  have base: "base \<le> fst q" using ring_base_le [OF r] fl by simp
  have qb: "fst q < bp" using placedD(2) [OF pl] before_less by fastforce
  consider "a = fst q" | "a \<in> fst ` set xs" "a \<noteq> fst q" | "a \<in> fst ` set ys" "a \<noteq> fst q" using a fl by auto
  then show ?thesis
  proof cases
    case 1
    show ?thesis
    proof (cases ys)
      case Nil
      then show ?thesis using 1 qb base ring_next(1) [OF r fl] by simp
    next
      case (Cons y ys')
      then have "bp < fst y" using placedD(3) [OF pl, of y] before_less by fastforce
      then show ?thesis using 1 qb Cons ring_next(1) [OF r fl] by simp
    qed
  next
    case 2
    then obtain us k vs where xs: "xs = us @ (a, k) # vs" using split_list by fastforce
    let ?c = "hd (vs @ [q])"
    have c: "?c \<in> set (vs @ [q])" by (cases vs) auto
    have nx: "hptr m a = fst ?c" using ring_next(1) [OF r, of us "(a, k)" "vs @ q # ys"] fl xs by (cases vs) auto
    have "before (a, k) ?c" using sorted c by (auto simp: xs sorted_wrt_append)
    then have "a < fst ?c" using before_less by fastforce
    moreover have "before ?c (bp, n)" using pl c by (auto simp: placed_def xs)
    then have "fst ?c < bp" using before_less by fastforce
    ultimately show ?thesis using 2 nx by auto
  next
    case 3
    then obtain us k vs where ys: "ys = us @ (a, k) # vs" using split_list by fastforce
    have ab: "bp < a" using placedD(3) [OF pl, of "(a, k)"] before_less by (fastforce simp: ys)
    have nx: "hptr m a = first_addr vs base" using ring_next(1) [OF r, of "xs @ q # us" "(a, k)" vs] fl ys by simp
    show ?thesis
    proof (cases vs)
      case Nil
      then show ?thesis using 3 nx ab qb base by auto
    next
      case (Cons v vs')
      then have "before (a, k) v" using sorted by (simp add: ys sorted_wrt_append)
      then have "a < fst v" using before_less by fastforce
      then show ?thesis using 3 nx ab Cons by auto
    qed
  qed
qed

lemma free_loop_finds:
  assumes r: "ring m base fl" and fl: "fl = xs @ q # ys" and pl: "placed xs q ys (bp, n)" and a: "a \<in> fst ` set fl"
  shows "free_loop m bp a = Some (fst q)"
proof -
  obtain k where "(hptr m ^^ k) a = fst q" using ring_walk [OF r a] fl by auto
  then show ?thesis using a
  proof (induction k arbitrary: a)
    case 0
    then show ?case using search_stops [OF r fl pl 0(2)] by (subst free_loop.simps) auto
  next
    case (Suc k)
    have "free_loop m bp (hptr m a) = Some (fst q)"
      using Suc.IH [OF _ ring_closed [OF r Suc.prems(2)]] Suc.prems(1) by (simp add: funpow_swap1)
    then show ?case using search_stops [OF r fl pl Suc.prems(2)] by (subst free_loop.simps) auto
  qed
qed

section \<open>Joining a block with its neighbours\<close>

definition outside :: "block \<Rightarrow> block \<Rightarrow> bool" where
  "outside b c \<longleftrightarrow> before b c \<or> before c b"

definition space :: nat where "space = 2 ^ 36"

lemma outside_join:
  assumes "outside h b" "outside h c" "bend b = unat (fst c)" "fst d = fst b" "bend d = bend c"
  shows "outside h d"
  using assms bend_ge [of h] by (auto simp: outside_def before_def)

lemma outside_apart: "outside b c \<Longrightarrow> bend b \<le> space \<Longrightarrow> bend c \<le> space \<Longrightarrow> apart (fst b) (fst c)"
  by (rule before_apart) (auto simp: outside_def space_def)

lemma unat_units: "unat a + 16 * unat n \<le> space \<Longrightarrow> unat (a + units n) = unat a + 16 * unat n"
proof -
  assume le: "unat a + 16 * unat n \<le> space"
  have c: "unat (ucast n :: u64) = unat n" using unat_u32_bound [of n] by (simp add: unsigned_ucast_eq take_bit_nat_eq_self)
  have "unat (units n) = 16 * unat n"
    unfolding units_def using le by (subst unat_word_ariths) (simp add: c space_def)
  then show ?thesis using le by (subst unat_word_ariths) (simp add: space_def)
qed

lemma bend_nonempty: "snd b \<noteq> 0 \<Longrightarrow> bend b = unat (fst b) + 16 * unat (snd b)"
  by (simp add: bend_def max_def unat_gt_0 [symmetric])

lemma bend_units: "snd b \<noteq> 0 \<Longrightarrow> bend b \<le> space \<Longrightarrow> unat (fst b + units (snd b)) = bend b"
  using unat_units [of "fst b" "snd b"] bend_nonempty [of b] by simp

text \<open>Adjacent blocks make one block.\<close>

lemma join_sizes:
  assumes "snd b \<noteq> 0" "snd c \<noteq> 0" "bend b = unat (fst c)" "bend c \<le> space" "0 < unat (fst b)"
  shows "unat (snd b + snd c) = unat (snd b) + unat (snd c)" "bend (fst b, snd b + snd c) = bend c"
    "snd b + snd c \<noteq> 0" "snd b \<le> snd b + snd c" "snd c \<le> snd b + snd c"
proof -
  have eb: "bend b = unat (fst b) + 16 * unat (snd b)" "bend c = unat (fst c) + 16 * unat (snd c)"
    using assms(1,2) by (simp_all add: bend_nonempty)
  have lt: "unat (snd b) + unat (snd c) < 2 ^ 32" using eb assms(3-5) by (simp add: space_def)
  show u: "unat (snd b + snd c) = unat (snd b) + unat (snd c)"
    using lt by (subst unat_word_ariths) simp
  then show "snd b + snd c \<noteq> 0" "snd b \<le> snd b + snd c" "snd c \<le> snd b + snd c"
    using assms(1) by (auto simp: word_le_nat_alt unat_eq_0 [symmetric])
  then show "bend (fst b, snd b + snd c) = bend c"
    using u eb assms(3) by (simp add: bend_nonempty)
qed

text \<open>The state between the two steps of \<open>free\<close>: the block \<open>(bp, k)\<close> points to the blocks \<open>ys'\<close> above it, and
  the blocks up to \<open>q\<close> are as before.\<close>

definition half_joined :: "bytemem \<Rightarrow> u64 \<Rightarrow> block list \<Rightarrow> block \<Rightarrow> block \<Rightarrow> block list \<Rightarrow> bool" where
  "half_joined m base xs q B ys \<longleftrightarrow> cells m xs (fst q) \<and> hsize m (fst q) = snd q \<and>
     cells m (B # ys) base \<and> sorted_wrt before (xs @ q # B # ys) \<and> hd (xs @ [q]) = (base, 0) \<and>
     (\<forall>b \<in> set (tl (xs @ [q]) @ B # ys). snd b \<noteq> 0) \<and> (\<forall>b \<in> set (xs @ q # B # ys). bend b \<le> space)"

lemma sorted_placed:
  "sorted_wrt before (xs @ q # ys) \<Longrightarrow> placed xs q ys B \<Longrightarrow> sorted_wrt before (xs @ q # B # ys)"
  by (auto simp: sorted_wrt_append placed_def)

lemma placed_outside: "placed xs q ys B \<Longrightarrow> b \<in> set (xs @ q # ys) \<Longrightarrow> outside B b"
  by (auto simp: placed_def outside_def)

lemma join_upper_ok:
  assumes r: "ring m base (xs @ q # ys)" and pl: "placed xs q ys (bp, n)" and n: "hsize m bp = n" "n \<noteq> 0"
    and sp: "\<forall>b \<in> set (xs @ q # ys). bend b \<le> space" "bend (bp, n) \<le> space"
  shows "\<exists>k ys'. half_joined (join_upper bp (fst q) m) base xs q (bp, k) ys' \<and> n \<le> k \<and>
    ((k, ys') = (n, ys) \<or> (\<exists>c. ys = c # ys' \<and> bend (bp, n) = unat (fst c) \<and> bend (bp, k) = bend c))"
proof -
  let ?m = "join_upper bp (fst q) m" and ?B = "(bp, n)"
  have ap: "apart bp (fst b)" if "b \<in> set (xs @ q # ys)" for b
    using outside_apart [OF placed_outside [OF pl that]] sp that by auto
  note frame = apart_simps [OF ap] cells_set_ptr [of _ bp] cells_set_size [of _ bp] ap
  have nx: "hptr m (fst q) = first_addr ys base" "hsize m (fst q) = snd q" using ring_next [OF r refl] by auto
  have c: "cells m xs (fst q)" "cells m ys base" using r by (auto simp: ring_def cells_append)
  have srt: "sorted_wrt before (xs @ q # ?B # ys)" using r pl sorted_placed by (simp add: ring_def)
  have hd: "hd (xs @ [q]) = (base, 0)" using r by (cases xs) (auto simp: ring_def)
  have nz: "\<forall>b \<in> set (tl (xs @ [q]) @ ys). snd b \<noteq> 0" using r by (cases xs) (auto simp: ring_def)
  show ?thesis
  proof (cases "bp + units n = first_addr ys base")
    case False
    then have m: "?m = set_ptr bp (first_addr ys base) m" using n nx by (simp add: join_upper_def)
    have "half_joined ?m base xs q ?B ys"
      unfolding half_joined_def m using c nx n srt hd nz sp by (simp add: frame)
    then show ?thesis by blast
  next
    case True
    have e: "bend ?B = unat (first_addr ys base)" using True bend_units [of ?B] n sp by simp
    obtain d ys' where ys: "ys = d # ys'"
    proof (cases ys)
      case Nil
      then have "bend ?B = unat base" using e by simp
      moreover have "unat base \<le> unat (fst q)" using ring_base_le [OF r, of q] by (simp add: word_le_nat_alt)
      moreover have "unat (fst q) < unat bp" using before_less [OF placedD(2) [OF pl]] by (simp add: word_less_nat_alt)
      ultimately show ?thesis using bend_ge [of ?B] by simp
    qed
    have "0 < unat bp" using placedD(2) [OF pl] bend_ge [of q] by (simp add: before_def)
    note j = join_sizes [of ?B d, simplified, OF n(2) _ e [unfolded ys, simplified] _ this]
    have d: "snd d \<noteq> 0" "bend d \<le> space" using nz sp by (auto simp: ys)
    let ?k = "n + snd d"
    have hd_d: "hsize m (fst d) = snd d" "hptr m (fst d) = first_addr ys' base" "cells m ys' base" using c(2) by (auto simp: ys)
    have m: "?m = set_ptr bp (first_addr ys' base) (set_size bp ?k m)"
      using True n nx hd_d by (simp add: join_upper_def ys frame)
    have "sorted_wrt before (xs @ q # (bp, ?k) # ys')"
      using srt j(2) [OF d] by (auto simp: ys sorted_wrt_append before_def)
    then have "half_joined ?m base xs q (bp, ?k) ys'"
      unfolding half_joined_def m using c nx hd nz sp j [OF d] hd_d d by (simp add: frame ys)
    then show ?thesis using j [OF d] e by (intro exI [of _ ?k] exI [of _ ys']) (simp add: ys)
  qed
qed

lemma hd_tl_append: "hd (xs @ q # zs) = hd (xs @ [q])" "set (tl (xs @ q # zs)) = set (tl (xs @ [q])) \<union> set zs"
  by (cases xs; simp)+

lemma join_lower_ok:
  assumes h: "half_joined m base xs q (bp, k) ys" "k \<noteq> 0"
  shows "\<exists>fl. ring (join_lower bp (fst q) m) base fl \<and>
    (fl = xs @ q # (bp, k) # ys \<or>
     (\<exists>j. fl = xs @ (fst q, j) # ys \<and> k \<le> j \<and> bend q = unat bp \<and> bend (fst q, j) = bend (bp, k)))"
proof -
  let ?m = "join_lower bp (fst q) m" and ?B = "(bp, k)"
  have srt: "sorted_wrt before (xs @ q # ?B # ys)" and sp: "\<forall>b \<in> set (xs @ q # ?B # ys). bend b \<le> space"
    and hd: "hd (xs @ [q]) = (base, 0)" and nz: "\<forall>b \<in> set (tl (xs @ [q]) @ ?B # ys). snd b \<noteq> 0"
    and c: "cells m xs (fst q)" "hsize m (fst q) = snd q" "hsize m bp = k" "hptr m bp = first_addr ys base" "cells m ys base"
    using h(1) by (auto simp: half_joined_def)
  have ap: "apart (fst q) (fst b)" if "b \<in> set (xs @ ?B # ys)" for b
    using that srt sp by (intro outside_apart) (auto simp: outside_def sorted_wrt_append)
  note frame = apart_simps [OF ap] apart_simps [OF ap [of ?B, simplified]] cells_set_ptr [of _ "fst q"] cells_set_size [of _ "fst q"] ap
  have qB: "before q ?B" using srt by (simp add: sorted_wrt_append)
  show ?thesis
  proof (cases "fst q + units (snd q) = bp")
    case False
    then have m: "?m = set_ptr (fst q) bp m" using c by (simp add: join_lower_def)
    have "cells ?m (xs @ q # ?B # ys) base" unfolding m cells_append using c by (simp add: frame)
    then have "ring ?m base (xs @ q # ?B # ys)"
      unfolding ring_def using srt hd nz by (simp add: hd_tl_append [of xs q "?B # ys"])
    then show ?thesis by blast
  next
    case True
    have q0: "snd q \<noteq> 0"
    proof
      assume "snd q = 0"
      then have "fst q = bp" using True by (simp add: units_def)
      then show False using before_less [OF qB] by simp
    qed
    have e: "bend q = unat bp" using bend_units [OF q0] sp True by auto
    have ne: "xs \<noteq> []" using hd q0 by auto
    then have "before (base, 0) q" using hd srt by (cases xs) auto
    then have "0 < unat (fst q)" using bend_ge [of "(base, 0)"] by (simp add: before_def)
    note j = join_sizes [of q ?B, simplified, OF q0 h(2) e _ this]
    let ?j = "snd q + k" and ?m1 = "set_size (fst q) (snd q + k) m"
    have m: "?m = set_ptr (fst q) (first_addr ys base) ?m1" using True c by (simp add: join_lower_def frame)
    have bB: "bend ?B \<le> space" using sp by simp
    have "sorted_wrt before (xs @ (fst q, ?j) # ys)"
      using srt j(2) [OF bB] by (auto simp: sorted_wrt_append before_def)
    moreover have "cells ?m (xs @ (fst q, ?j) # ys) base" unfolding m cells_append using c by (simp add: frame)
    moreover have "hd (xs @ (fst q, ?j) # ys) = (base, 0)" "\<forall>b \<in> set (tl (xs @ (fst q, ?j) # ys)). snd b \<noteq> 0"
      using ne hd nz j(3) [OF bB] by auto
    ultimately have "ring ?m base (xs @ (fst q, ?j) # ys)" by (simp add: ring_def)
    then show ?thesis using j(2,5) [OF bB] e
      by (intro exI [of _ "xs @ (fst q, ?j) # ys"] conjI disjI2 exI [of _ ?j]) simp_all
  qed
qed

lemma join_frame:
  "\<not> in_header bp a \<Longrightarrow> \<not> in_header p a \<Longrightarrow> join_lower bp p (join_upper bp p m) a = m a"
  by (simp add: join_lower_def join_upper_def Let_def set_ptr_frame set_size_frame)

text \<open>What \<open>free\<close> makes of a ring: a ring that has room for the block, and covers nothing else that was
  outside of it.\<close>

definition absorbs :: "block list \<Rightarrow> block \<Rightarrow> block list \<Rightarrow> bool" where
  "absorbs fl B fl' \<longleftrightarrow>
     (\<forall>h. outside h B \<and> (\<forall>b \<in> set fl. outside h b) \<longrightarrow> (\<forall>b \<in> set fl'. outside h b)) \<and>
     fst ` set (tl fl') \<subseteq> insert (fst B) (fst ` set (tl fl)) \<and>
     bend ` set fl' \<subseteq> insert (bend B) (bend ` set fl)"

lemma absorbsI:
  assumes up: "(k, ys') = (n, ys) \<or> (\<exists>c. ys = c # ys' \<and> bend (bp, n) = unat (fst c) \<and> bend (bp, k) = bend c)"
    and lo: "fl' = xs @ q # (bp, k) # ys' \<or>
       (\<exists>j. fl' = xs @ (fst q, j) # ys' \<and> bend q = unat bp \<and> bend (fst q, j) = bend (bp, k))"
  shows "absorbs (xs @ q # ys) (bp, n) fl'"
proof -
  have sub: "set ys' \<subseteq> set ys" using up by auto
  have img: "fst ` set ys' \<subseteq> fst ` set ys" "bend ` set ys' \<subseteq> bend ` set ys" using sub by auto
  have kb: "bend (bp, k) \<in> insert (bend (bp, n)) (bend ` set ys)" using up by auto
  have k: "outside h (bp, k)" if "outside h (bp, n)" "\<forall>b \<in> set ys. outside h b" for h
    using up that outside_join [of h "(bp, n)" _ "(bp, k)"] by auto
  have "\<forall>b \<in> set fl'. outside h b" if h: "outside h (bp, n)" "\<forall>b \<in> set (xs @ q # ys). outside h b" for h
  proof -
    have hk: "outside h (bp, k)" "outside h q" using k h by auto
    then have "outside h (fst q, j)" if "bend q = unat bp" "bend (fst q, j) = bend (bp, k)" for j
      using outside_join [of h q "(bp, k)" "(fst q, j)"] that by simp
    moreover have "\<forall>b \<in> set ys'. outside h b" using h(2) sub by auto
    ultimately show ?thesis using lo hk h(2) by auto
  qed
  moreover have "fst ` set (tl fl') \<subseteq> insert bp (fst ` set (tl (xs @ q # ys)))"
    using lo
  proof
    assume "fl' = xs @ q # (bp, k) # ys'"
    then show ?thesis using img(1) by (cases xs) (simp_all add: image_Un, blast+)
  next
    assume "\<exists>j. fl' = xs @ (fst q, j) # ys' \<and> bend q = unat bp \<and> bend (fst q, j) = bend (bp, k)"
    then obtain j where "fl' = xs @ (fst q, j) # ys'" by blast
    then show ?thesis using img(1) by (cases xs) (simp_all add: image_Un, blast+)
  qed
  moreover have "bend ` set fl' \<subseteq> insert (bend (bp, n)) (bend ` set (xs @ q # ys))"
    using lo
  proof
    assume "fl' = xs @ q # (bp, k) # ys'"
    then show ?thesis using img(2) kb by (simp add: image_Un) blast
  next
    assume "\<exists>j. fl' = xs @ (fst q, j) # ys' \<and> bend q = unat bp \<and> bend (fst q, j) = bend (bp, k)"
    then obtain j where "fl' = xs @ (fst q, j) # ys'" "bend (fst q, j) = bend (bp, k)" by blast
    then show ?thesis using img(2) kb by (simp add: image_Un) blast
  qed
  ultimately show ?thesis unfolding absorbs_def by simp
qed

lemma free_ok:
  assumes r: "ring (umem s) base fl" and fr: "freep s \<in> fst ` set fl"
    and n: "hsize (umem s) bp = n" "n \<noteq> 0" and o: "before (base, 0) (bp, n)" "\<forall>b \<in> set fl. outside (bp, n) b"
    and sp: "\<forall>b \<in> set fl. bend b \<le> space" "bend (bp, n) \<le> space"
  shows "\<exists>p m fl'. free (bp + 16) s = Some (s\<lparr>umem := m, freep := p\<rparr>) \<and> ring m base fl' \<and> p \<in> fst ` set fl' \<and>
    p \<in> fst ` set fl \<and> absorbs fl (bp, n) fl' \<and> (hsize m p \<ge> n \<or> hsize m (hptr m p) \<ge> n) \<and>
    (\<forall>a. \<not> in_header bp a \<longrightarrow> \<not> in_header p a \<longrightarrow> m a = umem s a)"
proof -
  let ?B = "(bp, n)"
  have "sorted_wrt before fl" "fl \<noteq> []" "before (hd fl) ?B" "\<forall>b \<in> set fl. before b ?B \<or> before ?B b"
    using r o by (auto simp: ring_def outside_def)
  then obtain xs q ys where fl: "fl = xs @ q # ys" and pl: "placed xs q ys ?B"
    using ring_place unfolding placed_def by metis
  let ?p = "fst q" and ?m1 = "join_upper bp (fst q) (umem s)" and ?m = "join_lower bp (fst q) (join_upper bp (fst q) (umem s))"
  obtain k ys' where half: "half_joined ?m1 base xs q (bp, k) ys'" and nk: "n \<le> k"
    and up: "(k, ys') = (n, ys) \<or> (\<exists>c. ys = c # ys' \<and> bend ?B = unat (fst c) \<and> bend (bp, k) = bend c)"
    using join_upper_ok [OF r [unfolded fl] pl n] sp fl by blast
  have k0: "k \<noteq> 0" using nk n(2) by auto
  obtain fl' where ring: "ring ?m base fl'"
    and lo: "fl' = xs @ q # (bp, k) # ys' \<or>
       (\<exists>j. fl' = xs @ (?p, j) # ys' \<and> k \<le> j \<and> bend q = unat bp \<and> bend (?p, j) = bend (bp, k))"
    using join_lower_ok [OF half k0] by blast
  have "free (bp + 16) s = Some (s\<lparr>umem := ?m, freep := ?p\<rparr>)"
    using free_loop_finds [OF r fl pl fr] by (simp add: free_def)
  moreover have "?p \<in> fst ` set fl'" "?p \<in> fst ` set fl" using lo fl by auto
  moreover have "hsize ?m ?p \<ge> n \<or> hsize ?m (hptr ?m ?p) \<ge> n"
    using lo
  proof
    assume f: "fl' = xs @ q # (bp, k) # ys'"
    then show ?thesis using ring_next [OF ring, of xs q] ring_next [OF ring, of "xs @ [q]" "(bp, k)" ys'] nk by simp
  next
    assume "\<exists>j. fl' = xs @ (?p, j) # ys' \<and> k \<le> j \<and> bend q = unat bp \<and> bend (?p, j) = bend (bp, k)"
    then show ?thesis using ring_next(2) [OF ring, of xs "(?p, _)" ys'] nk by auto
  qed
  moreover have "absorbs fl ?B fl'" unfolding fl using lo by (intro absorbsI [OF up]) blast
  ultimately show ?thesis using ring join_frame by blast
qed

section \<open>The heap\<close>

text \<open>
  The invariant of the allocator: \<open>fl\<close> are the free blocks, \<open>H\<close> the blocks that have been handed out.  All
  of them lie between \<open>lo\<close>, the break before the first allocation, and the break, and none overlaps
  another.
\<close>

definition heap_inv :: "u64 \<Rightarrow> nat \<Rightarrow> ualloc \<Rightarrow> block list \<Rightarrow> block list \<Rightarrow> bool" where
  "heap_inv base lo s fl H \<longleftrightarrow>
     ring (umem s) base fl \<and> freep s \<in> fst ` set fl \<and>
     0 < unat base \<and> unat base + 16 \<le> lo \<and> lo \<le> unat (ubrk s) \<and> unat (ubrk s) \<le> space \<and>
     (\<forall>b \<in> set (tl fl) \<union> set H. lo \<le> unat (fst b) \<and> bend b \<le> unat (ubrk s)) \<and>
     (\<forall>h \<in> set H. hsize (umem s) (fst h) = snd h \<and> snd h \<noteq> 0) \<and>
     (\<forall>h \<in> set H. \<forall>b \<in> set fl. outside h b) \<and> sorted_wrt outside H"

lemma heap_invD:
  assumes "heap_inv base lo s fl H"
  shows "ring (umem s) base fl" "freep s \<in> fst ` set fl" "0 < unat base" "unat base + 16 \<le> lo" "lo \<le> unat (ubrk s)"
    "unat (ubrk s) \<le> space" "\<forall>b \<in> set (tl fl). lo \<le> unat (fst b)" "\<forall>b \<in> set (tl fl). bend b \<le> unat (ubrk s)"
    "\<forall>h \<in> set H. lo \<le> unat (fst h)" "\<forall>h \<in> set H. bend h \<le> unat (ubrk s)"
    "\<forall>h \<in> set H. hsize (umem s) (fst h) = snd h" "\<forall>h \<in> set H. snd h \<noteq> 0"
    "\<forall>h \<in> set H. \<forall>b \<in> set fl. outside h b" "sorted_wrt outside H"
  using assms unfolding heap_inv_def by blast+

lemma ring_set: "ring m base fl \<Longrightarrow> set fl = insert (base, 0) (set (tl fl))"
  by (cases fl) (auto simp: ring_def)

lemma bend_base: "bend (base, 0) = unat base + 16"
  by (simp add: bend_def)

lemma heap_bend:
  assumes "heap_inv base lo s fl H" "b \<in> set fl \<union> set H"
  shows "bend b \<le> unat (ubrk s)" "bend b \<le> space"
proof -
  have "b = (base, 0) \<or> b \<in> set (tl fl) \<or> b \<in> set H"
    using assms(2) ring_set [OF heap_invD(1) [OF assms(1)]] by blast
  then show "bend b \<le> unat (ubrk s)"
    using heap_invD(4,5,8,10) [OF assms(1)] by (auto simp: bend_base)
  then show "bend b \<le> space" using heap_invD(6) [OF assms(1)] by simp
qed

lemma outside_sym: "outside b c \<longleftrightarrow> outside c b"
  by (auto simp: outside_def)

lemma outside_sub:
  "outside h b \<Longrightarrow> unat (fst b) \<le> unat (fst d) \<Longrightarrow> bend d \<le> bend b \<Longrightarrow> outside h d"
  by (auto simp: outside_def before_def)

lemma in_header_iff: "unat p + 16 \<le> 2 ^ 63 \<Longrightarrow> in_header p a \<longleftrightarrow> unat p \<le> unat a \<and> unat a < unat p + 16"
proof (cases "unat p \<le> unat a")
  case True
  then show ?thesis by (auto simp: in_header_def unat_sub word_le_nat_alt)
next
  case False
  assume p: "unat p + 16 \<le> 2 ^ 63"
  have "unat (a - p) = 2 ^ 64 + unat a - unat p"
    using False unat_sub_if' [of a p] unat_u64_bound [of p] by simp
  then show ?thesis using False p by (simp add: in_header_def)
qed

text \<open>The bytes of the blocks \<open>H\<close>, headers included, are not changed.\<close>

definition keeps :: "block list \<Rightarrow> bytemem \<Rightarrow> bytemem \<Rightarrow> bool" where
  "keeps H m m' \<longleftrightarrow> (\<forall>h \<in> set H. \<forall>a. unat (fst h) \<le> unat a \<and> unat a < bend h \<longrightarrow> m' a = m a)"

lemma keeps_hsize:
  assumes "keeps H m m'" "h \<in> set H" "bend h \<le> space"
  shows "hsize m' (fst h) = hsize m (fst h)"
  unfolding hsize_def
proof (rule load32_cong)
  fix i :: nat assume i: "i < 4"
  have "unat (fst h + 8 + of_nat i) = unat (fst h) + 8 + i"
    using assms(3) bend_ge [of h] i
    by (simp add: unat_word_ariths unat_of_nat_u64 space_def)
  then show "m' (fst h + 8 + of_nat i) = m (fst h + 8 + of_nat i)"
    using assms(1,2) bend_ge [of h] i by (auto simp: keeps_def)
qed

lemma outside_header:
  assumes "outside h b" "bend b \<le> space" "unat (fst h) \<le> unat a" "unat a < bend h"
    "unat (fst b) \<le> unat p" "unat p + 16 \<le> bend b"
  shows "\<not> in_header p a"
  using assms by (subst in_header_iff) (auto simp: outside_def before_def space_def)

text \<open>Giving back a block.\<close>

lemma release_ok:
  assumes inv: "heap_inv base lo s fl (H1 @ (bp, n) # H2)"
  shows "\<exists>s' fl'. free (bp + 16) s = Some s' \<and> heap_inv base lo s' fl' (H1 @ H2) \<and> ubrk s' = ubrk s \<and>
    keeps (H1 @ H2) (umem s) (umem s') \<and> (hsize (umem s') (freep s') \<ge> n \<or> hsize (umem s') (hptr (umem s') (freep s')) \<ge> n)"
proof -
  note D = heap_invD [OF inv]
  let ?B = "(bp, n)" and ?H = "H1 @ H2"
  have bB: "before (base, 0) ?B" using D(4,9) by (simp add: before_def bend_base)
  have sp: "\<forall>b \<in> set fl. bend b \<le> space" "bend ?B \<le> space" using heap_bend(2) [OF inv] by auto
  have oB: "\<forall>h \<in> set ?H. outside h ?B" using D(14) by (auto simp: sorted_wrt_append outside_sym)
  have n: "hsize (umem s) bp = n" "n \<noteq> 0" "\<forall>b \<in> set fl. outside ?B b" using D(11-13) by auto
  obtain p m fl' where fr: "free (bp + 16) s = Some (s\<lparr>umem := m, freep := p\<rparr>)" and r: "ring m base fl'"
    and p: "p \<in> fst ` set fl'" "p \<in> fst ` set fl" and ab: "absorbs fl ?B fl'"
    and fit: "hsize m p \<ge> n \<or> hsize m (hptr m p) \<ge> n"
    and frame: "\<forall>a. \<not> in_header bp a \<longrightarrow> \<not> in_header p a \<longrightarrow> m a = umem s a"
    using free_ok [OF D(1,2) n(1,2) bB n(3) sp] by blast
  obtain q where q: "q \<in> set fl" "p = fst q" using p(2) by auto
  have keep: "keeps ?H (umem s) m"
    unfolding keeps_def
  proof (intro ballI allI impI)
    fix h and a :: u64 assume h: "h \<in> set ?H" and a: "unat (fst h) \<le> unat a \<and> unat a < bend h"
    have "\<not> in_header bp a" using outside_header [of h ?B a bp] oB h sp(2) a bend_ge [of ?B] by simp
    moreover have "outside h q" using D(13) q(1) h by auto
    then have "\<not> in_header p a" using outside_header [of h q a p] sp(1) q a bend_ge [of q] by auto
    ultimately show "m a = umem s a" using frame by simp
  qed
  have oH: "\<forall>h \<in> set ?H. \<forall>b \<in> set fl'. outside h b"
  proof
    fix h assume "h \<in> set ?H"
    then have "outside h ?B" "\<forall>b \<in> set fl. outside h b" using oB D(13) by auto
    then show "\<forall>b \<in> set fl'. outside h b" using ab unfolding absorbs_def by blast
  qed
  have lo: "\<forall>b \<in> set (tl fl'). lo \<le> unat (fst b)"
  proof
    fix b assume "b \<in> set (tl fl')"
    then have "fst b \<in> insert bp (fst ` set (tl fl))" using ab by (auto simp: absorbs_def)
    then show "lo \<le> unat (fst b)" using D(7,9) by auto
  qed
  have hi: "\<forall>b \<in> set (tl fl'). bend b \<le> unat (ubrk s)"
  proof
    fix b assume "b \<in> set (tl fl')"
    then have "bend b \<in> insert (bend ?B) (bend ` set fl)" using ab ring_set [OF r] unfolding absorbs_def by blast
    then show "bend b \<le> unat (ubrk s)" using heap_bend(1) [OF inv] by auto
  qed
  have hs: "\<forall>h \<in> set ?H. hsize m (fst h) = snd h \<and> snd h \<noteq> 0"
  proof
    fix h assume h: "h \<in> set ?H"
    then show "hsize m (fst h) = snd h \<and> snd h \<noteq> 0"
      using keeps_hsize [OF keep h] heap_bend(2) [OF inv, of h] D(11,12) by auto
  qed
  have "sorted_wrt outside ?H" using D(14) by (simp add: sorted_wrt_append)
  then have "heap_inv base lo (s\<lparr>umem := m, freep := p\<rparr>) fl' ?H"
    unfolding heap_inv_def using D(3-6,9,10) r p(1) oH lo hi hs by (simp add: ball_Un)
  then show ?thesis using fr keep fit by (intro exI [of _ "s\<lparr>umem := m, freep := p\<rparr>"] exI [of _ fl']) simp
qed

end
