(* ===== verification/Uheap.thy ===== *)
theory Uheap
  imports Umalloc
begin

text \<open>
  The user allocator as its clients see it: \<open>malloc\<close> finds a block by walking once around the ring, asks
  for more memory at most once, and whatever a program allocates, frees and writes, the blocks it holds
  never overlap and keep what was written into them.
\<close>

section \<open>Taking a block\<close>

lemma keeps_header:
  assumes "\<forall>h \<in> set H. outside h b" "bend b \<le> space" "unat (fst b) \<le> unat p" "unat p + 16 \<le> bend b"
  shows "keeps H m (set_ptr p v m)" "keeps H m (set_size p n m)"
  unfolding keeps_def using assms outside_header [of _ b _ p] by (auto simp: set_ptr_frame set_size_frame)

lemma keeps_trans: "keeps H m m' \<Longrightarrow> keeps H m' m'' \<Longrightarrow> keeps H m m''"
  by (simp add: keeps_def)

lemma keeps_sizes:
  assumes "heap_inv base lo s fl H" "keeps H (umem s) m"
  shows "\<forall>h \<in> set H. hsize m (fst h) = snd h \<and> snd h \<noteq> 0"
proof
  fix h assume h: "h \<in> set H"
  then show "hsize m (fst h) = snd h \<and> snd h \<noteq> 0"
    using keeps_hsize [OF assms(2) h] heap_bend(2) [OF assms(1), of h] heap_invD(11,12) [OF assms(1)] by auto
qed

lemma heap_space: "heap_inv base lo s fl H \<Longrightarrow> \<forall>b \<in> set fl \<union> set H. bend b \<le> space"
  using heap_bend(2) by blast

lemma heap_invI:
  assumes "ring m base fl" "p \<in> fst ` set fl" "0 < unat base" "unat base + 16 \<le> lo" "lo \<le> unat (ubrk s)"
    "unat (ubrk s) \<le> space" "\<forall>b \<in> set (tl fl). lo \<le> unat (fst b)" "\<forall>b \<in> set (tl fl). bend b \<le> unat (ubrk s)"
    "\<forall>h \<in> set H. lo \<le> unat (fst h)" "\<forall>h \<in> set H. bend h \<le> unat (ubrk s)"
    "\<forall>h \<in> set H. hsize m (fst h) = snd h \<and> snd h \<noteq> 0"
    "\<forall>h \<in> set H. \<forall>b \<in> set fl. outside h b" "sorted_wrt outside H"
  shows "heap_inv base lo (s\<lparr>umem := m, freep := p\<rparr>) fl H"
  unfolding heap_inv_def using assms by (simp add: ball_Un)

lemma carve_exact:
  assumes inv: "heap_inv base lo s fl H" and fl: "fl = xs @ (q, k) # (p, n) # ys" and n: "n \<noteq> 0"
  shows "\<exists>m. carve n q p s = (p + 16, s\<lparr>umem := m, freep := q\<rparr>) \<and> keeps H (umem s) m \<and>
    heap_inv base lo (s\<lparr>umem := m, freep := q\<rparr>) (xs @ (q, k) # ys) ((p, n) # H)"
proof -
  note D = heap_invD [OF inv]
  let ?m = "set_ptr q (hptr (umem s) p) (umem s)" and ?fl = "xs @ (q, k) # ys"
  have nx: "hsize (umem s) p = n" "hptr (umem s) p = first_addr ys base"
    using ring_next [OF D(1), of "xs @ [(q, k)]" "(p, n)" ys] fl by simp_all
  have run: "carve n q p s = (p + 16, s\<lparr>umem := ?m, freep := q\<rparr>)" using nx by (simp add: carve_def Let_def)
  have srt: "sorted_wrt before fl" using D(1) by (simp add: ring_def)
  have ap: "apart q (fst b)" if "b \<in> set (xs @ (p, n) # ys)" for b
  proof -
    have "outside (q, k) b" using srt that by (auto simp: fl sorted_wrt_append outside_def)
    then show ?thesis using outside_apart [of "(q, k)" b] heap_space [OF inv] that by (auto simp: fl)
  qed
  have keep: "keeps H (umem s) ?m"
    using keeps_header(1) [of H "(q, k)" q] D(13) heap_bend(2) [OF inv, of "(q, k)"] bend_ge [of "(q, k)"] fl by simp
  have "cells ?m ?fl base"
    using D(1) nx by (simp add: ring_def fl cells_append cells_set_ptr ap)
  moreover have "hd ?fl = (base, 0)" "\<forall>b \<in> set (tl ?fl). snd b \<noteq> 0" "xs @ [(q, k)] \<noteq> []"
    using D(1) by (cases xs; auto simp: ring_def fl)+
  ultimately have ring: "ring ?m base ?fl" using srt by (auto simp: ring_def fl sorted_wrt_append)
  have sub: "set (tl ?fl) \<subseteq> set (tl fl)" "set ?fl \<subseteq> set fl" "(p, n) \<in> set (tl fl)" by (cases xs; auto simp: fl)+
  have "\<forall>b \<in> set ?fl. outside (p, n) b" using srt by (auto simp: fl sorted_wrt_append outside_def)
  moreover have "\<forall>h \<in> set H. outside (p, n) h" using D(13) by (auto simp: fl outside_sym)
  moreover have "hsize ?m p = n" using ap [of "(p, n)"] nx by (simp add: apart_simps)
  ultimately have "heap_inv base lo (s\<lparr>umem := ?m, freep := q\<rparr>) ?fl ((p, n) # H)"
    using D(3-10,13,14) sub keeps_sizes [OF inv keep] n by (intro heap_invI [OF ring]) auto
  then show ?thesis using run keep by blast
qed

text \<open>The two parts of a block that is cut.\<close>

lemma cut_block:
  assumes "n < k" "n \<noteq> 0" "bend (p, k) \<le> space"
  shows "k - n \<noteq> 0" "unat (p + units (k - n)) = bend (p, k - n)" "bend (p + units (k - n), n) = bend (p, k)"
    "unat p + 16 \<le> bend (p, k - n)" "bend (p, k - n) \<le> bend (p, k)"
proof -
  have u: "unat (k - n) = unat k - unat n" using assms(1) by (simp add: unat_sub less_imp_le)
  have lt: "unat n < unat k" "0 < unat n" using assms by (simp_all add: word_less_nat_alt unat_gt_0)
  then show nz: "k - n \<noteq> 0" using u by auto
  have b: "bend (p, k) = unat p + 16 * unat k" "bend (p, k - n) = unat p + 16 * (unat k - unat n)"
    using bend_nonempty [of "(p, k)"] bend_nonempty [of "(p, k - n)"] nz lt u by (cases "k = 0"; simp)+
  show e: "unat (p + units (k - n)) = bend (p, k - n)" using bend_units [of "(p, k - n)"] nz b assms(3) by simp
  show "bend (p + units (k - n), n) = bend (p, k)"
    using bend_nonempty [of "(p + units (k - n), n)"] assms(2) e b lt by simp
  show "unat p + 16 \<le> bend (p, k - n)" "bend (p, k - n) \<le> bend (p, k)" using b lt by auto
qed

lemma carve_split:
  assumes inv: "heap_inv base lo s fl H" and fl: "fl = xs @ (p, k) # ys" and n: "n \<noteq> 0" "n < k"
    and q: "q \<in> fst ` set fl"
  shows "\<exists>bp m. carve n q p s = (bp + 16, s\<lparr>umem := m, freep := q\<rparr>) \<and> keeps H (umem s) m \<and>
    heap_inv base lo (s\<lparr>umem := m, freep := q\<rparr>) (xs @ (p, k - n) # ys) ((bp, n) # H)"
proof -
  note D = heap_invD [OF inv]
  let ?bp = "p + units (k - n)" and ?fl = "xs @ (p, k - n) # ys" and ?m1 = "set_size p (k - n) (umem s)"
  let ?m = "set_size ?bp n ?m1" and ?B = "(?bp, n)" and ?P = "(p, k)"
  have sp: "\<forall>b \<in> set fl. bend b \<le> space" "bend ?P \<le> space" using heap_space [OF inv] by (auto simp: fl)
  note cut = cut_block [OF n(2,1) sp(2)]
  have nx: "hsize (umem s) p = k" "hptr (umem s) p = first_addr ys base" using ring_next [OF D(1) fl] by simp_all
  have run: "carve n q p s = (?bp + 16, s\<lparr>umem := ?m, freep := q\<rparr>)" using nx n(2) by (auto simp: carve_def Let_def)
  have srt: "sorted_wrt before fl" using D(1) by (simp add: ring_def)
  have oP: "outside b ?P" if "b \<in> set (xs @ ys) \<union> set H" for b
    using that srt D(13) by (auto simp: fl sorted_wrt_append outside_def)
  have ap: "apart p (fst b)" "apart ?bp (fst b)" if "b \<in> set (xs @ ys)" for b
  proof -
    have o: "outside b ?P" "bend b \<le> space" using that oP [of b] sp(1) by (auto simp: fl)
    then show "apart p (fst b)" using outside_apart [of ?P b] sp(2) by (simp add: outside_sym)
    have "outside b ?B" using outside_sub [OF o(1), of ?B] cut by simp
    then show "apart ?bp (fst b)" using outside_apart [of ?B b] sp(2) cut o(2) by (simp add: outside_sym)
  qed
  have apB: "apart ?bp p"
    using cut sp(2) bend_ge [of ?B] by (intro apartI) (auto simp: space_def)
  have keep: "keeps H (umem s) ?m"
    using keeps_trans [OF keeps_header(2) [of H ?P p] keeps_header(2) [of H ?P ?bp]] oP sp(2) cut bend_ge [of ?P] bend_ge [of ?B]
    by simp
  have "cells ?m ?fl base"
    using D(1) nx apB by (simp add: ring_def fl cells_append cells_set_size ap apart_simps)
  moreover have "xs \<noteq> []" using D(1) n fl by (auto simp: ring_def)
  then have "hd ?fl = (base, 0)" "\<forall>b \<in> set (tl ?fl). snd b \<noteq> 0" using D(1) cut(1) by (auto simp: ring_def fl)
  moreover have "sorted_wrt before ?fl" using srt cut(5) by (auto simp: fl sorted_wrt_append before_def)
  ultimately have ring: "ring ?m base ?fl" by (simp add: ring_def)
  have oB: "\<forall>b \<in> set ?fl \<union> set H. outside ?B b"
  proof
    fix b assume "b \<in> set ?fl \<union> set H"
    then consider "b = (p, k - n)" | "b \<in> set (xs @ ys) \<union> set H" by auto
    then show "outside ?B b"
    proof cases
      case 1
      then show ?thesis using cut(2) by (simp add: outside_def before_def)
    next
      case 2
      then show ?thesis using outside_sub [OF oP [OF 2], of ?B] cut by (simp add: outside_sym)
    qed
  qed
  have tl: "set (tl ?fl) = insert (p, k - n) (set (tl xs @ ys))" "set (tl fl) = insert ?P (set (tl xs @ ys))"
    using \<open>xs \<noteq> []\<close> by (simp_all add: fl)
  have oH: "\<forall>h \<in> set H. \<forall>b \<in> set ?fl. outside h b"
    using D(13) outside_sub [OF oP, of _ "(p, k - n)"] cut(5) by (auto simp: fl)
  have "heap_inv base lo (s\<lparr>umem := ?m, freep := q\<rparr>) ?fl (?B # H)"
  proof (rule heap_invI [OF ring])
    show "q \<in> fst ` set ?fl" using q by (auto simp: fl)
    show "\<forall>b \<in> set (tl ?fl). lo \<le> unat (fst b)" "\<forall>b \<in> set (tl ?fl). bend b \<le> unat (ubrk s)"
      using D(7,8) cut(5) by (auto simp: tl)
    show "\<forall>h \<in> set (?B # H). lo \<le> unat (fst h)" "\<forall>h \<in> set (?B # H). bend h \<le> unat (ubrk s)"
      using D(7-10) cut(2-4) by (auto simp: tl)
    show "\<forall>h \<in> set (?B # H). hsize ?m (fst h) = snd h \<and> snd h \<noteq> 0" using keeps_sizes [OF inv keep] n(1) by simp
    show "\<forall>h \<in> set (?B # H). \<forall>b \<in> set ?fl. outside h b" using oH oB by auto
    show "sorted_wrt outside (?B # H)" using D(14) oB by auto
  qed (use D(3-6) in auto)
  then show ?thesis using run keep by blast
qed

lemma carve_ok:
  assumes inv: "heap_inv base lo s fl H" and n: "n \<noteq> 0" "n \<le> hsize (umem s) p"
    and q: "q \<in> fst ` set fl" "hptr (umem s) q = p"
  shows "\<exists>bp s' fl'. carve n q p s = (bp + 16, s') \<and> keeps H (umem s) (umem s') \<and> ubrk s' = ubrk s \<and>
    heap_inv base lo s' fl' ((bp, n) # H)"
proof -
  note D = heap_invD [OF inv]
  obtain xs k ys where fl: "fl = xs @ (q, k) # ys" using ring_split [OF D(1) q(1)] by blast
  have "hsize (umem s) base = 0" using D(1) by (cases fl) (auto simp: ring_def)
  then have "p \<noteq> base" using n by auto
  then obtain j ys' where ys: "ys = (p, j) # ys'"
    using ring_next(1) [OF D(1) fl] q(2) by (cases ys) auto
  have j: "hsize (umem s) p = j" using ring_next(2) [OF D(1), of "xs @ [(q, k)]" "(p, j)" ys'] fl ys by simp
  show ?thesis
  proof (cases "n = j")
    case True
    then show ?thesis using carve_exact [OF inv, of xs q k p n ys'] fl ys n(1) by fastforce
  next
    case False
    then have "n < j" using n(2) j by simp
    then show ?thesis using carve_split [OF inv, of "xs @ [(q, k)]" p j ys' n q] fl ys n(1) q(1) by fastforce
  qed
qed

section \<open>Looking for a block\<close>

lemma malloc_take: "n \<le> hsize (umem s) p \<Longrightarrow> malloc_loop grow n q p s = Some (carve n q p s)"
  by (subst malloc_loop.simps) simp

lemma malloc_more:
  "\<not> n \<le> hsize (umem s) p \<Longrightarrow> p = freep s \<Longrightarrow>
   malloc_loop grow n q p s =
     (case morecore grow n s of
        None \<Rightarrow> None
      | Some (p, s) \<Rightarrow> if p = 0 then Some (0, s) else malloc_loop grow n p (hptr (umem s) p) s)"
  by (subst malloc_loop.simps) simp

lemma malloc_next:
  "\<not> n \<le> hsize (umem s) p \<Longrightarrow> p \<noteq> freep s \<Longrightarrow> malloc_loop grow n q p s = malloc_loop grow n p (hptr (umem s) p) s"
  by (subst malloc_loop.simps) simp

text \<open>The search ends with a block that is large enough, or back at \<open>freep\<close> with none.\<close>

lemma malloc_search:
  assumes r: "ring (umem s) base fl" and walk: "(hptr (umem s) ^^ k) p = freep s"
    and q: "q \<in> fst ` set fl" "hptr (umem s) q = p"
  shows "(\<exists>q' p'. q' \<in> fst ` set fl \<and> hptr (umem s) q' = p' \<and> n \<le> hsize (umem s) p' \<and>
      malloc_loop grow n q p s = Some (carve n q' p' s)) \<or>
    (hsize (umem s) (freep s) < n \<and> hsize (umem s) p < n \<and>
      malloc_loop grow n q p s =
        (case morecore grow n s of
           None \<Rightarrow> None
         | Some (p, s) \<Rightarrow> if p = 0 then Some (0, s) else malloc_loop grow n p (hptr (umem s) p) s))"
  using walk q
proof (induction k arbitrary: q p)
  case 0
  then have p: "p = freep s" by simp
  show ?case
  proof (cases "n \<le> hsize (umem s) p")
    case True
    then show ?thesis using 0 malloc_take by blast
  next
    case False
    then show ?thesis using p malloc_more [OF False p] by (simp add: not_le)
  qed
next
  case (Suc k)
  have p: "p \<in> fst ` set fl" using ring_closed [OF r Suc.prems(2)] Suc.prems(3) by simp
  consider "n \<le> hsize (umem s) p" | "\<not> n \<le> hsize (umem s) p" "p = freep s" | "\<not> n \<le> hsize (umem s) p" "p \<noteq> freep s" by blast
  then show ?case
  proof cases
    case 1
    then show ?thesis using Suc.prems malloc_take by blast
  next
    case 2
    then show ?thesis using malloc_more [OF 2] by (simp add: not_le)
  next
    case 3
    have "(hptr (umem s) ^^ k) (hptr (umem s) p) = freep s" using Suc.prems(1) by (simp add: funpow_swap1)
    from Suc.IH [OF this p refl] show ?thesis unfolding malloc_next [OF 3] using 3 by (simp add: not_le) blast
  qed
qed

section \<open>Growing the heap\<close>

text \<open>\<open>sbrk\<close> grants a request only as long as the memory of the process stays within the address space of
  the allocator, whose blocks count fewer than \<open>2 ^ 32\<close> units.\<close>

definition grants :: "(u64 \<Rightarrow> u32 \<Rightarrow> bool) \<Rightarrow> bool" where
  "grants grow \<longleftrightarrow> (\<forall>b n. grow b n \<longrightarrow> unat b + unat n \<le> space)"

lemma unat_of_nat_self: "of_nat (unat w) = (w :: 'a::len word)"
  by simp

lemma request_size:
  assumes "16 * unat nu < 2 ^ 31"
  shows "unat (ucast (units nu) :: u32) = 16 * unat nu" "scast (ucast (units nu) :: u32) = units nu"
proof -
  let ?k = "16 * unat nu" and ?v = "ucast (units nu) :: u32"
  have w: "unat (units nu) = ?k" using unat_units [of 0 nu] assms by (simp add: space_def)
  show v: "unat ?v = ?k" using assms by (simp add: unsigned_ucast_eq w take_bit_nat_eq_self)
  have "?v = of_nat (unat ?v)" by (rule unat_of_nat_self [symmetric])
  then have "sint ?v = int ?k" using sint_of_nat_u32 [OF assms] v by metis
  then have "scast ?v = (of_nat ?k :: u64)" by (metis of_int_of_nat_eq scast_eq)
  also have "\<dots> = units nu" unfolding w [symmetric] by (rule unat_of_nat_self)
  finally show "scast ?v = units nu" .
qed

lemma new_block:
  assumes inv: "heap_inv base lo s fl H" and nu: "nu \<noteq> 0" and brk: "unat b' = unat (ubrk s) + 16 * unat nu" "unat b' \<le> space"
  shows "heap_inv base lo (s\<lparr>ubrk := b', umem := set_size (ubrk s) nu (umem s)\<rparr>) fl ((ubrk s, nu) # H) \<and>
    keeps H (umem s) (set_size (ubrk s) nu (umem s))"
proof -
  note D = heap_invD [OF inv]
  let ?B = "(ubrk s, nu)" and ?m = "set_size (ubrk s) nu (umem s)" and ?s = "s\<lparr>ubrk := b'\<rparr>"
  have bB: "bend ?B = unat b'" using bend_nonempty [of ?B] nu brk(1) by simp
  have o: "\<forall>b \<in> set fl \<union> set H. outside b ?B" using heap_bend(1) [OF inv] by (auto simp: outside_def before_def)
  have ap: "apart (ubrk s) (fst b)" if "b \<in> set fl" for b
    using outside_apart [of ?B b] o heap_space [OF inv] bB brk(2) that by (auto simp: outside_sym)
  have keep: "keeps H (umem s) ?m"
    using keeps_header(2) [of H ?B "ubrk s"] o bB brk(2) bend_ge [of ?B] by simp
  have ring: "ring ?m base fl" using D(1) ap by (simp add: ring_def cells_set_size)
  have "heap_inv base lo (?s\<lparr>umem := ?m, freep := freep s\<rparr>) fl (?B # H)"
  proof (rule heap_invI [OF ring])
    show "\<forall>b \<in> set (tl fl). bend b \<le> unat (ubrk ?s)" using D(8) brk(1) by auto
    show "\<forall>h \<in> set (?B # H). lo \<le> unat (fst h)" using D(5,9) by simp
    show "\<forall>h \<in> set (?B # H). bend h \<le> unat (ubrk ?s)" using D(10) bB brk(1) by auto
    show "\<forall>h \<in> set (?B # H). hsize ?m (fst h) = snd h \<and> snd h \<noteq> 0" using keeps_sizes [OF inv keep] nu by simp
    show "\<forall>h \<in> set (?B # H). \<forall>b \<in> set fl. outside h b" using o D(13) by (auto simp: outside_sym)
    show "sorted_wrt outside (?B # H)" using o D(14) by (auto simp: outside_sym)
  qed (use D(2-7) brk in auto)
  then show ?thesis using keep by simp
qed

lemma morecore_ok:
  assumes inv: "heap_inv base lo s fl H" and g: "grants grow" and nu: "16 * unat nu < 2 ^ 31"
  shows "morecore grow nu s = Some (0, s) \<or>
    (\<exists>s' fl'. morecore grow nu s = Some (freep s', s') \<and> heap_inv base lo s' fl' H \<and> keeps H (umem s) (umem s') \<and>
      unat (ubrk s) \<le> unat (ubrk s') \<and>
      (nu \<le> hsize (umem s') (freep s') \<or> nu \<le> hsize (umem s') (hptr (umem s') (freep s'))))"
proof -
  note D = heap_invD [OF inv]
  let ?n = "if nu < 4096 then 4096 else nu"
  let ?b = "ubrk s + units ?n"
  have n: "16 * unat ?n < 2 ^ 31" "?n \<noteq> 0" "nu \<le> ?n" using nu by auto
  note rq = request_size [OF n(1)]
  show ?thesis
  proof (cases "grow (ubrk s) (ucast (units ?n))")
    case False
    then have "morecore grow nu s = Some (0, s)" by (simp add: morecore_def sbrk_def Let_def)
    then show ?thesis ..
  next
    case True
    then have le: "unat (ubrk s) + 16 * unat ?n \<le> space" using g rq(1) unfolding grants_def by metis
    have b: "unat ?b = unat (ubrk s) + 16 * unat ?n" "unat ?b \<le> space" using unat_units [OF le] le by simp_all
    let ?m = "set_size (ubrk s) ?n (umem s)" and ?s = "s\<lparr>ubrk := ubrk s + units ?n, umem := set_size (ubrk s) ?n (umem s)\<rparr>"
    have inv2: "heap_inv base lo ?s fl ([] @ (ubrk s, ?n) # H)" and keep: "keeps H (umem s) ?m"
      using new_block [OF inv n(2) b] by simp_all
    obtain s' fl' where s': "free (ubrk s + 16) ?s = Some s'" "heap_inv base lo s' fl' H" "ubrk s' = ?b"
      "keeps H ?m (umem s')" "?n \<le> hsize (umem s') (freep s') \<or> ?n \<le> hsize (umem s') (hptr (umem s') (freep s'))"
      using release_ok [OF inv2] by auto
    have "ubrk s \<noteq> -1" using D(6) by (auto simp: space_def unsigned_minus_1_eq_mask mask_eq_exp_minus_1)
    then have "morecore grow nu s = Some (freep s', s')"
      using True s'(1) by (simp add: morecore_def sbrk_def Let_def rq(2))
    moreover have "nu \<le> hsize (umem s') (freep s') \<or> nu \<le> hsize (umem s') (hptr (umem s') (freep s'))"
      using s'(5) n(3) order_trans by blast
    ultimately show ?thesis using s' keeps_trans [OF keep s'(4)] b by auto
  qed
qed

section \<open>malloc\<close>

text \<open>What a call of \<open>malloc\<close> for \<open>n\<close> units that ends in \<open>r\<close> and \<open>s'\<close> has done.\<close>

definition served :: "u64 \<Rightarrow> nat \<Rightarrow> block list \<Rightarrow> ualloc \<Rightarrow> u32 \<Rightarrow> u64 \<Rightarrow> ualloc \<Rightarrow> bool" where
  "served base lo H s n r s' \<longleftrightarrow> keeps H (umem s) (umem s') \<and>
     ((r = 0 \<and> (\<exists>fl. heap_inv base lo s' fl H)) \<or> (\<exists>bp fl. r = bp + 16 \<and> r \<noteq> 0 \<and> heap_inv base lo s' fl ((bp, n) # H)))"

lemma freep_nonzero: "heap_inv base lo s fl H \<Longrightarrow> freep s \<noteq> 0"
proof -
  assume inv: "heap_inv base lo s fl H"
  note D = heap_invD [OF inv]
  obtain b where "b \<in> set fl" "freep s = fst b" using D(2) by auto
  then have "base \<le> freep s" using ring_base_le [OF D(1)] by simp
  then show ?thesis using D(3) by (auto simp: word_le_nat_alt)
qed

lemma block_nonzero: "heap_inv base lo s fl ((bp, n) # H) \<Longrightarrow> bp + 16 \<noteq> 0"
proof -
  assume inv: "heap_inv base lo s fl ((bp, n) # H)"
  have "unat bp + 16 \<le> space" using heap_space [OF inv] bend_ge [of "(bp, n)"] by auto
  then have "unat (bp + 16) = unat bp + 16" by (simp add: unat_word_ariths space_def)
  then show ?thesis by auto
qed

lemma carve_served:
  assumes "heap_inv base lo s fl H" "n \<noteq> 0" "n \<le> hsize (umem s) p" "q \<in> fst ` set fl" "hptr (umem s) q = p"
    "keeps H m (umem s)"
  shows "\<exists>r s'. carve n q p s = (r, s') \<and> served base lo H (s0\<lparr>umem := m\<rparr>) n r s'"
proof -
  obtain bp s' fl' where c: "carve n q p s = (bp + 16, s')" "keeps H (umem s) (umem s')" "heap_inv base lo s' fl' ((bp, n) # H)"
    using carve_ok [OF assms(1-5)] by blast
  then show ?thesis using keeps_trans [OF assms(6) c(2)] block_nonzero [OF c(3)] unfolding served_def by auto
qed

lemma keeps_refl [simp]: "keeps H m m"
  by (simp add: keeps_def)

lemma malloc_loop_ok:
  assumes inv: "heap_inv base lo s fl H" and g: "grants grow" and n: "n \<noteq> 0" "16 * unat n < 2 ^ 31"
  shows "\<exists>r s'. malloc_loop grow n (freep s) (hptr (umem s) (freep s)) s = Some (r, s') \<and> served base lo H s n r s'"
proof -
  note D = heap_invD [OF inv]
  have s: "s\<lparr>umem := umem s\<rparr> = s" by simp
  obtain k where k: "(hptr (umem s) ^^ k) (hptr (umem s) (freep s)) = freep s"
    using ring_walk [OF D(1) ring_closed [OF D(1,2)] D(2)] by blast
  from malloc_search [OF D(1) k D(2) refl, of n grow] show ?thesis
  proof
    assume "\<exists>q' p'. q' \<in> fst ` set fl \<and> hptr (umem s) q' = p' \<and> n \<le> hsize (umem s) p' \<and>
      malloc_loop grow n (freep s) (hptr (umem s) (freep s)) s = Some (carve n q' p' s)"
    then obtain q p where c: "q \<in> fst ` set fl" "hptr (umem s) q = p" "n \<le> hsize (umem s) p"
      "malloc_loop grow n (freep s) (hptr (umem s) (freep s)) s = Some (carve n q p s)" by blast
    from carve_served [OF inv n(1) c(3,1,2) keeps_refl, of s] show ?thesis unfolding c(4) s by auto
  next
    let ?rest = "case morecore grow n s of None \<Rightarrow> None
      | Some (p, s) \<Rightarrow> if p = 0 then Some (0, s) else malloc_loop grow n p (hptr (umem s) p) s"
    assume "hsize (umem s) (freep s) < n \<and> hsize (umem s) (hptr (umem s) (freep s)) < n \<and>
      malloc_loop grow n (freep s) (hptr (umem s) (freep s)) s = ?rest"
    then have run: "malloc_loop grow n (freep s) (hptr (umem s) (freep s)) s = ?rest" by blast
    from morecore_ok [OF inv g n(2)] show ?thesis
    proof
      assume "morecore grow n s = Some (0, s)"
      then show ?thesis unfolding run using inv by (auto simp: served_def)
    next
      assume "\<exists>s' fl'. morecore grow n s = Some (freep s', s') \<and> heap_inv base lo s' fl' H \<and> keeps H (umem s) (umem s') \<and>
        unat (ubrk s) \<le> unat (ubrk s') \<and>
        (n \<le> hsize (umem s') (freep s') \<or> n \<le> hsize (umem s') (hptr (umem s') (freep s')))"
      then obtain t fl' where t: "morecore grow n s = Some (freep t, t)" and inv': "heap_inv base lo t fl' H"
        and keep: "keeps H (umem s) (umem t)"
        and fit: "n \<le> hsize (umem t) (freep t) \<or> n \<le> hsize (umem t) (hptr (umem t) (freep t))" by blast
      note T = heap_invD [OF inv']
      let ?p = "hptr (umem t) (freep t)"
      have run': "malloc_loop grow n (freep s) (hptr (umem s) (freep s)) s = malloc_loop grow n (freep t) ?p t"
        unfolding run t using freep_nonzero [OF inv'] by simp
      obtain k where k: "(hptr (umem t) ^^ k) ?p = freep t"
        using ring_walk [OF T(1) ring_closed [OF T(1,2)] T(2)] by blast
      have "\<exists>q p. q \<in> fst ` set fl' \<and> hptr (umem t) q = p \<and> n \<le> hsize (umem t) p \<and>
        malloc_loop grow n (freep t) ?p t = Some (carve n q p t)"
        using malloc_search [OF T(1) k T(2) refl, of n grow] fit by (auto simp: not_le [symmetric])
      then obtain q p where c: "q \<in> fst ` set fl'" "hptr (umem t) q = p" "n \<le> hsize (umem t) p"
        "malloc_loop grow n (freep t) ?p t = Some (carve n q p t)" by blast
      from carve_served [OF inv' n(1) c(3,1,2) keep, of s] show ?thesis unfolding run' c(4) s by auto
    qed
  qed
qed

lemma nunits:
  assumes "unat nb + 31 < 2 ^ 31"
  shows "unat (nunits_of nb) = (unat nb + 15) div 16 + 1" "nunits_of nb \<noteq> 0" "16 * unat (nunits_of nb) < 2 ^ 31"
    "unat nb \<le> 16 * (unat (nunits_of nb) - 1)"
proof -
  have c: "unat (ucast nb :: u64) = unat nb" using unat_u32_bound [of nb] by (simp add: unsigned_ucast_eq take_bit_nat_eq_self)
  then have "unat (ucast nb + 16 - 1 :: u64) = unat nb + 15"
    using unat_u32_bound [of nb] by (simp add: unat_word_ariths)
  then have "unat ((ucast nb + 16 - 1 :: u64) div 16) = (unat nb + 15) div 16" by (simp add: unat_div)
  then have "unat ((ucast nb + 16 - 1 :: u64) div 16 + 1) = (unat nb + 15) div 16 + 1"
    using assms by (subst unat_word_ariths) simp
  then show u: "unat (nunits_of nb) = (unat nb + 15) div 16 + 1"
    using assms by (simp add: nunits_of_def unsigned_ucast_eq take_bit_nat_eq_self)
  then show "nunits_of nb \<noteq> 0" by auto
  show "16 * unat (nunits_of nb) < 2 ^ 31" "unat nb \<le> 16 * (unat (nunits_of nb) - 1)" using u assms by auto
qed

lemma malloc_ok:
  assumes "heap_inv base lo s fl H" "grants grow" "unat nb + 31 < 2 ^ 31"
  shows "\<exists>r s'. malloc grow base nb s = Some (r, s') \<and> served base lo H s (nunits_of nb) r s'"
  using malloc_loop_ok [OF assms(1,2) nunits(2,3) [OF assms(3)]] freep_nonzero [OF assms(1)] by (simp add: malloc_def Let_def)

lemma first_heap:
  assumes "0 < unat base" "unat base + 16 \<le> unat (ubrk s)" "unat (ubrk s) \<le> space"
  shows "heap_inv base (unat (ubrk s)) (s\<lparr>umem := set_size base 0 (set_ptr base base (umem s)), freep := base\<rparr>) [(base, 0)] []"
  using assms by (intro heap_invI) (simp_all add: ring_def)

lemma malloc_first:
  assumes "freep s = 0" "0 < unat base" "unat base + 16 \<le> unat (ubrk s)" "unat (ubrk s) \<le> space"
    "grants grow" "unat nb + 31 < 2 ^ 31"
  shows "\<exists>r s'. malloc grow base nb s = Some (r, s') \<and> served base (unat (ubrk s)) [] s (nunits_of nb) r s'"
  using malloc_loop_ok [OF first_heap [OF assms(2-4)] assms(5) nunits(2,3) [OF assms(6)]] assms(1)
  by (simp add: malloc_def served_def keeps_def)

section \<open>Programs that use the allocator\<close>

text \<open>
  A program allocates, frees one of the blocks it holds, and writes bytes into them.  For every block it
  holds, the pointer, the number of bytes it has asked for, and what it has written are recorded.
\<close>

datatype ureq = Malloc u32 | Free nat | Write nat nat u8

type_synonym claim = "u64 \<times> u32 \<times> (nat \<rightharpoonup> u8)"

fun ustep :: "(u64 \<Rightarrow> u32 \<Rightarrow> bool) \<Rightarrow> u64 \<Rightarrow> ureq \<Rightarrow> claim list \<times> ualloc \<Rightarrow> (claim list \<times> ualloc) option" where
  "ustep grow base (Malloc nb) (cs, s) =
     (case malloc grow base nb s of
        None \<Rightarrow> None
      | Some (p, s) \<Rightarrow> Some (if p = 0 then cs else (p, nb, Map.empty) # cs, s))"
| "ustep grow base (Free i) (cs, s) =
     (if i < length cs then
        case free (fst (cs ! i)) s of
          None \<Rightarrow> None
        | Some s \<Rightarrow> Some (take i cs @ drop (Suc i) cs, s)
      else Some (cs, s))"
| "ustep grow base (Write i k v) (cs, s) =
     (if i < length cs \<and> k < unat (fst (snd (cs ! i))) then
        Some (cs[i := (fst (cs ! i), fst (snd (cs ! i)), (snd (snd (cs ! i)))(k \<mapsto> v))],
              s\<lparr>umem := (umem s)(fst (cs ! i) + of_nat k := v)\<rparr>)
      else Some (cs, s))"

primrec urun :: "(u64 \<Rightarrow> u32 \<Rightarrow> bool) \<Rightarrow> u64 \<Rightarrow> ureq list \<Rightarrow> claim list \<times> ualloc \<Rightarrow> (claim list \<times> ualloc) option" where
  "urun grow base [] c = Some c"
| "urun grow base (r # rs) c = (case ustep grow base r c of None \<Rightarrow> None | Some c \<Rightarrow> urun grow base rs c)"

text \<open>A claim and the block behind it.\<close>

definition backed :: "bytemem \<Rightarrow> claim \<Rightarrow> block \<Rightarrow> bool" where
  "backed m c b \<longleftrightarrow> fst c = fst b + 16 \<and> snd b = nunits_of (fst (snd c)) \<and> unat (fst (snd c)) + 31 < 2 ^ 31 \<and>
     (\<forall>k v. snd (snd c) k = Some v \<longrightarrow> k < unat (fst (snd c)) \<and> m (fst c + of_nat k) = v)"

lemma payload:
  assumes "fst c = fst b + 16" "snd b = nunits_of (fst (snd c))" "unat (fst (snd c)) + 31 < 2 ^ 31" "bend b \<le> space"
  shows "unat (fst c) = unat (fst b) + 16" "unat (fst c) + unat (fst (snd c)) \<le> bend b"
    "k < unat (fst (snd c)) \<Longrightarrow> unat (fst c + of_nat k) = unat (fst b) + 16 + k"
proof -
  note u = nunits [OF assms(3)]
  have b: "bend b = unat (fst b) + 16 * unat (snd b)" using bend_nonempty u(2) assms(2) by simp
  have "unat (fst b) + 16 \<le> space" using bend_ge [of b] assms(4) by simp
  then show p: "unat (fst c) = unat (fst b) + 16" by (simp add: assms(1) unat_word_ariths space_def)
  have "1 \<le> unat (snd b)" using u(1) assms(2) by simp
  then show e: "unat (fst c) + unat (fst (snd c)) \<le> bend b" using p b u(4) assms(2) by simp
  show "unat (fst c + of_nat k) = unat (fst b) + 16 + k" if "k < unat (fst (snd c))"
    using that p e assms(4) by (subst unat_word_ariths) (simp add: unat_of_nat_u64 space_def)
qed

lemma backed_keeps:
  assumes "backed m c b" "keeps H m m'" "b \<in> set H" "bend b \<le> space"
  shows "backed m' c b"
proof -
  have c: "fst c = fst b + 16" "snd b = nunits_of (fst (snd c))" "unat (fst (snd c)) + 31 < 2 ^ 31" using assms(1) by (auto simp: backed_def)
  note p = payload [OF c assms(4)]
  have "m' (fst c + of_nat k) = m (fst c + of_nat k)" if "k < unat (fst (snd c))" for k
    using assms(2,3) p(3) [OF that] p(1,2) that by (auto simp: keeps_def)
  then show ?thesis using assms(1) by (auto simp: backed_def)
qed

text \<open>Writing into a block.\<close>

lemma header_cong:
  assumes "\<And>a. in_header p a \<Longrightarrow> m' a = m a"
  shows "hptr m' p = hptr m p" "hsize m' p = hsize m p"
proof -
  have "m' (p + 8 + of_nat i) = m (p + 8 + of_nat i)" if "i < 4" for i
  proof -
    have "in_header p (p + of_nat (8 + i))" using that by (intro header_bytes) simp
    then show ?thesis using assms [of "p + of_nat (8 + i)"] by (simp add: add.assoc)
  qed
  then show "hsize m' p = hsize m p" unfolding hsize_def by (rule load32_cong)
  show "hptr m' p = hptr m p" unfolding hptr_def using assms header_bytes by (intro load64_cong) simp
qed

lemma write_ok:
  assumes inv: "heap_inv base lo s fl H" and b: "b \<in> set H" and a: "unat (fst b) + 16 \<le> unat a" "unat a < bend b"
  shows "heap_inv base lo (s\<lparr>umem := (umem s)(a := v)\<rparr>) fl H"
proof -
  note D = heap_invD [OF inv]
  let ?m = "(umem s)(a := v)"
  have nh: "\<not> in_header (fst c) a" if c: "c \<in> set fl \<union> set H" for c
  proof (cases "c = b")
    case True
    have "bend b \<le> space" using heap_space [OF inv] b by auto
    then have "unat (fst b) + 16 \<le> 2 ^ 63" using bend_ge [of b] by (simp add: space_def)
    then show ?thesis using a True in_header_iff [of "fst b" a] by simp
  next
    case False
    obtain H1 H2 where "H = H1 @ b # H2" using b by (meson split_list)
    then have "outside b c" using D(13,14) b c False by (auto simp: sorted_wrt_append outside_sym)
    then show ?thesis using outside_header [of b c a "fst c"] a heap_space [OF inv] c bend_ge [of c] by auto
  qed
  have h: "hptr ?m (fst c) = hptr (umem s) (fst c)" "hsize ?m (fst c) = hsize (umem s) (fst c)" if "c \<in> set fl \<union> set H" for c
    by (rule header_cong; use nh [OF that] in auto)+
  have "cells ?m fl base = cells (umem s) fl base" using h by (intro cells_cong) auto
  then have "ring ?m base fl" using D(1) by (simp add: ring_def)
  from heap_invI [OF this D(2-10) _ D(13,14)] show ?thesis using D(11,12) h(2) by simp
qed

text \<open>The invariant of the program and the allocator; before the first call \<open>freep\<close> is the null pointer.\<close>

definition client_inv :: "u64 \<Rightarrow> nat \<Rightarrow> claim list \<Rightarrow> ualloc \<Rightarrow> bool" where
  "client_inv base lo cs s \<longleftrightarrow>
     (\<exists>fl H. heap_inv base lo s fl H \<and> list_all2 (backed (umem s)) cs H) \<or>
     (freep s = 0 \<and> cs = [] \<and> lo = unat (ubrk s) \<and> 0 < unat base \<and> unat base + 16 \<le> lo \<and> lo \<le> space)"

lemma backed_all_keeps:
  assumes "list_all2 (backed m) cs H" "keeps H m m'" "\<forall>b \<in> set H. bend b \<le> space"
  shows "list_all2 (backed m') cs H"
  using assms(1) by (rule list.rel_mono_strong) (use backed_keeps [OF _ assms(2)] assms(3) in blast)

lemma served_client:
  assumes sv: "served base lo H s (nunits_of nb) r s'" and cs: "list_all2 (backed (umem s)) cs H"
    and nb: "unat nb + 31 < 2 ^ 31"
  shows "client_inv base lo (if r = 0 then cs else (r, nb, Map.empty) # cs) s'"
proof -
  have keep: "keeps H (umem s) (umem s')" using sv by (simp add: served_def)
  from sv consider (none) fl where "r = 0" "heap_inv base lo s' fl H"
    | (one) bp fl where "r = bp + 16" "r \<noteq> 0" "heap_inv base lo s' fl ((bp, nunits_of nb) # H)"
    unfolding served_def by blast
  then show ?thesis
  proof cases
    case none
    then have "list_all2 (backed (umem s')) cs H" using backed_all_keeps [OF cs keep] heap_space by blast
    then show ?thesis using none by (auto simp: client_inv_def)
  next
    case one
    then have "list_all2 (backed (umem s')) cs H" using backed_all_keeps [OF cs keep] heap_space [OF one(3)] by simp
    moreover have "backed (umem s') (r, nb, Map.empty) (bp, nunits_of nb)" using one nb by (simp add: backed_def)
    ultimately show ?thesis using one by (auto simp: client_inv_def)
  qed
qed

lemma ustep_malloc:
  assumes inv: "client_inv base lo cs s" and g: "grants grow" and nb: "unat nb + 31 < 2 ^ 31"
  shows "\<exists>cs' s'. ustep grow base (Malloc nb) (cs, s) = Some (cs', s') \<and> client_inv base lo cs' s'"
proof -
  from inv consider (used) fl H where "heap_inv base lo s fl H" "list_all2 (backed (umem s)) cs H"
    | (first) "freep s = 0" "cs = []" "lo = unat (ubrk s)" "0 < unat base" "unat base + 16 \<le> lo" "lo \<le> space"
    unfolding client_inv_def by metis
  then obtain H r s' where m: "malloc grow base nb s = Some (r, s')" "served base lo H s (nunits_of nb) r s'"
    and cs: "list_all2 (backed (umem s)) cs H"
  proof cases
    case used
    then show ?thesis using that malloc_ok [OF used(1) g nb] by blast
  next
    case first
    then show ?thesis using that [of _ _ "[]"] malloc_first [OF first(1,4) _ _ g nb] by auto
  qed
  then show ?thesis using served_client [OF m(2) cs nb] by simp
qed

lemma ustep_free:
  assumes inv: "client_inv base lo cs s" "i < length cs"
  shows "\<exists>cs' s'. ustep grow base (Free i) (cs, s) = Some (cs', s') \<and> client_inv base lo cs' s'"
proof -
  obtain fl H where h: "heap_inv base lo s fl H" and cs: "list_all2 (backed (umem s)) cs H"
    using inv by (auto simp: client_inv_def)
  have len: "length cs = length H" using cs by (rule list_all2_lengthD)
  obtain bp n where b: "H ! i = (bp, n)" by (cases "H ! i")
  then have "fst (cs ! i) = bp + 16" using list_all2_nthD [OF cs inv(2)] by (simp add: backed_def)
  moreover have H: "take i H @ (bp, n) # drop (Suc i) H = H" using id_take_nth_drop [of i H] inv(2) len b by simp
  obtain s' fl' where s': "free (bp + 16) s = Some s'" "heap_inv base lo s' fl' (take i H @ drop (Suc i) H)"
    "keeps (take i H @ drop (Suc i) H) (umem s) (umem s')"
    using release_ok [of base lo s fl "take i H" bp n "drop (Suc i) H"] h unfolding H by blast
  have rest: "list_all2 (backed (umem s)) (take i cs @ drop (Suc i) cs) (take i H @ drop (Suc i) H)"
    using cs by (intro list_all2_appendI) auto
  have "list_all2 (backed (umem s')) (take i cs @ drop (Suc i) cs) (take i H @ drop (Suc i) H)"
    using backed_all_keeps [OF rest s'(3)] heap_space [OF s'(2)] by blast
  ultimately show ?thesis using s' inv(2) by (auto simp: client_inv_def)
qed

lemma ustep_write:
  assumes inv: "client_inv base lo cs s" "i < length cs" "k < unat (fst (snd (cs ! i)))"
  shows "\<exists>cs' s'. ustep grow base (Write i k v) (cs, s) = Some (cs', s') \<and> client_inv base lo cs' s'"
proof -
  obtain fl H where h: "heap_inv base lo s fl H" and cs: "list_all2 (backed (umem s)) cs H"
    using inv by (auto simp: client_inv_def)
  have len: "length cs = length H" using cs by (rule list_all2_lengthD)
  let ?c = "cs ! i" and ?b = "H ! i" and ?a = "fst (cs ! i) + of_nat k"
  let ?c' = "(fst ?c, fst (snd ?c), (snd (snd ?c))(k \<mapsto> v))" and ?m = "(umem s)(?a := v)"
  have sp: "\<forall>b \<in> set H. bend b \<le> space" using heap_space [OF h] by auto
  have bk: "backed (umem s) (cs ! j) (H ! j)" if "j < length cs" for j using list_all2_nthD [OF cs that] .
  have bi: "?b \<in> set H" using inv(2) len by simp
  have pj: "unat (fst (cs ! j)) = unat (fst (H ! j)) + 16" "unat (fst (cs ! j)) + unat (fst (snd (cs ! j))) \<le> bend (H ! j)"
    "\<And>l. l < unat (fst (snd (cs ! j))) \<Longrightarrow> unat (fst (cs ! j) + of_nat l) = unat (fst (H ! j)) + 16 + l" if "j < length cs" for j
    using payload [of "cs ! j" "H ! j"] bk [OF that] sp len that by (auto simp: backed_def)
  have a: "unat ?a = unat (fst ?b) + 16 + k" "unat ?a < bend ?b" using pj [OF inv(2)] inv(3) by auto
  have "fst ?c + of_nat l \<noteq> ?a" if "l < unat (fst (snd ?c))" "l \<noteq> k" for l
    using pj(3) [OF inv(2) that(1)] a(1) that(2) by auto
  then have new: "backed ?m ?c' ?b" using bk [OF inv(2)] inv(3) by (auto simp: backed_def)
  have "backed ?m (cs ! j) (H ! j)" if j: "j < length cs" "j \<noteq> i" for j
  proof -
    have "outside ?b (H ! j)"
      using sorted_wrt_nth_less [OF heap_invD(14) [OF h]] j inv(2) len by (metis linorder_neqE_nat outside_sym)
    then have "fst (cs ! j) + of_nat l \<noteq> ?a" if "l < unat (fst (snd (cs ! j)))" for l
      using pj(3) [OF j(1) that] pj(2) [OF j(1)] pj(1) [OF j(1)] a that by (auto simp: outside_def before_def)
    then show ?thesis using bk [OF j(1)] by (auto simp: backed_def)
  qed
  then have "list_all2 (backed ?m) (cs[i := ?c']) H"
    using new len inv(2) by (simp add: list_all2_conv_all_nth nth_list_update)
  moreover have "heap_inv base lo (s\<lparr>umem := ?m\<rparr>) fl H" using write_ok [OF h bi] a by simp
  ultimately show ?thesis using inv(2,3) by (auto simp: client_inv_def)
qed

lemma ustep_inv:
  assumes "client_inv base lo cs s" "grants grow" "\<forall>nb. r = Malloc nb \<longrightarrow> unat nb + 31 < 2 ^ 31"
  shows "\<exists>cs' s'. ustep grow base r (cs, s) = Some (cs', s') \<and> client_inv base lo cs' s'"
proof (cases r)
  case (Malloc nb)
  then show ?thesis using ustep_malloc [OF assms(1,2)] assms(3) by blast
next
  case (Free i)
  then show ?thesis using ustep_free [OF assms(1), of i grow] assms(1) by (cases "i < length cs") auto
next
  case (Write i k v)
  then show ?thesis using ustep_write [OF assms(1), of i k grow v] assms(1)
    by (cases "i < length cs \<and> k < unat (fst (snd (cs ! i)))") auto
qed

lemma urun_inv:
  "\<lbrakk>client_inv base lo cs s; grants grow; \<forall>nb. Malloc nb \<in> set rs \<longrightarrow> unat nb + 31 < 2 ^ 31\<rbrakk> \<Longrightarrow>
   \<exists>cs' s'. urun grow base rs (cs, s) = Some (cs', s') \<and> client_inv base lo cs' s'"
proof (induction rs arbitrary: cs s)
  case (Cons r rs)
  obtain cs' s' where "ustep grow base r (cs, s) = Some (cs', s')" "client_inv base lo cs' s'"
    using ustep_inv [OF Cons.prems(1,2), of r] Cons.prems(3) by auto
  then show ?case using Cons.IH [of cs' s'] Cons.prems(2,3) by simp
qed simp

text \<open>The claims of a program are sound: every block lies in the memory the program has obtained, every
  byte has the value last written to it, and no two blocks overlap.\<close>

definition sound_claims :: "nat \<Rightarrow> claim list \<Rightarrow> ualloc \<Rightarrow> bool" where
  "sound_claims lo cs s \<longleftrightarrow>
     (\<forall>(p, nb, w) \<in> set cs. lo \<le> unat p \<and> unat p + unat nb \<le> unat (ubrk s) \<and>
        (\<forall>k v. w k = Some v \<longrightarrow> umem s (p + of_nat k) = v)) \<and>
     sorted_wrt (\<lambda>(p, nb, w) (p', nb', w'). unat p + unat nb \<le> unat p' \<or> unat p' + unat nb' \<le> unat p) cs"

lemma client_sound:
  assumes "client_inv base lo cs s"
  shows "sound_claims lo cs s"
proof (cases "cs = []")
  case False
  then obtain fl H where h: "heap_inv base lo s fl H" and cs: "list_all2 (backed (umem s)) cs H"
    using assms by (auto simp: client_inv_def)
  note D = heap_invD [OF h]
  have len: "length cs = length H" using cs by (rule list_all2_lengthD)
  have bk: "backed (umem s) (cs ! j) (H ! j)" if "j < length cs" for j using list_all2_nthD [OF cs that] .
  have pj: "unat (fst (cs ! j)) = unat (fst (H ! j)) + 16" "unat (fst (cs ! j)) + unat (fst (snd (cs ! j))) \<le> bend (H ! j)"
    if "j < length cs" for j
    using payload [of "cs ! j" "H ! j"] bk [OF that] heap_space [OF h] len that by (auto simp: backed_def)
  have "lo \<le> unat (fst c) \<and> unat (fst c) + unat (fst (snd c)) \<le> unat (ubrk s) \<and>
      (\<forall>k v. snd (snd c) k = Some v \<longrightarrow> umem s (fst c + of_nat k) = v)" if mem: "c \<in> set cs" for c
  proof -
    obtain j where j: "j < length cs" "c = cs ! j" using mem by (auto simp: in_set_conv_nth)
    have "H ! j \<in> set H" using j len by simp
    then show ?thesis using pj [OF j(1)] bk [OF j(1)] D(9,10) j(2) by (fastforce simp: backed_def)
  qed
  moreover have "unat (fst (cs ! i)) + unat (fst (snd (cs ! i))) \<le> unat (fst (cs ! j)) \<or>
      unat (fst (cs ! j)) + unat (fst (snd (cs ! j))) \<le> unat (fst (cs ! i))" if "i < j" "j < length cs" for i j
  proof -
    have "outside (H ! i) (H ! j)" using sorted_wrt_nth_less [OF D(14) that(1)] that len by simp
    then show ?thesis using pj [of i] pj [of j] that by (auto simp: outside_def before_def)
  qed
  ultimately show ?thesis unfolding sound_claims_def sorted_wrt_iff_nth_less by (auto simp: case_prod_beta)
qed (simp add: sound_claims_def)

text \<open>C11: Whatever a program does with \<open>malloc\<close>, \<open>free\<close> and the blocks it holds, as long as it asks for less
  than 2 GB at a time, every call returns, the blocks it holds lie in the memory it has obtained from
  \<open>sbrk\<close> and have the size it has asked for, no two of them overlap, and every byte keeps the value last
  written to it: neither the allocator's headers nor another block ever share a byte with it.\<close>

theorem umalloc_safe:
  assumes "grants grow" "0 < unat base" "unat base + 16 \<le> unat b" "unat b \<le> space"
    "\<forall>nb. Malloc nb \<in> set rs \<longrightarrow> unat nb + 31 < 2 ^ 31"
  shows "\<exists>cs s. urun grow base rs ([], \<lparr>umem = m, freep = 0, ubrk = b\<rparr>) = Some (cs, s) \<and> sound_claims (unat b) cs s"
proof -
  have "client_inv base (unat b) [] \<lparr>umem = m, freep = 0, ubrk = b\<rparr>" using assms(2-4) by (simp add: client_inv_def)
  from urun_inv [OF this assms(1,5)] client_sound show ?thesis by blast
qed

definition one_gigabyte :: "u64 \<Rightarrow> u32 \<Rightarrow> bool" where
  "one_gigabyte b n \<longleftrightarrow> unat b + unat n \<le> 2 ^ 30"

theorem umalloc_safe_witness:
  "\<exists>cs s. urun one_gigabyte 0x1000 [Malloc 100, Malloc 50, Write 0 3 7, Free 1, Malloc 5000]
      ([], \<lparr>umem = (\<lambda>_. 0), freep = 0, ubrk = 0x3000\<rparr>) = Some (cs, s) \<and> sound_claims 0x3000 cs s"
  using umalloc_safe [of one_gigabyte "0x1000" "0x3000" "[Malloc 100, Malloc 50, Write 0 3 7, Free 1, Malloc 5000]" "\<lambda>_. 0"]
  by (simp add: grants_def one_gigabyte_def space_def)

text \<open>The bound on the requests is needed: the size \<open>morecore\<close> passes to \<open>sbrk\<close>, a signed 32-bit number, is
  negative for a request of 2 GB, although \<open>malloc\<close> takes any unsigned number.\<close>

lemma huge_request_negative: "sint (ucast (units (nunits_of 0x80000000)) :: u32) < 0"
  by code_simp

end
