(* ===== verification/Spec2Isabelle.thy ===== *)
theory Spec2Isabelle
  imports Spinlock Filerefs Trap Grep Wc Shrun Uheap
begin

text \<open>
  A verification of the RISC-V teaching operating system in
  \<open>src/operating_system_engineering/labs\<close>: its kernel and the larger ones of its user programs.  File
  names below are relative to that directory.

  \<^bold>\<open>The program.\<close>  The kernel gives processes virtual memory (\<open>kalloc.c\<close>, \<open>vm.c\<close>), schedules them and lets
  them wait for each other (\<open>proc.c\<close>, \<open>spinlock.c\<close>, \<open>sleeplock.c\<close>), and gives them files: a file system
  (\<open>fs.c\<close>) on top of a write-ahead log (\<open>log.c\<close>), a buffer cache (\<open>bio.c\<close>) and a disk driver
  (\<open>virtio_disk.c\<close>), pipes (\<open>pipe.c\<close>) and a console (\<open>console.c\<close>, \<open>uart.c\<close>, \<open>printf.c\<close>), all behind the
  file table (\<open>file.c\<close>).  Traps (\<open>trap.c\<close>) lead to system calls (\<open>syscall.c\<close>, \<open>sysproc.c\<close>, \<open>sysfile.c\<close>,
  \<open>exec.c\<close>).  User programs are linked with a small library (\<open>user/ulib.c\<close>, \<open>user/umalloc.c\<close>); the shell
  (\<open>user/sh.c\<close>) parses command lines and runs them with the system calls.

  \<^bold>\<open>How the code is modelled.\<close>  C integers are words of their width, so that arithmetic wraps as it does in
  the code.  The kernel's state is one extensible record that every component extends by its own fields:
  locks, sleep-locks and the process table (theory Kstate), byte memory and the free list (Kalloc), pipes
  (Pipe), the disk driver and its buffers (Virtio), the buffer cache and the log (Bio, Log), inodes (Inode),
  the UART and the console (Uart), the file table and the clock (File), the hart's registers (Trap).
  An operation takes the state and returns a result (theory Prelude): a value with the new state, a panic
  with its message, undefined behaviour (a null pointer or an index out of range), or that the process
  goes to sleep.  An operation runs on one hart from its call to its return or to the point where it
  sleeps; a call that sleeps continues with a function of its own (\<open>..._resume\<close>).  Free pages, page tables,
  trapframes and user memory are byte memory, in which the code's pointers are addresses; the structures
  of the file system and the drivers are records, in which they are indices.  Code that is not in the
  repository is a parameter: the disk (\<open>virtio_blk_device\<close> is what the driver relies on), the registers of
  the UART and the interrupt controller, addresses the linker assigns.

  \<^bold>\<open>The theories.\<close>  The base: Prelude (results, words), Params (\<open>param.h\<close>, \<open>memlayout.h\<close>, \<open>riscv.h\<close>, \<open>fs.h\<close>,
  \<open>fcntl.h\<close>), Cstring (\<open>string.c\<close>), Memory, Codec.

  \<^item> Spinlock: \<open>spinlock.c\<close> on any number of harts, one access to shared memory per step.  Mutual exclusion,
    interrupts off while a lock is held, and panics only on misuse.
  \<^item> Kstate: \<open>acquire\<close>, \<open>release\<close>, \<open>sleep\<close>, \<open>wakeup\<close>, \<open>kill\<close> of \<open>proc.c\<close>, and \<open>sleeplock.c\<close>, for one hart.
  \<^item> Kalloc: \<open>kalloc.c\<close>; the free list is a stack of distinct pages, and clients never get a page twice.
  \<^item> Vm, Pagetable, Usercopy, Kcopy, Vmframe: \<open>vm.c\<close>; page tables implement maps from virtual addresses to
    entries, \<open>mappages\<close> and \<open>walkaddr\<close> update and read such a map, and \<open>copyin\<close> and \<open>copyout\<close> move the
    user's bytes and fail exactly on unmapped ranges.
  \<^item> Pipe: \<open>pipe.c\<close>; the ring with wrapping counters is a queue, reads and writes take from it and
    append to it, and no wakeup is lost.
  \<^item> Virtio, Bio, Log: \<open>virtio_disk.c\<close>, \<open>bio.c\<close>, \<open>log.c\<close>; a request to the disk transfers its block, the cache
    is transparent, and a commit is atomic with respect to a crash at any write.  A write of one block
    is taken to be atomic.
  \<^item> Inode, Dir, Frame, Fsframe, Path: \<open>fs.c\<close>; what path elements are, that path lookup ends, and what the
    file system leaves alone.
  \<^item> Ring, Uart, Printf, Console: \<open>uart.c\<close>, \<open>printf.c\<close>, \<open>console.c\<close>; characters are sent in order, numbers read back,
    and the console input is a line discipline.
  \<^item> File, Proc, Sysfile, Exec, Syscall, Trap: \<open>file.c\<close>, the rest of \<open>proc.c\<close>, \<open>sysfile.c\<close>, \<open>exec.c\<close>,
    \<open>sysproc.c\<close>, \<open>syscall.c\<close>, \<open>trap.c\<close>, \<open>plic.c\<close>, \<open>start.c\<close>, \<open>main.c\<close>.
  \<^item> Addrspace, Fork: a new page table maps the trampoline and the trapframe only, \<open>uvmcopy\<close> gives the child
    its own copy of every page, and \<open>fork\<close> duplicates the process.
  \<^item> Kview, Filerefs: across \<open>dup\<close>, \<open>close\<close>, \<open>open\<close>, \<open>pipe\<close>, \<open>fork\<close> and \<open>exit\<close> the reference count of every file
    is the number of descriptors that name it.
  \<^item> Ulib, Grep, Wc: \<open>user/ulib.c\<close>, \<open>user/grep.c\<close>, \<open>user/wc.c\<close>; the matcher decides the language of its
    expression, and \<open>grep\<close> and \<open>wc\<close> do not depend on the pieces in which \<open>read\<close> delivers a file.
  \<^item> Sh, Shgrammar, Shrun: \<open>user/sh.c\<close>; the parser accepts exactly the sentences of a grammar, its words are
    well formed, and the programs of a line are connected as the line says.
  \<^item> Umalloc, Uheap: \<open>user/umalloc.c\<close>; blocks in use never overlap and keep their contents.

  \<^bold>\<open>Interfaces.\<close>  \<open>page_allocator\<close> (Kalloc), \<open>bounded_fifo\<close> (Pipe), \<open>word_ring\<close> (Ring), \<open>fs_frame\<close> (Frame) and
  \<open>mem_frame\<close> (Kview) are locales with the laws that clients rely on, interpreted on the model's operations.

  \<^bold>\<open>Bounds.\<close>  Loops are structural recursion, functions with a termination proof, or partial functions whose
  result \<open>None\<close> is not to return; theorems about the latter state that they return.  The walks over the
  buffer cache's list are bounded by the number of buffers, which its invariant shows to be enough.  The
  shell's parser takes the depth of recursion as an argument, and is shown to need less than
  \<open>parse_depth\<close>.  The user allocator's blocks count less than \<open>2 ^ 32\<close> units, which holds up to 64 GB.

  \<^bold>\<open>Not modelled.\<close>  The assembly files save and restore registers and switch page tables; they are the
  boundary at which handlers begin and end.  Memory ordering between harts is that of the atomic
  operations in Spinlock; the other theories look at one hart between its lock operations.  The small
  user programs are straight-line system calls and messages.  \<open>user/usertests.c\<close>, \<open>user/grind.c\<close> and the
  other tests are programs that run the kernel.  \<open>mkfs/mkfs.c\<close> is a program of the host.  The course
  exercises outside \<open>labs\<close> print representations and addresses of the machine they run on.
\<close>

end
